(* ===== verification/Prelude.thy ===== *)
theory Prelude
  imports Complex_Main "HOL-Library.Word"
begin

text \<open>
  What every component of the model shares: the ways the C++ code can stop abnormally, the
  sequencing of steps that may stop, loops over vectors, and the generic lemmas about them.

  A C++ statement that may stop the process is modelled by a function into \<open>'a result\<close>:
  \<open>Inl e\<close> when it stopped and \<open>Inr s\<close> when it went on in state \<open>s\<close>.  The build files do not
  define \<open>NDEBUG\<close>, so an \<open>assert\<close> that fails stops the process.
\<close>

section \<open>Results\<close>

datatype error =
    AssertFailed string      \<comment> \<open>an \<open>assert(...)\<close> of the source\<close>
  | LogFatal string          \<comment> \<open>a \<open>LOG_FATAL\<close> of the source, where the logger aborts\<close>
  | BadFunctionCall string   \<comment> \<open>an empty \<open>std::function\<close> is called\<close>
  | OutOfBounds string       \<comment> \<open>a vector is indexed outside its size\<close>
  | Dangling string          \<comment> \<open>a null or freed pointer is used\<close>
  | External string          \<comment> \<open>a library the code calls stops the process\<close>

type_synonym 'a result = "error + 'a"

fun bindR :: "'a result \<Rightarrow> ('a \<Rightarrow> 'b result) \<Rightarrow> 'b result" where
  "bindR (Inl e) f = Inl e"
| "bindR (Inr a) f = f a"

definition assertR :: "string \<Rightarrow> bool \<Rightarrow> 's \<Rightarrow> 's result" where
  "assertR what b s = (if b then Inr s else Inl (AssertFailed what))"

text \<open>The range-based \<open>for\<close> of C++: the body runs once per element, in order.\<close>

fun foldR :: "('a \<Rightarrow> 's \<Rightarrow> 's result) \<Rightarrow> 'a list \<Rightarrow> 's \<Rightarrow> 's result" where
  "foldR f [] s = Inr s"
| "foldR f (x # xs) s = bindR (f x s) (foldR f xs)"

named_theorems result_simps
named_theorems kernel_simps

lemma bindR_Inr_iff [result_simps]:
  "bindR x f = Inr b \<longleftrightarrow> (\<exists>a. x = Inr a \<and> f a = Inr b)"
  by (cases x) auto

lemma bindR_Inl_iff:
  "bindR x f = Inl e \<longleftrightarrow> x = Inl e \<or> (\<exists>a. x = Inr a \<and> f a = Inl e)"
  by (cases x) auto

lemma bindR_assoc: "bindR (bindR x f) g = bindR x (\<lambda>a. bindR (f a) g)"
  by (cases x) auto

lemma bindR_right_unit [simp]: "bindR x Inr = x"
  by (cases x) auto

lemma assertR_Inr_iff [result_simps]: "assertR w b s = Inr t \<longleftrightarrow> b \<and> t = s"
  by (auto simp: assertR_def)

lemma assertR_True [simp]: "b \<Longrightarrow> assertR w b s = Inr s"
  by (simp add: assertR_def)

lemma assertR_False [simp]: "\<not> b \<Longrightarrow> assertR w b s = Inl (AssertFailed w)"
  by (simp add: assertR_def)

lemma foldR_Nil [simp]: "foldR f [] = Inr"
  by (rule ext) simp

lemma foldR_append: "foldR f (xs @ ys) s = bindR (foldR f xs s) (foldR f ys)"
proof (induction xs arbitrary: s)
  case Nil
  then show ?case by simp
next
  case (Cons a xs)
  have "foldR f (xs @ ys) = (\<lambda>b. bindR (foldR f xs b) (foldR f ys))"
    using Cons.IH by (rule ext)
  then show ?case by (simp add: bindR_assoc)
qed

lemma foldR_keeps:
  assumes "\<And>x s t. x \<in> set xs \<Longrightarrow> P s \<Longrightarrow> f x s = Inr t \<Longrightarrow> P t"
    and "P s" and "foldR f xs s = Inr t"
  shows "P t"
  using assms
proof (induction xs arbitrary: s)
  case Nil
  then show ?case by simp
next
  case (Cons x xs)
  from Cons.prems(3) obtain u where u: "f x s = Inr u" "foldR f xs u = Inr t"
    by (auto simp: result_simps)
  have "P u" using Cons.prems(1)[of x s u] Cons.prems(2) u(1) by simp
  then show ?case using Cons.IH[of u] Cons.prems(1) u(2) by (metis list.set_intros(2))
qed

text \<open>A loop whose body never stops under an invariant that the body keeps runs to its end.\<close>

lemma foldR_succeeds:
  assumes "\<And>x s. x \<in> set xs \<Longrightarrow> P s \<Longrightarrow> \<exists>t. f x s = Inr t \<and> P t" and "P s"
  shows "\<exists>t. foldR f xs s = Inr t \<and> P t"
  using assms
proof (induction xs arbitrary: s)
  case Nil
  then show ?case by simp
next
  case (Cons x xs)
  from Cons.prems obtain u where "f x s = Inr u" "P u" by (meson list.set_intros(1))
  moreover have "\<exists>t. foldR f xs u = Inr t \<and> P t"
    using Cons.IH[of u] Cons.prems(1) \<open>P u\<close> by simp
  ultimately show ?case by simp
qed

section \<open>C integer division\<close>

text \<open>Division and remainder of C++ truncate towards zero.\<close>

definition cdiv :: "int \<Rightarrow> int \<Rightarrow> int" where
  "cdiv a b = sgn a * sgn b * (\<bar>a\<bar> div \<bar>b\<bar>)"

definition cmod :: "int \<Rightarrow> int \<Rightarrow> int" where
  "cmod a b = a - b * cdiv a b"

lemma cdiv_nonneg: "0 \<le> a \<Longrightarrow> 0 < b \<Longrightarrow> cdiv a b = a div b"
  by (cases "a = 0") (simp_all add: cdiv_def)

lemma cmod_nonneg: "0 \<le> a \<Longrightarrow> 0 < b \<Longrightarrow> cmod a b = a mod b"
  by (simp add: cmod_def cdiv_nonneg minus_mult_div_eq_mod)

end
