(* ===== verification/Callbacks.thy ===== *)
theory Callbacks
  imports Prelude
begin

text \<open>
  The vocabulary of the program: identities of its objects, the closures it passes around as
  \<open>std::function\<close>s, and its boundary to the operating system and to the muduo library.

  Objects are named by numbers in place of addresses.  Every closure the sources build with
  \<open>std::bind\<close> is a constructor of \<open>task\<close>, which holds the arguments the source binds;
  \<open>TUser n\<close> is a functor supplied by the user of the library.

  The operating system and muduo are not part of the repository.  They are the parameter
  \<open>env\<close>: each field answers one kind of call, given the trace of all earlier external calls,
  so an \<open>env\<close> is one possible behaviour of the outside world and a theorem that holds for
  every \<open>env\<close> holds whatever the outside world answers.  What a theorem needs of it is a
  hypothesis of that theorem.
\<close>

section \<open>Identities\<close>

type_synonym loop_id = nat
type_synonym chan_id = nat
type_synonym conn_id = nat
type_synonym timer_ptr = nat
type_synonym thread_id = nat
type_synonym acceptor_id = nat
type_synonym server_id = nat
type_synonym user_fun = nat

text \<open>
  A \<open>muduo::Timestamp\<close> is the number \<open>microSecondsSinceEpoch()\<close> returns, by which muduo
  compares timestamps.  A \<open>double\<close> number of seconds is a rational.
\<close>

type_synonym timestamp = int
type_synonym seconds = rat

datatype inet = Inet nat

section \<open>Closures\<close>

datatype task =
    TUser user_fun
  | TUserConnection user_fun conn_id             \<comment> \<open>a user's \<open>ConnectionCallback\<close>\<close>
  | TUserMessage user_fun conn_id timestamp      \<comment> \<open>a user's \<open>MessageCallback\<close>\<close>
  | TUserAccept user_fun int inet                \<comment> \<open>a user's \<open>Acceptor::ConnCallback\<close>\<close>
  | TUserInit user_fun loop_id                   \<comment> \<open>a user's \<open>ThreadInitCallback\<close>\<close>
  | TWakeupRead loop_id                          \<comment> \<open>\<open>EventLoop::handleRead\<close>\<close>
  | TTimerRead loop_id                           \<comment> \<open>\<open>TimerQueue::handleRead\<close>\<close>
  | TAddTimer loop_id timer_ptr                  \<comment> \<open>\<open>TimerQueue::addTimerInLoop\<close>\<close>
  | TAcceptorRead acceptor_id                    \<comment> \<open>\<open>Acceptor::handleRead\<close>\<close>
  | TListen acceptor_id                          \<comment> \<open>\<open>Acceptor::listen\<close>\<close>
  | TConnRead conn_id timestamp                  \<comment> \<open>\<open>TcpConnection::handleRead\<close>\<close>
  | TConnWrite conn_id                           \<comment> \<open>\<open>TcpConnection::handleWrite\<close>\<close>
  | TConnClose conn_id                           \<comment> \<open>\<open>TcpConnection::handleClose\<close>\<close>
  | TSendInLoop conn_id string                   \<comment> \<open>\<open>TcpConnection::sendInLoop\<close>\<close>
  | TShutdownInLoop conn_id                      \<comment> \<open>\<open>TcpConnection::shutdownInLoop\<close>\<close>
  | TWriteComplete conn_id                       \<comment> \<open>\<open>&TcpConnection::writeCompleteCallback_\<close>\<close>
  | TEstablished conn_id                         \<comment> \<open>\<open>TcpConnection::connectionEstablished\<close>\<close>
  | TDestroyed conn_id                           \<comment> \<open>\<open>TcpConnection::connectionDestryed\<close>\<close>
  | TNewConnection server_id int inet            \<comment> \<open>\<open>TcpServer::onNewConnection\<close>\<close>
  | TRemoveConnection server_id conn_id          \<comment> \<open>\<open>TcpServer::removeConnection\<close>\<close>
  | TRemoveInLoop server_id conn_id              \<comment> \<open>\<open>TcpServer::removeConnectionInLoop\<close>\<close>

section \<open>External calls\<close>

datatype sysev =
    SysNow timestamp
  | SysPoll "(int \<times> 16 word) list" int int
  | SysEventfd int
  | SysTimerfd int
  | SysSettime int int int               \<comment> \<open>descriptor, seconds, nanoseconds\<close>
  | SysWriteI64 int int int              \<comment> \<open>descriptor, value, result\<close>
  | SysReadI64 int int
  | SysWrite int string int              \<comment> \<open>descriptor, bytes offered, result\<close>
  | SysRead int int
  | SysShutdownWr int int
  | SysSocket int
  | SysBind int inet int
  | SysListen int int
  | SysAccept int int
  | SysClose int int
  | SysSetsockopt int int int bool int   \<comment> \<open>descriptor, level, option, value, result\<close>
  | SysAlloc timer_ptr
  | SysThread thread_id                  \<comment> \<open>the id of a thread that starts\<close>

type_synonym trace = "sysev list"

record 'b env =
  now_of :: "trace \<Rightarrow> timestamp"
  poll_of :: "trace \<Rightarrow> (int \<times> 16 word) list \<Rightarrow> int \<Rightarrow> int \<times> 16 word list"
  eventfd_of :: "trace \<Rightarrow> int"
  timerfd_of :: "trace \<Rightarrow> int"
  writei64_of :: "trace \<Rightarrow> int \<Rightarrow> int \<Rightarrow> int"
  readi64_of :: "trace \<Rightarrow> int \<Rightarrow> int"
  write_of :: "trace \<Rightarrow> int \<Rightarrow> string \<Rightarrow> int"
  shutdown_of :: "trace \<Rightarrow> int \<Rightarrow> int"
  socket_of :: "trace \<Rightarrow> int"
  bind_of :: "trace \<Rightarrow> int \<Rightarrow> inet \<Rightarrow> int"
  listen_of :: "trace \<Rightarrow> int \<Rightarrow> int"
  accept_of :: "trace \<Rightarrow> int \<Rightarrow> int \<times> inet"
  close_of :: "trace \<Rightarrow> int \<Rightarrow> int"
  setsockopt_of :: "trace \<Rightarrow> int \<Rightarrow> int \<Rightarrow> int \<Rightarrow> bool \<Rightarrow> int"
  alloc_of :: "trace \<Rightarrow> timer_ptr"
  thread_of :: "trace \<Rightarrow> thread_id"
  logFatalAborts :: bool
  stamp_addTime :: "timestamp \<Rightarrow> seconds \<Rightarrow> timestamp"
  stamp_invalid :: timestamp
  stamp_valid :: "timestamp \<Rightarrow> bool"
  stamp_kMicroSecondsPerSecond :: int
  buf_empty :: 'b
  buf_readableBytes :: "'b \<Rightarrow> nat"
  buf_peek :: "'b \<Rightarrow> string"
  buf_append :: "'b \<Rightarrow> string \<Rightarrow> 'b"
  buf_retrieve :: "'b \<Rightarrow> nat \<Rightarrow> 'b result"
  buf_readFd :: "trace \<Rightarrow> 'b \<Rightarrow> int \<Rightarrow> int \<times> 'b \<times> int"

text \<open>
  \<open>LOG_FATAL\<close>: muduo documents that it logs and aborts.  The flag says whether the logger in
  use does; where it does not, the code after the statement runs, as written.
\<close>

definition logFatal :: "'b env \<Rightarrow> string \<Rightarrow> 's \<Rightarrow> 's result" where
  "logFatal E msg s = (if logFatalAborts E then Inl (LogFatal msg) else Inr s)"

lemma logFatal_Inr_iff [result_simps]:
  "logFatal E m s = Inr t \<longleftrightarrow> \<not> logFatalAborts E \<and> t = s"
  by (auto simp: logFatal_def)

section \<open>A concrete outside world\<close>

text \<open>
  An \<open>env\<close> to evaluate the model on: a clock that advances with every call, descriptors handed
  out in order, writes that take everything they are offered, a logger that aborts, and a buffer
  that is the string of its readable bytes.  It serves the examples only; no property assumes it.
\<close>

definition sampleEnv :: "string env" where
  "sampleEnv =
     \<lparr>now_of = (\<lambda>tr. 1000 + int (length tr)),
      poll_of = (\<lambda>tr req w. (0, map (\<lambda>_. 0) req)),
      eventfd_of = (\<lambda>tr. 3 + int (length tr)), timerfd_of = (\<lambda>tr. 3 + int (length tr)),
      writei64_of = (\<lambda>tr fd v. 8), readi64_of = (\<lambda>tr fd. 8),
      write_of = (\<lambda>tr fd bs. int (length bs)), shutdown_of = (\<lambda>tr fd. 0),
      socket_of = (\<lambda>tr. 3 + int (length tr)), bind_of = (\<lambda>tr fd a. 0), listen_of = (\<lambda>tr fd. 0),
      accept_of = (\<lambda>tr fd. (3 + int (length tr), Inet 1)), close_of = (\<lambda>tr fd. 0),
      setsockopt_of = (\<lambda>tr fd level opt v. 0), alloc_of = (\<lambda>tr. length tr),
      thread_of = (\<lambda>tr. 1 + length tr), logFatalAborts = True,
      stamp_addTime = (\<lambda>t d. t + \<lfloor>d * 1000000\<rfloor>), stamp_invalid = 0, stamp_valid = (\<lambda>t. 0 < t),
      stamp_kMicroSecondsPerSecond = 1000000,
      buf_empty = '''', buf_readableBytes = length, buf_peek = (\<lambda>b. b), buf_append = (@),
      buf_retrieve = (\<lambda>b n. if n \<le> length b then Inr (drop n b) else Inl (External ''Buffer::retrieve'')),
      buf_readFd = (\<lambda>tr b fd. (0, b, 0))\<rparr>"

end
