(* ===== verification/Channel.thy ===== *)
theory Channel
  imports Callbacks
begin

text \<open>
  \<open>duduo/net/Reactor/Channel.h\<close> and \<open>Channel.cc\<close>: a channel ties a file descriptor to the
  events it watches and to the callbacks for them.  This theory has the data and the operations
  that stay inside the channel; those that reach the poller through the owner loop are in
  \<open>EventLoop\<close>.

  \<open>events_\<close> and \<open>revents_\<close> are C \<open>int\<close>s used as bit sets, here \<open>32 word\<close>s.  The bit values
  are those of Linux's \<open><poll.h>\<close>.
\<close>

unbundle bit_operations_syntax

definition POLLIN :: "32 word" where "POLLIN = 0x001"
definition POLLPRI :: "32 word" where "POLLPRI = 0x002"
definition POLLOUT :: "32 word" where "POLLOUT = 0x004"
definition POLLERR :: "32 word" where "POLLERR = 0x008"
definition POLLHUP :: "32 word" where "POLLHUP = 0x010"
definition POLLNVAL :: "32 word" where "POLLNVAL = 0x020"
definition POLLRDHUP :: "32 word" where "POLLRDHUP = 0x2000"

lemmas poll_bits = POLLIN_def POLLPRI_def POLLOUT_def POLLERR_def POLLHUP_def POLLNVAL_def
  POLLRDHUP_def

definition kNoneEvent :: "32 word" where "kNoneEvent = 0"
definition kReadEvent :: "32 word" where "kReadEvent = POLLIN OR POLLPRI"
definition kWriteEvent :: "32 word" where "kWriteEvent = POLLOUT"

lemmas event_masks = kNoneEvent_def kReadEvent_def kWriteEvent_def

record channel =
  ch_ownerLoop :: loop_id
  ch_fd :: int
  ch_events :: "32 word"
  ch_revents :: "32 word"
  ch_index :: int
  ch_isHandling :: bool
  ch_errorCallback :: "task option"
  ch_readCallback :: "(timestamp \<Rightarrow> task) option"
  ch_writeCallback :: "task option"
  ch_closeCallback :: "task option"

text \<open>\<open>Channel::Channel\<close>: no events watched, not known to the poller (\<open>index_ = -1\<close>).\<close>

definition mkChannel :: "loop_id \<Rightarrow> int \<Rightarrow> channel" where
  "mkChannel loop fd =
     \<lparr>ch_ownerLoop = loop, ch_fd = fd, ch_events = kNoneEvent, ch_revents = 0, ch_index = - 1,
      ch_isHandling = False, ch_errorCallback = None, ch_readCallback = None,
      ch_writeCallback = None, ch_closeCallback = None\<rparr>"

text \<open>\<open>Channel::~Channel\<close>: it only asserts; the descriptor stays open.\<close>

definition dtorChannel :: "channel \<Rightarrow> unit result" where
  "dtorChannel ch = assertR ''!isHandling_'' (\<not> ch_isHandling ch) ()"

definition isNoneEvent :: "channel \<Rightarrow> bool" where
  "isNoneEvent ch \<longleftrightarrow> ch_events ch = kNoneEvent"

definition isWriting :: "channel \<Rightarrow> bool" where
  "isWriting ch \<longleftrightarrow> ch_events ch AND kWriteEvent \<noteq> 0"

definition set_index :: "int \<Rightarrow> channel \<Rightarrow> channel" where
  "set_index idx ch = ch\<lparr>ch_index := idx\<rparr>"

definition set_revent :: "32 word \<Rightarrow> channel \<Rightarrow> channel" where
  "set_revent revents ch = ch\<lparr>ch_revents := revents\<rparr>"

definition setErrorCallback :: "task \<Rightarrow> channel \<Rightarrow> channel" where
  "setErrorCallback cb ch = ch\<lparr>ch_errorCallback := Some cb\<rparr>"

definition setReadCallback :: "(timestamp \<Rightarrow> task) \<Rightarrow> channel \<Rightarrow> channel" where
  "setReadCallback cb ch = ch\<lparr>ch_readCallback := Some cb\<rparr>"

definition setWriteCallback :: "task \<Rightarrow> channel \<Rightarrow> channel" where
  "setWriteCallback cb ch = ch\<lparr>ch_writeCallback := Some cb\<rparr>"

definition setCloseCallback :: "task \<Rightarrow> channel \<Rightarrow> channel" where
  "setCloseCallback cb ch = ch\<lparr>ch_closeCallback := Some cb\<rparr>"

text \<open>
  The assignments to \<open>events_\<close> in \<open>enableRead\<close>, \<open>enableWrite\<close>, \<open>disableAll\<close> and
  \<open>disableWrite\<close>.  The first three are followed by \<open>update()\<close> in the source; the last is not.
\<close>

definition addReadEvent :: "channel \<Rightarrow> channel" where
  "addReadEvent ch = ch\<lparr>ch_events := ch_events ch OR kReadEvent\<rparr>"

definition addWriteEvent :: "channel \<Rightarrow> channel" where
  "addWriteEvent ch = ch\<lparr>ch_events := ch_events ch OR kWriteEvent\<rparr>"

definition clearEvents :: "channel \<Rightarrow> channel" where
  "clearEvents ch = ch\<lparr>ch_events := kNoneEvent\<rparr>"

definition disableWriteEvent :: "channel \<Rightarrow> channel" where
  "disableWriteEvent ch = ch\<lparr>ch_events := ch_events ch AND NOT kWriteEvent\<rparr>"

text \<open>
  The specification of dispatch: the closures \<open>Channel::handleEvents\<close> calls for a given value of
  \<open>revents_\<close>, in order.
\<close>

definition dispatch :: "channel \<Rightarrow> timestamp \<Rightarrow> task list" where
  "dispatch ch now =
     (let r = ch_revents ch in
      (if r AND (POLLNVAL OR POLLERR) \<noteq> 0
       then (case ch_errorCallback ch of None \<Rightarrow> [] | Some t \<Rightarrow> [t]) else []) @
      (if r AND POLLHUP \<noteq> 0 \<and> r AND POLLIN = 0
       then (case ch_closeCallback ch of None \<Rightarrow> [] | Some t \<Rightarrow> [t]) else []) @
      (if r AND (POLLIN OR POLLPRI OR POLLRDHUP) \<noteq> 0
       then (case ch_readCallback ch of None \<Rightarrow> [] | Some f \<Rightarrow> [f now]) else []) @
      (if r AND POLLOUT \<noteq> 0
       then (case ch_writeCallback ch of None \<Rightarrow> [] | Some t \<Rightarrow> [t]) else []))"

section \<open>Facts about the operations\<close>

text \<open>The write interest is the third bit; the read interest the first two.\<close>

lemma isWriting_bit: "isWriting ch \<longleftrightarrow> bit (ch_events ch) 2"
proof -
  have "kWriteEvent = 2 ^ 2" by (simp add: event_masks poll_bits)
  then have "isWriting ch \<longleftrightarrow> ch_events ch AND 2 ^ 2 \<noteq> 0" by (simp only: isWriting_def)
  then show ?thesis by (simp only: and_exp_eq_0_iff_not_bit not_not)
qed

lemma isWriting_addWrite [simp]: "isWriting (addWriteEvent ch)"
  by (simp add: isWriting_bit addWriteEvent_def event_masks poll_bits bit_simps)

lemma isWriting_addRead [simp]: "isWriting (addReadEvent ch) = isWriting ch"
  by (simp add: isWriting_bit addReadEvent_def event_masks poll_bits bit_simps)

lemma isWriting_disableWrite [simp]: "\<not> isWriting (disableWriteEvent ch)"
  by (simp add: isWriting_bit disableWriteEvent_def event_masks poll_bits bit_simps)

lemma isWriting_clear [simp]: "\<not> isWriting (clearEvents ch)"
  by (simp add: isWriting_bit clearEvents_def event_masks)

lemma isNoneEvent_clear [simp]: "isNoneEvent (clearEvents ch)"
  by (simp add: isNoneEvent_def clearEvents_def)

lemma isNoneEvent_not_writing: "isNoneEvent ch \<Longrightarrow> \<not> isWriting ch"
  by (simp add: isNoneEvent_def isWriting_def event_masks)

end
