(* ===== verification/Poller.thy ===== *)
theory Poller
  imports Channel
begin

text \<open>
  \<open>duduo/net/Reactor/Poller.h\<close> and \<open>Poller.cc\<close>: the wrapper of \<open>::poll\<close>.  The vector
  \<open>pollfds_\<close> is what the system call reads; \<open>channels_\<close> maps a descriptor to its channel; a
  channel's \<open>index_\<close> is its position in \<open>pollfds_\<close>.  A poller works on the heap of channels
  too, so its operations take and return a pair of both.

  The file has the operations, the invariant \<open>poller_wf\<close> that ties vector, map and indices
  together, the interface \<open>fd_registry\<close> the event loop relies on with its interpretation on the
  operations, and what \<open>poll\<close> reports.  \<open>short\<close>s are \<open>16 word\<close>s.
\<close>

record pollfd =
  pfd_fd :: int
  pfd_events :: "16 word"
  pfd_revents :: "16 word"

record poller =
  pollfds :: "pollfd list"
  channels :: "int \<Rightarrow> chan_id option"

type_synonym chan_heap = "chan_id \<Rightarrow> channel"
type_synonym pstate = "chan_heap \<times> poller"

definition mkPoller :: poller where
  "mkPoller = \<lparr>pollfds = [], channels = Map.empty\<rparr>"

text \<open>An unwatched descriptor \<open>fd\<close> is stored as \<open>- fd - 1\<close>.\<close>

definition orig_fd :: "int \<Rightarrow> int" where
  "orig_fd x = (if x < 0 then - x - 1 else x)"

section \<open>Operations\<close>

definition updateChannel :: "chan_id \<Rightarrow> pstate \<Rightarrow> pstate result" where
  "updateChannel c s =
     (let (cs, p) = s; ch = cs c in
      if ch_index ch < 0 then
        if channels p (ch_fd ch) \<noteq> None
        then Inl (AssertFailed ''updateChannel: channels_.find(ch->fd()) == channels_.end()'')
        else let tmp = \<lparr>pfd_fd = ch_fd ch, pfd_events = ucast (ch_events ch), pfd_revents = 0\<rparr>;
                 p' = p\<lparr>pollfds := pollfds p @ [tmp], channels := (channels p)(pfd_fd tmp \<mapsto> c)\<rparr>
             in Inr (cs(c := set_index (int (length (pollfds p')) - 1) ch), p')
      else
        if channels p (ch_fd ch) = None
        then Inl (AssertFailed ''updateChannel: channels_.find(ch->fd()) != channels_.end()'')
        else if length (pollfds p) \<le> nat (ch_index ch)
        then Inl (OutOfBounds ''updateChannel: pollfds_[ch->index()]'')
        else let tmp = pollfds p ! nat (ch_index ch) in
          if \<not> (pfd_fd tmp = ch_fd ch \<or> pfd_fd tmp = - ch_fd ch - 1)
          then Inl (AssertFailed ''updateChannel: tmp.fd == ch->fd() || tmp.fd == -ch->fd() - 1'')
          else let tmp1 = tmp\<lparr>pfd_events := ucast (ch_events ch), pfd_revents := 0\<rparr>;
                   tmp2 = (if isNoneEvent ch then tmp1\<lparr>pfd_fd := - ch_fd ch - 1\<rparr> else tmp1)
               in Inr (cs, p\<lparr>pollfds := (pollfds p)[nat (ch_index ch) := tmp2]\<rparr>))"

definition removeChannel :: "bool \<Rightarrow> chan_id \<Rightarrow> pstate \<Rightarrow> pstate result" where
  "removeChannel inLoop c s =
     (let (cs, p) = s; ch = cs c; fd = ch_fd ch; i = nat (ch_index ch); n = length (pollfds p) in
      if \<not> inLoop then Inl (AssertFailed ''removeChannel: isInLoopThread()'')
      else if channels p fd = None
      then Inl (AssertFailed ''removeChannel: channels_.find(fd) != channels_.end()'')
      else if channels p fd \<noteq> Some c
      then Inl (AssertFailed ''removeChannel: channels_[ch->fd()] == ch'')
      else if \<not> isNoneEvent ch then Inl (AssertFailed ''removeChannel: ch->isNoneEvent()'')
      else if \<not> (0 \<le> ch_index ch \<and> i < n)
      then Inl (AssertFailed ''removeChannel: 0<=index && index<pollfds_.size()'')
      else let m = (channels p)(fd := None) in
        if \<not> (pfd_fd (pollfds p ! i) = - fd - 1 \<and> scast (pfd_events (pollfds p ! i)) = ch_events ch)
        then Inl (AssertFailed ''removeChannel: pollfds_[index] is unwatched'')
        else if i = n - 1 then Inr (cs, p\<lparr>pollfds := butlast (pollfds p), channels := m\<rparr>)
        else let endFd = orig_fd (pfd_fd (last (pollfds p))) in
          (case m endFd of
             None \<Rightarrow> Inl (AssertFailed ''removeChannel: channels_.find(endFd) != channels_.end()'')
           | Some c' \<Rightarrow>
               Inr (cs(c' := set_index (ch_index ch) (cs c')),
                    p\<lparr>pollfds := butlast ((pollfds p)[i := last (pollfds p), n - 1 := pollfds p ! i]),
                      channels := m\<rparr>)))"

text \<open>\<open>fillActiveChannels\<close>: the loop over \<open>pollfds_\<close>, left early once \<open>activeNum\<close> were found.\<close>

fun fillActiveChannels ::
  "pollfd list \<Rightarrow> int \<Rightarrow> (int \<Rightarrow> chan_id option) \<Rightarrow> chan_heap \<Rightarrow> chan_id list
   \<Rightarrow> (chan_heap \<times> chan_id list) result" where
  "fillActiveChannels [] activeNum m cs act = Inr (cs, act)"
| "fillActiveChannels (tmp # rest) activeNum m cs act =
     (if activeNum \<le> 0 then Inr (cs, act)
      else if 0 <s pfd_revents tmp then
        (case m (pfd_fd tmp) of
           None \<Rightarrow> Inl (AssertFailed ''fillActiveChannels: channels_.find(tmp.fd) != channels_.end()'')
         | Some c \<Rightarrow> fillActiveChannels rest (activeNum - 1) m
                      (cs(c := set_revent (scast (pfd_revents tmp)) (cs c))) (act @ [c]))
      else fillActiveChannels rest activeNum m cs act)"

text \<open>The system call writes \<open>revents\<close> into the array it is given.\<close>

fun setRevents :: "pollfd list \<Rightarrow> 16 word list \<Rightarrow> pollfd list" where
  "setRevents (t # ts) (r # rs) = t\<lparr>pfd_revents := r\<rparr> # setRevents ts rs"
| "setRevents ts rs = ts"

definition pollRequest :: "poller \<Rightarrow> (int \<times> 16 word) list" where
  "pollRequest p = map (\<lambda>t. (pfd_fd t, pfd_events t)) (pollfds p)"

text \<open>\<open>Poller::poll\<close> returns the receive time, the active channels and the new state and trace.\<close>

definition poll ::
  "'b env \<Rightarrow> int \<Rightarrow> chan_id list \<Rightarrow> trace \<Rightarrow> pstate
   \<Rightarrow> (timestamp \<times> chan_id list \<times> pstate \<times> trace) result" where
  "poll E maxWaitTimeM act0 tr s =
     (let (cs, p) = s;
          (activeNum, revs) = poll_of E tr (pollRequest p) maxWaitTimeM;
          tr1 = tr @ [SysPoll (pollRequest p) maxWaitTimeM activeNum];
          p1 = p\<lparr>pollfds := setRevents (pollfds p) revs\<rparr>;
          now = now_of E tr1;
          tr2 = tr1 @ [SysNow now]
      in if activeNum > 0 then
           bindR (fillActiveChannels (pollfds p1) activeNum (channels p1) cs act0)
             (\<lambda>(cs', act). Inr (now, act, (cs', p1), tr2))
         else if activeNum = 0 then Inr (now, act0, (cs, p1), tr2)
         else logFatal E ''ERROR occurs when ::poll()'' (now, act0, (cs, p1), tr2))"

section \<open>The invariant\<close>

definition poller_wf :: "pstate \<Rightarrow> bool" where
  "poller_wf s \<longleftrightarrow>
     (let (cs, p) = s in
      (\<forall>i < length (pollfds p). \<exists>c. channels p (orig_fd (pfd_fd (pollfds p ! i))) = Some c
          \<and> ch_index (cs c) = int i) \<and>
      (\<forall>f c. channels p f = Some c \<longrightarrow> 0 \<le> f \<and> ch_fd (cs c) = f \<and> 0 \<le> ch_index (cs c)
          \<and> nat (ch_index (cs c)) < length (pollfds p)
          \<and> orig_fd (pfd_fd (pollfds p ! nat (ch_index (cs c)))) = f))"

text \<open>
  The abstract view: for each registered descriptor, whether the system call watches it and for
  which events.
\<close>

definition interest :: "pstate \<Rightarrow> int \<Rightarrow> (bool \<times> 16 word) option" where
  "interest s f =
     (let (cs, p) = s in
      case channels p f of
        None \<Rightarrow> None
      | Some c \<Rightarrow> let t = pollfds p ! nat (ch_index (cs c)) in Some (0 \<le> pfd_fd t, pfd_events t))"

definition chan_fd :: "pstate \<Rightarrow> chan_id \<Rightarrow> int" where
  "chan_fd s c = ch_fd (fst s c)"

lemma orig_fd_nonneg [simp]: "0 \<le> x \<Longrightarrow> orig_fd x = x"
  by (simp add: orig_fd_def)

lemma orig_fd_unwatched [simp]: "0 \<le> x \<Longrightarrow> orig_fd (- x - 1) = x"
  by (simp add: orig_fd_def)

lemma poller_wf_entry:
  "poller_wf (cs, p) \<Longrightarrow> i < length (pollfds p) \<Longrightarrow>
   \<exists>c. channels p (orig_fd (pfd_fd (pollfds p ! i))) = Some c \<and> ch_index (cs c) = int i"
  by (simp add: poller_wf_def)

lemma poller_wf_chan:
  assumes "poller_wf (cs, p)" and "channels p f = Some c"
  shows "0 \<le> f" and "ch_fd (cs c) = f" and "0 \<le> ch_index (cs c)"
    and "nat (ch_index (cs c)) < length (pollfds p)"
    and "orig_fd (pfd_fd (pollfds p ! nat (ch_index (cs c)))) = f"
  using assms by (auto simp: poller_wf_def)

lemma poller_wfI:
  assumes "\<And>i. i < length L \<Longrightarrow> \<exists>c. m (orig_fd (pfd_fd (L ! i))) = Some c \<and> ch_index (cs c) = int i"
    and "\<And>f c. m f = Some c \<Longrightarrow> 0 \<le> f \<and> ch_fd (cs c) = f \<and> 0 \<le> ch_index (cs c)
          \<and> nat (ch_index (cs c)) < length L \<and> orig_fd (pfd_fd (L ! nat (ch_index (cs c)))) = f"
  shows "poller_wf (cs, p\<lparr>pollfds := L, channels := m\<rparr>)"
  unfolding poller_wf_def prod.case Let_def poller.select_convs poller.update_convs poller.surjective
  using assms by simp

lemma poller_wf_mk: "poller_wf (cs, mkPoller)"
  by (simp add: poller_wf_def mkPoller_def)

text \<open>Each registered channel has one descriptor and one slot.\<close>

lemma poller_wf_inj:
  assumes "poller_wf (cs, p)" "channels p f = Some c" "channels p g = Some d"
    and "ch_index (cs c) = ch_index (cs d)"
  shows "f = g \<and> c = d"
  using poller_wf_chan(5)[OF assms(1,2)] poller_wf_chan(5)[OF assms(1,3)] assms by auto

text \<open>Only descriptor and index of the registered channels matter to the invariant.\<close>

lemma poller_wf_cong:
  assumes "poller_wf (cs, p)"
    and "\<And>f c. channels p f = Some c \<Longrightarrow> ch_fd (cs' c) = ch_fd (cs c) \<and> ch_index (cs' c) = ch_index (cs c)"
  shows "poller_wf (cs', p)"
  unfolding poller_wf_def prod.case Let_def
proof (intro conjI allI impI)
  fix i assume "i < length (pollfds p)"
  then show "\<exists>c. channels p (orig_fd (pfd_fd (pollfds p ! i))) = Some c \<and> ch_index (cs' c) = int i"
    using poller_wf_entry[OF assms(1)] assms(2) by metis
qed (use poller_wf_chan[OF assms(1)] assms(2) in simp_all)

section \<open>Updating a registration\<close>

definition entry_for :: "channel \<Rightarrow> pollfd \<Rightarrow> pollfd" where
  "entry_for ch t =
     (let t1 = t\<lparr>pfd_events := ucast (ch_events ch), pfd_revents := 0\<rparr> in
      if isNoneEvent ch then t1\<lparr>pfd_fd := - ch_fd ch - 1\<rparr> else t1)"

lemma updateChannel_cases:
  assumes "updateChannel c (cs, p) = Inr t"
  obtains (new) "ch_index (cs c) < 0" "channels p (ch_fd (cs c)) = None"
      "t = (cs(c := set_index (int (length (pollfds p))) (cs c)),
            p\<lparr>pollfds := pollfds p @ [\<lparr>pfd_fd = ch_fd (cs c), pfd_events = ucast (ch_events (cs c)),
                                     pfd_revents = 0\<rparr>],
              channels := (channels p)(ch_fd (cs c) \<mapsto> c)\<rparr>)"
    | (old) "0 \<le> ch_index (cs c)" "channels p (ch_fd (cs c)) \<noteq> None"
      "nat (ch_index (cs c)) < length (pollfds p)"
      "pfd_fd (pollfds p ! nat (ch_index (cs c))) \<in> {ch_fd (cs c), - ch_fd (cs c) - 1}"
      "t = (cs, p\<lparr>pollfds := (pollfds p)[nat (ch_index (cs c)) :=
              entry_for (cs c) (pollfds p ! nat (ch_index (cs c)))]\<rparr>)"
proof (cases "ch_index (cs c) < 0")
  case True
  with assms show ?thesis
    by (intro new) (auto simp: updateChannel_def Let_def split: if_splits)
next
  case False
  with assms show ?thesis
    by (intro old) (auto simp: updateChannel_def Let_def entry_for_def split: if_splits)
qed

lemma orig_fd_entry_for:
  "0 \<le> ch_fd ch \<Longrightarrow> pfd_fd t \<in> {ch_fd ch, - ch_fd ch - 1} \<Longrightarrow>
   orig_fd (pfd_fd (entry_for ch t)) = orig_fd (pfd_fd t)"
  by (auto simp: entry_for_def Let_def)

lemma updateChannel_wf:
  assumes wf: "poller_wf (cs, p)" and fd: "0 \<le> ch_fd (cs c)"
    and upd: "updateChannel c (cs, p) = Inr t"
  shows "poller_wf t"
  using upd
proof (cases rule: updateChannel_cases)
  case new
  have fresh: "d \<noteq> c" if "channels p f = Some d" for f d
    using poller_wf_chan(3)[OF wf that] new(1) by auto
  have ne: "f \<noteq> ch_fd (cs c)" if "channels p f = Some d" for f d
    using that new(2) by auto
  let ?e = "\<lparr>pfd_fd = ch_fd (cs c), pfd_events = ucast (ch_events (cs c)), pfd_revents = 0\<rparr>"
  let ?pf = "pollfds p @ [?e]" and ?m = "(channels p)(ch_fd (cs c) \<mapsto> c)"
  let ?cs = "cs(c := set_index (int (length (pollfds p))) (cs c))"
  have entries: "\<exists>d. ?m (orig_fd (pfd_fd (?pf ! i))) = Some d \<and> ch_index (?cs d) = int i"
    if "i < length ?pf" for i
  proof (cases "i < length (pollfds p)")
    case True
    then obtain d where "channels p (orig_fd (pfd_fd (pollfds p ! i))) = Some d" "ch_index (cs d) = int i"
      using poller_wf_entry[OF wf] by blast
    then show ?thesis using True ne fresh by (auto simp: nth_append)
  next
    case False
    then have "i = length (pollfds p)" using that by simp
    then show ?thesis using fd by (auto simp: set_index_def)
  qed
  have chans: "0 \<le> f \<and> ch_fd (?cs d) = f \<and> 0 \<le> ch_index (?cs d) \<and> nat (ch_index (?cs d)) < length ?pf
      \<and> orig_fd (pfd_fd (?pf ! nat (ch_index (?cs d)))) = f" if "?m f = Some d" for f d
  proof (cases "f = ch_fd (cs c)")
    case True
    with that fd show ?thesis by (simp add: set_index_def)
  next
    case False
    with that have m: "channels p f = Some d" by simp
    then show ?thesis using poller_wf_chan[OF wf m] fresh[OF m] by (simp add: nth_append)
  qed
  from entries chans show ?thesis unfolding new(3) by (rule poller_wfI)
next
  case old
  let ?i = "nat (ch_index (cs c))"
  have "orig_fd (pfd_fd ((pollfds p)[?i := entry_for (cs c) (pollfds p ! ?i)] ! j))
      = orig_fd (pfd_fd (pollfds p ! j))" for j
    using orig_fd_entry_for[OF fd old(4)] old(3) by (cases "j = ?i") auto
  then show ?thesis using wf unfolding old(5) poller_wf_def by simp
qed

text \<open>
  What an update does to the abstract view.  A first registration is watched whatever its events
  are; a later update can turn watching off and never turns it on again.
\<close>

definition watch_after :: "(bool \<times> 16 word) option \<Rightarrow> channel \<Rightarrow> bool" where
  "watch_after old ch = (case old of None \<Rightarrow> True | Some (w, e) \<Rightarrow> w \<and> \<not> isNoneEvent ch)"

lemma updateChannel_interest:
  assumes wf: "poller_wf (cs, p)" and fd: "0 \<le> ch_fd (cs c)"
    and upd: "updateChannel c (cs, p) = Inr t"
  shows "interest t = (interest (cs, p))(ch_fd (cs c) \<mapsto>
      (watch_after (interest (cs, p) (ch_fd (cs c))) (cs c), ucast (ch_events (cs c))))"
  using upd
proof (cases rule: updateChannel_cases)
  case new
  have fresh: "d \<noteq> c" if "channels p f = Some d" for f d
    using poller_wf_chan(3)[OF wf that] new(1) by auto
  show ?thesis
  proof (rule ext)
    fix f show "interest t f = ((interest (cs, p))(ch_fd (cs c) \<mapsto>
      (watch_after (interest (cs, p) (ch_fd (cs c))) (cs c), ucast (ch_events (cs c))))) f"
    proof (cases "f = ch_fd (cs c)")
      case True
      then show ?thesis using new fd by (simp add: interest_def watch_after_def set_index_def nth_append)
    next
      case False
      then show ?thesis using new poller_wf_chan[OF wf] fresh
        by (auto simp: interest_def set_index_def nth_append Let_def split: option.splits)
    qed
  qed
next
  case old
  let ?i = "nat (ch_index (cs c))"
  obtain d where d: "channels p (ch_fd (cs c)) = Some d" using old(2) by auto
  obtain e where e: "channels p (orig_fd (pfd_fd (pollfds p ! ?i))) = Some e" "ch_index (cs e) = int ?i"
    using poller_wf_entry[OF wf old(3)] by blast
  have "orig_fd (pfd_fd (pollfds p ! ?i)) = ch_fd (cs c)" using old(4) fd by auto
  with d e old(1) have di: "ch_index (cs d) = ch_index (cs c)" by simp
  show ?thesis
  proof (rule ext)
    fix f show "interest t f = ((interest (cs, p))(ch_fd (cs c) \<mapsto>
      (watch_after (interest (cs, p) (ch_fd (cs c))) (cs c), ucast (ch_events (cs c))))) f"
    proof (cases "f = ch_fd (cs c)")
      case True
      then show ?thesis using old d di fd
        by (auto simp: interest_def watch_after_def entry_for_def Let_def)
    next
      case False
      have "nat (ch_index (cs g)) \<noteq> ?i" if "channels p f = Some g" for g
        using poller_wf_inj[OF wf that d] poller_wf_chan(3)[OF wf that] old(1) di False
        by (metis eq_nat_nat_iff)
      then show ?thesis using False old(5)
        by (auto simp: interest_def Let_def split: option.splits)
    qed
  qed
qed

text \<open>When an update goes through: exactly when the channel's index and the map agree.\<close>

lemma updateChannel_succeeds:
  assumes wf: "poller_wf (cs, p)"
    and "if ch_index (cs c) < 0 then channels p (ch_fd (cs c)) = None
         else channels p (ch_fd (cs c)) = Some c"
  shows "\<exists>t. updateChannel c (cs, p) = Inr t"
proof (cases "ch_index (cs c) < 0")
  case True
  with assms show ?thesis by (simp add: updateChannel_def Let_def)
next
  case False
  with assms(2) have m: "channels p (ch_fd (cs c)) = Some c" by simp
  from poller_wf_chan[OF wf m] have "pfd_fd (pollfds p ! nat (ch_index (cs c))) \<in> {ch_fd (cs c), - ch_fd (cs c) - 1}"
    by (auto simp: orig_fd_def split: if_splits)
  then show ?thesis using poller_wf_chan[OF wf m] False m by (simp add: updateChannel_def Let_def)
qed

section \<open>Removing a registration\<close>

lemma butlast_swap:
  assumes "i < length xs - Suc 0"
  shows "butlast (xs[i := x, length xs - Suc 0 := y]) = (butlast xs)[i := x]"
  using assms by (intro nth_equalityI) (auto simp: nth_butlast nth_list_update)

lemma removeChannel_cases:
  assumes "removeChannel b c (cs, p) = Inr t"
  obtains (tail) "b" "channels p (ch_fd (cs c)) = Some c" "isNoneEvent (cs c)" "0 \<le> ch_index (cs c)"
      "nat (ch_index (cs c)) = length (pollfds p) - 1" "pollfds p \<noteq> []"
      "t = (cs, p\<lparr>pollfds := butlast (pollfds p), channels := (channels p)(ch_fd (cs c) := None)\<rparr>)"
    | (swap) d where "b" "channels p (ch_fd (cs c)) = Some c" "isNoneEvent (cs c)" "0 \<le> ch_index (cs c)"
      "nat (ch_index (cs c)) < length (pollfds p) - 1"
      "((channels p)(ch_fd (cs c) := None)) (orig_fd (pfd_fd (last (pollfds p)))) = Some d"
      "t = (cs(d := set_index (ch_index (cs c)) (cs d)),
            p\<lparr>pollfds := (butlast (pollfds p))[nat (ch_index (cs c)) := last (pollfds p)],
              channels := (channels p)(ch_fd (cs c) := None)\<rparr>)"
proof (cases "nat (ch_index (cs c)) = length (pollfds p) - 1")
  case True
  with assms show ?thesis
    by (intro tail) (auto simp: removeChannel_def Let_def split: if_splits)
next
  case False
  with assms obtain d where d: "((channels p)(ch_fd (cs c) := None)) (orig_fd (pfd_fd (last (pollfds p)))) = Some d"
    by (auto simp: removeChannel_def Let_def split: if_splits option.splits)
  have lt: "nat (ch_index (cs c)) < length (pollfds p) - 1"
    using False assms by (auto simp: removeChannel_def Let_def split: if_splits)
  show ?thesis
    using assms False d lt
    by (intro swap[OF _ _ _ _ lt d]) (auto simp: removeChannel_def Let_def butlast_swap split: if_splits)
qed

lemma remove_tail_wf:
  assumes wf: "poller_wf (cs, p)"
    and tail: "channels p (ch_fd (cs c)) = Some c" "0 \<le> ch_index (cs c)" "nat (ch_index (cs c)) = length (pollfds p) - 1"
  shows "poller_wf (cs, p\<lparr>pollfds := butlast (pollfds p), channels := (channels p)(ch_fd (cs c) := None)\<rparr>)"
proof -
  have other: "nat (ch_index (cs d)) < length (pollfds p) - 1"
    if "channels p f = Some d" "f \<noteq> ch_fd (cs c)" for f d
  proof -
    have "ch_index (cs d) \<noteq> ch_index (cs c)" using poller_wf_inj[OF wf that(1) tail(1)] that(2) by blast
    then show ?thesis using poller_wf_chan(3,4)[OF wf that(1)] tail(2,3) by linarith
  qed
  have "\<exists>d. ((channels p)(ch_fd (cs c) := None)) (orig_fd (pfd_fd (butlast (pollfds p) ! i))) = Some d
      \<and> ch_index (cs d) = int i" if "i < length (butlast (pollfds p))" for i
  proof -
    from that have i: "i < length (pollfds p)" by simp
    obtain d where d: "channels p (orig_fd (pfd_fd (pollfds p ! i))) = Some d" "ch_index (cs d) = int i"
      using poller_wf_entry[OF wf i] by blast
    have "orig_fd (pfd_fd (pollfds p ! i)) \<noteq> ch_fd (cs c)"
    proof
      assume "orig_fd (pfd_fd (pollfds p ! i)) = ch_fd (cs c)"
      then have "d = c" using d(1) tail(1) by simp
      then show False using d(2) tail(3) that by simp
    qed
    with d that show ?thesis by (auto simp: nth_butlast)
  qed
  note entries = this
  have "0 \<le> f \<and> ch_fd (cs d) = f \<and> 0 \<le> ch_index (cs d) \<and> nat (ch_index (cs d)) < length (butlast (pollfds p))
      \<and> orig_fd (pfd_fd (butlast (pollfds p) ! nat (ch_index (cs d)))) = f"
    if mg: "((channels p)(ch_fd (cs c) := None)) f = Some d" for f d
  proof -
    have m: "channels p f = Some d" "f \<noteq> ch_fd (cs c)" using mg by (auto split: if_splits)
    have lt: "nat (ch_index (cs d)) < length (butlast (pollfds p))" using other[OF m] by simp
    show ?thesis unfolding nth_butlast[OF lt] using poller_wf_chan[OF wf m(1)] lt by blast
  qed
  with entries show ?thesis by (rule poller_wfI)
qed

lemma remove_swap_wf:
  assumes wf: "poller_wf (cs, p)"
    and swap: "channels p (ch_fd (cs c)) = Some c" "0 \<le> ch_index (cs c)" "nat (ch_index (cs c)) < length (pollfds p) - 1"
      "((channels p)(ch_fd (cs c) := None)) (orig_fd (pfd_fd (last (pollfds p)))) = Some d"
  shows "poller_wf (cs(d := set_index (ch_index (cs c)) (cs d)),
            p\<lparr>pollfds := (butlast (pollfds p))[nat (ch_index (cs c)) := last (pollfds p)],
              channels := (channels p)(ch_fd (cs c) := None)\<rparr>)"
proof -
  let ?i = "nat (ch_index (cs c))" and ?n = "length (pollfds p)"
  let ?L = "(butlast (pollfds p))[?i := last (pollfds p)]"
  let ?cs = "cs(d := set_index (ch_index (cs c)) (cs d))"
  let ?m = "(channels p)(ch_fd (cs c) := None)"
  let ?e = "orig_fd (pfd_fd (last (pollfds p)))"
  have lastn: "last (pollfds p) = pollfds p ! (?n - 1)" using swap(3) by (intro last_conv_nth) auto
  have pd: "channels p ?e = Some d" and de: "?e \<noteq> ch_fd (cs c)"
    using swap(4) by (auto split: if_splits)
  have di: "ch_index (cs d) = int (?n - 1)"
    using poller_wf_entry[OF wf, of "?n - 1"] swap(3) pd lastn by auto
  have dc: "d \<noteq> c" using di swap(2,3) by auto
  have nth: "?L ! j = (if j = ?i then last (pollfds p) else pollfds p ! j)" if "j < ?n - 1" for j
    using that by (auto simp: nth_butlast nth_list_update)
  have "\<exists>g. ?m (orig_fd (pfd_fd (?L ! j))) = Some g \<and> ch_index (?cs g) = int j" if "j < length ?L" for j
  proof (cases "j = ?i")
    case True
    with swap(2,3) pd de show ?thesis by (auto simp: set_index_def)
  next
    case False
    from that have j: "j < ?n" "j < ?n - 1" by auto
    obtain g where g: "channels p (orig_fd (pfd_fd (pollfds p ! j))) = Some g" "ch_index (cs g) = int j"
      using poller_wf_entry[OF wf j(1)] by blast
    have "orig_fd (pfd_fd (pollfds p ! j)) \<noteq> ch_fd (cs c)" using g swap(1,2) False by auto
    moreover have "g \<noteq> d" using g di j by auto
    moreover have "?L ! j = pollfds p ! j" using nth[OF j(2)] False by simp
    ultimately show ?thesis using g by simp
  qed
  note entries = this
  have "0 \<le> f \<and> ch_fd (?cs g) = f \<and> 0 \<le> ch_index (?cs g) \<and> nat (ch_index (?cs g)) < length ?L
      \<and> orig_fd (pfd_fd (?L ! nat (ch_index (?cs g)))) = f" if mg: "?m f = Some g" for f g
  proof -
    have m: "channels p f = Some g" "f \<noteq> ch_fd (cs c)" using mg by (auto split: if_splits)
    show ?thesis
    proof (cases "g = d")
      case True
      then have "f = ?e" using poller_wf_inj[OF wf m(1) pd] by simp
      with True show ?thesis using swap(2,3) poller_wf_chan(1,2)[OF wf m(1)] nth[of ?i] by (simp add: set_index_def)
    next
      case False
      have "ch_index (cs g) \<noteq> ch_index (cs c)" "ch_index (cs g) \<noteq> int (?n - 1)"
        using poller_wf_inj[OF wf m(1) swap(1)] poller_wf_inj[OF wf m(1) pd] m(2) False di by auto
      then have "nat (ch_index (cs g)) \<noteq> ?i" "nat (ch_index (cs g)) \<noteq> ?n - 1"
        using poller_wf_chan(3)[OF wf m(1)] swap(2) by linarith+
      then show ?thesis using False poller_wf_chan[OF wf m(1)] nth[of "nat (ch_index (cs g))"] by simp
    qed
  qed
  with entries show ?thesis by (rule poller_wfI)
qed

lemma removeChannel_wf:
  assumes wf: "poller_wf (cs, p)" and rem: "removeChannel b c (cs, p) = Inr t"
  shows "poller_wf t"
  using rem
proof (cases rule: removeChannel_cases)
  case tail
  with remove_tail_wf[OF wf] show ?thesis by simp
next
  case (swap d)
  with remove_swap_wf[OF wf] show ?thesis by simp
qed

lemma removeChannel_interest:
  assumes wf: "poller_wf (cs, p)" and rem: "removeChannel b c (cs, p) = Inr t"
  shows "interest t = (interest (cs, p))(ch_fd (cs c) := None)"
proof (rule ext)
  fix f
  show "interest t f = ((interest (cs, p))(ch_fd (cs c) := None)) f"
    using rem
  proof (cases rule: removeChannel_cases)
    case tail
    have "nat (ch_index (cs d)) < length (pollfds p) - 1"
      if "channels p f = Some d" "f \<noteq> ch_fd (cs c)" for d
    proof -
      have "ch_index (cs d) \<noteq> ch_index (cs c)" using poller_wf_inj[OF wf that(1) tail(2)] that(2) by blast
      then show ?thesis using poller_wf_chan(3,4)[OF wf that(1)] tail(4,5) by linarith
    qed
    then show ?thesis using tail(7) by (auto simp: interest_def Let_def nth_butlast split: option.splits)
  next
    case (swap d)
    let ?i = "nat (ch_index (cs c))" and ?n = "length (pollfds p)"
    have pd: "channels p (orig_fd (pfd_fd (last (pollfds p)))) = Some d"
      using swap(6) by (auto split: if_splits)
    have lastn: "last (pollfds p) = pollfds p ! (?n - 1)" using swap(5) by (intro last_conv_nth) auto
    have di: "ch_index (cs d) = int (?n - 1)"
      using poller_wf_entry[OF wf, of "?n - 1"] swap(5) pd lastn by auto
    show ?thesis
    proof (cases "channels p f")
      case None
      then show ?thesis using swap(7) by (auto simp: interest_def)
    next
      case (Some g)
      show ?thesis
      proof (cases "f = ch_fd (cs c)")
        case True
        then show ?thesis using swap(7) by (simp add: interest_def)
      next
        case False
        have "nat (ch_index (cs g)) \<noteq> ?i"
          using poller_wf_inj[OF wf Some swap(2)] poller_wf_chan(3)[OF wf Some] swap(4) False
          by (metis eq_nat_nat_iff)
        moreover have "nat (ch_index (cs g)) < ?n - 1" if "g \<noteq> d"
          using poller_wf_inj[OF wf Some pd] poller_wf_chan(3,4)[OF wf Some] di that by linarith
        moreover have "nat (ch_index (cs d)) = ?n - 1" using di by simp
        ultimately show ?thesis using False swap(4,5,7) Some lastn
          by (cases "g = d")
            (simp_all add: interest_def Let_def set_index_def nth_list_update nth_butlast)
      qed
    qed
  qed
qed

text \<open>Removal goes through for a registered channel that is disabled and was updated since.\<close>

lemma removeChannel_succeeds:
  assumes wf: "poller_wf (cs, p)" and "channels p (ch_fd (cs c)) = Some c" and none: "isNoneEvent (cs c)"
    and "interest (cs, p) (ch_fd (cs c)) = Some (False, 0)"
  shows "\<exists>t. removeChannel True c (cs, p) = Inr t"
proof -
  let ?i = "nat (ch_index (cs c))" and ?n = "length (pollfds p)"
  note ch = poller_wf_chan[OF wf assms(2)]
  have off: "pfd_fd (pollfds p ! ?i) = - ch_fd (cs c) - 1" "pfd_events (pollfds p ! ?i) = 0"
    using assms(2,4) ch(5) by (auto simp: interest_def Let_def orig_fd_def split: if_splits)
  have zero: "ch_events (cs c) = 0" using none by (simp add: isNoneEvent_def kNoneEvent_def)
  show ?thesis
  proof (cases "?i = ?n - 1")
    case True
    then show ?thesis using assms(2) none ch(3,4) off zero by (simp add: removeChannel_def Let_def)
  next
    case False
    then have lt: "?i < ?n - 1" using ch(4) by simp
    have lastn: "last (pollfds p) = pollfds p ! (?n - 1)" using lt by (intro last_conv_nth) auto
    have "?n - 1 < ?n" using lt by simp
    from poller_wf_entry[OF wf this] obtain d
      where d: "channels p (orig_fd (pfd_fd (last (pollfds p)))) = Some d" "ch_index (cs d) = int (?n - 1)"
      unfolding lastn by blast
    have "orig_fd (pfd_fd (last (pollfds p))) \<noteq> ch_fd (cs c)" using d assms(2) lt ch(3) by auto
    then show ?thesis using False d assms(2) none ch(3,4) off zero by (simp add: removeChannel_def Let_def)
  qed
qed

section \<open>The interface of the event loop\<close>

text \<open>
  What the event loop and the channels rely on: a registry of descriptors, changed one
  descriptor at a time.  \<open>look\<close> is the abstract view; the laws say what an operation does to the
  descriptor of its channel, that it leaves all others alone, and that it keeps the invariant.
\<close>

locale fd_registry =
  fixes inv :: "'s \<Rightarrow> bool"
    and look :: "'s \<Rightarrow> int \<Rightarrow> 'v option"
    and fd_of :: "'s \<Rightarrow> 'c \<Rightarrow> int"
    and upd :: "'c \<Rightarrow> 's \<Rightarrow> 's result"
    and rem :: "'c \<Rightarrow> 's \<Rightarrow> 's result"
  assumes inv_upd: "inv s \<Longrightarrow> 0 \<le> fd_of s c \<Longrightarrow> upd c s = Inr t \<Longrightarrow> inv t"
    and inv_rem: "inv s \<Longrightarrow> rem c s = Inr t \<Longrightarrow> inv t"
    and fd_upd: "upd c s = Inr t \<Longrightarrow> fd_of t = fd_of s"
    and fd_rem: "rem c s = Inr t \<Longrightarrow> fd_of t = fd_of s"
    and look_upd: "inv s \<Longrightarrow> 0 \<le> fd_of s c \<Longrightarrow> upd c s = Inr t \<Longrightarrow> look t (fd_of s c) \<noteq> None"
    and look_upd_other: "inv s \<Longrightarrow> 0 \<le> fd_of s c \<Longrightarrow> upd c s = Inr t \<Longrightarrow> f \<noteq> fd_of s c \<Longrightarrow>
      look t f = look s f"
    and look_rem: "inv s \<Longrightarrow> rem c s = Inr t \<Longrightarrow> look t = (look s)(fd_of s c := None)"
begin

lemma session_keeps:
  assumes "inv s" and "\<And>c. 0 \<le> fd_of s c"
    and "foldR (\<lambda>(r, c). if r then rem c else upd c) ops s = Inr t"
  shows "inv t \<and> fd_of t = fd_of s \<and> (\<forall>f. (\<forall>(r, c) \<in> set ops. f \<noteq> fd_of s c) \<longrightarrow> look t f = look s f)"
  using assms
proof (induction ops arbitrary: s)
  case Nil
  then show ?case by simp
next
  case (Cons op ops)
  obtain r c where op: "op = (r, c)" by (cases op)
  from Cons.prems(3) op obtain u where u: "(if r then rem c s else upd c s) = Inr u"
    "foldR (\<lambda>(r, c). if r then rem c else upd c) ops u = Inr t"
    by (cases r) (auto simp: result_simps)
  have "inv u \<and> fd_of u = fd_of s \<and> (\<forall>f. f \<noteq> fd_of s c \<longrightarrow> look u f = look s f)"
  proof (cases r)
    case True
    with u(1) have "rem c s = Inr u" by simp
    from inv_rem[OF Cons.prems(1) this] fd_rem[OF this] look_rem[OF Cons.prems(1) this]
    show ?thesis by simp
  next
    case False
    with u(1) have "upd c s = Inr u" by simp
    from inv_upd[OF Cons.prems(1,2) this] fd_upd[OF this] look_upd_other[OF Cons.prems(1,2) this]
    show ?thesis by blast
  qed
  moreover from this have "inv t \<and> fd_of t = fd_of u
      \<and> (\<forall>f. (\<forall>(r, c) \<in> set ops. f \<noteq> fd_of u c) \<longrightarrow> look t f = look u f)"
    using Cons.IH[OF _ _ u(2)] Cons.prems(2) by metis
  ultimately show ?case using op by auto
qed

end

lemma updateChannel_fd: "updateChannel c s = Inr t \<Longrightarrow> chan_fd t = chan_fd s"
  by (cases s, simp, erule updateChannel_cases) (auto simp: chan_fd_def set_index_def)

lemma removeChannel_fd: "removeChannel b c s = Inr t \<Longrightarrow> chan_fd t = chan_fd s"
  by (cases s, simp, erule removeChannel_cases) (auto simp: chan_fd_def set_index_def)

interpretation polled: fd_registry poller_wf interest chan_fd updateChannel "removeChannel b" for b
proof (unfold_locales, goal_cases)
  case (1 s c t) then show ?case by (cases s) (auto simp: chan_fd_def intro: updateChannel_wf)
next
  case (2 s c t) then show ?case by (cases s) (auto intro: removeChannel_wf)
next
  case (3 c s t) then show ?case by (rule updateChannel_fd)
next
  case (4 c s t) then show ?case by (rule removeChannel_fd)
next
  case (5 s c t) then show ?case by (cases s) (simp add: chan_fd_def updateChannel_interest)
next
  case (6 s c t f) then show ?case by (cases s) (simp add: chan_fd_def updateChannel_interest)
next
  case (7 s c t) then show ?case by (cases s) (simp add: chan_fd_def removeChannel_interest)
qed

section \<open>What poll reports\<close>

text \<open>
  poll(2), as documented: it writes one \<open>revents\<close> per entry, zero for an entry with a negative
  descriptor, uses only the bits below the sign bit, and returns the number of entries with
  nonzero \<open>revents\<close>.
\<close>

definition poll_reports :: "(int \<times> 16 word) list \<Rightarrow> int \<Rightarrow> 16 word list \<Rightarrow> bool" where
  "poll_reports req n revs \<longleftrightarrow>
     length revs = length req \<and> n = int (length (filter (\<lambda>r. r \<noteq> 0) revs)) \<and>
     (\<forall>(q, r) \<in> set (zip req revs). fst q < 0 \<longrightarrow> r = 0) \<and> (\<forall>r \<in> set revs. 0 \<le>s r)"

text \<open>The active channels of a request: those of the entries with nonzero \<open>revents\<close>, in order.\<close>

definition active_of :: "(int \<Rightarrow> chan_id option) \<Rightarrow> pollfd list \<Rightarrow> (chan_id \<times> 16 word) list" where
  "active_of m ts = map (\<lambda>t. (the (m (pfd_fd t)), pfd_revents t)) (filter (\<lambda>t. pfd_revents t \<noteq> 0) ts)"

lemma active_ofI:
  "t \<in> set ts \<Longrightarrow> pfd_revents t \<noteq> 0 \<Longrightarrow> (the (m (pfd_fd t)), pfd_revents t) \<in> set (active_of m ts)"
  by (simp add: active_of_def)

definition set_all_revents :: "(chan_id \<times> 16 word) list \<Rightarrow> chan_heap \<Rightarrow> chan_heap" where
  "set_all_revents rs cs = fold (\<lambda>(c, r) h. h(c := set_revent (scast r) (h c))) rs cs"

lemma fillActiveChannels_exact:
  assumes "\<And>t. t \<in> set ts \<Longrightarrow> 0 \<le>s pfd_revents t"
    and "\<And>t. t \<in> set ts \<Longrightarrow> pfd_revents t \<noteq> 0 \<Longrightarrow> m (pfd_fd t) \<noteq> None"
    and "int (length (filter (\<lambda>t. pfd_revents t \<noteq> 0) ts)) \<le> n"
  shows "fillActiveChannels ts n m cs act =
    Inr (set_all_revents (active_of m ts) cs, act @ map fst (active_of m ts))"
  using assms
proof (induction ts n m cs act rule: fillActiveChannels.induct)
  case (1 n m cs act)
  then show ?case by (simp add: set_all_revents_def active_of_def)
next
  case (2 t ts n m cs act)
  have pos: "0 <s pfd_revents t \<longleftrightarrow> pfd_revents t \<noteq> 0"
    using 2(3)[of t] by (auto simp: signed.less_le)
  consider "n \<le> 0" | "0 < n" "pfd_revents t = 0" | "0 < n" "pfd_revents t \<noteq> 0" by linarith
  then show ?case
  proof cases
    case 1
    with 2(5) have "length (filter (\<lambda>t. pfd_revents t \<noteq> 0) (t # ts)) = 0" by linarith
    then have "filter (\<lambda>t. pfd_revents t \<noteq> 0) (t # ts) = []" by (simp only: length_0_conv)
    with 1 show ?thesis by (simp add: active_of_def set_all_revents_def)
  next
    case 2
    with pos "2.IH"(2) "2.prems" show ?thesis by (simp add: active_of_def)
  next
    case 3
    with "2.prems"(2)[of t] obtain c where c: "m (pfd_fd t) = Some c" by auto
    with 3 pos "2.IH"(1) "2.prems" show ?thesis
      by (simp add: active_of_def set_all_revents_def fun_upd_def)
  qed
qed

lemma set_all_revents_apply:
  "distinct (map fst rs) \<Longrightarrow>
   set_all_revents rs cs c = (case map_of rs c of None \<Rightarrow> cs c | Some r \<Rightarrow> set_revent (scast r) (cs c))"
proof (induction rs arbitrary: cs)
  case Nil
  then show ?case by (simp add: set_all_revents_def)
next
  case (Cons x rs)
  have "map_of rs (fst x) = None" using Cons.prems by (simp add: map_of_eq_None_iff)
  with Cons show ?case
    by (cases x) (auto simp: set_all_revents_def split: option.splits)
qed

lemma distinct_map_filter_nth:
  "(\<And>i j. i < j \<Longrightarrow> j < length ts \<Longrightarrow> P (ts ! i) \<Longrightarrow> P (ts ! j) \<Longrightarrow> f (ts ! i) \<noteq> f (ts ! j)) \<Longrightarrow>
   distinct (map f (filter P ts))"
proof (induction ts)
  case Nil
  then show ?case by simp
next
  case (Cons t ts)
  have "distinct (map f (filter P ts))"
    using Cons.prems[of "Suc i" "Suc j" for i j] by (intro Cons.IH) simp
  moreover have "f t \<noteq> f u" if "P t" "u \<in> set ts" "P u" for u
    using that Cons.prems[of 0 "Suc j" for j] by (auto simp: in_set_conv_nth)
  ultimately show ?case by auto
qed

lemma length_setRevents [simp]: "length (setRevents ts rs) = length ts"
  by (induction ts rs rule: setRevents.induct) auto

lemma nth_setRevents:
  "i < length ts \<Longrightarrow> length rs = length ts \<Longrightarrow> setRevents ts rs ! i = (ts ! i)\<lparr>pfd_revents := rs ! i\<rparr>"
  by (induction ts rs arbitrary: i rule: setRevents.induct) (auto simp: nth_Cons split: nat.splits)

text \<open>What one successful call leaves behind, for an entry \<open>i\<close> and its channel \<open>c\<close>.\<close>

definition reported :: "pstate \<Rightarrow> 16 word list \<Rightarrow> chan_id list \<Rightarrow> chan_heap \<Rightarrow> bool" where
  "reported s revs act cs' \<longleftrightarrow>
     (let (cs, p) = s in
      \<forall>i < length (pollfds p). \<forall>c. channels p (orig_fd (pfd_fd (pollfds p ! i))) = Some c \<longrightarrow>
        (if revs ! i \<noteq> 0 then c \<in> set act \<and> cs' c = set_revent (scast (revs ! i)) (cs c)
         else c \<notin> set act \<and> cs' c = cs c))"

lemma poller_wf_revents:
  assumes wf: "poller_wf (cs, p)"
    and same: "\<And>c. ch_fd (cs' c) = ch_fd (cs c) \<and> ch_index (cs' c) = ch_index (cs c)"
    and L: "length L = length (pollfds p)" "\<And>i. i < length (pollfds p) \<Longrightarrow> pfd_fd (L ! i) = pfd_fd (pollfds p ! i)"
  shows "poller_wf (cs', p\<lparr>pollfds := L\<rparr>)"
proof -
  have "poller_wf (cs', p\<lparr>pollfds := L, channels := channels p\<rparr>)"
  proof (rule poller_wfI, goal_cases)
    case (1 i)
    then show ?case using poller_wf_entry[OF wf] same L by simp
  next
    case (2 f c)
    then show ?case using poller_wf_chan[OF wf 2] same[of c] L by simp
  qed
  then show ?thesis by simp
qed

definition poll_answer :: "pstate \<Rightarrow> int \<Rightarrow> 16 word list \<Rightarrow> bool" where
  "poll_answer s n revs \<longleftrightarrow> poller_wf s \<and> poll_reports (pollRequest (snd s)) n revs"

lemma poll_answer_length: "poll_answer (cs, p) n revs \<Longrightarrow> length revs = length (pollfds p)"
  by (simp add: poll_answer_def poll_reports_def pollRequest_def)

lemma poll_answer_watched:
  assumes "poll_answer (cs, p) n revs" and "i < length (pollfds p)" and "revs ! i \<noteq> 0"
  shows "0 \<le> pfd_fd (pollfds p ! i)"
  using assms unfolding poll_answer_def poll_reports_def pollRequest_def by (force simp: set_zip)

lemma poll_answer_entry:
  assumes "poll_answer (cs, p) n revs" and "i < length (pollfds p)" and "revs ! i \<noteq> 0"
  obtains c where "channels p (pfd_fd (pollfds p ! i)) = Some c" "ch_index (cs c) = int i"
  using poller_wf_entry[of cs p i] poll_answer_watched[OF assms] assms(1,2)
  by (auto simp: poll_answer_def)

lemma poll_answer_count:
  assumes "poll_answer (cs, p) n revs"
  shows "length (filter (\<lambda>t. pfd_revents t \<noteq> 0) (setRevents (pollfds p) revs)) = length (filter (\<lambda>r. r \<noteq> 0) revs)"
proof -
  have "map pfd_revents (setRevents (pollfds p) revs) = revs"
    by (rule nth_equalityI) (simp_all add: poll_answer_length[OF assms] nth_setRevents)
  then have "length (filter (\<lambda>r. r \<noteq> 0) (map pfd_revents (setRevents (pollfds p) revs)))
      = length (filter (\<lambda>r. r \<noteq> 0) revs)" by simp
  then show ?thesis by (simp add: filter_map o_def)
qed

lemma active_iff:
  assumes "poll_answer (cs, p) n revs"
  shows "(c, r) \<in> set (active_of (channels p) (setRevents (pollfds p) revs)) \<longleftrightarrow>
   (\<exists>i < length (pollfds p). revs ! i = r \<and> r \<noteq> 0 \<and> the (channels p (pfd_fd (pollfds p ! i))) = c)"
    (is "_ \<in> set (active_of _ ?L) \<longleftrightarrow> _")
proof
  note [simp] = nth_setRevents poll_answer_length[OF assms]
  assume "(c, r) \<in> set (active_of (channels p) ?L)"
  then obtain t where t: "t \<in> set ?L" "pfd_revents t \<noteq> 0" "c = the (channels p (pfd_fd t))" "r = pfd_revents t"
    by (auto simp: active_of_def)
  then obtain i where "i < length (pollfds p)" "t = ?L ! i" by (auto simp: in_set_conv_nth)
  with t show "\<exists>i < length (pollfds p). revs ! i = r \<and> r \<noteq> 0 \<and> the (channels p (pfd_fd (pollfds p ! i))) = c"
    by auto
next
  note [simp] = nth_setRevents poll_answer_length[OF assms]
  assume "\<exists>i < length (pollfds p). revs ! i = r \<and> r \<noteq> 0 \<and> the (channels p (pfd_fd (pollfds p ! i))) = c"
  then obtain i where i: "i < length (pollfds p)" "revs ! i = r" "r \<noteq> 0" "the (channels p (pfd_fd (pollfds p ! i))) = c"
    by blast
  have "?L ! i \<in> set ?L" by (rule nth_mem) (simp add: i(1))
  from active_ofI[OF this, of "channels p"] i
  show "(c, r) \<in> set (active_of (channels p) ?L)" by simp
qed

lemma active_distinct:
  assumes pa: "poll_answer (cs, p) n revs"
  shows "distinct (map fst (active_of (channels p) (setRevents (pollfds p) revs)))"
proof -
  have "distinct (map (\<lambda>t. the (channels p (pfd_fd t))) (filter (\<lambda>t. pfd_revents t \<noteq> 0) (setRevents (pollfds p) revs)))"
  proof (rule distinct_map_filter_nth)
    fix i j
    assume ij: "i < j" "j < length (setRevents (pollfds p) revs)"
      "pfd_revents (setRevents (pollfds p) revs ! i) \<noteq> 0" "pfd_revents (setRevents (pollfds p) revs ! j) \<noteq> 0"
    then have "i < length (pollfds p)" "revs ! i \<noteq> 0" "j < length (pollfds p)" "revs ! j \<noteq> 0"
      by (simp_all add: nth_setRevents poll_answer_length[OF pa])
    then obtain c d where "channels p (pfd_fd (pollfds p ! i)) = Some c" "ch_index (cs c) = int i"
      "channels p (pfd_fd (pollfds p ! j)) = Some d" "ch_index (cs d) = int j"
      using poll_answer_entry[OF pa] by metis
    with ij show "the (channels p (pfd_fd (setRevents (pollfds p) revs ! i)))
        \<noteq> the (channels p (pfd_fd (setRevents (pollfds p) revs ! j)))"
      by (auto simp: nth_setRevents poll_answer_length[OF pa])
  qed
  then show ?thesis by (simp add: active_of_def o_def)
qed

lemma fill_result:
  assumes pa: "poll_answer (cs, p) n revs"
  shows "fillActiveChannels (setRevents (pollfds p) revs) n (channels p) cs [] =
    Inr (set_all_revents (active_of (channels p) (setRevents (pollfds p) revs)) cs,
         map fst (active_of (channels p) (setRevents (pollfds p) revs)))"
proof -
  have "fillActiveChannels (setRevents (pollfds p) revs) n (channels p) cs [] =
    Inr (set_all_revents (active_of (channels p) (setRevents (pollfds p) revs)) cs,
         [] @ map fst (active_of (channels p) (setRevents (pollfds p) revs)))"
  proof (rule fillActiveChannels_exact)
    fix t assume "t \<in> set (setRevents (pollfds p) revs)"
    then obtain i where i: "i < length (pollfds p)" "t = setRevents (pollfds p) revs ! i"
      by (auto simp: in_set_conv_nth)
    then have t: "pfd_revents t = revs ! i" "pfd_fd t = pfd_fd (pollfds p ! i)"
      by (simp_all add: nth_setRevents poll_answer_length[OF pa])
    show "0 \<le>s pfd_revents t" using pa[unfolded poll_answer_def] t i(1) poll_answer_length[OF pa] by (simp add: poll_reports_def)
    show "channels p (pfd_fd t) \<noteq> None" if "pfd_revents t \<noteq> 0"
      using poll_answer_entry[OF pa i(1)] that t by auto
  qed (use pa[unfolded poll_answer_def] poll_answer_count[OF pa] in \<open>simp add: poll_reports_def\<close>)
  then show ?thesis by simp
qed

lemma fill_reported:
  assumes pa: "poll_answer (cs, p) n revs"
  shows "reported (cs, p) revs (map fst (active_of (channels p) (setRevents (pollfds p) revs)))
     (set_all_revents (active_of (channels p) (setRevents (pollfds p) revs)) cs)"
  unfolding reported_def prod.case Let_def
proof (intro allI impI)
  fix i c
  let ?A = "active_of (channels p) (setRevents (pollfds p) revs)"
  assume i: "i < length (pollfds p)" and c: "channels p (orig_fd (pfd_fd (pollfds p ! i))) = Some c"
  have idx: "ch_index (cs c) = int i"
    using pa poller_wf_entry[of cs p i] i c by (auto simp: poll_answer_def)
  have only: "j = i" if j: "j < length (pollfds p)" "revs ! j \<noteq> 0" "the (channels p (pfd_fd (pollfds p ! j))) = c" for j
  proof -
    obtain d where "channels p (pfd_fd (pollfds p ! j)) = Some d" "ch_index (cs d) = int j"
      using poll_answer_entry[OF pa j(1,2)] by blast
    with j(3) idx show ?thesis by simp
  qed
  show "if revs ! i \<noteq> 0 then c \<in> set (map fst ?A) \<and> set_all_revents ?A cs c = set_revent (scast (revs ! i)) (cs c)
        else c \<notin> set (map fst ?A) \<and> set_all_revents ?A cs c = cs c"
  proof (cases "revs ! i = 0")
    case False
    have "the (channels p (pfd_fd (pollfds p ! i))) = c" using poll_answer_watched[OF pa i False] c by simp
    with False i have A: "(c, revs ! i) \<in> set ?A" unfolding active_iff[OF pa] by blast
    then have "map_of ?A c = Some (revs ! i)" using active_distinct[OF pa] by simp
    with False A show ?thesis by (force simp: set_all_revents_apply[OF active_distinct[OF pa]])
  next
    case True
    have nin: "c \<notin> set (map fst ?A)"
    proof
      assume "c \<in> set (map fst ?A)"
      then obtain r where "(c, r) \<in> set ?A" by auto
      with only True show False unfolding active_iff[OF pa] by blast
    qed
    then have "map_of ?A c = None" by (simp add: map_of_eq_None_iff)
    with True nin show ?thesis by (simp add: set_all_revents_apply[OF active_distinct[OF pa]])
  qed
qed

section \<open>Contracts\<close>

text \<open>A channel and the poller agree: unknown with index -1, or registered as itself.\<close>

definition chan_known :: "pstate \<Rightarrow> chan_id \<Rightarrow> bool" where
  "chan_known s c \<longleftrightarrow>
     (let (cs, p) = s in
      if ch_index (cs c) < 0 then channels p (ch_fd (cs c)) = None
      else channels p (ch_fd (cs c)) = Some c)"

lemma updateChannel_known:
  assumes wf: "poller_wf (cs, p)" and known: "chan_known (cs, p) c"
    and upd: "updateChannel c (cs, p) = Inr t"
  shows "channels (snd t) (ch_fd (cs c)) = Some c \<and> 0 \<le> ch_index (fst t c) \<and> ch_fd (fst t c) = ch_fd (cs c)"
  using upd by (cases rule: updateChannel_cases) (use known in \<open>auto simp: chan_known_def set_index_def\<close>)

text \<open>A poller with three registered channels, for the examples; channel 0 is disabled.\<close>

definition sampleChans :: chan_heap where
  "sampleChans = (\<lambda>c. (mkChannel 0 (int c + 5))\<lparr>ch_index := (if c < 3 then int c else - 1), ch_events := (if c = 0 then 0 else 3)\<rparr>)"

definition samplePoller :: poller where
  "samplePoller =
     \<lparr>pollfds = [\<lparr>pfd_fd = - 6, pfd_events = 0, pfd_revents = 0\<rparr>,
                \<lparr>pfd_fd = 6, pfd_events = 3, pfd_revents = 0\<rparr>,
                \<lparr>pfd_fd = 7, pfd_events = 3, pfd_revents = 0\<rparr>],
      channels = [5 \<mapsto> 0, 6 \<mapsto> 1, 7 \<mapsto> 2]\<rparr>"

lemma sample_wf: "poller_wf (sampleChans, samplePoller)"
  by (auto simp: poller_wf_def sampleChans_def samplePoller_def mkChannel_def orig_fd_def less_Suc_eq
      split: if_splits)

text \<open>
  C13: \<open>updateChannel\<close> called for a channel that agrees with the poller always goes through; it
  keeps the invariant, registers the channel, changes the watched events of this descriptor to
  the channel's and nothing of any other descriptor.  A descriptor is watched after a first
  registration; a later update stops watching it when no event is left, and one that is not
  watched stays unwatched whatever events are enabled.
\<close>

theorem updateChannel_contract:
  assumes "poller_wf (cs, p)" and "0 \<le> ch_fd (cs c)" and "chan_known (cs, p) c"
  shows "\<exists>t. updateChannel c (cs, p) = Inr t \<and> poller_wf t \<and> channels (snd t) (ch_fd (cs c)) = Some c
     \<and> interest t = (interest (cs, p))(ch_fd (cs c) \<mapsto>
          (watch_after (interest (cs, p) (ch_fd (cs c))) (cs c), ucast (ch_events (cs c))))"
proof -
  obtain t where t: "updateChannel c (cs, p) = Inr t"
    using updateChannel_succeeds[OF assms(1), of c] assms(3) by (auto simp: chan_known_def)
  from updateChannel_wf[OF assms(1,2) t] updateChannel_known[OF assms(1,3) t]
    updateChannel_interest[OF assms(1,2) t] t
  show ?thesis by blast
qed

theorem updateChannel_contract_witness:
  "\<exists>t. updateChannel 3 (sampleChans, samplePoller) = Inr t \<and> poller_wf t
     \<and> channels (snd t) (ch_fd (sampleChans 3)) = Some 3
     \<and> interest t = (interest (sampleChans, samplePoller))(ch_fd (sampleChans 3) \<mapsto>
          (watch_after (interest (sampleChans, samplePoller) (ch_fd (sampleChans 3))) (sampleChans 3),
           ucast (ch_events (sampleChans 3))))"
  by (rule updateChannel_contract [OF sample_wf])
    (simp_all add: chan_known_def sampleChans_def samplePoller_def mkChannel_def)

text \<open>
  C14: \<open>removeChannel\<close>, in the loop thread, of a registered channel with no event enabled whose
  last update reached the poller, always goes through, keeps the invariant (the entry moved into
  the gap gets its new index) and forgets this descriptor and no other.
\<close>

theorem removeChannel_contract:
  assumes "poller_wf (cs, p)" and "channels p (ch_fd (cs c)) = Some c" and "isNoneEvent (cs c)"
    and "interest (cs, p) (ch_fd (cs c)) = Some (False, 0)"
  shows "\<exists>t. removeChannel True c (cs, p) = Inr t \<and> poller_wf t
     \<and> length (pollfds (snd t)) = length (pollfds p) - 1
     \<and> interest t = (interest (cs, p))(ch_fd (cs c) := None)"
proof -
  obtain t where t: "removeChannel True c (cs, p) = Inr t"
    using removeChannel_succeeds[OF assms] by blast
  have "length (pollfds (snd t)) = length (pollfds p) - 1"
    using t by (cases rule: removeChannel_cases) simp_all
  with removeChannel_wf[OF assms(1) t] removeChannel_interest[OF assms(1) t] t
  show ?thesis by blast
qed

theorem removeChannel_contract_witness:
  "\<exists>t. removeChannel True 0 (sampleChans, samplePoller) = Inr t \<and> poller_wf t
     \<and> length (pollfds (snd t)) = length (pollfds samplePoller) - 1
     \<and> interest t = (interest (sampleChans, samplePoller))(ch_fd (sampleChans 0) := None)"
  by (rule removeChannel_contract [OF sample_wf])
    (simp_all add: sampleChans_def samplePoller_def mkChannel_def isNoneEvent_def event_masks interest_def)

text \<open>
  A registration can be undone: registering a new channel, disabling all its events
  (with the update \<open>disableAll\<close> makes) and removing it all go through, and leave the poller
  watching exactly what it watched before.
\<close>

theorem register_disable_remove:
  assumes "poller_wf (cs, p)" and "0 \<le> ch_fd (cs c)" and "ch_index (cs c) < 0"
    and "channels p (ch_fd (cs c)) = None"
  shows "\<exists>t. bindR (updateChannel c (cs, p))
              (\<lambda>(cs1, p1). bindR (updateChannel c (cs1(c := clearEvents (cs1 c)), p1))
                (removeChannel True c)) = Inr t
           \<and> poller_wf t \<and> interest t = interest (cs, p)"
proof -
  obtain t1 where t1: "updateChannel c (cs, p) = Inr t1"
    using updateChannel_succeeds[OF assms(1), of c] assms(3,4) by auto
  obtain cs1 p1 where e1: "t1 = (cs1, p1)" by (cases t1)
  have known: "chan_known (cs, p) c" using assms(3,4) by (simp add: chan_known_def)
  have wf1: "poller_wf (cs1, p1)" using updateChannel_wf[OF assms(1,2) t1] e1 by simp
  have k1: "channels p1 (ch_fd (cs c)) = Some c" "0 \<le> ch_index (cs1 c)" "ch_fd (cs1 c) = ch_fd (cs c)"
    using updateChannel_known[OF assms(1) known t1] e1 by simp_all
  let ?cs = "cs1(c := clearEvents (cs1 c))"
  have wf2: "poller_wf (?cs, p1)" using wf1 by (rule poller_wf_cong) (simp add: clearEvents_def)
  have i2: "interest (?cs, p1) = interest (cs1, p1)"
    by (rule ext) (simp add: interest_def clearEvents_def split: option.splits)
  have known2: "chan_known (?cs, p1) c" and fd2: "ch_fd (?cs c) = ch_fd (cs c)"
    using k1 by (simp_all add: chan_known_def clearEvents_def)
  obtain t2 where t2: "updateChannel c (?cs, p1) = Inr t2"
    using updateChannel_succeeds[OF wf2, of c] known2 by (auto simp: chan_known_def)
  obtain cs2 p2 where e2: "t2 = (cs2, p2)" by (cases t2)
  have fd2': "0 \<le> ch_fd (?cs c)" using fd2 assms(2) by simp
  have wf3: "poller_wf (cs2, p2)" using updateChannel_wf[OF wf2 fd2' t2] e2 by simp
  have cs2: "cs2 = ?cs" using t2 e2 k1(2) by (cases rule: updateChannel_cases) (auto simp: clearEvents_def)
  have k2: "channels p2 (ch_fd (cs2 c)) = Some c"
    using updateChannel_known[OF wf2 known2 t2] e2 cs2 by simp
  have i3: "interest (cs2, p2) = (interest (?cs, p1))(ch_fd (cs c) \<mapsto> (False, 0))"
    using updateChannel_interest[OF wf2 fd2' t2] e2 fd2 i2 updateChannel_interest[OF assms(1,2) t1] e1
    by (auto simp: watch_after_def isNoneEvent_def clearEvents_def event_masks split: option.splits)
  have "isNoneEvent (cs2 c)" "interest (cs2, p2) (ch_fd (cs2 c)) = Some (False, 0)"
    using cs2 i3 fd2 by simp_all
  then obtain t where t: "removeChannel True c (cs2, p2) = Inr t"
    using removeChannel_succeeds[OF wf3 k2] by blast
  have "interest t = (interest (cs2, p2))(ch_fd (cs c) := None)"
    using removeChannel_interest[OF wf3 t] cs2 fd2 by simp
  also have "\<dots> = (interest (cs, p))(ch_fd (cs c) := None)"
    unfolding i3 i2 using updateChannel_interest[OF assms(1,2) t1] e1 by simp
  also have "\<dots> = interest (cs, p)" using assms(4) by (auto simp: interest_def)
  finally show ?thesis using t1 t2 t e1 e2 removeChannel_wf[OF wf3 t] by simp
qed

theorem register_disable_remove_witness:
  "\<exists>t. bindR (updateChannel 3 (sampleChans, samplePoller))
              (\<lambda>(cs1, p1). bindR (updateChannel 3 (cs1(3 := clearEvents (cs1 3)), p1))
                (removeChannel True 3)) = Inr t
           \<and> poller_wf t \<and> interest t = interest (sampleChans, samplePoller)"
  by (rule register_disable_remove [OF sample_wf])
    (simp_all add: sampleChans_def samplePoller_def mkChannel_def)

text \<open>A change of \<open>events_\<close> followed by \<open>update()\<close>, as in \<open>enableRead\<close>, \<open>enableWrite\<close> and \<open>disableAll\<close>.\<close>

definition assignEvents :: "chan_id \<Rightarrow> 32 word \<Rightarrow> pstate \<Rightarrow> pstate result" where
  "assignEvents c ev s = updateChannel c ((fst s)(c := (fst s c)\<lparr>ch_events := ev\<rparr>), snd s)"

text \<open>
  A descriptor whose channel once had no event enabled is never polled again while it is
  registered: whatever events its channel enables and however often it is updated, the entry
  stays negated, so \<open>::poll\<close> ignores it.
\<close>

theorem disabled_never_rewatched:
  assumes "poller_wf (cs, p)" and "channels p (ch_fd (cs c)) = Some c"
    and "interest (cs, p) (ch_fd (cs c)) = Some (False, e)"
    and "foldR (assignEvents c) evs (cs, p) = Inr (cs', p')"
  shows "\<exists>e'. interest (cs', p') (ch_fd (cs c)) = Some (False, e')"
  using assms
proof (induction evs arbitrary: cs p e)
  case Nil
  then show ?case by auto
next
  case (Cons ev evs)
  let ?h = "cs(c := (cs c)\<lparr>ch_events := ev\<rparr>)"
  from Cons.prems(4) obtain r where r: "assignEvents c ev (cs, p) = Inr r"
    "foldR (assignEvents c) evs r = Inr (cs', p')"
    by (auto simp: result_simps)
  obtain h q where "r = (h, q)" by (cases r)
  with r have u: "updateChannel c (?h, p) = Inr (h, q)"
    "foldR (assignEvents c) evs (h, q) = Inr (cs', p')" by (simp_all add: assignEvents_def)
  have wf: "poller_wf (?h, p)" using Cons.prems(1) by (rule poller_wf_cong) simp
  have fd: "0 \<le> ch_fd (?h c)" using poller_wf_chan(1)[OF Cons.prems(1,2)] by simp
  have known: "chan_known (?h, p) c"
    using Cons.prems(2) poller_wf_chan(3)[OF Cons.prems(1,2)] by (simp add: chan_known_def)
  have i: "interest (?h, p) = interest (cs, p)"
    by (rule ext) (simp add: interest_def split: option.splits)
  note k = updateChannel_known[OF wf known u(1)]
  have "interest (h, q) (ch_fd (h c)) = Some (False, ucast ev)"
    using updateChannel_interest[OF wf fd u(1)] i Cons.prems(3) k by (simp add: watch_after_def)
  moreover have "channels q (ch_fd (h c)) = Some c" using k by simp
  ultimately have "\<exists>e'. interest (cs', p') (ch_fd (h c)) = Some (False, e')"
    using Cons.IH[OF updateChannel_wf[OF wf fd u(1)]] u(2) by blast
  with k show ?case by simp
qed

theorem disabled_never_rewatched_witness:
  "\<exists>cs' p' e'. foldR (assignEvents 0) [3, 7]
       (sampleChans, samplePoller) = Inr (cs', p') \<and> interest (cs', p') 5 = Some (False, e')"
proof -
  have c: "channels samplePoller (ch_fd (sampleChans 0)) = Some 0"
    "interest (sampleChans, samplePoller) (ch_fd (sampleChans 0)) = Some (False, 0)" "ch_fd (sampleChans 0) = 5"
    by (simp_all add: sampleChans_def samplePoller_def mkChannel_def interest_def)
  have run: "\<exists>r. foldR (assignEvents 0) [3, 7]
       (sampleChans, samplePoller) = Inr r"
    by (simp add: assignEvents_def updateChannel_def sampleChans_def samplePoller_def mkChannel_def isNoneEvent_def event_masks)
  then obtain cs' p' where r: "foldR (assignEvents 0) [3, 7]
       (sampleChans, samplePoller) = Inr (cs', p')" by (metis surj_pair)
  with disabled_never_rewatched[OF sample_wf c(1,2) r] c(3) show ?thesis by auto
qed

text \<open>
  C4: one \<open>Poller::poll\<close> that finds events, under poll(2) as documented, goes through; its active
  list holds each channel with an event once and no other channel, each active channel's
  \<open>revents_\<close> is what the system call reported for its descriptor and no other channel changes,
  the invariant and the registrations are kept, and the returned time was read after the call.
\<close>

theorem poll_exact:
  assumes "poller_wf (cs, p)" and "poll_of E tr (pollRequest p) w = (n, revs)" and "0 < n"
    and "poll_reports (pollRequest p) n revs"
  shows "\<exists>act cs' p'. poll E w [] tr (cs, p) =
       Inr (now_of E (tr @ [SysPoll (pollRequest p) w n]), act, (cs', p'),
            tr @ [SysPoll (pollRequest p) w n, SysNow (now_of E (tr @ [SysPoll (pollRequest p) w n]))])
     \<and> distinct act \<and> reported (cs, p) revs act cs' \<and> poller_wf (cs', p')
     \<and> interest (cs', p') = interest (cs, p)"
proof -
  have pa: "poll_answer (cs, p) n revs" using assms by (simp add: poll_answer_def)
  let ?A = "active_of (channels p) (setRevents (pollfds p) revs)"
  let ?cs = "set_all_revents ?A cs" and ?p = "p\<lparr>pollfds := setRevents (pollfds p) revs\<rparr>"
  have same: "ch_fd (?cs c) = ch_fd (cs c) \<and> ch_index (?cs c) = ch_index (cs c)" for c
    by (simp add: set_all_revents_apply[OF active_distinct[OF pa]] set_revent_def split: option.splits)
  have nth: "pfd_fd (setRevents (pollfds p) revs ! i) = pfd_fd (pollfds p ! i)"
    "pfd_events (setRevents (pollfds p) revs ! i) = pfd_events (pollfds p ! i)"
    if "i < length (pollfds p)" for i
    using that poll_answer_length[OF pa] by (simp_all add: nth_setRevents)
  have "poller_wf (?cs, ?p)" by (rule poller_wf_revents[OF assms(1) same]) (simp_all add: nth)
  moreover have "interest (?cs, ?p) = interest (cs, p)"
    using poller_wf_chan(4)[OF assms(1)] same nth
    by (intro ext) (simp add: interest_def Let_def split: option.splits)
  moreover have "poll E w [] tr (cs, p) =
       Inr (now_of E (tr @ [SysPoll (pollRequest p) w n]), map fst ?A, (?cs, ?p),
            tr @ [SysPoll (pollRequest p) w n, SysNow (now_of E (tr @ [SysPoll (pollRequest p) w n]))])"
    using assms(2,3) fill_result[OF pa] by (simp add: poll_def Let_def)
  ultimately show ?thesis using active_distinct[OF pa] fill_reported[OF pa] by blast
qed

theorem poll_exact_witness:
  "\<exists>act cs' p'. poll (sampleEnv\<lparr>poll_of := \<lambda>tr req w. (1, [0, 0, 1])\<rparr>) 10000 [] [] (sampleChans, samplePoller) =
       Inr (1001, act, (cs', p'), [SysPoll (pollRequest samplePoller) 10000 1, SysNow 1001])
     \<and> distinct act \<and> reported (sampleChans, samplePoller) [0, 0, 1] act cs' \<and> poller_wf (cs', p')
     \<and> interest (cs', p') = interest (sampleChans, samplePoller)"
  using poll_exact [OF sample_wf, of "sampleEnv\<lparr>poll_of := \<lambda>tr req w. (1, [0, 0, 1])\<rparr>" "[]" 10000 1 "[0, 0, 1]"]
  by (simp add: poll_reports_def pollRequest_def samplePoller_def sampleEnv_def word_sle_eq)

end
