(* ===== verification/Timer.thy ===== *)
theory Timer
  imports Callbacks
begin

text \<open>
  \<open>duduo/net/Reactor/Timer.h\<close>, \<open>Timer.cc\<close> and the data of \<open>TimerQueue.h\<close>, \<open>TimerQueue.cc\<close>: a
  timer, the ordered set of (expiration, timer) pairs, the split of that set at the current
  time, and the conversion of an absolute time into the relative time \<open>timerfd_settime\<close> takes.
  The operations that reach the event loop are in \<open>TimerService\<close>.

  A \<open>std::set\<close> of pairs is the strictly sorted list of its elements; a \<open>Timer *\<close> is a number
  below \<open>UINTPTR_MAX\<close>.
\<close>

section \<open>Timers\<close>

record timer =
  tm_callback :: task
  tm_expiration :: timestamp
  tm_interval :: seconds
  tm_repeat :: bool
  tm_sequence :: "64 word"

definition mkTimer :: "task \<Rightarrow> timestamp \<Rightarrow> seconds \<Rightarrow> 64 word \<Rightarrow> timer" where
  "mkTimer cb time itv sequ =
     \<lparr>tm_callback = cb, tm_expiration = time, tm_interval = itv, tm_repeat = (itv > 0), tm_sequence = sequ\<rparr>"

definition restart :: "'b env \<Rightarrow> timestamp \<Rightarrow> timer \<Rightarrow> timer" where
  "restart E now t =
     (if tm_repeat t then t\<lparr>tm_expiration := stamp_addTime E now (tm_interval t)\<rparr>
      else t\<lparr>tm_expiration := stamp_invalid E\<rparr>)"

section \<open>The ordered set of pairs\<close>

datatype entry = Entry (entry_time: timestamp) (entry_timer: timer_ptr)

instantiation entry :: linorder
begin

definition less_entry :: "entry \<Rightarrow> entry \<Rightarrow> bool" where
  "less_entry a b \<longleftrightarrow> entry_time a < entry_time b \<or>
     (\<not> entry_time b < entry_time a \<and> entry_timer a < entry_timer b)"

definition less_eq_entry :: "entry \<Rightarrow> entry \<Rightarrow> bool" where
  "less_eq_entry a b \<longleftrightarrow> a < b \<or> a = b"

instance
proof
  fix x y z :: entry
  show "x < y \<longleftrightarrow> x \<le> y \<and> \<not> y \<le> x" "x \<le> x" by (auto simp: less_entry_def less_eq_entry_def)
  show "x \<le> y \<Longrightarrow> y \<le> z \<Longrightarrow> x \<le> z" "x \<le> y \<Longrightarrow> y \<le> x \<Longrightarrow> x = y"
    by (auto simp: less_entry_def less_eq_entry_def)
  show "x \<le> y \<or> y \<le> x"
    by (cases x; cases y) (auto simp: less_entry_def less_eq_entry_def)
qed

end

definition UINTPTR_MAX :: nat where
  "UINTPTR_MAX = 2 ^ 64 - 1"

record timerqueue =
  tq_timerfd :: int
  tq_timers :: "entry list"
  tq_channel :: chan_id

text \<open>\<open>TimerQueue::insert\<close>: also tells whether the timer is now the earliest.\<close>

definition insertTimer :: "timestamp \<Rightarrow> timer_ptr \<Rightarrow> entry list \<Rightarrow> bool \<times> entry list" where
  "insertTimer expiration timer timers =
     ((case timers of [] \<Rightarrow> True | e # _ \<Rightarrow> expiration < entry_time e),
      insort_insert (Entry expiration timer) timers)"

text \<open>
  \<open>TimerQueue::getExpired\<close>: \<open>lower_bound\<close> is the first element that is not less than the
  dummy; what is before it is returned and erased.
\<close>

definition getExpired :: "timestamp \<Rightarrow> entry list \<Rightarrow> (entry list \<times> entry list) result" where
  "getExpired now timers =
     (let dummy = Entry now UINTPTR_MAX;
          expired = takeWhile (\<lambda>e. e < dummy) timers;
          rest = dropWhile (\<lambda>e. e < dummy) timers
      in if rest = [] \<or> now < entry_time (hd rest) then Inr (expired, rest)
         else Inl (AssertFailed ''end_==timers_.end() || now<end_->first''))"

text \<open>\<open>getTimeDiffFromNow\<close>: seconds and nanoseconds, at least 100 microseconds.\<close>

definition getTimeDiffFromNow :: "'b env \<Rightarrow> timestamp \<Rightarrow> timestamp \<Rightarrow> int \<times> int" where
  "getTimeDiffFromNow E time now =
     (let microSeconds = time - now;
          microSeconds = (if microSeconds < 100 then 100 else microSeconds)
      in (cdiv microSeconds (stamp_kMicroSecondsPerSecond E),
          cmod microSeconds (stamp_kMicroSecondsPerSecond E) * 1000))"

section \<open>The interface of the timer service\<close>

text \<open>
  What the service relies on: an agenda of entries that can be added to and cut at a time, with
  the entries due given out in order.
\<close>

locale agenda =
  fixes inv :: "'q \<Rightarrow> bool"
    and ents :: "'q \<Rightarrow> entry set"
    and add :: "entry \<Rightarrow> 'q \<Rightarrow> 'q"
    and cut :: "timestamp \<Rightarrow> 'q \<Rightarrow> (entry list \<times> 'q) result"
  assumes inv_add: "inv q \<Longrightarrow> entry_timer e < UINTPTR_MAX \<Longrightarrow> inv (add e q)"
    and ents_add: "inv q \<Longrightarrow> ents (add e q) = insert e (ents q)"
    and cut_ok: "inv q \<Longrightarrow> \<exists>xs r. cut now q = Inr (xs, r) \<and> inv r \<and> sorted_wrt (<) xs
        \<and> set xs = {e \<in> ents q. entry_time e \<le> now} \<and> ents r = {e \<in> ents q. now < entry_time e}"
begin

text \<open>Nothing is lost and nothing is given out early, whatever is added between two cuts.\<close>

lemma inv_adds: "inv q \<Longrightarrow> (\<And>e. e \<in> set es \<Longrightarrow> entry_timer e < UINTPTR_MAX) \<Longrightarrow>
  inv (fold add es q) \<and> ents (fold add es q) = set es \<union> ents q"
  by (induction es arbitrary: q) (auto simp: inv_add ents_add)

lemma cut_again:
  assumes "inv q" and "cut now q = Inr (xs, r)" and "\<And>e. e \<in> set es \<Longrightarrow> entry_timer e < UINTPTR_MAX"
    and "cut later (fold add es r) = Inr (ys, r')"
  shows "set ys = {e \<in> set es. entry_time e \<le> later} \<union> {e \<in> ents q. now < entry_time e \<and> entry_time e \<le> later}"
proof -
  from cut_ok[OF assms(1), of now] assms(2) have r: "inv r" "ents r = {e \<in> ents q. now < entry_time e}"
    by auto
  from inv_adds[OF r(1) assms(3)] have f: "inv (fold add es r)" "ents (fold add es r) = set es \<union> ents r"
    by auto
  from cut_ok[OF f(1), of later] assms(4) f(2) r(2) show ?thesis by auto
qed

end

definition timers_wf :: "entry list \<Rightarrow> bool" where
  "timers_wf ts \<longleftrightarrow> sorted_wrt (<) ts \<and> (\<forall>e \<in> set ts. entry_timer e < UINTPTR_MAX)"

lemma strict_sorted_insort_insert: "sorted_wrt (<) (insort_insert e ts)" if "sorted_wrt (<) (ts :: entry list)"
  using that by (simp add: strict_sorted_iff sorted_insort_insert distinct_insort_insert)

lemma insertTimer_snd: "snd (insertTimer t p ts) = insort_insert (Entry t p) ts"
  by (simp add: insertTimer_def)

lemma timers_wf_insert:
  "timers_wf ts \<Longrightarrow> p < UINTPTR_MAX \<Longrightarrow> timers_wf (snd (insertTimer t p ts))"
  by (auto simp: timers_wf_def insertTimer_snd strict_sorted_insort_insert set_insort_insert)

lemma less_dummy: "entry_timer e < UINTPTR_MAX \<Longrightarrow> e < Entry now UINTPTR_MAX \<longleftrightarrow> entry_time e \<le> now"
  by (auto simp: less_entry_def)

lemma entry_time_mono: "(a :: entry) < b \<Longrightarrow> entry_time a \<le> entry_time b"
  by (auto simp: less_entry_def)

lemma cut_list:
  assumes "timers_wf ts"
  shows "takeWhile (\<lambda>e. e < Entry now UINTPTR_MAX) ts = filter (\<lambda>e. entry_time e \<le> now) ts
    \<and> dropWhile (\<lambda>e. e < Entry now UINTPTR_MAX) ts = filter (\<lambda>e. now < entry_time e) ts"
  using assms
proof (induction ts)
  case Nil
  then show ?case by simp
next
  case (Cons a ts)
  have wf: "timers_wf ts" and a: "a < Entry now UINTPTR_MAX \<longleftrightarrow> entry_time a \<le> now"
    using Cons.prems by (simp_all add: timers_wf_def less_dummy)
  have later: "entry_time a \<le> entry_time e" if "e \<in> set ts" for e
    using Cons.prems that by (auto simp: timers_wf_def intro: entry_time_mono)
  show ?case
  proof (cases "entry_time a \<le> now")
    case True
    with a Cons.IH[OF wf] show ?thesis by simp
  next
    case False
    with later have "filter (\<lambda>e. entry_time e \<le> now) ts = []" "filter (\<lambda>e. now < entry_time e) ts = ts"
      by (force simp: filter_empty_conv filter_id_conv)+
    with False a show ?thesis by simp
  qed
qed

lemma getExpired_eq:
  assumes "timers_wf ts"
  shows "getExpired now ts =
    Inr (filter (\<lambda>e. entry_time e \<le> now) ts, filter (\<lambda>e. now < entry_time e) ts)"
proof -
  let ?r = "filter (\<lambda>e. now < entry_time e) ts"
  have "?r = [] \<or> now < entry_time (hd ?r)" using hd_in_set[of ?r] by auto
  then show ?thesis unfolding getExpired_def by (simp only: cut_list[OF assms] Let_def if_True)
qed

interpretation tset: agenda timers_wf set
  "\<lambda>e ts. snd (insertTimer (entry_time e) (entry_timer e) ts)" getExpired
proof (unfold_locales, goal_cases)
  case (1 q e) then show ?case by (rule timers_wf_insert)
next
  case (2 q e) then show ?case by (simp add: insertTimer_snd set_insort_insert)
next
  case (3 q now)
  then show ?case
    by (auto simp: getExpired_eq timers_wf_def sorted_wrt_filter)
qed

end
