(* ===== verification/EventLoop.thy ===== *)
theory EventLoop
  imports Poller Timer
begin

text \<open>
  \<open>duduo/net/Reactor/EventLoop.h\<close>, \<open>EventLoop.cc\<close>, and the operations of \<open>Channel.cc\<close> that go
  through the owner loop: the state of a reactor, the dispatch of events, the queue of functors
  and the loop itself.

  A function that runs closures takes their interpreter \<open>run\<close> as a parameter; \<open>Program\<close> gives
  it for the closures of the library.  The state is an extensible record: the server adds the
  connections to it.  \<open>r_tid\<close> is the thread that executes, which is what
  \<open>muduo::CurrentThread::tid()\<close> returns.
\<close>

record eventloop =
  el_activeChannels :: "chan_id list"
  el_quit :: bool
  el_isLoopping :: bool
  el_threadId :: thread_id
  el_maxWaitTimeM :: int
  el_poller :: poller
  el_timerQueue :: timerqueue
  el_wakeupFd :: int
  el_wakeupChannel :: chan_id
  el_funcQueue :: "task list"
  el_isExecuteQueueFunc :: bool

record reactor =
  r_tid :: thread_id
  r_loopOfThread :: "thread_id \<Rightarrow> loop_id option"   \<comment> \<open>\<open>loopOfCurrentThread_\<close>\<close>
  r_chans :: chan_heap
  r_nextChan :: chan_id
  r_loops :: "loop_id \<Rightarrow> eventloop"
  r_nextLoop :: loop_id
  r_timers :: "timer_ptr \<Rightarrow> timer option"
  r_seqGen :: "64 word"                               \<comment> \<open>\<open>Timer::sequenceNumGenerator_\<close>\<close>
  r_trace :: trace

type_synonym 'z runner = "task \<Rightarrow> 'z reactor_scheme \<Rightarrow> 'z reactor_scheme result"

section \<open>Access to the state\<close>

definition mod_chan :: "chan_id \<Rightarrow> (channel \<Rightarrow> channel) \<Rightarrow> 'z reactor_scheme \<Rightarrow> 'z reactor_scheme" where
  "mod_chan c f s = s\<lparr>r_chans := (r_chans s)(c := f (r_chans s c))\<rparr>"

definition mod_loop :: "loop_id \<Rightarrow> (eventloop \<Rightarrow> eventloop) \<Rightarrow> 'z reactor_scheme \<Rightarrow> 'z reactor_scheme" where
  "mod_loop l f s = s\<lparr>r_loops := (r_loops s)(l := f (r_loops s l))\<rparr>"

definition emit :: "sysev \<Rightarrow> 'z reactor_scheme \<Rightarrow> 'z reactor_scheme" where
  "emit e s = s\<lparr>r_trace := r_trace s @ [e]\<rparr>"

text \<open>\<open>muduo::Timestamp::now()\<close>\<close>

definition readNow :: "'b env \<Rightarrow> 'z reactor_scheme \<Rightarrow> timestamp \<times> 'z reactor_scheme" where
  "readNow E s = (let now = now_of E (r_trace s) in (now, emit (SysNow now) s))"

section \<open>Threads and channels\<close>

definition isInLoopThread :: "loop_id \<Rightarrow> 'z reactor_scheme \<Rightarrow> bool" where
  "isInLoopThread l s \<longleftrightarrow> el_threadId (r_loops s l) = r_tid s"

definition assertInLoopThread :: "loop_id \<Rightarrow> 'z reactor_scheme \<Rightarrow> 'z reactor_scheme result" where
  "assertInLoopThread l s = assertR ''isInLoopThread()'' (isInLoopThread l s) s"

text \<open>The poller of a loop, on the heap of channels.\<close>

definition loop_ps :: "loop_id \<Rightarrow> 'z reactor_scheme \<Rightarrow> pstate" where
  "loop_ps l s = (r_chans s, el_poller (r_loops s l))"

definition set_ps :: "loop_id \<Rightarrow> pstate \<Rightarrow> 'z reactor_scheme \<Rightarrow> 'z reactor_scheme" where
  "set_ps l ps s =
     s\<lparr>r_chans := fst ps, r_loops := (r_loops s)(l := (r_loops s l)\<lparr>el_poller := snd ps\<rparr>)\<rparr>"

definition loopUpdateChannel :: "loop_id \<Rightarrow> chan_id \<Rightarrow> 'z reactor_scheme \<Rightarrow> 'z reactor_scheme result" where
  "loopUpdateChannel l c s = bindR (updateChannel c (loop_ps l s)) (\<lambda>ps. Inr (set_ps l ps s))"

definition loopRemoveChannel :: "loop_id \<Rightarrow> chan_id \<Rightarrow> 'z reactor_scheme \<Rightarrow> 'z reactor_scheme result" where
  "loopRemoveChannel l c s =
     bindR (assertInLoopThread l s)
       (\<lambda>s. bindR (removeChannel (isInLoopThread l s) c (loop_ps l s)) (\<lambda>ps. Inr (set_ps l ps s)))"

definition channelUpdate :: "chan_id \<Rightarrow> 'z reactor_scheme \<Rightarrow> 'z reactor_scheme result" where
  "channelUpdate c s = loopUpdateChannel (ch_ownerLoop (r_chans s c)) c s"

definition enableRead :: "chan_id \<Rightarrow> 'z reactor_scheme \<Rightarrow> 'z reactor_scheme result" where
  "enableRead c s = channelUpdate c (mod_chan c addReadEvent s)"

definition enableWrite :: "chan_id \<Rightarrow> 'z reactor_scheme \<Rightarrow> 'z reactor_scheme result" where
  "enableWrite c s = channelUpdate c (mod_chan c addWriteEvent s)"

definition disableAll :: "chan_id \<Rightarrow> 'z reactor_scheme \<Rightarrow> 'z reactor_scheme result" where
  "disableAll c s = channelUpdate c (mod_chan c clearEvents s)"

text \<open>\<open>disableWrite\<close> does not call \<open>update()\<close>.\<close>

definition disableWrite :: "chan_id \<Rightarrow> 'z reactor_scheme \<Rightarrow> 'z reactor_scheme" where
  "disableWrite c s = mod_chan c disableWriteEvent s"

definition channelRemove :: "chan_id \<Rightarrow> 'z reactor_scheme \<Rightarrow> 'z reactor_scheme result" where
  "channelRemove c s =
     bindR (assertR ''Channel::remove: isNoneEvent()'' (isNoneEvent (r_chans s c)) s)
       (\<lambda>s. loopRemoveChannel (ch_ownerLoop (r_chans s c)) c s)"

text \<open>A new channel object.\<close>

definition newChannel :: "loop_id \<Rightarrow> int \<Rightarrow> 'z reactor_scheme \<Rightarrow> chan_id \<times> 'z reactor_scheme" where
  "newChannel l fd s =
     (let c = r_nextChan s in
      (c, s\<lparr>r_chans := (r_chans s)(c := mkChannel l fd), r_nextChan := Suc c\<rparr>))"

section \<open>Dispatch\<close>

definition callOpt :: "'z runner \<Rightarrow> task option \<Rightarrow> 'z reactor_scheme \<Rightarrow> 'z reactor_scheme result" where
  "callOpt run cb s = (case cb of None \<Rightarrow> Inr s | Some t \<Rightarrow> run t s)"

text \<open>One \<open>if\<close> of \<open>handleEvents\<close>: the bits are read again for each, as the source does.\<close>

definition dispatchStage ::
  "'z runner \<Rightarrow> chan_id \<Rightarrow> (32 word \<Rightarrow> bool) \<Rightarrow> (channel \<Rightarrow> task option) \<Rightarrow> 'z reactor_scheme
   \<Rightarrow> 'z reactor_scheme result" where
  "dispatchStage run c cond cb s =
     (let ch = r_chans s c in if cond (ch_revents ch) then callOpt run (cb ch) s else Inr s)"

definition handleEvents ::
  "'z runner \<Rightarrow> timestamp \<Rightarrow> chan_id \<Rightarrow> 'z reactor_scheme \<Rightarrow> 'z reactor_scheme result" where
  "handleEvents run now c s =
     bindR (dispatchStage run c (\<lambda>r. r AND (POLLNVAL OR POLLERR) \<noteq> 0) ch_errorCallback
              (mod_chan c (\<lambda>ch. ch\<lparr>ch_isHandling := True\<rparr>) s)) (\<lambda>s.
     bindR (dispatchStage run c (\<lambda>r. r AND POLLHUP \<noteq> 0 \<and> r AND POLLIN = 0) ch_closeCallback s) (\<lambda>s.
     bindR (dispatchStage run c (\<lambda>r. r AND (POLLIN OR POLLPRI OR POLLRDHUP) \<noteq> 0)
              (\<lambda>ch. map_option (\<lambda>f. f now) (ch_readCallback ch)) s) (\<lambda>s.
     bindR (dispatchStage run c (\<lambda>r. r AND POLLOUT \<noteq> 0) ch_writeCallback s) (\<lambda>s.
     Inr (mod_chan c (\<lambda>ch. ch\<lparr>ch_isHandling := False\<rparr>) s)))))"

section \<open>The functor queue\<close>

definition wakeup :: "'b env \<Rightarrow> loop_id \<Rightarrow> 'z reactor_scheme \<Rightarrow> 'z reactor_scheme" where
  "wakeup E l s =
     (let value = 0; fd = el_wakeupFd (r_loops s l)
      in emit (SysWriteI64 fd value (writei64_of E (r_trace s) fd value)) s)"

text \<open>\<open>EventLoop::handleRead\<close>\<close>

definition wakeupRead :: "'b env \<Rightarrow> loop_id \<Rightarrow> 'z reactor_scheme \<Rightarrow> 'z reactor_scheme" where
  "wakeupRead E l s =
     (let fd = el_wakeupFd (r_loops s l) in emit (SysReadI64 fd (readi64_of E (r_trace s) fd)) s)"

definition queueInLoop :: "'b env \<Rightarrow> loop_id \<Rightarrow> task \<Rightarrow> 'z reactor_scheme \<Rightarrow> 'z reactor_scheme" where
  "queueInLoop E l cb s =
     (let s = mod_loop l (\<lambda>el. el\<lparr>el_funcQueue := el_funcQueue el @ [cb]\<rparr>) s in
      if \<not> isInLoopThread l s \<or> el_isExecuteQueueFunc (r_loops s l) then wakeup E l s else s)"

definition runInLoop ::
  "'b env \<Rightarrow> 'z runner \<Rightarrow> loop_id \<Rightarrow> task \<Rightarrow> 'z reactor_scheme \<Rightarrow> 'z reactor_scheme result" where
  "runInLoop E run l cb s = (if isInLoopThread l s then run cb s else Inr (queueInLoop E l cb s))"

definition executeQueueFunctions ::
  "'z runner \<Rightarrow> loop_id \<Rightarrow> 'z reactor_scheme \<Rightarrow> 'z reactor_scheme result" where
  "executeQueueFunctions run l s =
     (let s = mod_loop l (\<lambda>el. el\<lparr>el_isExecuteQueueFunc := True\<rparr>) s;
          tmp = el_funcQueue (r_loops s l);
          s = mod_loop l (\<lambda>el. el\<lparr>el_funcQueue := []\<rparr>) s
      in bindR (foldR run tmp s)
           (\<lambda>s. Inr (mod_loop l (\<lambda>el. el\<lparr>el_isExecuteQueueFunc := False\<rparr>) s)))"

definition quit :: "'b env \<Rightarrow> loop_id \<Rightarrow> 'z reactor_scheme \<Rightarrow> 'z reactor_scheme" where
  "quit E l s =
     (let s = mod_loop l (\<lambda>el. el\<lparr>el_quit := True\<rparr>) s in
      if \<not> isInLoopThread l s then wakeup E l s else s)"

section \<open>The loop\<close>

definition loopPoll :: "'b env \<Rightarrow> loop_id \<Rightarrow> 'z reactor_scheme \<Rightarrow> (timestamp \<times> 'z reactor_scheme) result" where
  "loopPoll E l s =
     (let el = r_loops s l in
      bindR (poll E (el_maxWaitTimeM el) (el_activeChannels el) (r_trace s) (loop_ps l s))
        (\<lambda>(now, act, ps, trc).
           Inr (now, mod_loop l (\<lambda>el. el\<lparr>el_activeChannels := act\<rparr>)
                       (set_ps l ps s\<lparr>r_trace := trc\<rparr>))))"

definition loopIteration ::
  "'b env \<Rightarrow> 'z runner \<Rightarrow> loop_id \<Rightarrow> 'z reactor_scheme \<Rightarrow> 'z reactor_scheme result" where
  "loopIteration E run l s =
     (let s = mod_loop l (\<lambda>el. el\<lparr>el_activeChannels := []\<rparr>) s in
      bindR (loopPoll E l s) (\<lambda>(receiveTime, s).
      bindR (foldR (handleEvents run receiveTime) (el_activeChannels (r_loops s l)) s)
        (executeQueueFunctions run l)))"

text \<open>
  \<open>while(!quit_)\<close>: the fuel bounds the iterations looked at, and \<open>None\<close> says that the loop is
  still running after them.
\<close>

fun loopWhile ::
  "'b env \<Rightarrow> 'z runner \<Rightarrow> loop_id \<Rightarrow> nat \<Rightarrow> 'z reactor_scheme \<Rightarrow> 'z reactor_scheme result option" where
  "loopWhile E run l 0 s = (if el_quit (r_loops s l) then Some (Inr s) else None)"
| "loopWhile E run l (Suc n) s =
     (if el_quit (r_loops s l) then Some (Inr s)
      else (case loopIteration E run l s of
              Inl e \<Rightarrow> Some (Inl e)
            | Inr t \<Rightarrow> loopWhile E run l n t))"

definition loop ::
  "'b env \<Rightarrow> 'z runner \<Rightarrow> nat \<Rightarrow> loop_id \<Rightarrow> 'z reactor_scheme \<Rightarrow> 'z reactor_scheme result option" where
  "loop E run fuel l s =
     (case bindR (assertR ''!isLoopping_'' (\<not> el_isLoopping (r_loops s l)) s) (assertInLoopThread l) of
        Inl e \<Rightarrow> Some (Inl e)
      | Inr s \<Rightarrow>
          map_option (\<lambda>r. bindR r (\<lambda>s. Inr (mod_loop l (\<lambda>el. el\<lparr>el_isLoopping := False\<rparr>) s)))
            (loopWhile E run l fuel (mod_loop l (\<lambda>el. el\<lparr>el_isLoopping := True, el_quit := False\<rparr>) s)))"

section \<open>The invariant of a reactor\<close>

lemma mod_loop_sel [simp]:
  "r_chans (mod_loop l f s) = r_chans s" "r_tid (mod_loop l f s) = r_tid s"
  "r_nextChan (mod_loop l f s) = r_nextChan s" "r_timers (mod_loop l f s) = r_timers s"
  "r_trace (mod_loop l f s) = r_trace s" "r_seqGen (mod_loop l f s) = r_seqGen s"
  "r_nextLoop (mod_loop l f s) = r_nextLoop s"
  "r_loops (mod_loop l f s) = (r_loops s)(l := f (r_loops s l))"
  by (simp_all add: mod_loop_def)

lemma mod_chan_sel [simp]:
  "r_loops (mod_chan c g s) = r_loops s" "r_tid (mod_chan c g s) = r_tid s"
  "r_nextChan (mod_chan c g s) = r_nextChan s" "r_timers (mod_chan c g s) = r_timers s"
  "r_trace (mod_chan c g s) = r_trace s" "r_seqGen (mod_chan c g s) = r_seqGen s"
  "r_nextLoop (mod_chan c g s) = r_nextLoop s"
  "r_chans (mod_chan c g s) = (r_chans s)(c := g (r_chans s c))"
  by (simp_all add: mod_chan_def)

lemma emit_sel [simp]:
  "r_loops (emit e s) = r_loops s" "r_tid (emit e s) = r_tid s" "r_chans (emit e s) = r_chans s"
  "r_nextChan (emit e s) = r_nextChan s" "r_timers (emit e s) = r_timers s"
  "r_seqGen (emit e s) = r_seqGen s" "r_nextLoop (emit e s) = r_nextLoop s"
  "r_trace (emit e s) = r_trace s @ [e]"
  by (simp_all add: emit_def)

lemma set_ps_sel [simp]:
  "r_tid (set_ps l ps s) = r_tid s" "r_nextChan (set_ps l ps s) = r_nextChan s"
  "r_timers (set_ps l ps s) = r_timers s" "r_trace (set_ps l ps s) = r_trace s"
  "r_seqGen (set_ps l ps s) = r_seqGen s" "r_nextLoop (set_ps l ps s) = r_nextLoop s"
  "r_chans (set_ps l ps s) = fst ps"
  "r_loops (set_ps l ps s) = (r_loops s)(l := (r_loops s l)\<lparr>el_poller := snd ps\<rparr>)"
  by (simp_all add: set_ps_def)

lemma loop_ps_sel [simp]: "fst (loop_ps l s) = r_chans s" "snd (loop_ps l s) = el_poller (r_loops s l)"
  by (simp_all add: loop_ps_def)

definition reactor_wf :: "'z reactor_scheme \<Rightarrow> bool" where
  "reactor_wf s \<longleftrightarrow>
     (\<forall>l. poller_wf (loop_ps l s)) \<and>
     (\<forall>l f c. channels (el_poller (r_loops s l)) f = Some c \<longrightarrow>
        ch_ownerLoop (r_chans s c) = l \<and> c < r_nextChan s)"

lemma reactor_wfD:
  assumes "reactor_wf s"
  shows "poller_wf (r_chans s, el_poller (r_loops s l))"
    and "channels (el_poller (r_loops s l)) f = Some c \<Longrightarrow> ch_ownerLoop (r_chans s c) = l"
    and "channels (el_poller (r_loops s l)) f = Some c \<Longrightarrow> c < r_nextChan s"
  using assms by (auto simp: reactor_wf_def loop_ps_def)

text \<open>Only the pollers and the identity of the channels matter to the invariant.\<close>

lemma reactor_wf_cong:
  assumes "reactor_wf s" and "\<And>l. el_poller (r_loops t l) = el_poller (r_loops s l)"
    and "\<And>c. c < r_nextChan s \<Longrightarrow> ch_fd (r_chans t c) = ch_fd (r_chans s c)
          \<and> ch_index (r_chans t c) = ch_index (r_chans s c)
          \<and> ch_ownerLoop (r_chans t c) = ch_ownerLoop (r_chans s c)"
    and "r_nextChan s \<le> r_nextChan t"
  shows "reactor_wf t"
proof -
  have "poller_wf (r_chans t, el_poller (r_loops s l))" for l
    using reactor_wfD(1)[OF assms(1)] by (rule poller_wf_cong) (use assms(3) reactor_wfD(3)[OF assms(1)] in blast)
  moreover have "ch_ownerLoop (r_chans t c) = l \<and> c < r_nextChan t"
    if "channels (el_poller (r_loops s l)) f = Some c" for l f c
    using reactor_wfD(2,3)[OF assms(1) that] assms(3,4) by auto
  ultimately show ?thesis using assms(2) by (simp add: reactor_wf_def loop_ps_def)
qed

text \<open>A change of one loop's poller that leaves the channels of the other loops alone.\<close>

lemma reactor_wf_set_ps:
  assumes wf: "reactor_wf s" and p: "poller_wf (cs', p')"
    and own: "\<And>c. ch_ownerLoop (cs' c) = ch_ownerLoop (r_chans s c) \<and> ch_fd (cs' c) = ch_fd (r_chans s c)"
    and idx: "\<And>c. ch_ownerLoop (r_chans s c) \<noteq> l \<Longrightarrow> ch_index (cs' c) = ch_index (r_chans s c)"
    and reg: "\<And>f c. channels p' f = Some c \<Longrightarrow> ch_ownerLoop (r_chans s c) = l \<and> c < r_nextChan s"
  shows "reactor_wf (set_ps l (cs', p') s)"
proof -
  have "poller_wf (cs', el_poller (r_loops s k))" if "k \<noteq> l" for k
    using reactor_wfD(1)[OF wf] by (rule poller_wf_cong) (use own idx reactor_wfD(2)[OF wf] that in auto)
  moreover have "ch_ownerLoop (cs' c) = k \<and> c < r_nextChan s"
    if "channels (el_poller (r_loops s k)) f = Some c" for k f c
    using reactor_wfD(2,3)[OF wf that] own by auto
  ultimately show ?thesis using p own reg by (auto simp: reactor_wf_def loop_ps_def)
qed

lemma loopUpdateChannel_wf:
  assumes wf: "reactor_wf s" and c: "ch_ownerLoop (r_chans s c) = l" "c < r_nextChan s" "0 \<le> ch_fd (r_chans s c)"
    and upd: "loopUpdateChannel l c s = Inr t"
  shows "reactor_wf t"
proof -
  from upd obtain cs' p' where u: "updateChannel c (r_chans s, el_poller (r_loops s l)) = Inr (cs', p')"
    and t: "t = set_ps l (cs', p') s"
    by (auto simp: loopUpdateChannel_def loop_ps_def result_simps)
  have pw: "poller_wf (cs', p')" using updateChannel_wf[OF reactor_wfD(1)[OF wf] c(3) u] .
  have "reactor_wf (set_ps l (cs', p') s)" using u
  proof (cases rule: updateChannel_cases)
    case new
    then show ?thesis using wf c reactor_wfD(2,3)[OF wf, of l]
      by (intro reactor_wf_set_ps[OF wf pw]) (auto simp: set_index_def split: if_splits)
  next
    case old
    then show ?thesis using wf c reactor_wfD(2,3)[OF wf, of l]
      by (intro reactor_wf_set_ps[OF wf pw]) auto
  qed
  with t show ?thesis by simp
qed

lemma loopRemoveChannel_wf:
  assumes wf: "reactor_wf s" and rem: "loopRemoveChannel l c s = Inr t"
  shows "reactor_wf t"
proof -
  from rem obtain cs' p' where u: "removeChannel (isInLoopThread l s) c (r_chans s, el_poller (r_loops s l)) = Inr (cs', p')"
    and t: "t = set_ps l (cs', p') s"
    by (auto simp: loopRemoveChannel_def loop_ps_def result_simps assertInLoopThread_def)
  have pw: "poller_wf (cs', p')" using removeChannel_wf[OF reactor_wfD(1)[OF wf] u] .
  have "reactor_wf (set_ps l (cs', p') s)" using u
  proof (cases rule: removeChannel_cases)
    case tail
    then show ?thesis using wf reactor_wfD(2,3)[OF wf, of l]
      by (intro reactor_wf_set_ps[OF wf pw]) (auto split: if_splits)
  next
    case (swap d)
    then have "channels (el_poller (r_loops s l)) (orig_fd (pfd_fd (last (pollfds (el_poller (r_loops s l)))))) = Some d"
      by (auto split: if_splits)
    from reactor_wfD(2)[OF wf this] swap show ?thesis using reactor_wfD(2,3)[OF wf, of l]
      by (intro reactor_wf_set_ps[OF wf pw]) (auto simp: set_index_def split: if_splits)
  qed
  with t show ?thesis by simp
qed

text \<open>The channel operations keep the invariant.\<close>

lemma reactor_wf_mod_chan:
  assumes "reactor_wf s"
    and "ch_fd (g (r_chans s c)) = ch_fd (r_chans s c)"
    and "ch_index (g (r_chans s c)) = ch_index (r_chans s c)"
    and "ch_ownerLoop (g (r_chans s c)) = ch_ownerLoop (r_chans s c)"
  shows "reactor_wf (mod_chan c g s)"
  using assms(1) by (rule reactor_wf_cong) (use assms in auto)

lemma reactor_wf_mod_loop:
  "reactor_wf s \<Longrightarrow> el_poller (f (r_loops s l)) = el_poller (r_loops s l) \<Longrightarrow> reactor_wf (mod_loop l f s)"
  by (erule reactor_wf_cong) auto

lemma reactor_wf_emit: "reactor_wf (emit e s) = reactor_wf s"
  by (auto simp: reactor_wf_def loop_ps_def)

lemma channelUpdate_wf:
  "reactor_wf s \<Longrightarrow> c < r_nextChan s \<Longrightarrow> 0 \<le> ch_fd (r_chans s c) \<Longrightarrow> channelUpdate c s = Inr t \<Longrightarrow> reactor_wf t"
  unfolding channelUpdate_def by (rule loopUpdateChannel_wf) auto

lemma channel_ops_wf:
  assumes "reactor_wf s" and "c < r_nextChan s" and "0 \<le> ch_fd (r_chans s c)"
  shows "enableRead c s = Inr t \<Longrightarrow> reactor_wf t" "enableWrite c s = Inr t \<Longrightarrow> reactor_wf t"
    "disableAll c s = Inr t \<Longrightarrow> reactor_wf t" "reactor_wf (disableWrite c s)"
    "channelRemove c s = Inr t \<Longrightarrow> reactor_wf t"
proof -
  have m: "reactor_wf (mod_chan c g s)" "c < r_nextChan (mod_chan c g s)" "0 \<le> ch_fd (r_chans (mod_chan c g s) c)"
    if "g \<in> {addReadEvent, addWriteEvent, clearEvents, disableWriteEvent}" for g
    using that assms by (auto intro!: reactor_wf_mod_chan
        simp: addReadEvent_def addWriteEvent_def clearEvents_def disableWriteEvent_def)
  show "enableRead c s = Inr t \<Longrightarrow> reactor_wf t" unfolding enableRead_def by (rule channelUpdate_wf[OF m]) auto
  show "enableWrite c s = Inr t \<Longrightarrow> reactor_wf t" unfolding enableWrite_def by (rule channelUpdate_wf[OF m]) auto
  show "disableAll c s = Inr t \<Longrightarrow> reactor_wf t" unfolding disableAll_def by (rule channelUpdate_wf[OF m]) auto
  show "reactor_wf (disableWrite c s)" unfolding disableWrite_def by (rule m) simp
  show "channelRemove c s = Inr t \<Longrightarrow> reactor_wf t"
    using assms(1) by (auto simp: channelRemove_def result_simps intro: loopRemoveChannel_wf)
qed

lemma newChannel_wf: "reactor_wf s \<Longrightarrow> newChannel l fd s = (c, t) \<Longrightarrow> reactor_wf t"
  by (erule reactor_wf_cong) (auto simp: newChannel_def Let_def)

lemma queue_ops_wf:
  assumes "reactor_wf s"
  shows "reactor_wf (wakeup E l s)" "reactor_wf (wakeupRead E l s)" "reactor_wf (queueInLoop E l cb s)"
    "reactor_wf (quit E l s)"
  using assms by (auto simp: wakeup_def wakeupRead_def queueInLoop_def quit_def Let_def reactor_wf_emit
      intro!: reactor_wf_mod_loop)

section \<open>The contract of the callbacks\<close>

text \<open>
  What the loop relies on when it runs closures: an invariant \<open>I\<close> of the state that does not
  depend on the loop's own bookkeeping, and a notion of valid closure \<open>ok\<close> that stays true,
  such that the closures stored in channels and queues are valid and running a valid closure
  keeps the invariant.
\<close>

definition callbacks_of :: "channel \<Rightarrow> timestamp \<Rightarrow> task set" where
  "callbacks_of ch now =
     set_option (ch_errorCallback ch) \<union> set_option (ch_closeCallback ch) \<union>
     set_option (map_option (\<lambda>f. f now) (ch_readCallback ch)) \<union> set_option (ch_writeCallback ch)"

locale reactor_callbacks =
  fixes E :: "'b env" and run :: "'z runner" and I :: "'z reactor_scheme \<Rightarrow> bool"
    and ok :: "task \<Rightarrow> 'z reactor_scheme \<Rightarrow> bool"
  assumes run_keeps: "I s \<Longrightarrow> ok t s \<Longrightarrow> run t s = Inr s' \<Longrightarrow> I s' \<and> (\<forall>u. ok u s \<longrightarrow> ok u s')"
    and ok_callback: "I s \<Longrightarrow> t \<in> callbacks_of (r_chans s c) now \<Longrightarrow> ok t s"
    and ok_queue: "I s \<Longrightarrow> t \<in> set (el_funcQueue (r_loops s l)) \<Longrightarrow> ok t s"
    and I_handling: "I s \<Longrightarrow> I (mod_chan c (\<lambda>ch. ch\<lparr>ch_isHandling := b\<rparr>) s)"
    and I_bookkeeping: "I s \<Longrightarrow> (\<And>el. el_poller (f el) = el_poller el \<and> el_threadId (f el) = el_threadId el
        \<and> el_timerQueue (f el) = el_timerQueue el \<and> el_wakeupChannel (f el) = el_wakeupChannel el
        \<and> el_wakeupFd (f el) = el_wakeupFd el \<and> el_quit (f el) = el_quit el
        \<and> set (el_funcQueue (f el)) \<subseteq> set (el_funcQueue el)) \<Longrightarrow> I (mod_loop l f s)"
    and ok_bookkeeping: "ok t (mod_loop l f s) = ok t s"
    and I_poll: "I s \<Longrightarrow> loopPoll E l s = Inr (now, s') \<Longrightarrow> I s'"
begin

lemma stage_keeps:
  assumes "I s" and "dispatchStage run c cond cb s = Inr t"
    and "\<And>ch. set_option (cb ch) \<subseteq> callbacks_of ch now"
  shows "I t"
proof (cases "cond (ch_revents (r_chans s c)) \<and> cb (r_chans s c) \<noteq> None")
  case True
  then obtain u where u: "cb (r_chans s c) = Some u" by auto
  then have "u \<in> callbacks_of (r_chans s c) now" using assms(3)[of "r_chans s c"] by auto
  then have "ok u s" by (rule ok_callback[OF assms(1)])
  moreover have "run u s = Inr t" using assms(2) True u by (simp add: dispatchStage_def callOpt_def)
  ultimately show ?thesis using run_keeps[OF assms(1)] by blast
next
  case False
  then have "t = s" using assms(2)
    by (auto simp: dispatchStage_def callOpt_def Let_def split: if_splits option.splits)
  with assms(1) show ?thesis by simp
qed

lemma handleEvents_keeps:
  assumes "I s" and "handleEvents run now c s = Inr t"
  shows "I t"
proof -
  let ?s0 = "mod_chan c (\<lambda>ch. ch\<lparr>ch_isHandling := True\<rparr>) s"
  from assms(2) obtain s1 s2 s3 s4 where steps:
    "dispatchStage run c (\<lambda>r. r AND (POLLNVAL OR POLLERR) \<noteq> 0) ch_errorCallback ?s0 = Inr s1"
    "dispatchStage run c (\<lambda>r. r AND POLLHUP \<noteq> 0 \<and> r AND POLLIN = 0) ch_closeCallback s1 = Inr s2"
    "dispatchStage run c (\<lambda>r. r AND (POLLIN OR POLLPRI OR POLLRDHUP) \<noteq> 0)
       (\<lambda>ch. map_option (\<lambda>f. f now) (ch_readCallback ch)) s2 = Inr s3"
    "dispatchStage run c (\<lambda>r. r AND POLLOUT \<noteq> 0) ch_writeCallback s3 = Inr s4"
    "t = mod_chan c (\<lambda>ch. ch\<lparr>ch_isHandling := False\<rparr>) s4"
    unfolding handleEvents_def bindR_Inr_iff sum.inject by blast
  have "I ?s0" by (rule I_handling[OF assms(1)])
  then have "I s1" by (rule stage_keeps[OF _ steps(1)]) (auto simp: callbacks_of_def)
  then have "I s2" by (rule stage_keeps[OF _ steps(2)]) (auto simp: callbacks_of_def)
  then have "I s3" by (rule stage_keeps[OF _ steps(3), where now = now]) (auto simp: callbacks_of_def)
  then have "I s4" by (rule stage_keeps[OF _ steps(4)]) (auto simp: callbacks_of_def)
  then show ?thesis unfolding steps(5) by (rule I_handling)
qed

lemma foldR_run_keeps:
  "I s \<Longrightarrow> (\<And>t. t \<in> set ts \<Longrightarrow> ok t s) \<Longrightarrow> foldR run ts s = Inr s' \<Longrightarrow> I s'"
proof (induction ts arbitrary: s)
  case Nil
  then show ?case by simp
next
  case (Cons t ts)
  from Cons.prems(3) obtain u where u: "run t s = Inr u" "foldR run ts u = Inr s'"
    by (auto simp: result_simps)
  have "I u \<and> (\<forall>v. ok v s \<longrightarrow> ok v u)" using run_keeps[OF Cons.prems(1) _ u(1)] Cons.prems(2) by simp
  then show ?case using Cons.IH[OF _ _ u(2)] Cons.prems(2) by simp
qed

lemma executeQueueFunctions_keeps:
  assumes "I s" and "executeQueueFunctions run l s = Inr t"
  shows "I t"
proof -
  let ?s1 = "mod_loop l (\<lambda>el. el\<lparr>el_isExecuteQueueFunc := True\<rparr>) s"
  let ?s2 = "mod_loop l (\<lambda>el. el\<lparr>el_funcQueue := []\<rparr>) ?s1"
  from assms(2) obtain u where u: "foldR run (el_funcQueue (r_loops ?s1 l)) ?s2 = Inr u"
    "t = mod_loop l (\<lambda>el. el\<lparr>el_isExecuteQueueFunc := False\<rparr>) u"
    unfolding executeQueueFunctions_def Let_def bindR_Inr_iff by blast
  have i1: "I ?s1" by (rule I_bookkeeping[OF assms(1)]) simp
  have i2: "I ?s2" by (rule I_bookkeeping[OF i1]) simp
  have "ok v ?s2" if "v \<in> set (el_funcQueue (r_loops ?s1 l))" for v
    using ok_queue[OF i1 that] by (simp only: ok_bookkeeping)
  from foldR_run_keeps[OF i2 this u(1)] have "I u" by blast
  then show ?thesis unfolding u(2) by (rule I_bookkeeping) simp
qed

lemma loopIteration_keeps:
  assumes "I s" and "loopIteration E run l s = Inr t"
  shows "I t"
proof -
  let ?s0 = "mod_loop l (\<lambda>el. el\<lparr>el_activeChannels := []\<rparr>) s"
  from assms(2) obtain now s1 s2 where st: "loopPoll E l ?s0 = Inr (now, s1)"
    "foldR (handleEvents run now) (el_activeChannels (r_loops s1 l)) s1 = Inr s2"
    "executeQueueFunctions run l s2 = Inr t"
    by (auto simp: loopIteration_def Let_def result_simps)
  have "I ?s0" by (rule I_bookkeeping[OF assms(1)]) simp
  then have "I s1" using st(1) by (rule I_poll)
  then have "I s2" using foldR_keeps[of _ I, OF _ _ st(2)] handleEvents_keeps by blast
  then show ?thesis using st(3) by (rule executeQueueFunctions_keeps)
qed

lemma loopWhile_keeps: "I s \<Longrightarrow> loopWhile E run l n s = Some (Inr t) \<Longrightarrow> I t"
  by (induction n arbitrary: s) (auto split: if_splits sum.splits dest: loopIteration_keeps)

end

end
