(* ===== verification/Functors.thy ===== *)
theory Functors
  imports EventLoop
begin

text \<open>
  What the event loop promises about closures: a channel's callbacks run as \<open>revents_\<close> says; the
  functors that other threads post run once each and in order, however the posts interleave with
  the loop; and what the wakeup descriptor does to a loop that is blocked in \<open>poll\<close>.
\<close>

section \<open>Dispatch of a channel\<close>

text \<open>Two states of a channel object with the same callbacks and the same pending events.\<close>

definition same_dispatch :: "channel \<Rightarrow> channel \<Rightarrow> bool" where
  "same_dispatch a b \<longleftrightarrow> ch_revents a = ch_revents b \<and> ch_errorCallback a = ch_errorCallback b \<and>
     ch_closeCallback a = ch_closeCallback b \<and> ch_readCallback a = ch_readCallback b \<and>
     ch_writeCallback a = ch_writeCallback b"

lemma same_dispatch_refl [simp]: "same_dispatch a a"
  by (simp add: same_dispatch_def)

lemma same_dispatch_eq: "same_dispatch a b \<Longrightarrow> dispatch a now = dispatch b now"
  by (simp add: same_dispatch_def dispatch_def Let_def)

text \<open>The four tests of \<open>handleEvents\<close> as lists of closures.\<close>

definition stage_tasks :: "(32 word \<Rightarrow> bool) \<Rightarrow> (channel \<Rightarrow> task option) \<Rightarrow> channel \<Rightarrow> task list" where
  "stage_tasks cond cb ch =
     (if cond (ch_revents ch) then (case cb ch of None \<Rightarrow> [] | Some t \<Rightarrow> [t]) else [])"

lemma dispatch_stages:
  "dispatch ch now =
     stage_tasks (\<lambda>r. r AND (POLLNVAL OR POLLERR) \<noteq> 0) ch_errorCallback ch @
     stage_tasks (\<lambda>r. r AND POLLHUP \<noteq> 0 \<and> r AND POLLIN = 0) ch_closeCallback ch @
     stage_tasks (\<lambda>r. r AND (POLLIN OR POLLPRI OR POLLRDHUP) \<noteq> 0)
       (\<lambda>ch. map_option (\<lambda>f. f now) (ch_readCallback ch)) ch @
     stage_tasks (\<lambda>r. r AND POLLOUT \<noteq> 0) ch_writeCallback ch"
  by (simp add: dispatch_def stage_tasks_def Let_def split: option.split)

lemma stage_run: "dispatchStage run c cond cb s = foldR run (stage_tasks cond cb (r_chans s c)) s"
  by (simp add: dispatchStage_def stage_tasks_def callOpt_def Let_def split: option.split)

lemma stage_tasks_cases:
  "stage_tasks cond cb ch = [] \<or> (\<exists>t. cb ch = Some t \<and> stage_tasks cond cb ch = [t])"
  by (cases "cb ch") (simp_all add: stage_tasks_def)

lemma stage_callbacks:
  assumes "\<And>ch. set_option (cb ch) \<subseteq> callbacks_of ch now"
  shows "set (stage_tasks cond cb ch) \<subseteq> callbacks_of ch now"
  using assms[of ch] stage_tasks_cases[of cond cb ch] by auto

lemma foldR_same_dispatch:
  assumes "\<And>t u v. t \<in> set ts \<Longrightarrow> same_dispatch ch (r_chans u c) \<Longrightarrow> run t u = Inr v \<Longrightarrow> same_dispatch ch (r_chans v c)"
    and "same_dispatch ch (r_chans s c)" and "foldR run ts s = Inr t"
  shows "same_dispatch ch (r_chans t c)"
  using assms(1,2,3) by (rule foldR_keeps[where P = "\<lambda>s. same_dispatch ch (r_chans s c)"])

text \<open>One stage runs the closures of the channel as it was at the start.\<close>

lemma stage_step:
  assumes keep: "\<And>t u v. t \<in> callbacks_of ch now \<Longrightarrow> same_dispatch ch (r_chans u c) \<Longrightarrow> run t u = Inr v
      \<Longrightarrow> same_dispatch ch (r_chans v c)"
    and cb: "\<And>a. set_option (cb a) \<subseteq> callbacks_of a now" and st: "\<And>a b. same_dispatch a b \<Longrightarrow> cb a = cb b"
    and s: "same_dispatch ch (r_chans s c)"
    and k: "\<And>s. same_dispatch ch (r_chans s c) \<Longrightarrow> k s = foldR run ts s"
  shows "bindR (dispatchStage run c cond cb s) k = foldR run (stage_tasks cond cb ch @ ts) s"
proof -
  have eq: "stage_tasks cond cb (r_chans s c) = stage_tasks cond cb ch"
    using s st[OF s] by (simp add: stage_tasks_def same_dispatch_def)
  have "same_dispatch ch (r_chans t c)" if "foldR run (stage_tasks cond cb ch) s = Inr t" for t
    using foldR_same_dispatch[OF _ s that] keep stage_callbacks[of cb now cond ch] cb by blast
  then have "bindR (foldR run (stage_tasks cond cb ch) s) k = bindR (foldR run (stage_tasks cond cb ch) s) (foldR run ts)"
    using k by (cases "foldR run (stage_tasks cond cb ch) s") auto
  then show ?thesis by (simp add: stage_run eq foldR_append)
qed

lemma stages_dispatch:
  fixes run :: "'z runner"
  assumes keep: "\<And>t u v. t \<in> callbacks_of ch now \<Longrightarrow> same_dispatch ch (r_chans u c) \<Longrightarrow> run t u = Inr v
      \<Longrightarrow> same_dispatch ch (r_chans v c)"
    and s: "same_dispatch ch (r_chans s c)"
  shows "bindR (dispatchStage run c (\<lambda>r. r AND (POLLNVAL OR POLLERR) \<noteq> 0) ch_errorCallback s) (\<lambda>s.
     bindR (dispatchStage run c (\<lambda>r. r AND POLLHUP \<noteq> 0 \<and> r AND POLLIN = 0) ch_closeCallback s) (\<lambda>s.
     bindR (dispatchStage run c (\<lambda>r. r AND (POLLIN OR POLLPRI OR POLLRDHUP) \<noteq> 0)
              (\<lambda>ch. map_option (\<lambda>f. f now) (ch_readCallback ch)) s) (\<lambda>s.
     dispatchStage run c (\<lambda>r. r AND POLLOUT \<noteq> 0) ch_writeCallback s))) = foldR run (dispatch ch now) s"
  unfolding dispatch_stages
proof (rule stage_step[OF keep])
  fix s :: "'z reactor_scheme"
  assume s: "same_dispatch ch (r_chans s c)"
  show "bindR (dispatchStage run c (\<lambda>r. r AND POLLHUP \<noteq> 0 \<and> r AND POLLIN = 0) ch_closeCallback s) (\<lambda>s.
     bindR (dispatchStage run c (\<lambda>r. r AND (POLLIN OR POLLPRI OR POLLRDHUP) \<noteq> 0)
              (\<lambda>ch. map_option (\<lambda>f. f now) (ch_readCallback ch)) s) (\<lambda>s.
     dispatchStage run c (\<lambda>r. r AND POLLOUT \<noteq> 0) ch_writeCallback s)) =
     foldR run (stage_tasks (\<lambda>r. r AND POLLHUP \<noteq> 0 \<and> r AND POLLIN = 0) ch_closeCallback ch @
       stage_tasks (\<lambda>r. r AND (POLLIN OR POLLPRI OR POLLRDHUP) \<noteq> 0)
         (\<lambda>ch. map_option (\<lambda>f. f now) (ch_readCallback ch)) ch @
       stage_tasks (\<lambda>r. r AND POLLOUT \<noteq> 0) ch_writeCallback ch) s"
  proof (rule stage_step[OF keep])
    fix s :: "'z reactor_scheme"
  assume s: "same_dispatch ch (r_chans s c)"
    show "bindR (dispatchStage run c (\<lambda>r. r AND (POLLIN OR POLLPRI OR POLLRDHUP) \<noteq> 0)
              (\<lambda>ch. map_option (\<lambda>f. f now) (ch_readCallback ch)) s) (\<lambda>s.
     dispatchStage run c (\<lambda>r. r AND POLLOUT \<noteq> 0) ch_writeCallback s) =
     foldR run (stage_tasks (\<lambda>r. r AND (POLLIN OR POLLPRI OR POLLRDHUP) \<noteq> 0)
         (\<lambda>ch. map_option (\<lambda>f. f now) (ch_readCallback ch)) ch @
       stage_tasks (\<lambda>r. r AND POLLOUT \<noteq> 0) ch_writeCallback ch) s"
    proof (rule stage_step[OF keep])
      fix s :: "'z reactor_scheme"
      assume "same_dispatch ch (r_chans s c)"
      then show "dispatchStage run c (\<lambda>r. r AND POLLOUT \<noteq> 0) ch_writeCallback s =
          foldR run (stage_tasks (\<lambda>r. r AND POLLOUT \<noteq> 0) ch_writeCallback ch) s"
        by (simp add: stage_run stage_tasks_def same_dispatch_def)
    qed (use s in \<open>auto simp: callbacks_of_def same_dispatch_def\<close>)
  qed (use s in \<open>auto simp: callbacks_of_def same_dispatch_def\<close>)
qed (use s in \<open>auto simp: callbacks_of_def same_dispatch_def\<close>)

lemma handleEvents_is_dispatch:
  assumes keep: "\<And>t u v. t \<in> callbacks_of (r_chans s c) now \<Longrightarrow> same_dispatch (r_chans s c) (r_chans u c)
      \<Longrightarrow> run t u = Inr v \<Longrightarrow> same_dispatch (r_chans s c) (r_chans v c)"
  shows "handleEvents run now c s =
    bindR (foldR run (dispatch (r_chans s c) now) (mod_chan c (\<lambda>ch. ch\<lparr>ch_isHandling := True\<rparr>) s))
      (\<lambda>s. Inr (mod_chan c (\<lambda>ch. ch\<lparr>ch_isHandling := False\<rparr>) s))"
proof -
  have "same_dispatch (r_chans s c) (r_chans (mod_chan c (\<lambda>ch. ch\<lparr>ch_isHandling := True\<rparr>) s) c)"
    by (simp add: same_dispatch_def)
  from stages_dispatch[OF keep this, symmetric] show ?thesis
    by (simp only: handleEvents_def bindR_assoc)
qed

section \<open>The wakeup descriptor\<close>

text \<open>
  An eventfd as its manual page documents it: a counter that a successful 8-byte write adds its
  value to and a successful 8-byte read sets to zero.  The descriptor is readable, and \<open>poll\<close>
  wakes up for it, while the counter is greater than zero.
\<close>

fun eventfd_counter :: "int \<Rightarrow> trace \<Rightarrow> int \<Rightarrow> int" where
  "eventfd_counter fd [] n = n"
| "eventfd_counter fd (SysWriteI64 f v r # tr) n = eventfd_counter fd tr (if f = fd \<and> r = 8 then n + v else n)"
| "eventfd_counter fd (SysReadI64 f r # tr) n = eventfd_counter fd tr (if f = fd \<and> r = 8 then 0 else n)"
| "eventfd_counter fd (e # tr) n = eventfd_counter fd tr n"

lemma eventfd_counter_append:
  "eventfd_counter fd (tr @ tr') n = eventfd_counter fd tr' (eventfd_counter fd tr n)"
  by (induction fd tr n rule: eventfd_counter.induct) auto

text \<open>The requests of other threads: post a functor, run one, or quit.\<close>

datatype request = Post task | RunIn task | Quit

fun serve_request ::
  "'b env \<Rightarrow> 'z runner \<Rightarrow> loop_id \<Rightarrow> thread_id \<times> request \<Rightarrow> 'z reactor_scheme \<Rightarrow> 'z reactor_scheme result" where
  "serve_request E run l (u, Post t) s = Inr (queueInLoop E l t (s\<lparr>r_tid := u\<rparr>))"
| "serve_request E run l (u, RunIn t) s = runInLoop E run l t (s\<lparr>r_tid := u\<rparr>)"
| "serve_request E run l (u, Quit) s = Inr (quit E l (s\<lparr>r_tid := u\<rparr>))"

lemma queueInLoop_counter [simp]:
  "eventfd_counter fd (r_trace (queueInLoop E l t s)) n = eventfd_counter fd (r_trace s) n"
  by (simp add: queueInLoop_def wakeup_def Let_def eventfd_counter_append)

lemma quit_counter [simp]:
  "eventfd_counter fd (r_trace (quit E l s)) n = eventfd_counter fd (r_trace s) n"
  by (simp add: quit_def wakeup_def Let_def eventfd_counter_append)

lemma el_threadId_queueInLoop [simp]:
  "el_threadId (r_loops (queueInLoop E l t s) k) = el_threadId (r_loops s k)"
  by (simp add: queueInLoop_def wakeup_def Let_def)

lemma el_threadId_quit [simp]: "el_threadId (r_loops (quit E l s) k) = el_threadId (r_loops s k)"
  by (simp add: quit_def wakeup_def Let_def)

section \<open>Functors posted by other threads\<close>

text \<open>
  The queue of a loop while threads run concurrently.  The steps are the critical sections the
  code has: a \<open>push_back\<close> under the mutex by any thread, the \<open>swap\<close> under the mutex that takes
  the whole queue, the call of one functor of the batch, and the end of \<open>executeQueueFunctions\<close>.
  The configuration also lists what has been posted and what has been run, in order.
\<close>

datatype 'z config =
  Config (cf_state: "'z reactor_scheme") (cf_batch: "task list option")
    (cf_posted: "task list") (cf_done: "task list")

inductive qstep :: "'b env \<Rightarrow> 'z runner \<Rightarrow> loop_id \<Rightarrow> 'z config \<Rightarrow> 'z config \<Rightarrow> bool"
  for E :: "'b env" and run :: "'z runner" and l :: loop_id where
  post: "qstep E run l (Config s b p d)
    (Config (queueInLoop E l cb (s\<lparr>r_tid := u\<rparr>)\<lparr>r_tid := r_tid s\<rparr>) b (p @ [cb]) d)"
| start: "qstep E run l (Config s None p d)
    (Config (mod_loop l (\<lambda>el. el\<lparr>el_funcQueue := []\<rparr>)
              (mod_loop l (\<lambda>el. el\<lparr>el_isExecuteQueueFunc := True\<rparr>) s))
       (Some (el_funcQueue (r_loops s l))) p d)"
| call: "run t s = Inr s' \<Longrightarrow> el_funcQueue (r_loops s' l) = el_funcQueue (r_loops s l) @ new \<Longrightarrow>
    qstep E run l (Config s (Some (t # ts)) p d) (Config s' (Some ts) (p @ new) (d @ [t]))"
| finish: "qstep E run l (Config s (Some []) p d)
    (Config (mod_loop l (\<lambda>el. el\<lparr>el_isExecuteQueueFunc := False\<rparr>) s) None p d)"

inductive_cases qstepE: "qstep E run l x y"

definition fifo_inv :: "loop_id \<Rightarrow> 'z config \<Rightarrow> bool" where
  "fifo_inv l x \<longleftrightarrow>
     cf_posted x = cf_done x @ (case cf_batch x of None \<Rightarrow> [] | Some b \<Rightarrow> b) @
       el_funcQueue (r_loops (cf_state x) l)"

lemma queue_queueInLoop [simp]:
  "el_funcQueue (r_loops (queueInLoop E l cb s) l) = el_funcQueue (r_loops s l) @ [cb]"
  by (simp add: queueInLoop_def wakeup_def Let_def)

lemma qstep_fifo:
  assumes "qstep E run l x y" and "fifo_inv l x" shows "fifo_inv l y"
  using assms by cases (auto simp: fifo_inv_def)

lemma qsteps_fifo: "(qstep E run l)\<^sup>*\<^sup>* x y \<Longrightarrow> fifo_inv l x \<Longrightarrow> fifo_inv l y"
  by (induction rule: rtranclp_induct) (auto dest: qstep_fifo)

text \<open>A runner whose closures add to the queue of the loop and take nothing from it.\<close>

definition posts_only :: "'z runner \<Rightarrow> loop_id \<Rightarrow> bool" where
  "posts_only run l \<longleftrightarrow> (\<forall>t s s'. run t s = Inr s' \<longrightarrow>
     (\<exists>new. el_funcQueue (r_loops s' l) = el_funcQueue (r_loops s l) @ new))"

text \<open>The calls of a batch, one step each.\<close>

lemma batch_steps:
  assumes "posts_only run l" and "foldR run ts s = Inr s'"
  shows "\<exists>new. el_funcQueue (r_loops s' l) = el_funcQueue (r_loops s l) @ new \<and>
    (qstep E run l)\<^sup>*\<^sup>* (Config s (Some ts) p d) (Config s' (Some []) (p @ new) (d @ ts))"
  using assms(2)
proof (induction ts arbitrary: s p d)
  case Nil
  then show ?case by auto
next
  case (Cons t ts)
  from Cons.prems obtain u where u: "run t s = Inr u" "foldR run ts u = Inr s'" by (auto simp: result_simps)
  from assms(1) u(1) obtain n1 where n1: "el_funcQueue (r_loops u l) = el_funcQueue (r_loops s l) @ n1"
    unfolding posts_only_def by blast
  from Cons.IH[OF u(2), of "p @ n1" "d @ [t]"] obtain n2 where n2:
    "el_funcQueue (r_loops s' l) = el_funcQueue (r_loops u l) @ n2"
    "(qstep E run l)\<^sup>*\<^sup>* (Config u (Some ts) (p @ n1) (d @ [t])) (Config s' (Some []) ((p @ n1) @ n2) ((d @ [t]) @ ts))"
    by blast
  from converse_rtranclp_into_rtranclp[OF qstep.call[where E = E and new = n1 and d = d and p = p and ts = ts and run = run and t = t and s = s and s' = u and l = l, OF u(1) n1] n2(2)]
  have "(qstep E run l)\<^sup>*\<^sup>* (Config s (Some (t # ts)) p d) (Config s' (Some []) (p @ n1 @ n2) (d @ t # ts))" by simp
  then show ?case using n1 n2(1) by (intro exI[of _ "n1 @ n2"]) simp
qed

lemma execute_steps:
  assumes "posts_only run l" and "executeQueueFunctions run l s = Inr t"
  shows "(qstep E run l)\<^sup>*\<^sup>* (Config s None p d)
    (Config t None (p @ el_funcQueue (r_loops t l)) (d @ el_funcQueue (r_loops s l)))"
proof -
  let ?s0 = "mod_loop l (\<lambda>el. el\<lparr>el_funcQueue := []\<rparr>)
              (mod_loop l (\<lambda>el. el\<lparr>el_isExecuteQueueFunc := True\<rparr>) s)"
  from assms(2) obtain u where u: "foldR run (el_funcQueue (r_loops s l)) ?s0 = Inr u"
    "t = mod_loop l (\<lambda>el. el\<lparr>el_isExecuteQueueFunc := False\<rparr>) u"
    by (auto simp: executeQueueFunctions_def Let_def result_simps)
  from batch_steps[OF assms(1) u(1), of E p d] obtain new where new:
    "el_funcQueue (r_loops u l) = new"
    "(qstep E run l)\<^sup>*\<^sup>* (Config ?s0 (Some (el_funcQueue (r_loops s l))) p d)
       (Config u (Some []) (p @ new) (d @ el_funcQueue (r_loops s l)))"
    by auto
  have "(qstep E run l)\<^sup>*\<^sup>* (Config s None p d) (Config u (Some []) (p @ new) (d @ el_funcQueue (r_loops s l)))"
    using converse_rtranclp_into_rtranclp[OF qstep.start new(2)] .
  from rtranclp.rtrancl_into_rtrancl[OF this qstep.finish] show ?thesis using new(1) u(2) by simp
qed

section \<open>Starting and stopping the loop\<close>

lemma mod_loop_twice: "mod_loop l f (mod_loop l g s) = mod_loop l (f \<circ> g) s"
  by (simp add: mod_loop_def)

lemma loopWhile_more: "loopWhile E run l n s = Some r \<Longrightarrow> n \<le> m \<Longrightarrow> loopWhile E run l m s = Some r"
proof (induction n arbitrary: m s)
  case 0
  then show ?case by (cases m) (auto split: if_splits)
next
  case (Suc n)
  then obtain k where "m = Suc k" "n \<le> k" by (cases m) auto
  with Suc show ?case by (auto split: if_splits sum.splits)
qed

lemma loopWhile_quit: "loopWhile E run l n s = Some (Inr t) \<Longrightarrow> el_quit (r_loops t l)"
  by (induction n arbitrary: s) (auto split: if_splits sum.splits)

text \<open>The iterations of the loop, without the test of \<open>quit_\<close>.\<close>

fun iterations :: "'b env \<Rightarrow> 'z runner \<Rightarrow> loop_id \<Rightarrow> nat \<Rightarrow> 'z reactor_scheme \<Rightarrow> 'z reactor_scheme result" where
  "iterations E run l 0 s = Inr s"
| "iterations E run l (Suc n) s = bindR (loopIteration E run l s) (iterations E run l n)"

lemma loopWhile_iterations:
  assumes "iterations E run l n s = Inr t" and "el_quit (r_loops t l)"
    and "\<And>k u. k < n \<Longrightarrow> iterations E run l k s = Inr u \<Longrightarrow> \<not> el_quit (r_loops u l)"
  shows "loopWhile E run l n s = Some (Inr t)"
  using assms
proof (induction n arbitrary: s)
  case 0
  then show ?case by simp
next
  case (Suc n)
  from Suc.prems(1) obtain u where u: "loopIteration E run l s = Inr u" "iterations E run l n u = Inr t"
    by (auto simp: result_simps)
  have "\<not> el_quit (r_loops s l)" using Suc.prems(3)[of 0 s] by simp
  moreover have "loopWhile E run l n u = Some (Inr t)"
  proof (rule Suc.IH[OF u(2) Suc.prems(2)])
    fix k v assume "k < n" "iterations E run l k u = Inr v"
    then show "\<not> el_quit (r_loops v l)" using Suc.prems(3)[of "Suc k" v] u(1) by simp
  qed
  ultimately show ?case using u(1) by simp
qed

section \<open>Properties\<close>

text \<open>A loop with a wakeup channel on descriptor 3 and one functor queued, to evaluate on.\<close>

definition sampleLoop :: eventloop where
  "sampleLoop = \<lparr>el_activeChannels = [], el_quit = False, el_isLoopping = False, el_threadId = 1,
     el_maxWaitTimeM = 10000, el_poller = mkPoller,
     el_timerQueue = \<lparr>tq_timerfd = 4, tq_timers = [], tq_channel = 1\<rparr>,
     el_wakeupFd = 3, el_wakeupChannel = 0, el_funcQueue = [TUser 7], el_isExecuteQueueFunc = False\<rparr>"

definition sampleReactor :: reactor where
  "sampleReactor = \<lparr>r_tid = 1, r_loopOfThread = (\<lambda>_. None)(1 := Some 0),
     r_chans = (\<lambda>c. mkChannel 0 (int c + 3)), r_nextChan = 2, r_loops = (\<lambda>_. sampleLoop), r_nextLoop = 1,
     r_timers = (\<lambda>_. None), r_seqGen = 0, r_trace = []\<rparr>"

text \<open>A runner that notes each closure it runs and lets \<open>TUser 1\<close> post a functor.\<close>

definition noteRun :: "loop_id \<Rightarrow> unit runner" where
  "noteRun l t s =
     (case t of TUser n \<Rightarrow> (if n = 1 then Inr (queueInLoop sampleEnv l (TUser 9) s) else Inr (emit (SysAlloc n) s))
      | _ \<Rightarrow> Inr s)"

text \<open>
  C10: as long as the closures it calls leave the channel's callbacks and pending events alone,
  \<open>Channel::handleEvents\<close> calls exactly the closures that \<open>dispatch\<close> lists for \<open>revents_\<close>, in
  that order (error, close, read, write), with \<open>isHandling_\<close> set while they run and cleared after.
\<close>

theorem handleEvents_dispatch:
  assumes "\<And>t u v. t \<in> callbacks_of (r_chans s c) now \<Longrightarrow> same_dispatch (r_chans s c) (r_chans u c)
      \<Longrightarrow> run t u = Inr v \<Longrightarrow> same_dispatch (r_chans s c) (r_chans v c)"
  shows "handleEvents run now c s =
    bindR (foldR run (dispatch (r_chans s c) now) (mod_chan c (\<lambda>ch. ch\<lparr>ch_isHandling := True\<rparr>) s))
      (\<lambda>s. Inr (mod_chan c (\<lambda>ch. ch\<lparr>ch_isHandling := False\<rparr>) s))"
  using assms by (rule handleEvents_is_dispatch)

theorem handleEvents_dispatch_witness:
  "let s = mod_chan 0 (\<lambda>ch. ch\<lparr>ch_revents := POLLIN OR POLLOUT, ch_readCallback := Some (\<lambda>_. TUser 5),
             ch_writeCallback := Some (TUser 6), ch_closeCallback := Some (TUser 8)\<rparr>) sampleReactor
   in map_sum id r_trace (handleEvents (noteRun 0) 42 0 s) = Inr [SysAlloc 5, SysAlloc 6]"
proof -
  let ?s = "mod_chan 0 (\<lambda>ch. ch\<lparr>ch_revents := POLLIN OR POLLOUT, ch_readCallback := Some (\<lambda>_. TUser 5),
             ch_writeCallback := Some (TUser 6), ch_closeCallback := Some (TUser 8)\<rparr>) sampleReactor"
  have d: "dispatch (r_chans ?s 0) 42 = [TUser 5, TUser 6]"
    by (simp add: dispatch_def sampleReactor_def mkChannel_def poll_bits)
  have "handleEvents (noteRun 0) 42 0 ?s =
    bindR (foldR (noteRun 0) (dispatch (r_chans ?s 0) 42) (mod_chan 0 (\<lambda>ch. ch\<lparr>ch_isHandling := True\<rparr>) ?s))
      (\<lambda>s. Inr (mod_chan 0 (\<lambda>ch. ch\<lparr>ch_isHandling := False\<rparr>) s))"
    by (rule handleEvents_dispatch) (auto simp: noteRun_def queueInLoop_def wakeup_def Let_def split: task.splits if_splits)
  then show ?thesis unfolding Let_def d by (simp add: noteRun_def sampleReactor_def)
qed



text \<open>
  C6: one call of \<open>executeQueueFunctions\<close>, when closures only add to the queue, is a sequence of
  the steps above: it runs exactly the functors queued when it starts, in order, and leaves those
  posted meanwhile in the queue for the next iteration of the loop.
\<close>

theorem executeQueueFunctions_refines:
  assumes "posts_only run l" and "executeQueueFunctions run l s = Inr t"
  shows "(qstep E run l)\<^sup>*\<^sup>* (Config s None p d)
    (Config t None (p @ el_funcQueue (r_loops t l)) (d @ el_funcQueue (r_loops s l)))"
  using assms by (rule execute_steps)

theorem executeQueueFunctions_refines_witness:
  "let s = mod_loop 0 (\<lambda>el. el\<lparr>el_funcQueue := [TUser 1, TUser 4]\<rparr>) sampleReactor in
   \<exists>t. executeQueueFunctions (noteRun 0) 0 s = Inr t \<and>
     (qstep sampleEnv (noteRun 0) 0)\<^sup>*\<^sup>* (Config s None [TUser 1, TUser 4] [])
       (Config t None [TUser 1, TUser 4, TUser 9] [TUser 1, TUser 4])"
proof -
  let ?s = "mod_loop 0 (\<lambda>el. el\<lparr>el_funcQueue := [TUser 1, TUser 4]\<rparr>) sampleReactor"
  have po: "posts_only (noteRun 0) 0"
    by (auto simp: posts_only_def noteRun_def split: task.splits if_splits)
  obtain t where t: "executeQueueFunctions (noteRun 0) 0 ?s = Inr t" "el_funcQueue (r_loops t 0) = [TUser 9]"
    by (simp add: executeQueueFunctions_def noteRun_def queueInLoop_def wakeup_def Let_def)
  from executeQueueFunctions_refines[OF po t(1), of sampleEnv "[TUser 1, TUser 4]" "[]"] t show ?thesis by simp
qed

text \<open>
  \<open>wakeup\<close> adds nothing to the wakeup descriptor: whatever other threads post, ask to run or
  ask to stop, each request writes to the eventfd once, and the eventfd's counter is the same after
  all of them, because the value written is 0.  So a loop that sleeps in \<open>poll\<close> sleeps on until
  another event or the time limit of 10 s.
\<close>

theorem wakeup_leaves_counter:
  assumes "\<forall>x \<in> set rs. fst x \<noteq> el_threadId (r_loops s l)"
  shows "\<exists>t. foldR (serve_request E run l) rs s = Inr t \<and>
    eventfd_counter fd (r_trace t) n = eventfd_counter fd (r_trace s) n \<and>
    length (r_trace t) = length (r_trace s) + length rs"
  using assms
proof (induction rs arbitrary: s)
  case Nil
  then show ?case by simp
next
  case (Cons x rs)
  obtain u r where x: "x = (u, r)" by (cases x)
  have u: "u \<noteq> el_threadId (r_loops s l)" using Cons.prems x by simp
  obtain v where v: "serve_request E run l x s = Inr v"
    "eventfd_counter fd (r_trace v) n = eventfd_counter fd (r_trace s) n"
    "el_threadId (r_loops v l) = el_threadId (r_loops s l)" "length (r_trace v) = Suc (length (r_trace s))"
    using u unfolding x
    by (cases r) (simp_all add: runInLoop_def isInLoopThread_def queueInLoop_def quit_def wakeup_def
        Let_def eventfd_counter_append)
  have "\<forall>x \<in> set rs. fst x \<noteq> el_threadId (r_loops v l)" using Cons.prems v(3) by simp
  from Cons.IH[OF this] v show ?case by simp
qed

theorem wakeup_leaves_counter_witness:
  "\<exists>t. foldR (serve_request sampleEnv (noteRun 0) 0) [(2, Post (TUser 3)), (5, Quit)] sampleReactor = Inr t \<and>
    eventfd_counter 3 (r_trace t) 0 = 0 \<and> length (r_trace t) = 2"
proof -
  have h: "\<forall>x \<in> set [(2, Post (TUser 3)), (5, Quit)]. fst x \<noteq> el_threadId (r_loops sampleReactor 0)"
    by (simp add: sampleReactor_def sampleLoop_def)
  have tr: "r_trace sampleReactor = []" by (simp add: sampleReactor_def)
  show ?thesis
    using wakeup_leaves_counter[where s = sampleReactor and l = 0 and E = sampleEnv and run = "noteRun 0"
        and fd = 3 and n = 0, OF h] unfolding tr by simp
qed

text \<open>
  A \<open>quit()\<close> made before \<open>loop()\<close>, in the loop's thread, has no effect at all: the loop runs
  exactly as it would without it.
\<close>

theorem early_quit_lost:
  assumes "isInLoopThread l s"
  shows "loop E run n l (quit E l s) = loop E run n l s"
proof -
  have q: "quit E l s = mod_loop l (\<lambda>el. el\<lparr>el_quit := True\<rparr>) s"
    using assms by (simp add: quit_def isInLoopThread_def)
  have f: "(\<lambda>el. el\<lparr>el_isLoopping := True, el_quit := False\<rparr>) \<circ> (\<lambda>el. el\<lparr>el_quit := True\<rparr>) =
      (\<lambda>el. el\<lparr>el_isLoopping := True, el_quit := False\<rparr>)"
    by (rule ext) simp
  show ?thesis unfolding q using assms
    by (simp add: loop_def assertInLoopThread_def isInLoopThread_def assertR_def mod_loop_twice f)
qed

theorem early_quit_lost_witness:
  "loop sampleEnv (noteRun 0) 2 0 (quit sampleEnv 0 sampleReactor) = loop sampleEnv (noteRun 0) 2 0 sampleReactor"
  by (rule early_quit_lost) (simp add: isInLoopThread_def sampleReactor_def sampleLoop_def)

text \<open>
  \<open>loop()\<close> refuses to be nested and to be called from another thread; where it returns, it
  was asked to quit and its looping flag is off.
\<close>

theorem loop_guards:
  "(el_isLoopping (r_loops s l) \<longrightarrow> loop E run n l s = Some (Inl (AssertFailed ''!isLoopping_''))) \<and>
   (\<not> el_isLoopping (r_loops s l) \<and> \<not> isInLoopThread l s \<longrightarrow>
      loop E run n l s = Some (Inl (AssertFailed ''isInLoopThread()''))) \<and>
   (\<forall>t. loop E run n l s = Some (Inr t) \<longrightarrow> el_quit (r_loops t l) \<and> \<not> el_isLoopping (r_loops t l))"
proof (intro conjI impI allI)
  fix t assume "loop E run n l s = Some (Inr t)"
  then obtain u where "loopWhile E run l n (mod_loop l (\<lambda>el. el\<lparr>el_isLoopping := True, el_quit := False\<rparr>) s) = Some (Inr u)"
    and t: "t = mod_loop l (\<lambda>el. el\<lparr>el_isLoopping := False\<rparr>) u"
    by (auto simp: loop_def assertInLoopThread_def result_simps split: sum.splits)
  then show "el_quit (r_loops t l)" "\<not> el_isLoopping (r_loops t l)" using loopWhile_quit by simp_all
qed (simp_all add: loop_def assertInLoopThread_def)

theorem loop_guards_witness:
  "loop sampleEnv (noteRun 0) 1 0 (mod_loop 0 (\<lambda>el. el\<lparr>el_isLoopping := True\<rparr>) sampleReactor) =
     Some (Inl (AssertFailed ''!isLoopping_''))"
  using loop_guards[of "mod_loop 0 (\<lambda>el. el\<lparr>el_isLoopping := True\<rparr>) sampleReactor" 0 sampleEnv "noteRun 0" 1]
  by simp


text \<open>A functor that stops the loop it runs in.\<close>

definition quitRun :: "loop_id \<Rightarrow> unit runner" where
  "quitRun l t s = Inr (quit sampleEnv l s)"


end
