(* ===== verification/Registration.thy ===== *)
theory Registration
  imports EventLoop
begin

text \<open>
  The contracts of the channel operations on the whole reactor: \<open>update()\<close> and \<open>remove()\<close> of a
  channel that its loop knows correctly go through, change the registration of its descriptor in
  its own loop and nothing else.  The constructors, the acceptor and the connections rest on them.
\<close>

definition loop_interest :: "loop_id \<Rightarrow> 'z reactor_scheme \<Rightarrow> int \<Rightarrow> (bool \<times> 16 word) option" where
  "loop_interest l s = interest (loop_ps l s)"

text \<open>A channel whose loop either does not know its descriptor, or has it under this channel.\<close>

definition chan_ok :: "chan_id \<Rightarrow> 'z reactor_scheme \<Rightarrow> bool" where
  "chan_ok c s \<longleftrightarrow> c < r_nextChan s \<and> 0 \<le> ch_fd (r_chans s c) \<and>
     chan_known (loop_ps (ch_ownerLoop (r_chans s c)) s) c"

lemma channelUpdate_contract:
  assumes wf: "reactor_wf s" and ok: "chan_ok c s"
  shows "\<exists>t. channelUpdate c s = Inr t"
    and "channelUpdate c s = Inr t \<Longrightarrow> reactor_wf t \<and> chan_ok c t \<and>
      (let l = ch_ownerLoop (r_chans s c); fd = ch_fd (r_chans s c) in
       channels (el_poller (r_loops t l)) fd = Some c \<and>
       loop_interest l t = (loop_interest l s)(fd \<mapsto>
         (watch_after (loop_interest l s fd) (r_chans s c), ucast (ch_events (r_chans s c)))) \<and>
       (\<exists>i p. t = set_ps l ((r_chans s)(c := set_index i (r_chans s c)), p) s))"
proof -
  let ?l = "ch_ownerLoop (r_chans s c)" and ?fd = "ch_fd (r_chans s c)"
  let ?p = "el_poller (r_loops s ?l)"
  have c: "c < r_nextChan s" "0 \<le> ?fd" "chan_known (r_chans s, ?p) c"
    using ok by (simp_all add: chan_ok_def loop_ps_def)
  have pw: "poller_wf (r_chans s, ?p)" by (rule reactor_wfD(1)[OF wf])
  show "\<exists>t. channelUpdate c s = Inr t"
    using updateChannel_succeeds[OF pw, of c] c(3)
    by (force simp: channelUpdate_def loopUpdateChannel_def chan_known_def loop_ps_def)
  assume u: "channelUpdate c s = Inr t"
  then obtain cs p where q: "updateChannel c (r_chans s, ?p) = Inr (cs, p)" and t: "t = set_ps ?l (cs, p) s"
    by (auto simp: channelUpdate_def loopUpdateChannel_def loop_ps_def result_simps)
  have cs: "\<exists>i. cs = (r_chans s)(c := set_index i (r_chans s c))"
    using q
  proof (cases rule: updateChannel_cases)
    case old
    then show ?thesis by (intro exI[of _ "ch_index (r_chans s c)"]) (simp add: set_index_def)
  qed auto
  then have ow: "ch_ownerLoop (cs c) = ?l" by (auto simp: set_index_def)
  note k = updateChannel_known[OF pw c(3) q]
  have "chan_ok c t"
    using c(1,2) k ow by (simp add: chan_ok_def t chan_known_def loop_ps_def)
  moreover have "reactor_wf t" by (rule channelUpdate_wf[OF wf c(1,2) u])
  moreover have "loop_interest ?l t = (loop_interest ?l s)(?fd \<mapsto>
         (watch_after (loop_interest ?l s ?fd) (r_chans s c), ucast (ch_events (r_chans s c))))"
    using updateChannel_interest[OF pw c(2) q] by (simp add: loop_interest_def loop_ps_def t)
  moreover have "channels (el_poller (r_loops t ?l)) ?fd = Some c" using k by (simp add: t)
  ultimately show "reactor_wf t \<and> chan_ok c t \<and>
      (let l = ch_ownerLoop (r_chans s c); fd = ch_fd (r_chans s c) in
       channels (el_poller (r_loops t l)) fd = Some c \<and>
       loop_interest l t = (loop_interest l s)(fd \<mapsto>
         (watch_after (loop_interest l s fd) (r_chans s c), ucast (ch_events (r_chans s c)))) \<and>
       (\<exists>i p. t = set_ps l ((r_chans s)(c := set_index i (r_chans s c)), p) s))"
    using cs t by (auto simp: Let_def)
qed

text \<open>A change of a channel that keeps its identity.\<close>

definition keeps_identity :: "(channel \<Rightarrow> channel) \<Rightarrow> bool" where
  "keeps_identity g \<longleftrightarrow> (\<forall>ch. ch_fd (g ch) = ch_fd ch \<and> ch_index (g ch) = ch_index ch \<and>
     ch_ownerLoop (g ch) = ch_ownerLoop ch)"

lemma keeps_identity_ops [simp]:
  "keeps_identity addReadEvent" "keeps_identity addWriteEvent" "keeps_identity clearEvents"
  "keeps_identity disableWriteEvent" "keeps_identity (setReadCallback rc)"
  "keeps_identity (setWriteCallback wc)" "keeps_identity (setCloseCallback cc)"
  "keeps_identity (setErrorCallback ec)" "keeps_identity (\<lambda>ch. ch\<lparr>ch_isHandling := b\<rparr>)"
  by (simp_all add: keeps_identity_def addReadEvent_def addWriteEvent_def clearEvents_def disableWriteEvent_def
      setReadCallback_def setWriteCallback_def setCloseCallback_def setErrorCallback_def)

lemma interest_cong:
  assumes "\<And>d. ch_index (cs' d) = ch_index (cs d)"
  shows "interest (cs', p) = interest (cs, p)"
  using assms by (intro ext) (simp add: interest_def split: option.splits)

lemma mod_chan_identity:
  assumes "keeps_identity g"
  shows "reactor_wf s \<Longrightarrow> reactor_wf (mod_chan c g s)" "chan_ok d (mod_chan c g s) = chan_ok d s"
    "loop_interest l (mod_chan c g s) = loop_interest l s"
proof -
  show "reactor_wf s \<Longrightarrow> reactor_wf (mod_chan c g s)"
    by (rule reactor_wf_mod_chan) (use assms in \<open>auto simp: keeps_identity_def\<close>)
  show "chan_ok d (mod_chan c g s) = chan_ok d s"
    using assms by (simp add: chan_ok_def keeps_identity_def chan_known_def loop_ps_def)
  show "loop_interest l (mod_chan c g s) = loop_interest l s"
    unfolding loop_interest_def loop_ps_def mod_chan_sel
    by (rule interest_cong) (use assms in \<open>simp add: keeps_identity_def\<close>)
qed

text \<open>\<open>enableRead\<close>, \<open>enableWrite\<close>, \<open>disableAll\<close>: a change of the events and \<open>update()\<close>.\<close>

definition updateWith :: "(channel \<Rightarrow> channel) \<Rightarrow> chan_id \<Rightarrow> 'z reactor_scheme \<Rightarrow> 'z reactor_scheme result" where
  "updateWith g c s = channelUpdate c (mod_chan c g s)"

lemma enable_ops:
  "enableRead = updateWith addReadEvent" "enableWrite = updateWith addWriteEvent"
  "disableAll = updateWith clearEvents"
  by (intro ext; simp add: enableRead_def enableWrite_def disableAll_def updateWith_def)+

lemma updateWith_contract:
  assumes wf: "reactor_wf s" and ok: "chan_ok c s" and g: "keeps_identity g"
  shows "\<exists>t. updateWith g c s = Inr t"
    and "updateWith g c s = Inr t \<Longrightarrow> reactor_wf t \<and> chan_ok c t \<and>
      (let l = ch_ownerLoop (r_chans s c); fd = ch_fd (r_chans s c) in
       channels (el_poller (r_loops t l)) fd = Some c \<and>
       loop_interest l t = (loop_interest l s)(fd \<mapsto>
         (watch_after (loop_interest l s fd) (g (r_chans s c)), ucast (ch_events (g (r_chans s c))))) \<and>
       (\<exists>i p. t = set_ps l ((r_chans s)(c := set_index i (g (r_chans s c))), p) s))"
proof -
  note m = mod_chan_identity[OF g]
  have wf': "reactor_wf (mod_chan c g s)" and ok': "chan_ok c (mod_chan c g s)" using wf ok by (simp_all add: m)
  show "\<exists>t. updateWith g c s = Inr t" unfolding updateWith_def by (rule channelUpdate_contract(1)[OF wf' ok'])
  assume "updateWith g c s = Inr t"
  note k = channelUpdate_contract(2)[OF wf' ok' this[unfolded updateWith_def]]
  have id: "ch_ownerLoop (g (r_chans s c)) = ch_ownerLoop (r_chans s c)" "ch_fd (g (r_chans s c)) = ch_fd (r_chans s c)"
    using g by (simp_all add: keeps_identity_def)
  have sp: "set_ps l ps (mod_chan c g s) = set_ps l ps s" for l ps
    by (simp add: set_ps_def mod_chan_def)
  show "reactor_wf t \<and> chan_ok c t \<and>
      (let l = ch_ownerLoop (r_chans s c); fd = ch_fd (r_chans s c) in
       channels (el_poller (r_loops t l)) fd = Some c \<and>
       loop_interest l t = (loop_interest l s)(fd \<mapsto>
         (watch_after (loop_interest l s fd) (g (r_chans s c)), ucast (ch_events (g (r_chans s c))))) \<and>
       (\<exists>i p. t = set_ps l ((r_chans s)(c := set_index i (g (r_chans s c))), p) s))"
    using k by (simp add: Let_def id sp m(3))
qed

lemma loopRemoveChannel_contract:
  assumes wf: "reactor_wf s" and ok: "chan_ok c s" and l: "l = ch_ownerLoop (r_chans s c)"
    and reg: "loop_interest l s (ch_fd (r_chans s c)) = Some (False, 0)"
    and none: "isNoneEvent (r_chans s c)" and thr: "isInLoopThread l s"
  shows "\<exists>t. channelRemove c s = Inr t \<and> reactor_wf t \<and>
    loop_interest l t = (loop_interest l s)(ch_fd (r_chans s c) := None) \<and>
    (\<exists>cs p. t = set_ps l (cs, p) s \<and> (\<forall>d. cs d = set_index (ch_index (cs d)) (r_chans s d)))"
proof -
  let ?p = "el_poller (r_loops s l)"
  have pw: "poller_wf (r_chans s, ?p)" by (rule reactor_wfD(1)[OF wf])
  have "channels ?p (ch_fd (r_chans s c)) \<noteq> None"
    using reg by (auto simp: loop_interest_def loop_ps_def interest_def split: option.splits)
  then have m: "channels ?p (ch_fd (r_chans s c)) = Some c"
    using ok l by (auto simp: chan_ok_def chan_known_def loop_ps_def split: if_splits)
  obtain u where u: "removeChannel True c (r_chans s, ?p) = Inr u"
    using removeChannel_succeeds[OF pw m none] reg by (auto simp: loop_interest_def loop_ps_def)
  obtain cs p where q: "u = (cs, p)" by (cases u)
  have idx: "cs d = set_index (ch_index (cs d)) (r_chans s d)" for d
    using u[unfolded q] by (cases rule: removeChannel_cases) (auto simp: set_index_def)
  have r: "channelRemove c s = Inr (set_ps l (cs, p) s)"
    using u q thr l none
    by (simp add: channelRemove_def loopRemoveChannel_def assertInLoopThread_def loop_ps_def)
  then have "loopRemoveChannel l c s = Inr (set_ps l (cs, p) s)"
    using none l by (simp add: channelRemove_def)
  from loopRemoveChannel_wf[OF wf this] r idx removeChannel_interest[OF pw u]
  show ?thesis by (auto simp: q loop_interest_def loop_ps_def)
qed

text \<open>A new channel is not known to any loop.\<close>

lemma newChannel_contract:
  assumes wf: "reactor_wf s" and new: "newChannel l fd s = (c, t)"
  shows "reactor_wf t" "c = r_nextChan s" "loop_interest k t = loop_interest k s"
    "d < r_nextChan s \<Longrightarrow> r_chans t d = r_chans s d" "r_chans t c = mkChannel l fd" "r_loops t = r_loops s"
    "r_nextChan t = Suc (r_nextChan s)"
    "0 \<le> fd \<Longrightarrow> loop_interest l s fd = None \<Longrightarrow> chan_ok c t"
proof -
  show t: "reactor_wf t" by (rule newChannel_wf[OF wf new])
  have tt: "c = r_nextChan s" "t = s\<lparr>r_chans := (r_chans s)(c := mkChannel l fd), r_nextChan := Suc c\<rparr>"
    using new by (auto simp: newChannel_def Let_def)
  then show "c = r_nextChan s" "d < r_nextChan s \<Longrightarrow> r_chans t d = r_chans s d" "r_chans t c = mkChannel l fd"
    "r_loops t = r_loops s" "r_nextChan t = Suc (r_nextChan s)" by simp_all
  have "ch_index (r_chans t d) = ch_index (r_chans s d)" if "channels (el_poller (r_loops s k)) f = Some d" for k f d
    using reactor_wfD(3)[OF wf that] tt by simp
  then show "loop_interest k t = loop_interest k s"
    unfolding loop_interest_def using tt
    by (intro ext) (auto simp: interest_def loop_ps_def Let_def split: option.splits)
  assume "0 \<le> fd" "loop_interest l s fd = None"
  then show "chan_ok c t"
    by (auto simp: chan_ok_def tt chan_known_def loop_ps_def mkChannel_def loop_interest_def interest_def
        Let_def split: option.splits)
qed

lemma loopOfThread_sel [simp]:
  "r_loopOfThread (mod_loop l f s) = r_loopOfThread s" "r_loopOfThread (mod_chan c g s) = r_loopOfThread s"
  "r_loopOfThread (emit e s) = r_loopOfThread s" "r_loopOfThread (set_ps l ps s) = r_loopOfThread s"
  by (simp_all add: mod_loop_def mod_chan_def emit_def set_ps_def)

lemma loop_interest_sel [simp]:
  "loop_interest l (emit e s) = loop_interest l s"
  by (simp add: loop_interest_def loop_ps_def)

lemma loop_interest_mod_loop:
  "(\<And>el. el_poller (f el) = el_poller el) \<Longrightarrow> loop_interest k (mod_loop l f s) = loop_interest k s"
  by (auto simp: loop_interest_def loop_ps_def)

lemma chan_ok_mod_loop:
  "(\<And>el. el_poller (f el) = el_poller el) \<Longrightarrow> chan_ok c (mod_loop l f s) = chan_ok c s"
  by (auto simp: chan_ok_def loop_ps_def)

lemma chan_ok_emit [simp]: "chan_ok c (emit e s) = chan_ok c s"
  by (simp add: chan_ok_def loop_ps_def)

section \<open>Properties\<close>

text \<open>A loop with one channel, on descriptor 5, registered for reading.\<close>

definition sampleReading :: reactor where
  "sampleReading = \<lparr>r_tid = 1, r_loopOfThread = (\<lambda>_. None)(1 := Some 0),
     r_chans = (\<lambda>c. (mkChannel 0 5)\<lparr>ch_events := 3, ch_index := 0\<rparr>), r_nextChan = 1,
     r_loops = (\<lambda>l. \<lparr>el_activeChannels = [], el_quit = False, el_isLoopping = False, el_threadId = 1,
        el_maxWaitTimeM = 10000,
        el_poller = (if l = 0 then \<lparr>pollfds = [\<lparr>pfd_fd = 5, pfd_events = 3, pfd_revents = 0\<rparr>], channels = [5 \<mapsto> 0]\<rparr>
                     else mkPoller),
        el_timerQueue = \<lparr>tq_timerfd = 4, tq_timers = [], tq_channel = 1\<rparr>,
        el_wakeupFd = 3, el_wakeupChannel = 0, el_funcQueue = [], el_isExecuteQueueFunc = False\<rparr>),
     r_nextLoop = 1, r_timers = (\<lambda>_. None), r_seqGen = 0, r_trace = []\<rparr>"

lemma sampleReading_ok: "reactor_wf sampleReading" "chan_ok 0 sampleReading"
  "loop_interest 0 sampleReading 5 = Some (True, 3)" "r_chans sampleReading 0 = (mkChannel 0 5)\<lparr>ch_events := 3, ch_index := 0\<rparr>"
  by (auto simp: reactor_wf_def loop_ps_def sampleReading_def poller_wf_def mkPoller_def mkChannel_def chan_ok_def
      chan_known_def loop_interest_def interest_def split: if_splits)



text \<open>
  \<open>disableWrite\<close> does not reach the poller: after \<open>enableWrite\<close> and \<open>disableWrite\<close> of a
  watched channel, \<open>isWriting()\<close> is false, yet the loop still polls its descriptor for \<open>POLLOUT\<close>,
  so it wakes up again and again while the descriptor is writable.
\<close>

theorem disableWrite_still_polled:
  assumes "reactor_wf s" and "chan_ok c s" and "enableWrite c s = Inr t"
    and "\<forall>e. loop_interest (ch_ownerLoop (r_chans s c)) s (ch_fd (r_chans s c)) \<noteq> Some (False, e)"
  shows "\<not> isWriting (r_chans (disableWrite c t) c) \<and>
    (\<exists>e. loop_interest (ch_ownerLoop (r_chans s c)) (disableWrite c t) (ch_fd (r_chans s c)) = Some (True, e)
       \<and> e AND ucast POLLOUT \<noteq> 0)"
proof -
  let ?i = "loop_interest (ch_ownerLoop (r_chans s c)) s (ch_fd (r_chans s c))"
  have w: "isWriting (addWriteEvent (r_chans s c))" by simp
  then have "\<not> isNoneEvent (addWriteEvent (r_chans s c))" using isNoneEvent_not_writing by blast
  then have wa: "watch_after ?i (addWriteEvent (r_chans s c))"
    using assms(4) by (auto simp: watch_after_def split: option.splits)
  have "loop_interest (ch_ownerLoop (r_chans s c)) t (ch_fd (r_chans s c)) =
      Some (True, ucast (ch_events (addWriteEvent (r_chans s c))))"
    using updateWith_contract(2)[OF assms(1,2) _ assms(3)[unfolded enable_ops]] wa by (simp add: Let_def)
  moreover have "bit (ucast (ch_events (addWriteEvent (r_chans s c))) AND ucast POLLOUT :: 16 word) 2"
    using w by (simp add: isWriting_bit bit_simps poll_bits)
  then have "(ucast (ch_events (addWriteEvent (r_chans s c))) AND ucast POLLOUT :: 16 word) \<noteq> 0" by fastforce
  ultimately show ?thesis by (simp add: disableWrite_def mod_chan_identity)
qed

theorem disableWrite_still_polled_witness:
  "\<exists>t e. enableWrite 0 sampleReading = Inr t \<and> \<not> isWriting (r_chans (disableWrite 0 t) 0) \<and>
    loop_interest 0 (disableWrite 0 t) 5 = Some (True, e) \<and> e AND ucast POLLOUT \<noteq> 0"
proof -
  obtain t where t: "enableWrite 0 sampleReading = Inr t"
    unfolding enable_ops using updateWith_contract(1)[OF sampleReading_ok(1,2)] by fastforce
  from disableWrite_still_polled[OF sampleReading_ok(1,2) t] t sampleReading_ok(3,4)
  show ?thesis by (simp add: mkChannel_def)
qed

end
