(* ===== verification/TimerService.thy ===== *)
theory TimerService
  imports Functors Registration
begin

text \<open>
  \<open>TimerQueue.cc\<close> as the event loop runs it, \<open>EventLoop::runAt\<close>, \<open>runAfter\<close>, \<open>runEvery\<close>, and
  the constructors and destructors of \<open>TimerQueue\<close> and \<open>EventLoop\<close>.  The facts: which timers
  fire, that the timerfd stays set for the earliest timer, what becomes of timers that fired.
\<close>

record timerId =
  ti_timer :: timer_ptr
  ti_sequence :: "64 word"

section \<open>Operations of the timer queue\<close>

definition timers_of :: "loop_id \<Rightarrow> 'z reactor_scheme \<Rightarrow> entry list" where
  "timers_of l s = tq_timers (el_timerQueue (r_loops s l))"

definition timerfd_in :: "loop_id \<Rightarrow> 'z reactor_scheme \<Rightarrow> int" where
  "timerfd_in l s = tq_timerfd (el_timerQueue (r_loops s l))"

definition set_timers :: "loop_id \<Rightarrow> entry list \<Rightarrow> 'z reactor_scheme \<Rightarrow> 'z reactor_scheme" where
  "set_timers l ts s =
     mod_loop l (\<lambda>el. el\<lparr>el_timerQueue := (el_timerQueue el)\<lparr>tq_timers := ts\<rparr>\<rparr>) s"

definition set_timer :: "timer_ptr \<Rightarrow> timer option \<Rightarrow> 'z reactor_scheme \<Rightarrow> 'z reactor_scheme" where
  "set_timer p x s = s\<lparr>r_timers := (r_timers s)(p := x)\<rparr>"

text \<open>A timer object that is dereferenced.\<close>

definition deref :: "timer_ptr \<Rightarrow> 'z reactor_scheme \<Rightarrow> timer result" where
  "deref p s = (case r_timers s p of None \<Rightarrow> Inl (Dangling ''Timer'') | Some t \<Rightarrow> Inr t)"

text \<open>\<open>new Timer(cb, time, interval)\<close>, which draws the next sequence number.\<close>

definition newTimer ::
  "'b env \<Rightarrow> task \<Rightarrow> timestamp \<Rightarrow> seconds \<Rightarrow> 'z reactor_scheme \<Rightarrow> timer_ptr \<times> 'z reactor_scheme" where
  "newTimer E cb time interval s =
     (let p = alloc_of E (r_trace s);
          s = emit (SysAlloc p) s;
          s = set_timer p (Some (mkTimer cb time interval (r_seqGen s))) s
      in (p, s\<lparr>r_seqGen := r_seqGen s + 1\<rparr>))"

definition resetTimerfd :: "'b env \<Rightarrow> loop_id \<Rightarrow> timestamp \<Rightarrow> 'z reactor_scheme \<Rightarrow> 'z reactor_scheme" where
  "resetTimerfd E l when s =
     (let (now, s) = readNow E s;
          (sec, nsec) = getTimeDiffFromNow E when now
      in emit (SysSettime (timerfd_in l s) sec nsec) s)"

text \<open>\<open>TimerQueue::insert\<close> on the state.\<close>

definition queueInsert :: "loop_id \<Rightarrow> timer_ptr \<Rightarrow> 'z reactor_scheme \<Rightarrow> (bool \<times> 'z reactor_scheme) result" where
  "queueInsert l p s =
     bindR (deref p s) (\<lambda>t.
       let (isEarliest, ts) = insertTimer (tm_expiration t) p (timers_of l s)
       in Inr (isEarliest, set_timers l ts s))"

definition addTimerInLoop :: "'b env \<Rightarrow> loop_id \<Rightarrow> timer_ptr \<Rightarrow> 'z reactor_scheme \<Rightarrow> 'z reactor_scheme result" where
  "addTimerInLoop E l p s =
     bindR (assertInLoopThread l s) (\<lambda>s.
     bindR (queueInsert l p s) (\<lambda>(isEarliestTimer, s).
       if isEarliestTimer
       then bindR (deref p s) (\<lambda>t. Inr (resetTimerfd E l (tm_expiration t) s))
       else Inr s))"

definition addTimer ::
  "'b env \<Rightarrow> 'z runner \<Rightarrow> loop_id \<Rightarrow> task \<Rightarrow> timestamp \<Rightarrow> seconds \<Rightarrow> 'z reactor_scheme
   \<Rightarrow> (timerId \<times> 'z reactor_scheme) result" where
  "addTimer E run l cb time interval s =
     (let (p, s) = newTimer E cb time interval s in
      bindR (runInLoop E run l (TAddTimer l p) s) (\<lambda>s.
      bindR (deref p s) (\<lambda>t. Inr (\<lparr>ti_timer = p, ti_sequence = tm_sequence t\<rparr>, s))))"

text \<open>\<open>TimerQueue::reset\<close>: the repeating timers among the expired are restarted and inserted again.\<close>

definition resetOne :: "'b env \<Rightarrow> loop_id \<Rightarrow> timestamp \<Rightarrow> entry \<Rightarrow> 'z reactor_scheme \<Rightarrow> 'z reactor_scheme result" where
  "resetOne E l now e s =
     bindR (deref (entry_timer e) s) (\<lambda>t.
       if tm_repeat t
       then bindR (queueInsert l (entry_timer e) (set_timer (entry_timer e) (Some (restart E now t)) s))
              (\<lambda>(_, s). Inr s)
       else Inr s)"

definition timerReset ::
  "'b env \<Rightarrow> loop_id \<Rightarrow> entry list \<Rightarrow> timestamp \<Rightarrow> 'z reactor_scheme \<Rightarrow> 'z reactor_scheme result" where
  "timerReset E l expired now s =
     bindR (foldR (resetOne E l now) expired s) (\<lambda>s.
       let when = (case timers_of l s of e # _ \<Rightarrow> entry_time e | [] \<Rightarrow> stamp_invalid E)
       in Inr (if stamp_valid E when then resetTimerfd E l when s else s))"

text \<open>\<open>Timer::run\<close>\<close>

definition runTimer :: "'z runner \<Rightarrow> timer_ptr \<Rightarrow> 'z reactor_scheme \<Rightarrow> 'z reactor_scheme result" where
  "runTimer run p s = bindR (deref p s) (\<lambda>t. run (tm_callback t) s)"

text \<open>\<open>TimerQueue::handleRead\<close>\<close>

definition timerRead :: "'b env \<Rightarrow> 'z runner \<Rightarrow> loop_id \<Rightarrow> 'z reactor_scheme \<Rightarrow> 'z reactor_scheme result" where
  "timerRead E run l s =
     bindR (assertInLoopThread l s) (\<lambda>s.
       let (now, s) = readNow E s in
       bindR (getExpired now (timers_of l s)) (\<lambda>(expiredList, rest).
       bindR (foldR (\<lambda>e. runTimer run (entry_timer e)) expiredList (set_timers l rest s))
         (timerReset E l expiredList now)))"

section \<open>The interface of the loop\<close>

definition runAt ::
  "'b env \<Rightarrow> 'z runner \<Rightarrow> loop_id \<Rightarrow> timestamp \<Rightarrow> task \<Rightarrow> 'z reactor_scheme
   \<Rightarrow> (timerId \<times> 'z reactor_scheme) result" where
  "runAt E run l time cb s = addTimer E run l cb time 0 s"

definition runAfter ::
  "'b env \<Rightarrow> 'z runner \<Rightarrow> loop_id \<Rightarrow> seconds \<Rightarrow> task \<Rightarrow> 'z reactor_scheme
   \<Rightarrow> (timerId \<times> 'z reactor_scheme) result" where
  "runAfter E run l delay cb s =
     (let (now, s) = readNow E s; when = stamp_addTime E now delay in runAt E run l when cb s)"

definition runEvery ::
  "'b env \<Rightarrow> 'z runner \<Rightarrow> loop_id \<Rightarrow> seconds \<Rightarrow> task \<Rightarrow> 'z reactor_scheme
   \<Rightarrow> (timerId \<times> 'z reactor_scheme) result" where
  "runEvery E run l interval cb s =
     (let (time, s) = readNow E s in addTimer E run l cb time interval s)"

section \<open>Construction and destruction\<close>

definition newTimerQueue :: "'b env \<Rightarrow> loop_id \<Rightarrow> 'z reactor_scheme \<Rightarrow> 'z reactor_scheme result" where
  "newTimerQueue E l s =
     (let fd = timerfd_of E (r_trace s);
          (c, s) = newChannel l fd (emit (SysTimerfd fd) s);
          s = mod_loop l (\<lambda>el. el\<lparr>el_timerQueue := \<lparr>tq_timerfd = fd, tq_timers = [], tq_channel = c\<rparr>\<rparr>) s
      in enableRead c (mod_chan c (setReadCallback (\<lambda>_. TTimerRead l)) s))"

text \<open>
  The members are initialised in the order of their declaration; until their turn comes, the
  wakeup descriptor and the members of the timer queue hold no value the code reads.
\<close>

definition rawLoop :: "thread_id \<Rightarrow> eventloop" where
  "rawLoop tid =
     \<lparr>el_activeChannels = [], el_quit = False, el_isLoopping = False, el_threadId = tid,
      el_maxWaitTimeM = 10000, el_poller = mkPoller,
      el_timerQueue = \<lparr>tq_timerfd = - 1, tq_timers = [], tq_channel = 0\<rparr>, el_wakeupFd = - 1,
      el_wakeupChannel = 0, el_funcQueue = [], el_isExecuteQueueFunc = False\<rparr>"

definition newEventLoop :: "'b env \<Rightarrow> 'z reactor_scheme \<Rightarrow> (loop_id \<times> 'z reactor_scheme) result" where
  "newEventLoop E s =
     (let l = r_nextLoop s;
          s = mod_loop l (\<lambda>_. rawLoop (r_tid s)) (s\<lparr>r_nextLoop := Suc l\<rparr>) in
      bindR (newTimerQueue E l s) (\<lambda>s.
        let fd = eventfd_of E (r_trace s);
            (c, s) = newChannel l fd (emit (SysEventfd fd) s);
            s = mod_loop l (\<lambda>el. el\<lparr>el_wakeupFd := fd, el_wakeupChannel := c\<rparr>) s in
        bindR (if r_loopOfThread s (r_tid s) \<noteq> None
               then logFatal E ''EventLoop::EventLoop() - Already has an EventLoop!'' s
               else Inr (s\<lparr>r_loopOfThread := (r_loopOfThread s)(r_tid s \<mapsto> l)\<rparr>)) (\<lambda>s.
        bindR (enableRead c (mod_chan c (setReadCallback (\<lambda>_. TWakeupRead l)) s)) (\<lambda>s.
        Inr (l, s)))))"

text \<open>\<open>delete\<close> of a timer; deleting it twice is an error.\<close>

definition deleteTimer :: "timer_ptr \<Rightarrow> 'z reactor_scheme \<Rightarrow> 'z reactor_scheme result" where
  "deleteTimer p s = bindR (deref p s) (\<lambda>_. Inr (set_timer p None s))"

definition sysClose :: "'b env \<Rightarrow> int \<Rightarrow> 'z reactor_scheme \<Rightarrow> 'z reactor_scheme" where
  "sysClose E fd s = emit (SysClose fd (close_of E (r_trace s) fd)) s"

definition dtorTimerQueue :: "'b env \<Rightarrow> loop_id \<Rightarrow> 'z reactor_scheme \<Rightarrow> 'z reactor_scheme result" where
  "dtorTimerQueue E l s =
     bindR (foldR (\<lambda>e. deleteTimer (entry_timer e)) (timers_of l s) (sysClose E (timerfd_in l s) s)) (\<lambda>s.
     bindR (dtorChannel (r_chans s (tq_channel (el_timerQueue (r_loops s l))))) (\<lambda>_. Inr s))"

text \<open>The body of \<open>~EventLoop\<close>, then the members in reverse order of their declaration.\<close>

definition dtorEventLoop :: "'b env \<Rightarrow> loop_id \<Rightarrow> 'z reactor_scheme \<Rightarrow> 'z reactor_scheme result" where
  "dtorEventLoop E l s =
     (let s = s\<lparr>r_loopOfThread := (r_loopOfThread s)(r_tid s := None)\<rparr>;
          s = sysClose E (el_wakeupFd (r_loops s l)) s in
      bindR (dtorChannel (r_chans s (el_wakeupChannel (r_loops s l)))) (\<lambda>_. dtorTimerQueue E l s))"

section \<open>Facts about the state\<close>

lemma set_timers_sel [simp]:
  "timers_of k (set_timers l ts s) = (if k = l then ts else timers_of k s)"
  "timerfd_in k (set_timers l ts s) = timerfd_in k s"
  "r_timers (set_timers l ts s) = r_timers s" "r_trace (set_timers l ts s) = r_trace s"
  "r_tid (set_timers l ts s) = r_tid s" "r_chans (set_timers l ts s) = r_chans s"
  "r_nextChan (set_timers l ts s) = r_nextChan s" "r_nextLoop (set_timers l ts s) = r_nextLoop s"
  "el_threadId (r_loops (set_timers l ts s) k) = el_threadId (r_loops s k)"
  "el_poller (r_loops (set_timers l ts s) k) = el_poller (r_loops s k)"
  "el_funcQueue (r_loops (set_timers l ts s) k) = el_funcQueue (r_loops s k)"
  by (simp_all add: set_timers_def timers_of_def timerfd_in_def)

lemma set_timer_sel [simp]:
  "timers_of k (set_timer p x s) = timers_of k s" "timerfd_in k (set_timer p x s) = timerfd_in k s"
  "r_timers (set_timer p x s) = (r_timers s)(p := x)" "r_trace (set_timer p x s) = r_trace s"
  "r_tid (set_timer p x s) = r_tid s" "r_loops (set_timer p x s) = r_loops s"
  "r_chans (set_timer p x s) = r_chans s" "r_nextChan (set_timer p x s) = r_nextChan s"
  "r_nextLoop (set_timer p x s) = r_nextLoop s"
  by (simp_all add: set_timer_def timers_of_def timerfd_in_def)

lemma timers_of_sel [simp]:
  "timers_of k (emit e s) = timers_of k s" "timerfd_in k (emit e s) = timerfd_in k s"
  "timers_of k (mod_chan c g s) = timers_of k s" "timerfd_in k (mod_chan c g s) = timerfd_in k s"
  by (simp_all add: timers_of_def timerfd_in_def)

lemma deref_Inr_iff [result_simps]: "deref p s = Inr t \<longleftrightarrow> r_timers s p = Some t"
  by (simp add: deref_def split: option.splits)

lemma deref_Some [simp]: "r_timers s p = Some t \<Longrightarrow> deref p s = Inr t"
  by (simp add: deref_def)

lemma readNow_eq: "readNow E s = (now_of E (r_trace s), emit (SysNow (now_of E (r_trace s))) s)"
  by (simp add: readNow_def Let_def)

lemma resetTimerfd_eq:
  "resetTimerfd E l when s =
    (let now = now_of E (r_trace s) in
     emit (SysSettime (timerfd_in l s) (fst (getTimeDiffFromNow E when now)) (snd (getTimeDiffFromNow E when now)))
       (emit (SysNow now) s))"
  by (simp add: resetTimerfd_def readNow_eq Let_def case_prod_beta)

lemma resetTimerfd_sel [simp]:
  "timers_of k (resetTimerfd E l when s) = timers_of k s"
  "timerfd_in k (resetTimerfd E l when s) = timerfd_in k s"
  "r_timers (resetTimerfd E l when s) = r_timers s" "r_loops (resetTimerfd E l when s) = r_loops s"
  "r_tid (resetTimerfd E l when s) = r_tid s" "r_chans (resetTimerfd E l when s) = r_chans s"
  "r_nextChan (resetTimerfd E l when s) = r_nextChan s"
  "r_nextLoop (resetTimerfd E l when s) = r_nextLoop s"
  by (simp_all add: resetTimerfd_eq Let_def)

lemma queueInsert_Inr_iff:
  "queueInsert l p s = Inr (b, t) \<longleftrightarrow> (\<exists>x. r_timers s p = Some x \<and>
     b = fst (insertTimer (tm_expiration x) p (timers_of l s)) \<and>
     t = set_timers l (insort_insert (Entry (tm_expiration x) p) (timers_of l s)) s)"
  by (auto simp: queueInsert_def result_simps insertTimer_def)

text \<open>An entry that is not the earliest leaves the earliest time as it is.\<close>

lemma hd_time_insert:
  assumes "sorted_wrt (<) (ts :: entry list)" and "\<not> fst (insertTimer x p ts)"
  shows "ts \<noteq> [] \<and> entry_time (hd (insort_insert (Entry x p) ts)) = entry_time (hd ts)"
proof (cases ts)
  case Nil
  then show ?thesis using assms(2) by (simp add: insertTimer_def)
next
  case (Cons e es)
  then have "entry_time e \<le> x" using assms(2) by (simp add: insertTimer_def)
  then have "entry_time (hd (insort_insert (Entry x p) ts)) = entry_time e"
    using Cons by (auto simp: insort_insert_key_def less_eq_entry_def less_entry_def)
  with Cons show ?thesis by simp
qed

lemma insort_insert_earliest:
  assumes "sorted_wrt (<) (ts :: entry list)" and "fst (insertTimer x p ts)"
  shows "hd (insort_insert (Entry x p) ts) = Entry x p"
proof (cases ts)
  case Nil
  then show ?thesis by (simp add: insort_insert_key_def)
next
  case (Cons e es)
  with assms(2) have "x < entry_time e" by (simp add: insertTimer_def)
  moreover have "entry_time e \<le> x" if "Entry x p \<in> set es"
    using assms(1) Cons that entry_time_mono[of e "Entry x p"] by auto
  ultimately have "Entry x p \<notin> set es" by auto
  with Cons \<open>x < entry_time e\<close> show ?thesis
    by (auto simp: insort_insert_key_def less_eq_entry_def less_entry_def)
qed

section \<open>The timerfd is set for the earliest timer\<close>

text \<open>
  What the trace says of a timerfd: the last clock reading before the last time it was set, and
  the time it was set to.
\<close>

fun arm_step :: "int \<Rightarrow> timestamp \<times> (timestamp \<times> int \<times> int) option \<Rightarrow> sysev
  \<Rightarrow> timestamp \<times> (timestamp \<times> int \<times> int) option" where
  "arm_step fd (now, arm) (SysNow t) = (t, arm)"
| "arm_step fd (now, arm) (SysSettime f s n) = (now, if f = fd then Some (now, s, n) else arm)"
| "arm_step fd (now, arm) _ = (now, arm)"

definition armedWith :: "int \<Rightarrow> trace \<Rightarrow> (timestamp \<times> int \<times> int) option" where
  "armedWith fd tr = snd (foldl (arm_step fd) (0, None) tr)"

definition timer_armed :: "'b env \<Rightarrow> loop_id \<Rightarrow> 'z reactor_scheme \<Rightarrow> bool" where
  "timer_armed E l s \<longleftrightarrow> (case timers_of l s of [] \<Rightarrow> True
     | e # _ \<Rightarrow> (case armedWith (timerfd_in l s) (r_trace s) of None \<Rightarrow> False
         | Some (now, d) \<Rightarrow> d = getTimeDiffFromNow E (entry_time e) now))"

lemma armedWith_set: "armedWith fd (tr @ [SysNow now, SysSettime fd s n]) = Some (now, s, n)"
  by (cases "foldl (arm_step fd) (0, None) tr") (simp add: armedWith_def)

lemma resetTimerfd_armed:
  "timers_of l s = e # es \<Longrightarrow> timer_armed E l (resetTimerfd E l (entry_time e) s)"
  using armedWith_set[of "timerfd_in l s" "r_trace s" "now_of E (r_trace s)"]
  by (simp add: timer_armed_def resetTimerfd_eq Let_def)

lemma timer_armed_cong:
  assumes "timers_of l t = e # es" "timers_of l s = e' # es'" "entry_time e = entry_time e'"
    "timerfd_in l t = timerfd_in l s" "r_trace t = r_trace s"
  shows "timer_armed E l t = timer_armed E l s"
  using assms by (simp add: timer_armed_def split: option.split prod.split)

text \<open>Set for the earliest timer, unless that has an invalid time, for which \<open>reset\<close> sets nothing.\<close>

definition agenda_armed :: "'b env \<Rightarrow> loop_id \<Rightarrow> 'z reactor_scheme \<Rightarrow> bool" where
  "agenda_armed E l s \<longleftrightarrow> timer_armed E l s \<or>
     (timers_of l s \<noteq> [] \<and> \<not> stamp_valid E (entry_time (hd (timers_of l s))))"

lemma addTimerInLoop_cases:
  assumes "addTimerInLoop E l p s = Inr t"
  obtains (earliest) x where "r_timers s p = Some x" "isInLoopThread l s"
    "fst (insertTimer (tm_expiration x) p (timers_of l s))"
    "t = resetTimerfd E l (tm_expiration x)
       (set_timers l (insort_insert (Entry (tm_expiration x) p) (timers_of l s)) s)"
  | (later) x where "r_timers s p = Some x" "isInLoopThread l s"
    "\<not> fst (insertTimer (tm_expiration x) p (timers_of l s))"
    "t = set_timers l (insort_insert (Entry (tm_expiration x) p) (timers_of l s)) s"
proof -
  from assms obtain b u where u: "isInLoopThread l s" "queueInsert l p s = Inr (b, u)"
    "(if b then bindR (deref p u) (\<lambda>t. Inr (resetTimerfd E l (tm_expiration t) u)) else Inr u) = Inr t"
    unfolding addTimerInLoop_def assertInLoopThread_def bindR_Inr_iff assertR_Inr_iff by auto
  from u(2) obtain x where "r_timers s p = Some x" "b = fst (insertTimer (tm_expiration x) p (timers_of l s))"
    "u = set_timers l (insort_insert (Entry (tm_expiration x) p) (timers_of l s)) s"
    unfolding queueInsert_Inr_iff by blast
  with u(1,3) that show thesis by (cases b) auto
qed

lemma insort_insert_not_Nil [simp]: "insort_insert x xs \<noteq> []"
  by (auto simp: insort_insert_key_def)

lemma addTimerInLoop_armed:
  assumes s: "timers_wf (timers_of l s)" "agenda_armed E l s" and t: "addTimerInLoop E l p s = Inr t"
  shows "agenda_armed E l t"
  using t
proof (cases rule: addTimerInLoop_cases)
  case (earliest x)
  let ?ts = "insort_insert (Entry (tm_expiration x) p) (timers_of l s)"
  have "?ts = Entry (tm_expiration x) p # tl ?ts"
    using insort_insert_earliest earliest(3) s(1) unfolding timers_wf_def by (metis insort_insert_not_Nil list.collapse)
  then have "timers_of l (set_timers l ?ts s) = Entry (tm_expiration x) p # tl ?ts" by simp
  from resetTimerfd_armed[OF this, of E] earliest(4) show ?thesis by (simp add: agenda_armed_def)
next
  case (later x)
  let ?ts = "insort_insert (Entry (tm_expiration x) p) (timers_of l s)"
  from later(3) s have h: "timers_of l s \<noteq> []" "entry_time (hd ?ts) = entry_time (hd (timers_of l s))"
    using hd_time_insert by (auto simp: timers_wf_def)
  have "timer_armed E l t = timer_armed E l s"
    using h by (intro timer_armed_cong[where e = "hd ?ts" and e' = "hd (timers_of l s)" and
          es = "tl ?ts" and es' = "tl (timers_of l s)"]) (auto simp: later(4))
  moreover have "timers_of l t = ?ts" by (simp add: later(4))
  ultimately show ?thesis using s(2) h by (simp add: agenda_armed_def)
qed

lemma timerReset_cases:
  assumes "timerReset E l ex now s = Inr t"
  obtains (empty) u where "foldR (resetOne E l now) ex s = Inr u" "timers_of l u = []"
    "t = (if stamp_valid E (stamp_invalid E) then resetTimerfd E l (stamp_invalid E) u else u)"
  | (pending) u e es where "foldR (resetOne E l now) ex s = Inr u" "timers_of l u = e # es"
    "t = (if stamp_valid E (entry_time e) then resetTimerfd E l (entry_time e) u else u)"
proof -
  from assms obtain u where u: "foldR (resetOne E l now) ex s = Inr u"
    "Inr t = (Inr (if stamp_valid E (case timers_of l u of e # _ \<Rightarrow> entry_time e | [] \<Rightarrow> stamp_invalid E)
       then resetTimerfd E l (case timers_of l u of e # _ \<Rightarrow> entry_time e | [] \<Rightarrow> stamp_invalid E) u else u) :: 'a reactor_scheme result)"
    unfolding timerReset_def bindR_Inr_iff Let_def by metis
  with that show thesis by (cases "timers_of l u") auto
qed

lemma timerReset_armed:
  assumes "timerReset E l ex now s = Inr t"
  shows "agenda_armed E l t"
  using assms
proof (cases rule: timerReset_cases)
  case (empty u)
  then have "timers_of l t = []" by simp
  then show ?thesis by (simp add: agenda_armed_def timer_armed_def)
next
  case (pending u e es)
  with resetTimerfd_armed[OF pending(2), of E] show ?thesis by (auto simp: agenda_armed_def)
qed

lemma timerRead_steps:
  assumes "timerRead E run l s = Inr t"
  obtains now ex rest u where "isInLoopThread l s" "now = now_of E (r_trace s)"
    "getExpired now (timers_of l s) = Inr (ex, rest)"
    "foldR (\<lambda>e. runTimer run (entry_timer e)) ex (set_timers l rest (emit (SysNow now) s)) = Inr u"
    "timerReset E l ex now u = Inr t"
  using assms unfolding timerRead_def assertInLoopThread_def readNow_eq Let_def
  by (auto simp: result_simps)

lemma timerRead_armed: "timerRead E run l s = Inr t \<Longrightarrow> agenda_armed E l t"
  by (elim timerRead_steps) (rule timerReset_armed)

section \<open>Which timers fire\<close>

text \<open>
  What closures may do to the timers of a loop: add some.  They neither delete a timer nor take
  an entry out of the agenda, which the library gives them no operation for.
\<close>

definition timers_only_added :: "'z runner \<Rightarrow> loop_id \<Rightarrow> bool" where
  "timers_only_added run l \<longleftrightarrow> (\<forall>t s s'. run t s = Inr s' \<longrightarrow>
     (\<forall>p x. r_timers s p = Some x \<longrightarrow> r_timers s' p = Some x) \<and>
     (timers_wf (timers_of l s) \<longrightarrow>
        timers_wf (timers_of l s') \<and> set (timers_of l s) \<subseteq> set (timers_of l s')))"

definition timers_live :: "loop_id \<Rightarrow> 'z reactor_scheme \<Rightarrow> bool" where
  "timers_live l s \<longleftrightarrow> (\<forall>e \<in> set (timers_of l s). r_timers s (entry_timer e) \<noteq> None)"

lemma run_timers_map:
  assumes "timers_only_added run l" and "\<And>e. e \<in> set es \<Longrightarrow> r_timers s (entry_timer e) \<noteq> None"
    and "\<And>p x. r_timers s p = Some x \<Longrightarrow> r_timers u p = Some x"
  shows "foldR (\<lambda>e. runTimer run (entry_timer e)) es u =
    foldR run (map (\<lambda>e. tm_callback (the (r_timers s (entry_timer e)))) es) u"
  using assms(2,3)
proof (induction es arbitrary: u)
  case Nil
  then show ?case by simp
next
  case (Cons e es)
  obtain x where x: "r_timers s (entry_timer e) = Some x" using Cons.prems(1)[of e] by auto
  then have r: "runTimer run (entry_timer e) u = run (tm_callback x) u"
    using Cons.prems(2) by (simp add: runTimer_def)
  show ?case
  proof (cases "run (tm_callback x) u")
    case (Inl a)
    then show ?thesis using r x by simp
  next
    case (Inr v)
    have "r_timers v p = Some y" if "r_timers s p = Some y" for p y
      using assms(1) Inr Cons.prems(2)[OF that] unfolding timers_only_added_def by blast
    then have "foldR (\<lambda>e. runTimer run (entry_timer e)) es v =
        foldR run (map (\<lambda>e. tm_callback (the (r_timers s (entry_timer e)))) es) v"
      using Cons.IH[of v] Cons.prems(1) by simp
    then show ?thesis using r x Inr by simp
  qed
qed

text \<open>The entry a repeating timer gets when it is restarted.\<close>

definition next_entry :: "'b env \<Rightarrow> timestamp \<Rightarrow> 'z reactor_scheme \<Rightarrow> entry \<Rightarrow> entry" where
  "next_entry E now s e =
     Entry (stamp_addTime E now (tm_interval (the (r_timers s (entry_timer e))))) (entry_timer e)"

definition repeats :: "'z reactor_scheme \<Rightarrow> entry \<Rightarrow> bool" where
  "repeats s e \<longleftrightarrow> tm_repeat (the (r_timers s (entry_timer e)))"

lemma resetOne_Inr:
  assumes "resetOne E l now e s = Inr t"
  obtains (once) x where "r_timers s (entry_timer e) = Some x" "\<not> tm_repeat x" "t = s"
  | (again) x where "r_timers s (entry_timer e) = Some x" "tm_repeat x"
    "t = set_timers l (insort_insert (next_entry E now s e) (timers_of l s))
           (set_timer (entry_timer e) (Some (restart E now x)) s)"
proof -
  from assms obtain x where x: "r_timers s (entry_timer e) = Some x"
    "(if tm_repeat x
       then bindR (queueInsert l (entry_timer e) (set_timer (entry_timer e) (Some (restart E now x)) s)) (\<lambda>(_, s). Inr s)
       else Inr s) = Inr t"
    by (auto simp: resetOne_def result_simps)
  show thesis
  proof (cases "tm_repeat x")
    case True
    with x(2) obtain b where "queueInsert l (entry_timer e) (set_timer (entry_timer e) (Some (restart E now x)) s) = Inr (b, t)"
      by (auto simp: bindR_Inr_iff)
    then have "t = set_timers l (insort_insert (next_entry E now s e) (timers_of l s))
           (set_timer (entry_timer e) (Some (restart E now x)) s)"
      using True x(1) by (simp add: queueInsert_Inr_iff next_entry_def restart_def)
    with x(1) True show thesis by (rule again)
  next
    case False
    with x(2) have "t = s" by simp
    with x(1) False show thesis by (rule once)
  qed
qed

lemma reset_timers:
  assumes "foldR (resetOne E l now) es s = Inr t" and "timers_wf (timers_of l s)"
    and "\<And>e. e \<in> set es \<Longrightarrow> entry_timer e < UINTPTR_MAX"
  shows "timers_wf (timers_of l t) \<and>
    set (timers_of l t) = set (timers_of l s) \<union> next_entry E now s ` {e \<in> set es. repeats s e} \<and>
    (\<forall>p. r_timers t p = None \<longleftrightarrow> r_timers s p = None)"
  using assms
proof (induction es arbitrary: s)
  case Nil
  then show ?case by auto
next
  case (Cons e es)
  from Cons.prems(1) obtain u where u: "resetOne E l now e s = Inr u" "foldR (resetOne E l now) es u = Inr t"
    by (auto simp: result_simps)
  from u(1) show ?case
  proof (cases rule: resetOne_Inr)
    case (once x)
    then have "\<not> repeats s e" by (simp add: repeats_def)
    then have "{a \<in> set (e # es). repeats s a} = {a \<in> set es. repeats s a}" by auto
    then show ?thesis using Cons.IH[OF u(2)] once(3) Cons.prems(2,3) by simp
  next
    case (again x)
    have wf: "timers_wf (timers_of l u)"
      using timers_wf_insert[OF Cons.prems(2), of "entry_timer e"] Cons.prems(3)[of e]
      by (simp add: again(3) insertTimer_snd next_entry_def)
    have same: "repeats u a = repeats s a" "next_entry E now u a = next_entry E now s a" for a
      using again(1) by (simp_all add: again(3) repeats_def next_entry_def restart_def)
    have "repeats s e" using again by (simp add: repeats_def)
    then have "{a \<in> set (e # es). repeats s a} = insert e {a \<in> set es. repeats s a}" by auto
    moreover have "set (timers_of l u) = insert (next_entry E now s e) (set (timers_of l s))"
      by (simp add: again(3) set_insort_insert)
    moreover have "r_timers u p = None \<longleftrightarrow> r_timers s p = None" for p
      using again(1) by (simp add: again(3))
    ultimately show ?thesis using Cons.IH[OF u(2) wf] Cons.prems(3) by (auto simp: same)
  qed
qed

lemma timers_run_keep:
  assumes "timers_only_added run l" and "foldR run ts s = Inr t" and "timers_wf (timers_of l s)"
  shows "timers_wf (timers_of l t) \<and> set (timers_of l s) \<subseteq> set (timers_of l t) \<and>
    (\<forall>p x. r_timers s p = Some x \<longrightarrow> r_timers t p = Some x)"
proof (rule foldR_keeps[OF _ _ assms(2)])
  fix x u v
  assume "timers_wf (timers_of l u) \<and> set (timers_of l s) \<subseteq> set (timers_of l u) \<and>
    (\<forall>p x. r_timers s p = Some x \<longrightarrow> r_timers u p = Some x)" and "run x u = Inr v"
  then show "timers_wf (timers_of l v) \<and> set (timers_of l s) \<subseteq> set (timers_of l v) \<and>
    (\<forall>p x. r_timers s p = Some x \<longrightarrow> r_timers v p = Some x)"
    using assms(1) unfolding timers_only_added_def by (meson subset_trans)
qed (use assms(3) in simp)

lemma timers_wf_filter: "timers_wf ts \<Longrightarrow> timers_wf (filter P ts)"
  by (auto simp: timers_wf_def sorted_wrt_filter)

section \<open>Timers that are gone\<close>

lemma deleteTimer_keeps: "deleteTimer q s = Inr t \<Longrightarrow> p \<noteq> q \<Longrightarrow> r_timers t p = r_timers s p"
  by (auto simp: deleteTimer_def result_simps)

lemma dtorTimerQueue_keeps:
  assumes "dtorTimerQueue E l s = Inr t" and "\<And>e. e \<in> set (timers_of l s) \<Longrightarrow> entry_timer e \<noteq> p"
  shows "r_timers t p = r_timers s p"
proof -
  from assms(1) have "foldR (\<lambda>e. deleteTimer (entry_timer e)) (timers_of l s) (sysClose E (timerfd_in l s) s) = Inr t"
    by (auto simp: dtorTimerQueue_def result_simps)
  then show ?thesis
  proof (rule foldR_keeps[where P = "\<lambda>u. r_timers u p = r_timers s p", rotated 2])
    fix e u v
    assume "e \<in> set (timers_of l s)" "r_timers u p = r_timers s p" "deleteTimer (entry_timer e) u = Inr v"
    then show "r_timers v p = r_timers s p" using assms(2) deleteTimer_keeps by metis
  qed (simp add: sysClose_def)
qed

text \<open>
  A timerfd as its manual page documents it: it stays readable from an expiration until it is
  read or set again.
\<close>

fun timerfd_readable :: "int \<Rightarrow> trace \<Rightarrow> bool \<Rightarrow> bool" where
  "timerfd_readable fd [] b = b"
| "timerfd_readable fd (SysReadI64 f r # tr) b = timerfd_readable fd tr (if f = fd \<and> r = 8 then False else b)"
| "timerfd_readable fd (SysSettime f x y # tr) b = timerfd_readable fd tr (if f = fd then False else b)"
| "timerfd_readable fd (e # tr) b = timerfd_readable fd tr b"

lemma timerfd_readable_append:
  "timerfd_readable fd (tr @ tr') b = timerfd_readable fd tr' (timerfd_readable fd tr b)"
  by (induction fd tr b rule: timerfd_readable.induct) auto

lemma resetOne_trace: "resetOne E l now e s = Inr t \<Longrightarrow> r_trace t = r_trace s"
  by (erule resetOne_Inr) simp_all

section \<open>Properties\<close>

text \<open>A loop with a one-shot timer and a repeating timer due at 1000, and one timer for later.\<close>

definition sampleTimers :: reactor where
  "sampleTimers = set_timers 0 [Entry 500 100, Entry 900 101, Entry 5000000 102]
     (sampleReactor\<lparr>r_timers := [100 \<mapsto> mkTimer (TUser 5) 500 0 0, 101 \<mapsto> mkTimer (TUser 6) 900 2 1,
        102 \<mapsto> mkTimer (TUser 7) 5000000 0 2]\<rparr>)"

lemma sampleTimers_sel:
  "isInLoopThread 0 sampleTimers" "timers_of 0 sampleTimers = [Entry 500 100, Entry 900 101, Entry 5000000 102]"
  "r_timers sampleTimers = [100 \<mapsto> mkTimer (TUser 5) 500 0 0, 101 \<mapsto> mkTimer (TUser 6) 900 2 1,
        102 \<mapsto> mkTimer (TUser 7) 5000000 0 2]"
  "r_trace sampleTimers = []" "timerfd_in 0 sampleTimers = 4"
  by (simp_all add: sampleTimers_def isInLoopThread_def)
    (simp_all add: sampleReactor_def sampleLoop_def timerfd_in_def)

lemma sampleTimers_ok: "timers_wf (timers_of 0 sampleTimers)" "timers_live 0 sampleTimers"
  by (simp_all add: timers_wf_def timers_live_def sampleTimers_sel less_entry_def UINTPTR_MAX_def)

lemma now_sample [simp]: "now_of sampleEnv tr = 1000 + int (length tr)"
  by (simp add: sampleEnv_def)

lemma getExpired_sample:
  "getExpired 1000 [Entry 500 100, Entry 900 101, Entry 5000000 102] =
    Inr ([Entry 500 100, Entry 900 101], [Entry 5000000 102])"
  using getExpired_eq[OF sampleTimers_ok(1), of 1000] by (simp add: sampleTimers_sel)

lemma noteRun_timers: "timers_only_added (noteRun k) l"
  by (auto simp: timers_only_added_def noteRun_def queueInLoop_def wakeup_def Let_def timers_of_def
      split: task.splits if_splits)

text \<open>
  \<open>getTimeDiffFromNow\<close> gives \<open>timerfd_settime\<close> a valid and never zero time: the nanoseconds
  are below a second, and the two fields together are exactly the distance to the expiration, or
  100 microseconds when less than that is left.
\<close>

theorem getTimeDiffFromNow_exact:
  assumes "stamp_kMicroSecondsPerSecond E = 1000000"
  shows "case getTimeDiffFromNow E time now of (sec, nsec) \<Rightarrow>
    0 \<le> sec \<and> 0 \<le> nsec \<and> nsec < 1000000000 \<and>
    sec * 1000000000 + nsec = 1000 * max 100 (time - now)"
proof -
  define u where "u = max 100 (time - now)"
  have u: "0 \<le> u" "(if time - now < 100 then 100 else time - now) = u" by (auto simp: u_def)
  have "u div 1000000 * 1000000 + u mod 1000000 = u" by (rule div_mult_mod_eq)
  then have "u div 1000000 * 1000000000 + u mod 1000000 * 1000 = 1000 * u" by linarith
  moreover have "u mod 1000000 < 1000000" "0 \<le> u mod 1000000" "0 \<le> u div 1000000"
    using u(1) by (simp_all add: pos_imp_zdiv_nonneg_iff)
  ultimately show ?thesis using u assms unfolding u_def[symmetric]
    by (simp add: getTimeDiffFromNow_def Let_def cdiv_nonneg cmod_nonneg)
qed

theorem getTimeDiffFromNow_exact_witness:
  "getTimeDiffFromNow sampleEnv 2500000 1000000 = (1, 500000000) \<and>
   1 * 1000000000 + 500000000 = 1000 * max 100 (2500000 - 1000000 :: int)"
  using getTimeDiffFromNow_exact[of sampleEnv 2500000 1000000]
  by (simp add: getTimeDiffFromNow_def sampleEnv_def cdiv_def cmod_def)





text \<open>What happens to a timer queue: a timer is added in the loop, or the timerfd expires.\<close>

datatype 'z timer_event = Added timer_ptr | Expired "'z runner"

fun serve_timer :: "'b env \<Rightarrow> loop_id \<Rightarrow> 'z timer_event \<Rightarrow> 'z reactor_scheme \<Rightarrow> 'z reactor_scheme result" where
  "serve_timer E l (Added p) s = addTimerInLoop E l p s"
| "serve_timer E l (Expired run) s = timerRead E run l s"

fun timer_event_ok :: "loop_id \<Rightarrow> 'z timer_event \<Rightarrow> bool" where
  "timer_event_ok l (Added p) \<longleftrightarrow> p < UINTPTR_MAX"
| "timer_event_ok l (Expired run) \<longleftrightarrow> timers_only_added run l"

lemma addTimerInLoop_wf:
  assumes "addTimerInLoop E l p s = Inr t" and "timers_wf (timers_of l s)" and "p < UINTPTR_MAX"
  shows "timers_wf (timers_of l t)"
  using timers_wf_insert[OF assms(2,3)] by (rule_tac addTimerInLoop_cases[OF assms(1)]) (simp_all add: insertTimer_snd)

lemma timerRead_wf:
  assumes run: "timers_only_added run l" and wf: "timers_wf (timers_of l s)" and t: "timerRead E run l s = Inr t"
  shows "timers_wf (timers_of l t)"
  using t
proof (rule timerRead_steps)
  fix now ex rest u
  assume g: "getExpired now (timers_of l s) = Inr (ex, rest)"
    and f: "foldR (\<lambda>e. runTimer run (entry_timer e)) ex (set_timers l rest (emit (SysNow now) s)) = Inr u"
    and r: "timerReset E l ex now u = Inr t"
  from g have ex: "ex = filter (\<lambda>e. entry_time e \<le> now) (timers_of l s)"
    "rest = filter (\<lambda>e. now < entry_time e) (timers_of l s)" using getExpired_eq[OF wf] by simp_all
  have "timers_wf (timers_of l u)"
  proof (rule foldR_keeps[where P = "\<lambda>u. timers_wf (timers_of l u)", OF _ _ f])
    fix e v w assume "timers_wf (timers_of l v)" "runTimer run (entry_timer e) v = Inr w"
    then show "timers_wf (timers_of l w)" using run
      unfolding runTimer_def bindR_Inr_iff timers_only_added_def by blast
  qed (simp add: ex(2) timers_wf_filter[OF wf])
  moreover have "entry_timer e < UINTPTR_MAX" if "e \<in> set ex" for e
    using wf that by (auto simp: ex timers_wf_def)
  ultimately have "timers_wf (timers_of l v)" if "foldR (resetOne E l now) ex u = Inr v" for v
    using reset_timers[OF that] by blast
  with r show ?thesis by (cases rule: timerReset_cases) auto
qed



text \<open>
  A one-shot timer that fired is never deleted: once it has been run and is in the agenda no
  longer, its object is still allocated after \<open>handleRead\<close>, and the destructor of the queue, which
  deletes the timers of the agenda, does not delete it either.
\<close>

theorem fired_one_shot_leaks:
  assumes "timers_only_added run l" and "timers_wf (timers_of l s)" and "timers_live l s"
    and "e \<in> set (timers_of l s)" and "timerRead E run l s = Inr t"
    and "\<forall>a \<in> set (timers_of l t). entry_timer a \<noteq> entry_timer e"
    and "dtorTimerQueue E l t = Inr u"
  shows "r_timers t (entry_timer e) \<noteq> None \<and> r_timers u (entry_timer e) \<noteq> None"
proof -
  have "r_timers s (entry_timer e) \<noteq> None" using assms(3,4) by (auto simp: timers_live_def)
  \<comment> \<open>the timer survives the callbacks and the reset\<close>
  moreover from assms(5) obtain now ex rest v where v:
    "foldR (\<lambda>e. runTimer run (entry_timer e)) ex (set_timers l rest (emit (SysNow now) s)) = Inr v"
    "timerReset E l ex now v = Inr t" by (rule timerRead_steps)
  have "\<forall>p. r_timers s p \<noteq> None \<longrightarrow> r_timers v p \<noteq> None"
  proof (rule foldR_keeps[OF _ _ v(1)])
    fix a x y assume "\<forall>p. r_timers s p \<noteq> None \<longrightarrow> r_timers x p \<noteq> None" "runTimer run (entry_timer a) x = Inr y"
    then show "\<forall>p. r_timers s p \<noteq> None \<longrightarrow> r_timers y p \<noteq> None"
      using assms(1) unfolding runTimer_def bindR_Inr_iff timers_only_added_def by (metis option.exhaust)
  qed simp
  moreover have "\<forall>p. r_timers v p \<noteq> None \<longrightarrow> r_timers t p \<noteq> None"
  proof -
    from v(2) obtain w where w: "foldR (resetOne E l now) ex v = Inr w" "r_timers t = r_timers w"
      by (cases rule: timerReset_cases) auto
    have "\<forall>p. r_timers v p \<noteq> None \<longrightarrow> r_timers w p \<noteq> None"
    proof (rule foldR_keeps[OF _ _ w(1)])
      fix a x y assume "\<forall>p. r_timers v p \<noteq> None \<longrightarrow> r_timers x p \<noteq> None" "resetOne E l now a x = Inr y"
      then show "\<forall>p. r_timers v p \<noteq> None \<longrightarrow> r_timers y p \<noteq> None" by (elim resetOne_Inr) auto
    qed simp
    with w(2) show ?thesis by simp
  qed
  ultimately have "r_timers t (entry_timer e) \<noteq> None" by blast
  moreover have "r_timers u (entry_timer e) = r_timers t (entry_timer e)"
    using assms(6) by (intro dtorTimerQueue_keeps[OF assms(7)]) blast
  ultimately show ?thesis by simp
qed

theorem fired_one_shot_leaks_witness:
  "\<exists>t u. timerRead sampleEnv (noteRun 0) 0 sampleTimers = Inr t \<and> dtorTimerQueue sampleEnv 0 t = Inr u \<and>
    r_timers u 100 \<noteq> None \<and> r_timers u 102 = None"
proof -
  obtain t where t: "timerRead sampleEnv (noteRun 0) 0 sampleTimers = Inr t"
    "timers_of 0 t = [Entry 2001000 101, Entry 5000000 102]" "r_chans t = r_chans sampleTimers"
    "r_timers t 101 \<noteq> None" "r_timers t 102 \<noteq> None"
    by (simp add: timerRead_def readNow_eq sampleTimers_sel assertInLoopThread_def getExpired_sample
        runTimer_def noteRun_def timerReset_def resetOne_def queueInsert_def insertTimer_def mkTimer_def
        restart_def insort_insert_key_def Let_def sampleEnv_def less_eq_entry_def less_entry_def)
  obtain u where u: "dtorTimerQueue sampleEnv 0 t = Inr u" "r_timers u 102 = None"
    using t(4,5) by (auto simp: dtorTimerQueue_def t(2,3) sysClose_def deleteTimer_def deref_def dtorChannel_def
        sampleTimers_def sampleReactor_def mkChannel_def)
  from fired_one_shot_leaks[OF noteRun_timers sampleTimers_ok _ t(1) _ u(1), of "Entry 500 100"] t(2)
  have "r_timers u 100 \<noteq> None" by (simp add: sampleTimers_sel)
  with t(1) u show ?thesis by blast
qed

text \<open>
  \<open>handleRead\<close> never reads the timerfd.  When the last pending timer has fired and no new one
  is set, the descriptor stays readable, so the level-triggered \<open>poll\<close> reports it again at once,
  and again, for ever.
\<close>

theorem timerfd_left_readable:
  assumes "\<And>c u v. run c u = Inr v \<Longrightarrow> timerfd_readable fd (r_trace u) b \<Longrightarrow>
      timerfd_readable fd (r_trace v) b"
    and "timerfd_readable fd (r_trace s) b" and "timerRead E run l s = Inr t"
    and "timers_of l t = []" and "\<not> stamp_valid E (stamp_invalid E)"
  shows "timerfd_readable fd (r_trace t) b"
  using assms(3)
proof (rule timerRead_steps)
  fix now ex rest u
  assume f: "foldR (\<lambda>e. runTimer run (entry_timer e)) ex (set_timers l rest (emit (SysNow now) s)) = Inr u"
    and r: "timerReset E l ex now u = Inr t"
  have "timerfd_readable fd (r_trace u) b"
  proof (rule foldR_keeps[where P = "\<lambda>u. timerfd_readable fd (r_trace u) b", OF _ _ f])
    fix e v w assume "timerfd_readable fd (r_trace v) b" "runTimer run (entry_timer e) v = Inr w"
    then show "timerfd_readable fd (r_trace w) b"
      using assms(1) unfolding runTimer_def bindR_Inr_iff by blast
  qed (simp add: timerfd_readable_append assms(2))
  moreover have "r_trace w = r_trace u" if "foldR (resetOne E l now) ex u = Inr w" for w
    by (rule foldR_keeps[where P = "\<lambda>w. r_trace w = r_trace u", OF _ _ that]) (auto dest: resetOne_trace)
  ultimately have w: "timerfd_readable fd (r_trace w) b" if "foldR (resetOne E l now) ex u = Inr w" for w
    using that by simp
  from r show ?thesis using w assms(4,5) by (cases rule: timerReset_cases) (auto split: if_splits)
qed

theorem timerfd_left_readable_witness:
  "\<exists>t. timerRead sampleEnv (noteRun 0) 0 (set_timers 0 [Entry 500 100] sampleTimers) = Inr t \<and>
    timerfd_readable 4 (r_trace t) True"
proof -
  let ?s = "set_timers 0 [Entry 500 100] sampleTimers"
  have in0: "isInLoopThread 0 ?s" using sampleTimers_sel(1) by (simp add: isInLoopThread_def)
  have "timers_wf [Entry 500 100]" by (simp add: timers_wf_def UINTPTR_MAX_def)
  from getExpired_eq[OF this, of 1000]
  have g: "getExpired 1000 [Entry 500 100] = Inr ([Entry 500 100], [])" by simp
  obtain t where t: "timerRead sampleEnv (noteRun 0) 0 ?s = Inr t" "timers_of 0 t = []"
    using in0 by (simp add: timerRead_def readNow_eq sampleTimers_sel assertInLoopThread_def g
        runTimer_def noteRun_def timerReset_def resetOne_def mkTimer_def Let_def)
  have "timerfd_readable 4 (r_trace v) True"
    if "noteRun 0 c u = Inr v" "timerfd_readable 4 (r_trace u) True" for c u v
    using that by (auto simp: noteRun_def queueInLoop_def wakeup_def Let_def timerfd_readable_append
        split: task.splits if_splits)
  from timerfd_left_readable[OF this _ t(1,2)] t(1) show ?thesis
    by (simp add: sampleTimers_sel) (simp add: sampleEnv_def)
qed

section \<open>A new loop\<close>

text \<open>Making a channel, giving it a read callback and enabling it, as the constructors do.\<close>

lemma new_reading_channel:
  assumes wf: "reactor_wf s" and new: "newChannel l fd s = (c, s1)" and fd: "0 \<le> fd" "loop_interest l s fd = None"
    and f: "\<And>el. el_poller (f el) = el_poller el"
  shows "\<exists>t. enableRead c (mod_chan c (setReadCallback rc) (mod_loop l f s1)) = Inr t \<and> reactor_wf t \<and>
    loop_interest l t = (loop_interest l s)(fd \<mapsto> (True, 3)) \<and> ch_readCallback (r_chans t c) = Some rc \<and>
    c = r_nextChan s \<and> (\<forall>d < r_nextChan s. r_chans t d = r_chans s d) \<and>
    (\<exists>cs p. t = set_ps l (cs, p) (mod_loop l f (s\<lparr>r_nextChan := Suc (r_nextChan s)\<rparr>)))"
proof -
  note n = newChannel_contract[OF wf new]
  let ?s = "mod_loop l f s1"
  have wf2: "reactor_wf ?s" using n(1) by (rule reactor_wf_mod_loop) (rule f)
  have ok2: "chan_ok c ?s" using n(8)[OF fd] by (simp only: chan_ok_mod_loop[OF f])
  let ?s3 = "mod_chan c (setReadCallback rc) ?s"
  have wf3: "reactor_wf ?s3" and ok3: "chan_ok c ?s3" using wf2 ok2 by (simp_all add: mod_chan_identity)
  have ch: "r_chans ?s3 c = setReadCallback rc (mkChannel l fd)" by (simp add: n(5))
  obtain t where t: "updateWith addReadEvent c ?s3 = Inr t"
    using updateWith_contract(1)[OF wf3 ok3 keeps_identity_ops(1)] by blast
  note k = updateWith_contract(2)[OF wf3 ok3 keeps_identity_ops(1) t]
  have li: "loop_interest l ?s3 = loop_interest l s"
    by (simp add: mod_chan_identity loop_interest_mod_loop[OF f] n(3))
  have l: "ch_ownerLoop (r_chans ?s3 c) = l" "ch_fd (r_chans ?s3 c) = fd"
    "ch_events (addReadEvent (r_chans ?s3 c)) = 3"
    by (simp_all add: n(5) setReadCallback_def mkChannel_def addReadEvent_def event_masks poll_bits)
  from k obtain i p where p: "t = set_ps l ((r_chans ?s3)(c := set_index i (addReadEvent (r_chans ?s3 c))), p) ?s3"
    unfolding Let_def l(1) by blast
  have "loop_interest l t = (loop_interest l s)(fd \<mapsto> (True, 3))"
    using k fd(2) unfolding Let_def l li by (simp add: watch_after_def)
  moreover have "ch_readCallback (r_chans t c) = Some rc"
    by (simp add: p ch set_index_def addReadEvent_def setReadCallback_def)
  moreover have "\<forall>d < r_nextChan s. r_chans t d = r_chans s d" by (simp add: p n(2,4))
  moreover have "\<exists>cs p. t = set_ps l (cs, p) (mod_loop l f (s\<lparr>r_nextChan := Suc (r_nextChan s)\<rparr>))"
    unfolding p using new
    by (auto simp: newChannel_def Let_def set_ps_def mod_loop_def mod_chan_def intro!: exI)
  ultimately show ?thesis using t k n(2) by (auto simp: enable_ops Let_def)
qed

lemma newEventLoop_contract:
  assumes "reactor_wf s" and "timerfd_of E (r_trace s) = tfd" and "0 \<le> tfd"
    and "eventfd_of E (r_trace s @ [SysTimerfd tfd]) = efd" and "0 \<le> efd" and "tfd \<noteq> efd"
    and "r_loopOfThread s (r_tid s) = None"
  shows "\<exists>t el. newEventLoop E s = Inr (r_nextLoop s, t) \<and> reactor_wf t \<and>
    r_loops t = (r_loops s)(r_nextLoop s := el) \<and>
    loop_interest (r_nextLoop s) t = [tfd \<mapsto> (True, 3), efd \<mapsto> (True, 3)] \<and>
    el_threadId el = r_tid s \<and> r_loopOfThread t = (r_loopOfThread s)(r_tid s \<mapsto> r_nextLoop s) \<and>
    ch_readCallback (r_chans t (el_wakeupChannel el)) = Some (\<lambda>_. TWakeupRead (r_nextLoop s)) \<and>
    ch_readCallback (r_chans t (tq_channel (el_timerQueue el))) = Some (\<lambda>_. TTimerRead (r_nextLoop s)) \<and>
    \<not> el_isLoopping el \<and> el_funcQueue el = [] \<and> tq_timers (el_timerQueue el) = [] \<and>
    r_nextLoop t = Suc (r_nextLoop s) \<and> r_tid t = r_tid s \<and>
    (\<forall>d < r_nextChan s. r_chans t d = r_chans s d)"
proof -
  let ?l = "r_nextLoop s"
  let ?s0 = "mod_loop ?l (\<lambda>_. rawLoop (r_tid s)) (s\<lparr>r_nextLoop := Suc ?l\<rparr>)"
  have wf0: "reactor_wf (emit (SysTimerfd tfd) ?s0)"
    using assms(1) by (auto simp: reactor_wf_def loop_ps_def rawLoop_def poller_wf_mk mkPoller_def poller_wf_def)
  have li0: "loop_interest ?l (emit (SysTimerfd tfd) ?s0) = Map.empty"
    by (rule ext) (simp add: loop_interest_def loop_ps_def rawLoop_def mkPoller_def interest_def)
  obtain c1 s1 where n1: "newChannel ?l tfd (emit (SysTimerfd tfd) ?s0) = (c1, s1)" by (cases "newChannel ?l tfd (emit (SysTimerfd tfd) ?s0)")
  let ?f1 = "\<lambda>el. el\<lparr>el_timerQueue := \<lparr>tq_timerfd = tfd, tq_timers = [], tq_channel = c1\<rparr>\<rparr>"
  from new_reading_channel[OF wf0 n1 assms(3), of ?f1 "\<lambda>_. TTimerRead ?l"] li0
  obtain t1 cs1 p1 where t1: "enableRead c1 (mod_chan c1 (setReadCallback (\<lambda>_. TTimerRead ?l)) (mod_loop ?l ?f1 s1)) = Inr t1"
    "reactor_wf t1" "loop_interest ?l t1 = [tfd \<mapsto> (True, 3)]" "ch_readCallback (r_chans t1 c1) = Some (\<lambda>_. TTimerRead ?l)"
    "c1 = r_nextChan s" "\<forall>d < r_nextChan s. r_chans t1 d = r_chans s d"
    "t1 = set_ps ?l (cs1, p1) (mod_loop ?l ?f1 ((emit (SysTimerfd tfd) ?s0)\<lparr>r_nextChan := Suc (r_nextChan s)\<rparr>))"
    by auto
  have q: "newTimerQueue E ?l ?s0 = Inr t1"
    using t1(1) n1 assms(2) by (simp add: newTimerQueue_def Let_def)
  have tr1: "r_trace t1 = r_trace s @ [SysTimerfd tfd]" "r_nextChan t1 = Suc (r_nextChan s)"
    "r_loopOfThread t1 = r_loopOfThread s" "r_tid t1 = r_tid s" "r_nextLoop t1 = Suc ?l"
    unfolding t1(7) by (simp_all add: emit_def mod_loop_def set_ps_def)
  let ?s2 = "(emit (SysEventfd efd) t1)\<lparr>r_loopOfThread := (r_loopOfThread s)(r_tid s \<mapsto> ?l)\<rparr>"
  have wf1: "reactor_wf ?s2" using t1(2) by (rule reactor_wf_cong) simp_all
  have li: "loop_interest ?l ?s2 = [tfd \<mapsto> (True, 3)]" using t1(3) by (simp add: loop_interest_def loop_ps_def)
  obtain c2 s2 where n2: "newChannel ?l efd ?s2 = (c2, s2)" by (cases "newChannel ?l efd ?s2")
  let ?f2 = "\<lambda>el. el\<lparr>el_wakeupFd := efd, el_wakeupChannel := c2\<rparr>"
  from new_reading_channel[OF wf1 n2 assms(5), of ?f2 "\<lambda>_. TWakeupRead ?l"] li assms(6)
  obtain t cs2 p2 where t: "enableRead c2 (mod_chan c2 (setReadCallback (\<lambda>_. TWakeupRead ?l)) (mod_loop ?l ?f2 s2)) = Inr t"
    "reactor_wf t" "loop_interest ?l t = [tfd \<mapsto> (True, 3), efd \<mapsto> (True, 3)]"
    "ch_readCallback (r_chans t c2) = Some (\<lambda>_. TWakeupRead ?l)" "c2 = Suc (r_nextChan s)"
    "\<forall>d < Suc (r_nextChan s). r_chans t d = r_chans t1 d"
    "t = set_ps ?l (cs2, p2) (mod_loop ?l ?f2 (?s2\<lparr>r_nextChan := Suc (Suc (r_nextChan s))\<rparr>))"
    using tr1 by auto
  have s2: "newChannel ?l efd (emit (SysEventfd efd) t1) = (c2, s2\<lparr>r_loopOfThread := r_loopOfThread s\<rparr>)"
    "(mod_loop ?l ?f2 (s2\<lparr>r_loopOfThread := r_loopOfThread s\<rparr>))\<lparr>r_loopOfThread := (r_loopOfThread s)(r_tid s \<mapsto> ?l)\<rparr>
      = mod_loop ?l ?f2 s2" "r_tid s2 = r_tid s"
    using n2 tr1 by (auto simp: newChannel_def Let_def mod_loop_def emit_def)
  have new: "newEventLoop E s = Inr (?l, t)"
    using q tr1 assms(4,7) t(1) by (simp add: newEventLoop_def Let_def s2)
  let ?el = "?f2 (?f1 (rawLoop (r_tid s)))\<lparr>el_poller := p2\<rparr>"
  have "r_loops t = (r_loops s)(?l := ?el)" unfolding t(7) t1(7) by (simp add: emit_def)
  moreover have "r_chans t d = r_chans s d" if "d < r_nextChan s" for d using t(6) t1(6) that by simp
  moreover have "r_chans t c1 = r_chans t1 c1" using t(6) t1(5) by simp
  moreover have "r_loopOfThread t = (r_loopOfThread s)(r_tid s \<mapsto> ?l)" "r_nextLoop t = Suc ?l" "r_tid t = r_tid s"
    unfolding t(7) by (simp_all add: tr1 mod_loop_def set_ps_def)
  ultimately show ?thesis using new t(2-4) t1(4) by (intro exI[of _ t] exI[of _ ?el]) (simp add: rawLoop_def)
qed

text \<open>
  \<open>EventLoop::EventLoop\<close> makes a loop that is ready: when the kernel gives two different
  descriptors and the thread has no loop yet, construction goes through; the loop belongs to the
  calling thread, which knows it; exactly its timerfd and its eventfd are polled, both for
  reading; it is not looping, its queues are empty; the other loops are as before.  A second loop
  in one thread is refused where the logger aborts.
\<close>

theorem newEventLoop_ready:
  assumes "reactor_wf s" and "timerfd_of E (r_trace s) = tfd" and "0 \<le> tfd"
    and "eventfd_of E (r_trace s @ [SysTimerfd tfd]) = efd" and "0 \<le> efd" and "tfd \<noteq> efd"
    and "r_loopOfThread s (r_tid s) = None"
  shows "\<exists>t el. newEventLoop E s = Inr (r_nextLoop s, t) \<and> reactor_wf t \<and>
    r_loops t = (r_loops s)(r_nextLoop s := el) \<and>
    loop_interest (r_nextLoop s) t = [tfd \<mapsto> (True, 3), efd \<mapsto> (True, 3)] \<and>
    el_threadId el = r_tid s \<and> r_loopOfThread t = (r_loopOfThread s)(r_tid s \<mapsto> r_nextLoop s) \<and>
    ch_readCallback (r_chans t (el_wakeupChannel el)) = Some (\<lambda>_. TWakeupRead (r_nextLoop s)) \<and>
    ch_readCallback (r_chans t (tq_channel (el_timerQueue el))) = Some (\<lambda>_. TTimerRead (r_nextLoop s)) \<and>
    \<not> el_isLoopping el \<and> el_funcQueue el = [] \<and> tq_timers (el_timerQueue el) = [] \<and>
    r_nextLoop t = Suc (r_nextLoop s) \<and> r_tid t = r_tid s \<and>
    (\<forall>d < r_nextChan s. r_chans t d = r_chans s d)"
  by (rule newEventLoop_contract[OF assms])

theorem newEventLoop_ready_witness:
  "\<exists>t el. newEventLoop sampleEnv (sampleReactor\<lparr>r_tid := 2\<rparr>) = Inr (1, t) \<and>
    r_loops t = (r_loops sampleReactor)(1 := el) \<and> el_threadId el = 2 \<and>
    loop_interest 1 t = [3 \<mapsto> (True, 3), 4 \<mapsto> (True, 3)]"
proof -
  let ?s = "sampleReactor\<lparr>r_tid := 2\<rparr>"
  have wf: "reactor_wf ?s"
    by (simp add: reactor_wf_def loop_ps_def sampleReactor_def sampleLoop_def poller_wf_mk) (simp add: mkPoller_def)
  have fds: "timerfd_of sampleEnv (r_trace ?s) = 3" "eventfd_of sampleEnv (r_trace ?s @ [SysTimerfd 3]) = 4"
    by (simp_all add: sampleEnv_def sampleReactor_def)
  have "r_loopOfThread ?s (r_tid ?s) = None" "r_nextLoop ?s = 1" by (simp_all add: sampleReactor_def)
  with newEventLoop_ready[OF wf fds(1) _ fds(2)] show ?thesis by auto
qed

text \<open>
  Timer identities are unique: a new timer gets the sequence number the generator holds, and
  whatever timers are made after it, fewer than \<open>2 ^ 64\<close>, the number the generator holds then is a
  different one.
\<close>

theorem timer_sequences_distinct:
  assumes "ts \<noteq> []" and "length ts < 2 ^ 64" and "newTimer E cb time itv s = (p, s1)"
    and "s2 = fold (\<lambda>(cb, time, itv) s. snd (newTimer E cb time itv s)) ts s"
  shows "map_option tm_sequence (r_timers s1 p) = Some (r_seqGen s) \<and> r_seqGen s2 \<noteq> r_seqGen s"
proof -
  have "r_seqGen (fold (\<lambda>(cb, time, itv) s. snd (newTimer E cb time itv s)) ts s) = r_seqGen s + of_nat (length ts)"
    by (induction ts arbitrary: s) (auto simp: newTimer_def Let_def set_timer_def)
  moreover have "(of_nat (length ts) :: 64 word) \<noteq> 0"
    using assms(1,2) by (simp add: word_of_nat_eq_0_iff nat_dvd_not_less)
  moreover have "map_option tm_sequence (r_timers s1 p) = Some (r_seqGen s)"
    using assms(3) by (auto simp: newTimer_def Let_def mkTimer_def set_timer_def)
  ultimately show ?thesis using assms(4) by simp
qed

theorem timer_sequences_distinct_witness:
  "let (p, s1) = newTimer sampleEnv (TUser 1) 5 0 sampleReactor;
       s2 = fold (\<lambda>(cb, time, itv) s. snd (newTimer sampleEnv cb time itv s)) [(TUser 1, 5, 0), (TUser 2, 6, 1)] sampleReactor
   in map_option tm_sequence (r_timers s1 p) = Some 0 \<and> r_seqGen s2 \<noteq> 0"
proof -
  obtain p s1 where n: "newTimer sampleEnv (TUser 1) 5 0 sampleReactor = (p, s1)" by fastforce
  have q: "r_seqGen sampleReactor = 0" by (simp add: sampleReactor_def)
  from timer_sequences_distinct[of "[(TUser 1, 5, 0), (TUser 2, 6, 1)]", OF _ _ n refl] n show ?thesis
    unfolding q by simp
qed

end
