(* ===== verification/Acceptor.thy ===== *)
theory Acceptor
  imports TimerService
begin

text \<open>
  \<open>duduo/net/Server/SockOptions.cc\<close>, \<open>Socket.cc\<close> and \<open>Acceptor.cc\<close>: the socket calls with their
  error handling, a socket as its descriptor, and the acceptor, which owns a listening socket and
  its channel and hands each accepted connection to a callback.

  Levels and option numbers are those of Linux.
\<close>

record acceptor =
  ac_loop :: loop_id
  ac_cb :: "(int \<Rightarrow> inet \<Rightarrow> task) option"
  ac_sockfd :: int
  ac_channel :: chan_id
  ac_listening :: bool

record netstate = reactor +
  n_acceptors :: "acceptor_id \<Rightarrow> acceptor"
  n_nextAcceptor :: acceptor_id

definition mod_acceptor ::
  "acceptor_id \<Rightarrow> (acceptor \<Rightarrow> acceptor) \<Rightarrow> 'z netstate_scheme \<Rightarrow> 'z netstate_scheme" where
  "mod_acceptor a f s = s\<lparr>n_acceptors := (n_acceptors s)(a := f (n_acceptors s a))\<rparr>"

section \<open>Socket calls\<close>

definition createNonblockingOrDie :: "'b env \<Rightarrow> 'z reactor_scheme \<Rightarrow> (int \<times> 'z reactor_scheme) result" where
  "createNonblockingOrDie E s =
     (let sockfd = socket_of E (r_trace s); s = emit (SysSocket sockfd) s in
      bindR (if sockfd < 0 then logFatal E ''Create socket failed!'' s else Inr s)
        (\<lambda>s. Inr (sockfd, s)))"

definition bindOrDie :: "'b env \<Rightarrow> int \<Rightarrow> inet \<Rightarrow> 'z reactor_scheme \<Rightarrow> 'z reactor_scheme result" where
  "bindOrDie E sockfd addr s =
     (let ret = bind_of E (r_trace s) sockfd addr; s = emit (SysBind sockfd addr ret) s in
      if ret < 0 then logFatal E ''Bind address failed!'' s else Inr s)"

definition listenOrDie :: "'b env \<Rightarrow> int \<Rightarrow> 'z reactor_scheme \<Rightarrow> 'z reactor_scheme result" where
  "listenOrDie E sockfd s =
     (let ret = listen_of E (r_trace s) sockfd; s = emit (SysListen sockfd ret) s in
      if ret < 0 then logFatal E ''Listen socket failed!'' s else Inr s)"

definition closeSocket :: "'b env \<Rightarrow> int \<Rightarrow> 'z reactor_scheme \<Rightarrow> 'z reactor_scheme result" where
  "closeSocket E sockfd s =
     (let ret = close_of E (r_trace s) sockfd; s = emit (SysClose sockfd ret) s in
      if ret < 0 then logFatal E ''Close sockfd falied!'' s else Inr s)"

definition acceptSocket :: "'b env \<Rightarrow> int \<Rightarrow> 'z reactor_scheme \<Rightarrow> (int \<times> inet \<times> 'z reactor_scheme) result" where
  "acceptSocket E sockfd s =
     (let (connfd, addr) = accept_of E (r_trace s) sockfd; s = emit (SysAccept sockfd connfd) s in
      bindR (if connfd < 0 then logFatal E ''Accept socket failed!'' s else Inr s)
        (\<lambda>s. Inr (connfd, addr, s)))"

section \<open>Socket\<close>

definition SOL_SOCKET :: int where "SOL_SOCKET = 1"
definition IPPROTO_TCP :: int where "IPPROTO_TCP = 6"
definition SO_REUSEADDR :: int where "SO_REUSEADDR = 2"
definition SO_REUSEPORT :: int where "SO_REUSEPORT = 15"
definition SO_KEEPALIVE :: int where "SO_KEEPALIVE = 9"
definition TCP_NODELAY :: int where "TCP_NODELAY = 1"

definition sysSetsockopt ::
  "'b env \<Rightarrow> int \<Rightarrow> int \<Rightarrow> int \<Rightarrow> bool \<Rightarrow> 'z reactor_scheme \<Rightarrow> 'z reactor_scheme" where
  "sysSetsockopt E fd level opt on s =
     emit (SysSetsockopt fd level opt on (setsockopt_of E (r_trace s) fd level opt on)) s"

definition setReuseAddr :: "'b env \<Rightarrow> int \<Rightarrow> bool \<Rightarrow> 'z reactor_scheme \<Rightarrow> 'z reactor_scheme" where
  "setReuseAddr E sockfd on = sysSetsockopt E sockfd SOL_SOCKET SO_REUSEADDR on"

definition setReusePort :: "'b env \<Rightarrow> int \<Rightarrow> bool \<Rightarrow> 'z reactor_scheme \<Rightarrow> 'z reactor_scheme" where
  "setReusePort E sockfd on = sysSetsockopt E sockfd SOL_SOCKET SO_REUSEPORT on"

definition setTcpNoDealy :: "'b env \<Rightarrow> int \<Rightarrow> bool \<Rightarrow> 'z reactor_scheme \<Rightarrow> 'z reactor_scheme" where
  "setTcpNoDealy E sockfd on = sysSetsockopt E sockfd IPPROTO_TCP TCP_NODELAY on"

definition setKeepAlive :: "'b env \<Rightarrow> int \<Rightarrow> bool \<Rightarrow> 'z reactor_scheme \<Rightarrow> 'z reactor_scheme" where
  "setKeepAlive E sockfd on = sysSetsockopt E sockfd IPPROTO_TCP SO_KEEPALIVE on"

text \<open>\<open>Socket::shutdownWrite\<close>: a failure is only logged.\<close>

definition shutdownWrite :: "'b env \<Rightarrow> int \<Rightarrow> 'z reactor_scheme \<Rightarrow> 'z reactor_scheme" where
  "shutdownWrite E sockfd s = emit (SysShutdownWr sockfd (shutdown_of E (r_trace s) sockfd)) s"

definition bindAddress :: "'b env \<Rightarrow> int \<Rightarrow> inet \<Rightarrow> 'z reactor_scheme \<Rightarrow> 'z reactor_scheme result" where
  "bindAddress E sockfd localaddr s = bindOrDie E sockfd localaddr s"

definition socketListen :: "'b env \<Rightarrow> int \<Rightarrow> 'z reactor_scheme \<Rightarrow> 'z reactor_scheme result" where
  "socketListen E sockfd s = listenOrDie E sockfd s"

definition socketAccept :: "'b env \<Rightarrow> int \<Rightarrow> 'z reactor_scheme \<Rightarrow> (int \<times> inet \<times> 'z reactor_scheme) result" where
  "socketAccept E sockfd s = acceptSocket E sockfd s"

definition dtorSocket :: "'b env \<Rightarrow> int \<Rightarrow> 'z reactor_scheme \<Rightarrow> 'z reactor_scheme result" where
  "dtorSocket E sockfd s = closeSocket E sockfd s"

section \<open>Acceptor\<close>

definition newAcceptor ::
  "'b env \<Rightarrow> loop_id \<Rightarrow> inet \<Rightarrow> 'z netstate_scheme \<Rightarrow> (acceptor_id \<times> 'z netstate_scheme) result" where
  "newAcceptor E l localAddr s =
     (let a = n_nextAcceptor s; s = s\<lparr>n_nextAcceptor := Suc a\<rparr> in
      bindR (createNonblockingOrDie E s) (\<lambda>(fd, s).
      let (c, s) = newChannel l fd s;
          s = mod_acceptor a (\<lambda>_. \<lparr>ac_loop = l, ac_cb = None, ac_sockfd = fd, ac_channel = c,
                                   ac_listening = False\<rparr>) s;
          s = setReuseAddr E fd True s in
      bindR (bindAddress E fd localAddr s) (\<lambda>s.
      Inr (a, mod_chan c (setReadCallback (\<lambda>_. TAcceptorRead a)) s))))"

definition acceptorListen :: "'b env \<Rightarrow> acceptor_id \<Rightarrow> 'z netstate_scheme \<Rightarrow> 'z netstate_scheme result" where
  "acceptorListen E a s =
     bindR (assertInLoopThread (ac_loop (n_acceptors s a)) s) (\<lambda>s.
     let s = mod_acceptor a (\<lambda>ac. ac\<lparr>ac_listening := True\<rparr>) s in
     bindR (socketListen E (ac_sockfd (n_acceptors s a)) s)
       (\<lambda>s. enableRead (ac_channel (n_acceptors s a)) s))"

definition acceptorRead ::
  "'b env \<Rightarrow> 'z netstate_ext runner \<Rightarrow> acceptor_id \<Rightarrow> 'z netstate_scheme \<Rightarrow> 'z netstate_scheme result" where
  "acceptorRead E run a s =
     bindR (socketAccept E (ac_sockfd (n_acceptors s a)) s) (\<lambda>(connfd, addr, s).
     if connfd < 0 then logFatal E ''Acceptor - socket accept failed'' s
     else (case ac_cb (n_acceptors s a) of
             Some cb \<Rightarrow> run (cb connfd addr) s
           | None \<Rightarrow> Inr s))"

definition setNewConnectionCallback ::
  "acceptor_id \<Rightarrow> (int \<Rightarrow> inet \<Rightarrow> task) \<Rightarrow> 'z netstate_scheme \<Rightarrow> 'z netstate_scheme" where
  "setNewConnectionCallback a func s = mod_acceptor a (\<lambda>ac. ac\<lparr>ac_cb := Some func\<rparr>) s"

text \<open>\<open>~Acceptor\<close>: the channel goes first, then the socket, which is closed.\<close>

definition dtorAcceptor :: "'b env \<Rightarrow> acceptor_id \<Rightarrow> 'z netstate_scheme \<Rightarrow> 'z netstate_scheme result" where
  "dtorAcceptor E a s =
     bindR (dtorChannel (r_chans s (ac_channel (n_acceptors s a)))) (\<lambda>_.
     dtorSocket E (ac_sockfd (n_acceptors s a)) s)"

section \<open>Facts\<close>

lemma mod_acceptor_sel [simp]:
  "r_chans (mod_acceptor a f s) = r_chans s" "r_loops (mod_acceptor a f s) = r_loops s"
  "r_tid (mod_acceptor a f s) = r_tid s" "r_nextChan (mod_acceptor a f s) = r_nextChan s"
  "r_trace (mod_acceptor a f s) = r_trace s" "r_timers (mod_acceptor a f s) = r_timers s"
  "r_nextLoop (mod_acceptor a f s) = r_nextLoop s"
  "n_acceptors (mod_acceptor a f s) = (n_acceptors s)(a := f (n_acceptors s a))"
  by (simp_all add: mod_acceptor_def)

lemma n_acceptors_sel [simp]:
  "n_acceptors (emit e s) = n_acceptors s" "n_acceptors (mod_chan c g s) = n_acceptors s"
  "n_acceptors (mod_loop l f s) = n_acceptors s" "n_acceptors (set_ps l ps s) = n_acceptors s"
  "n_nextAcceptor (emit e s) = n_nextAcceptor s" "n_nextAcceptor (mod_chan c g s) = n_nextAcceptor s"
  "n_nextAcceptor (mod_loop l f s) = n_nextAcceptor s" "n_nextAcceptor (set_ps l ps s) = n_nextAcceptor s"
  by (simp_all add: emit_def mod_chan_def mod_loop_def set_ps_def)

text \<open>The facts about a reactor depend on its channels, loops and next channel only.\<close>

lemma same_reactor:
  assumes "r_chans t = r_chans s" "r_loops t = r_loops s" "r_nextChan t = r_nextChan s"
  shows "reactor_wf t = reactor_wf s" "chan_ok c t = chan_ok c s" "loop_interest l t = loop_interest l s"
  using assms by (simp_all add: reactor_wf_def chan_ok_def loop_interest_def loop_ps_def)

lemma isInLoopThread_cong:
  "r_tid t = r_tid s \<Longrightarrow> el_threadId (r_loops t l) = el_threadId (r_loops s l) \<Longrightarrow> isInLoopThread l t = isInLoopThread l s"
  by (simp add: isInLoopThread_def)

lemma logFatal_cases: "logFatal E m s = (if logFatalAborts E then Inl (LogFatal m) else Inr s)"
  by (simp add: logFatal_def)

section \<open>Properties\<close>

definition sampleNet :: netstate where
  "sampleNet = reactor.extend sampleReading
     (netstate.fields (\<lambda>a. \<lparr>ac_loop = 0, ac_cb = Some (\<lambda>fd addr. TUserAccept 1 fd addr), ac_sockfd = 9, ac_channel = 1,
        ac_listening = False\<rparr>) 0)"

lemma sampleNet_sel:
  "r_chans sampleNet = r_chans sampleReading" "r_loops sampleNet = r_loops sampleReading"
  "r_nextChan sampleNet = r_nextChan sampleReading" "r_trace sampleNet = []" "r_tid sampleNet = 1"
  by (simp_all add: sampleNet_def reactor.extend_def netstate.fields_def sampleReading_def)

lemma newAcceptor_contract:
  assumes "reactor_wf s" and "socket_of E (r_trace s) = fd" and "0 \<le> fd"
    and "loop_interest l s fd = None" and "\<And>tr. 0 \<le> bind_of E tr fd addr"
  shows "\<exists>u. newAcceptor E l addr s = Inr (n_nextAcceptor s, u) \<and> reactor_wf u \<and>
    chan_ok (r_nextChan s) u \<and> (\<forall>k. loop_interest k u = loop_interest k s) \<and>
    r_chans u (r_nextChan s) = setReadCallback (\<lambda>_. TAcceptorRead (n_nextAcceptor s)) (mkChannel l fd) \<and>
    n_acceptors u (n_nextAcceptor s) = \<lparr>ac_loop = l, ac_cb = None, ac_sockfd = fd,
      ac_channel = r_nextChan s, ac_listening = False\<rparr> \<and>
    (\<exists>x y. r_trace u = r_trace s @ [SysSocket fd, SysSetsockopt fd SOL_SOCKET SO_REUSEADDR True x, SysBind fd addr y]) \<and>
    (\<exists>cs tr ac. u = s\<lparr>r_chans := cs, r_nextChan := Suc (r_nextChan s), r_trace := tr, n_acceptors := ac,
      n_nextAcceptor := Suc (n_nextAcceptor s)\<rparr>)"
proof -
  let ?a = "n_nextAcceptor s"
  let ?s1 = "emit (SysSocket fd) (s\<lparr>n_nextAcceptor := Suc ?a\<rparr>)"
  have wf1: "reactor_wf ?s1" "loop_interest k ?s1 = loop_interest k s" for k
    using assms(1) same_reactor[of ?s1 s] by simp_all
  obtain c s2 where n2: "newChannel l fd ?s1 = (c, s2)" by (cases "newChannel l fd ?s1")
  note n = newChannel_contract[OF wf1(1) n2]
  have c: "c = r_nextChan s" "s2 = ?s1\<lparr>r_chans := (r_chans s)(c := mkChannel l fd), r_nextChan := Suc c\<rparr>"
    "r_trace s2 = r_trace s @ [SysSocket fd]"
    using n2 by (auto simp: newChannel_def Let_def emit_def)
  let ?ac = "\<lparr>ac_loop = l, ac_cb = None, ac_sockfd = fd, ac_channel = c, ac_listening = False\<rparr>"
  let ?s3 = "setReuseAddr E fd True (mod_acceptor ?a (\<lambda>_. ?ac) s2)"
  let ?s4 = "emit (SysBind fd addr (bind_of E (r_trace ?s3) fd addr)) ?s3"
  let ?u = "mod_chan c (setReadCallback (\<lambda>_. TAcceptorRead ?a)) ?s4"
  have new: "newAcceptor E l addr s = Inr (?a, ?u)"
    using assms(2,3) n2 assms(5)[of "r_trace ?s3"]
    by (simp add: newAcceptor_def createNonblockingOrDie_def Let_def bindAddress_def bindOrDie_def)
  have wf4: "reactor_wf ?s4" "chan_ok c ?s4" "loop_interest k ?s4 = loop_interest k s" for k
    using same_reactor[of ?s4 s2] n(1,3) n(8)[OF assms(3)] wf1(2) assms(4)
    by (simp_all add: setReuseAddr_def sysSetsockopt_def)
  have "reactor_wf ?u" "chan_ok c ?u" "loop_interest k ?u = loop_interest k s" for k
    using wf4 by (simp_all add: mod_chan_identity)
  moreover have "r_chans ?u c = setReadCallback (\<lambda>_. TAcceptorRead ?a) (mkChannel l fd)"
    by (simp add: n(5) setReuseAddr_def sysSetsockopt_def)
  moreover have "n_acceptors ?u ?a = ?ac" by (simp add: setReuseAddr_def sysSetsockopt_def)
  moreover have "\<exists>x y. r_trace ?u = r_trace s @ [SysSocket fd, SysSetsockopt fd SOL_SOCKET SO_REUSEADDR True x, SysBind fd addr y]"
    by (simp add: setReuseAddr_def sysSetsockopt_def c(3))
  moreover have "\<exists>cs tr ac. ?u = s\<lparr>r_chans := cs, r_nextChan := Suc (r_nextChan s), r_trace := tr, n_acceptors := ac,
      n_nextAcceptor := Suc ?a\<rparr>"
    by (intro exI[of _ "r_chans ?u"] exI[of _ "r_trace ?u"] exI[of _ "n_acceptors ?u"])
      (simp add: c(1,2) setReuseAddr_def sysSetsockopt_def mod_chan_def emit_def mod_acceptor_def)
  ultimately show ?thesis unfolding c(1) using new c(1) by blast
qed

lemma acceptorListen_contract:
  assumes wf: "reactor_wf s" and ac: "n_acceptors s a = \<lparr>ac_loop = l, ac_cb = cb, ac_sockfd = fd, ac_channel = c, ac_listening = b\<rparr>"
    and thr: "isInLoopThread l s" and ok: "chan_ok c s" and none: "loop_interest l s fd = None"
    and ch: "r_chans s c = setReadCallback rc (mkChannel l fd)" and lis: "\<And>tr. 0 \<le> listen_of E tr fd"
  shows "\<exists>t. acceptorListen E a s = Inr t \<and> reactor_wf t \<and> loop_interest l t = (loop_interest l s)(fd \<mapsto> (True, 3)) \<and>
    n_acceptors t = (n_acceptors s)(a := (n_acceptors s a)\<lparr>ac_listening := True\<rparr>) \<and>
    ch_readCallback (r_chans t c) = Some rc \<and> (\<exists>z. r_trace t = r_trace s @ [SysListen fd z]) \<and>
    (\<exists>ps e. t = set_ps l ps (emit e (mod_acceptor a (\<lambda>ac. ac\<lparr>ac_listening := True\<rparr>) s)))"
proof -
  let ?v = "emit (SysListen fd (listen_of E (r_trace s) fd)) (mod_acceptor a (\<lambda>ac. ac\<lparr>ac_listening := True\<rparr>) s)"
  have wfv: "reactor_wf ?v" "chan_ok c ?v" "loop_interest l ?v = loop_interest l s"
    using same_reactor[of ?v s] wf ok by simp_all
  have nl: "listen_of E tr fd < 0 \<longleftrightarrow> False" for tr using lis[of tr] by simp
  have lst: "acceptorListen E a s = enableRead c ?v"
    using thr ac by (simp add: acceptorListen_def assertInLoopThread_def Let_def socketListen_def listenOrDie_def nl)
  obtain t where t: "updateWith addReadEvent c ?v = Inr t"
    using updateWith_contract(1)[OF wfv(1,2) keeps_identity_ops(1)] by blast
  note k = updateWith_contract(2)[OF wfv(1,2) keeps_identity_ops(1) t]
  have ch: "r_chans ?v c = setReadCallback rc (mkChannel l fd)" using ch by simp
  have l: "ch_ownerLoop (r_chans ?v c) = l" "ch_fd (r_chans ?v c) = fd" "ch_events (addReadEvent (r_chans ?v c)) = 3"
    unfolding ch by (simp_all add: setReadCallback_def mkChannel_def addReadEvent_def event_masks poll_bits)
  from k obtain i p where p: "t = set_ps l ((r_chans ?v)(c := set_index i (addReadEvent (r_chans ?v c))), p) ?v"
    unfolding Let_def l(1) by blast
  have "loop_interest l t = (loop_interest l s)(fd \<mapsto> (True, 3))"
    using k none unfolding Let_def l wfv(3) by (simp add: watch_after_def)
  moreover have "ch_readCallback (r_chans t c) = Some rc"
    unfolding p set_ps_sel fst_conv fun_upd_same ch by (simp add: set_index_def addReadEvent_def setReadCallback_def)
  moreover have "n_acceptors t = (n_acceptors s)(a := (n_acceptors s a)\<lparr>ac_listening := True\<rparr>)"
    "\<exists>z. r_trace t = r_trace s @ [SysListen fd z]" unfolding p by simp_all
  moreover have "\<exists>ps e. t = set_ps l ps (emit e (mod_acceptor a (\<lambda>ac. ac\<lparr>ac_listening := True\<rparr>) s))"
    unfolding p by blast
  moreover have "acceptorListen E a s = Inr t" unfolding lst enable_ops by (rule t)
  ultimately show ?thesis using k by blast
qed

text \<open>
  An acceptor that is made and told to listen, in its loop's thread, when the socket calls
  succeed and the new descriptor is not registered yet: both calls go through, the socket is bound
  before it listens, the acceptor is listening, and its loop polls the descriptor for reading and
  calls the acceptor's \<open>handleRead\<close> for it; every other descriptor of the loop is polled as before.
\<close>

theorem acceptor_listens:
  assumes "reactor_wf s" and "isInLoopThread l s" and "socket_of E (r_trace s) = fd" and "0 \<le> fd"
    and "loop_interest l s fd = None" and "\<And>tr. 0 \<le> bind_of E tr fd addr" and "\<And>tr. 0 \<le> listen_of E tr fd"
  shows "\<exists>a u t. newAcceptor E l addr s = Inr (a, u) \<and> acceptorListen E a u = Inr t \<and>
    reactor_wf t \<and> loop_interest l t = (loop_interest l s)(fd \<mapsto> (True, 3)) \<and>
    ac_listening (n_acceptors t a) \<and> ac_channel (n_acceptors t a) = r_nextChan s \<and>
    ch_readCallback (r_chans t (r_nextChan s)) = Some (\<lambda>_. TAcceptorRead a) \<and>
    (\<exists>x y z. r_trace t = r_trace s @ [SysSocket fd, SysSetsockopt fd SOL_SOCKET SO_REUSEADDR True x,
        SysBind fd addr y, SysListen fd z])"
proof -
  let ?a = "n_nextAcceptor s" and ?c = "r_nextChan s" and ?rc = "\<lambda>_. TAcceptorRead (n_nextAcceptor s)"
  obtain u cs tr ac where u: "newAcceptor E l addr s = Inr (?a, u)" "reactor_wf u" "chan_ok ?c u"
    "\<forall>k. loop_interest k u = loop_interest k s" "r_chans u ?c = setReadCallback ?rc (mkChannel l fd)"
    "n_acceptors u ?a = \<lparr>ac_loop = l, ac_cb = None, ac_sockfd = fd, ac_channel = ?c, ac_listening = False\<rparr>"
    "\<exists>x y. r_trace u = r_trace s @ [SysSocket fd, SysSetsockopt fd SOL_SOCKET SO_REUSEADDR True x, SysBind fd addr y]"
    "u = s\<lparr>r_chans := cs, r_nextChan := Suc (r_nextChan s), r_trace := tr, n_acceptors := ac, n_nextAcceptor := Suc ?a\<rparr>"
    by (insert newAcceptor_contract[OF assms(1,3-6)], elim exE conjE) (rule that, (assumption | blast)+)
  have thr: "isInLoopThread l u" using assms(2) by (simp add: u(8) isInLoopThread_def)
  from acceptorListen_contract[OF u(2,6) thr u(3) _ u(5) assms(7)] u(4) assms(5) obtain t where
    t: "acceptorListen E ?a u = Inr t" "reactor_wf t" "loop_interest l t = (loop_interest l s)(fd \<mapsto> (True, 3))"
    "n_acceptors t = (n_acceptors u)(?a := (n_acceptors u ?a)\<lparr>ac_listening := True\<rparr>)"
    "ch_readCallback (r_chans t ?c) = Some ?rc" "\<exists>z. r_trace t = r_trace u @ [SysListen fd z]" by auto
  with u(1,6,7) show ?thesis by (intro exI[of _ ?a] exI[of _ u] exI[of _ t]) auto
qed

theorem acceptor_listens_witness:
  "\<exists>a u t. newAcceptor (sampleEnv\<lparr>socket_of := \<lambda>_. 7\<rparr>) 0 (Inet 80) sampleNet = Inr (a, u) \<and>
    acceptorListen (sampleEnv\<lparr>socket_of := \<lambda>_. 7\<rparr>) a u = Inr t \<and>
    loop_interest 0 t 7 = Some (True, 3) \<and> loop_interest 0 t 5 = Some (True, 3)"
proof -
  let ?E = "sampleEnv\<lparr>socket_of := \<lambda>_. 7\<rparr>"
  have wf: "reactor_wf sampleNet" "isInLoopThread 0 sampleNet" "loop_interest 0 sampleNet = loop_interest 0 sampleReading"
    using same_reactor[of sampleNet sampleReading] sampleReading_ok(1)
    by (simp_all add: sampleNet_sel isInLoopThread_def) (simp add: sampleReading_def)
  have none: "loop_interest 0 sampleNet 7 = None"
    by (simp add: wf(3)) (simp add: loop_interest_def loop_ps_def interest_def sampleReading_def)
  have e: "socket_of ?E (r_trace sampleNet) = 7" "\<And>tr. 0 \<le> bind_of ?E tr 7 (Inet 80)" "\<And>tr. 0 \<le> listen_of ?E tr 7"
    by (simp_all add: sampleEnv_def)
  from acceptor_listens[OF wf(1,2) e(1) _ none e(2,3)] obtain a u t where
    "newAcceptor ?E 0 (Inet 80) sampleNet = Inr (a, u)" "acceptorListen ?E a u = Inr t"
    "loop_interest 0 t = (loop_interest 0 sampleNet)(7 \<mapsto> (True, 3))" by auto
  then show ?thesis by (auto simp: wf(3) sampleReading_ok(3))
qed

text \<open>
  What \<open>Acceptor::handleRead\<close> does with the outcome of \<open>accept\<close>: an accepted descriptor is
  handed to the callback exactly once, or, when none is set, dropped without being closed; when
  \<open>accept\<close> fails, for whatever reason, an aborting logger stops the whole process (so the -1 that
  \<open>Socket.h\<close> documents is never seen by a caller), and any other logger leaves the acceptor as it is.
\<close>

theorem acceptorRead_outcomes:
  assumes "accept_of E (r_trace s) (ac_sockfd (n_acceptors s a)) = (fd, addr)"
  shows "acceptorRead E run a s =
    (let s' = emit (SysAccept (ac_sockfd (n_acceptors s a)) fd) s in
     if fd < 0 then (if logFatalAborts E then Inl (LogFatal ''Accept socket failed!'') else Inr s')
     else (case ac_cb (n_acceptors s a) of Some cb \<Rightarrow> run (cb fd addr) s' | None \<Rightarrow> Inr s'))"
  using assms by (simp add: acceptorRead_def socketAccept_def acceptSocket_def Let_def logFatal_cases split: option.split)

theorem acceptorRead_outcomes_witness:
  "acceptorRead (sampleEnv\<lparr>accept_of := \<lambda>_ _. (- 1, Inet 0)\<rparr>) (\<lambda>t s. Inr s) 0 sampleNet =
     Inl (LogFatal ''Accept socket failed!'')"
  using acceptorRead_outcomes[of "sampleEnv\<lparr>accept_of := \<lambda>_ _. (- 1, Inet 0)\<rparr>" sampleNet 0 "- 1" "Inet 0" "\<lambda>t s. Inr s"]
  by (simp add: sampleEnv_def)

text \<open>
  The keep-alive option of a socket as socket(7) documents it: set by a successful \<open>setsockopt\<close>
  at level \<open>SOL_SOCKET\<close>.
\<close>

fun keepalive :: "int \<Rightarrow> trace \<Rightarrow> bool \<Rightarrow> bool" where
  "keepalive fd [] b = b"
| "keepalive fd (SysSetsockopt f level opt on r # tr) b =
     keepalive fd tr (if f = fd \<and> level = SOL_SOCKET \<and> opt = SO_KEEPALIVE \<and> r = 0 then on else b)"
| "keepalive fd (e # tr) b = keepalive fd tr b"

lemma keepalive_append: "keepalive fd (tr @ tr') b = keepalive fd tr' (keepalive fd tr b)"
  by (induction fd tr b rule: keepalive.induct) auto

text \<open>
  \<open>Socket::setKeepAlive\<close> never changes the keep-alive option, of any socket, whatever the
  kernel answers: it passes the option at level \<open>IPPROTO_TCP\<close>, where number 9 names another option.
\<close>

theorem setKeepAlive_ineffective:
  "keepalive fd (r_trace (setKeepAlive E sockfd on s)) b = keepalive fd (r_trace s) b"
  by (simp add: setKeepAlive_def sysSetsockopt_def keepalive_append IPPROTO_TCP_def SOL_SOCKET_def)

end
