(* ===== verification/TcpConnection.thy ===== *)
theory TcpConnection
  imports Acceptor
begin

text \<open>
  \<open>duduo/net/Server/TcpConnection.h\<close> and \<open>TcpConnection.cc\<close>: a connection with its state, its two
  buffers and its callbacks; reading, writing, sending, half-closing and closing.

  The buffers are muduo's \<open>Buffer\<close>, a parameter of the model; the facts that need its documented
  behaviour assume \<open>buffer_laws\<close>.  A callback is kept as the closure it makes of its arguments.
  Connections live as long as the model; \<open>dtorConnection\<close> is the destructor for when the last
  \<open>shared_ptr\<close> goes away.
\<close>

datatype connState = KConnecting | KConnected | KDisconnecting | KDisconnected

record 'b conn =
  cn_loop :: loop_id
  cn_state :: connState
  cn_name :: string
  cn_localAddr :: inet
  cn_peerAddr :: inet
  cn_sockfd :: int
  cn_channel :: chan_id
  cn_inputBuffer :: 'b
  cn_outputBuffer :: 'b
  cn_connectionCallback :: "(conn_id \<Rightarrow> task) option"
  cn_messageCallback :: "(conn_id \<Rightarrow> timestamp \<Rightarrow> task) option"
  cn_closeCallback :: "(conn_id \<Rightarrow> task) option"
  cn_writeCompleteCallback :: "(conn_id \<Rightarrow> task) option"
  cn_highWaterCallback :: "(conn_id \<Rightarrow> task) option"

record 'b connstate = netstate +
  n_conns :: "conn_id \<Rightarrow> 'b conn"
  n_nextConn :: conn_id

type_synonym ('b, 'z) conns = "('b, 'z) connstate_scheme"
type_synonym ('b, 'z) conn_runner = "task \<Rightarrow> ('b, 'z) connstate_scheme \<Rightarrow> ('b, 'z) connstate_scheme result"

definition mod_conn :: "conn_id \<Rightarrow> ('b conn \<Rightarrow> 'b conn) \<Rightarrow> ('b, 'z) conns \<Rightarrow> ('b, 'z) conns" where
  "mod_conn c f s = s\<lparr>n_conns := (n_conns s)(c := f (n_conns s c))\<rparr>"

abbreviation conn_chan :: "conn_id \<Rightarrow> ('b, 'z) conns \<Rightarrow> channel" where
  "conn_chan c s \<equiv> r_chans s (cn_channel (n_conns s c))"

section \<open>Construction and callbacks\<close>

definition newConnection ::
  "'b env \<Rightarrow> loop_id \<Rightarrow> string \<Rightarrow> inet \<Rightarrow> inet \<Rightarrow> int \<Rightarrow> ('b, 'z) conns \<Rightarrow> conn_id \<times> ('b, 'z) conns" where
  "newConnection E l name local peer sockfd s =
     (let c = n_nextConn s;
          (ch, s) = newChannel l sockfd (s\<lparr>n_nextConn := Suc c\<rparr>);
          s = mod_conn c (\<lambda>_. \<lparr>cn_loop = l, cn_state = KConnecting, cn_name = name,
                cn_localAddr = local, cn_peerAddr = peer, cn_sockfd = sockfd, cn_channel = ch,
                cn_inputBuffer = buf_empty E, cn_outputBuffer = buf_empty E,
                cn_connectionCallback = None, cn_messageCallback = None, cn_closeCallback = None,
                cn_writeCompleteCallback = None, cn_highWaterCallback = None\<rparr>) s;
          s = mod_chan ch (setReadCallback (\<lambda>now. TConnRead c now)) s;
          s = mod_chan ch (setWriteCallback (TConnWrite c)) s;
          s = mod_chan ch (setCloseCallback (TConnClose c)) s
      in (c, s))"

definition setConnectionCallback :: "(conn_id \<Rightarrow> task) option \<Rightarrow> 'b conn \<Rightarrow> 'b conn" where
  "setConnectionCallback cb cn = cn\<lparr>cn_connectionCallback := cb\<rparr>"

definition setMessageCallback :: "(conn_id \<Rightarrow> timestamp \<Rightarrow> task) option \<Rightarrow> 'b conn \<Rightarrow> 'b conn" where
  "setMessageCallback cb cn = cn\<lparr>cn_messageCallback := cb\<rparr>"

definition setConnCloseCallback :: "(conn_id \<Rightarrow> task) option \<Rightarrow> 'b conn \<Rightarrow> 'b conn" where
  "setConnCloseCallback cb cn = cn\<lparr>cn_closeCallback := cb\<rparr>"

definition setWriteCompleteCallback :: "(conn_id \<Rightarrow> task) option \<Rightarrow> 'b conn \<Rightarrow> 'b conn" where
  "setWriteCompleteCallback cb cn = cn\<lparr>cn_writeCompleteCallback := cb\<rparr>"

definition setHighWaterCallback :: "(conn_id \<Rightarrow> task) option \<Rightarrow> 'b conn \<Rightarrow> 'b conn" where
  "setHighWaterCallback cb cn = cn\<lparr>cn_highWaterCallback := cb\<rparr>"

definition setState :: "connState \<Rightarrow> 'b conn \<Rightarrow> 'b conn" where
  "setState st cn = cn\<lparr>cn_state := st\<rparr>"

text \<open>Calling a \<open>std::function\<close> that may be empty: an empty one throws.\<close>

definition callSet :: "string \<Rightarrow> ('z runner) \<Rightarrow> task option \<Rightarrow> 'z reactor_scheme \<Rightarrow> 'z reactor_scheme result" where
  "callSet what run cb s = (case cb of None \<Rightarrow> Inl (BadFunctionCall what) | Some t \<Rightarrow> run t s)"

section \<open>Closing\<close>

definition connClose :: "('b, 'z) conn_runner \<Rightarrow> conn_id \<Rightarrow> ('b, 'z) conns \<Rightarrow> ('b, 'z) conns result" where
  "connClose run c s =
     bindR (assertInLoopThread (cn_loop (n_conns s c)) s) (\<lambda>s.
     bindR (assertR ''handleClose: state_ == kConnected || state_ == kDisconnecting''
              (cn_state (n_conns s c) = KConnected \<or> cn_state (n_conns s c) = KDisconnecting) s) (\<lambda>s.
     bindR (disableAll (cn_channel (n_conns s c)) (mod_conn c (setState KDisconnected) s)) (\<lambda>s.
     callSet ''closeCallback_'' run (map_option (\<lambda>f. f c) (cn_closeCallback (n_conns s c))) s)))"

text \<open>\<open>handleError\<close> only logs.\<close>

definition connError :: "conn_id \<Rightarrow> ('b, 'z) conns \<Rightarrow> ('b, 'z) conns" where
  "connError c s = s"

section \<open>Reading\<close>

definition connRead ::
  "'b env \<Rightarrow> ('b, 'z) conn_runner \<Rightarrow> conn_id \<Rightarrow> timestamp \<Rightarrow> ('b, 'z) conns \<Rightarrow> ('b, 'z) conns result" where
  "connRead E run c receiveTime s =
     bindR (assertInLoopThread (cn_loop (n_conns s c)) s) (\<lambda>s.
     let fd = cn_sockfd (n_conns s c);
         (retSz, buf, errorFlag) = buf_readFd E (r_trace s) (cn_inputBuffer (n_conns s c)) fd;
         s = emit (SysRead fd retSz) (mod_conn c (\<lambda>cn. cn\<lparr>cn_inputBuffer := buf\<rparr>) s)
     in if retSz > 0 then
          callSet ''messageCallback_'' run (map_option (\<lambda>f. f c receiveTime) (cn_messageCallback (n_conns s c))) s
        else if retSz = 0 then connClose run c s
        else Inr (connError c s))"

section \<open>Writing\<close>

definition sysWrite :: "'b env \<Rightarrow> int \<Rightarrow> string \<Rightarrow> 'z reactor_scheme \<Rightarrow> int \<times> 'z reactor_scheme" where
  "sysWrite E fd bs s = (let ret = write_of E (r_trace s) fd bs in (ret, emit (SysWrite fd bs ret) s))"

definition shutdownInLoop :: "'b env \<Rightarrow> conn_id \<Rightarrow> ('b, 'z) conns \<Rightarrow> ('b, 'z) conns result" where
  "shutdownInLoop E c s =
     bindR (assertInLoopThread (cn_loop (n_conns s c)) s) (\<lambda>s.
     Inr (if \<not> isWriting (conn_chan c s) then shutdownWrite E (cn_sockfd (n_conns s c)) s else s))"

text \<open>The functor posted when a message is out: it binds the data member \<open>writeCompleteCallback_\<close>.\<close>

definition queueWriteComplete :: "'b env \<Rightarrow> conn_id \<Rightarrow> ('b, 'z) conns \<Rightarrow> ('b, 'z) conns" where
  "queueWriteComplete E c s =
     (if cn_writeCompleteCallback (n_conns s c) \<noteq> None
      then queueInLoop E (cn_loop (n_conns s c)) (TWriteComplete c) s else s)"

text \<open>
  The result of \<open>::write\<close>, negative on an error, is passed to \<open>Buffer::retrieve(size_t)\<close> as it is,
  so -1 becomes \<open>2 ^ 64 - 1\<close>.
\<close>

definition connWrite :: "'b env \<Rightarrow> conn_id \<Rightarrow> ('b, 'z) conns \<Rightarrow> ('b, 'z) conns result" where
  "connWrite E c s =
     bindR (assertInLoopThread (cn_loop (n_conns s c)) s) (\<lambda>s.
     if \<not> isWriting (conn_chan c s) then Inr s
     else
       let out = cn_outputBuffer (n_conns s c);
           leftMsgSz = int (buf_readableBytes E out);
           (ret, s) = sysWrite E (cn_sockfd (n_conns s c)) (take (nat leftMsgSz) (buf_peek E out)) s
       in bindR (buf_retrieve E out (nat (ret mod 2 ^ 64))) (\<lambda>out.
          let s = mod_conn c (\<lambda>cn. cn\<lparr>cn_outputBuffer := out\<rparr>) s in
          if ret = leftMsgSz then
            (let s = disableWrite (cn_channel (n_conns s c)) s;
                 s = queueWriteComplete E c s
             in if cn_state (n_conns s c) = KDisconnecting then shutdownInLoop E c s else Inr s)
          else Inr s))"

definition sendInLoop :: "'b env \<Rightarrow> conn_id \<Rightarrow> string \<Rightarrow> ('b, 'z) conns \<Rightarrow> ('b, 'z) conns result" where
  "sendInLoop E c msg s =
     bindR (assertInLoopThread (cn_loop (n_conns s c)) s) (\<lambda>s.
     let msgLen = int (length msg);
         (ret, s) = (if \<not> isWriting (conn_chan c s) \<and> buf_readableBytes E (cn_outputBuffer (n_conns s c)) = 0
                     then sysWrite E (cn_sockfd (n_conns s c)) msg s else (0, s))
     in bindR (assertR ''sendInLoop: ret >= 0'' (ret \<ge> 0) s) (\<lambda>s.
        if ret < msgLen then
          (let s = mod_conn c (\<lambda>cn. cn\<lparr>cn_outputBuffer :=
                      buf_append E (cn_outputBuffer cn) (drop (nat ret) msg)\<rparr>) s
           in if \<not> isWriting (conn_chan c s) then enableWrite (cn_channel (n_conns s c)) s else Inr s)
        else Inr (queueWriteComplete E c s)))"

definition send ::
  "'b env \<Rightarrow> ('b, 'z) conn_runner \<Rightarrow> conn_id \<Rightarrow> string \<Rightarrow> ('b, 'z) conns \<Rightarrow> ('b, 'z) conns result" where
  "send E run c msg s =
     (if cn_state (n_conns s c) = KConnected then
        (if isInLoopThread (cn_loop (n_conns s c)) s then sendInLoop E c msg s
         else runInLoop E run (cn_loop (n_conns s c)) (TSendInLoop c msg) s)
      else Inr s)"

definition shutdown ::
  "'b env \<Rightarrow> ('b, 'z) conn_runner \<Rightarrow> conn_id \<Rightarrow> ('b, 'z) conns \<Rightarrow> ('b, 'z) conns result" where
  "shutdown E run c s =
     (if cn_state (n_conns s c) = KConnected then
        runInLoop E run (cn_loop (n_conns s c)) (TShutdownInLoop c) (mod_conn c (setState KDisconnecting) s)
      else Inr s)"

section \<open>Beginning and end\<close>

definition connectionEstablished :: "('b, 'z) conn_runner \<Rightarrow> conn_id \<Rightarrow> ('b, 'z) conns \<Rightarrow> ('b, 'z) conns result" where
  "connectionEstablished run c s =
     bindR (assertInLoopThread (cn_loop (n_conns s c)) s) (\<lambda>s.
     bindR (enableRead (cn_channel (n_conns s c)) (mod_conn c (setState KConnected) s)) (\<lambda>s.
     callSet ''connectionCallback_'' run (map_option (\<lambda>f. f c) (cn_connectionCallback (n_conns s c))) s))"

definition connectionDestryed :: "conn_id \<Rightarrow> ('b, 'z) conns \<Rightarrow> ('b, 'z) conns result" where
  "connectionDestryed c s =
     bindR (assertInLoopThread (cn_loop (n_conns s c)) s) (\<lambda>s.
     bindR (if cn_state (n_conns s c) = KConnected
            then disableAll (cn_channel (n_conns s c)) (mod_conn c (setState KDisconnected) s)
            else Inr s) (\<lambda>s.
     channelRemove (cn_channel (n_conns s c)) s))"

definition connSetTcpNoDealy :: "'b env \<Rightarrow> conn_id \<Rightarrow> bool \<Rightarrow> ('b, 'z) conns \<Rightarrow> ('b, 'z) conns" where
  "connSetTcpNoDealy E c on s = setTcpNoDealy E (cn_sockfd (n_conns s c)) on s"

definition connSetKeepAlive :: "'b env \<Rightarrow> conn_id \<Rightarrow> bool \<Rightarrow> ('b, 'z) conns \<Rightarrow> ('b, 'z) conns" where
  "connSetKeepAlive E c on s = setKeepAlive E (cn_sockfd (n_conns s c)) on s"

text \<open>\<open>~TcpConnection\<close>: then the channel, and the socket, which closes the descriptor.\<close>

definition dtorConnection :: "'b env \<Rightarrow> conn_id \<Rightarrow> ('b, 'z) conns \<Rightarrow> ('b, 'z) conns result" where
  "dtorConnection E c s =
     bindR (assertR ''~TcpConnection: state_ == kDisconnected'' (cn_state (n_conns s c) = KDisconnected) s) (\<lambda>s.
     bindR (dtorChannel (conn_chan c s)) (\<lambda>_.
     dtorSocket E (cn_sockfd (n_conns s c)) s))"

section \<open>Facts about the state\<close>

lemma mod_conn_sel [simp]:
  "r_chans (mod_conn c f s) = r_chans s" "r_loops (mod_conn c f s) = r_loops s"
  "r_tid (mod_conn c f s) = r_tid s" "r_nextChan (mod_conn c f s) = r_nextChan s"
  "r_trace (mod_conn c f s) = r_trace s" "r_timers (mod_conn c f s) = r_timers s"
  "r_nextLoop (mod_conn c f s) = r_nextLoop s" "n_acceptors (mod_conn c f s) = n_acceptors s"
  "n_nextConn (mod_conn c f s) = n_nextConn s"
  "n_conns (mod_conn c f s) = (n_conns s)(c := f (n_conns s c))"
  by (simp_all add: mod_conn_def)

lemma n_conns_sel [simp]:
  "n_conns (emit e s) = n_conns s" "n_conns (mod_chan ch g s) = n_conns s"
  "n_conns (mod_loop l f s) = n_conns s" "n_conns (set_ps l ps s) = n_conns s"
  "n_conns (mod_acceptor a h s) = n_conns s"
  "n_nextConn (emit e s) = n_nextConn s" "n_nextConn (mod_chan ch g s) = n_nextConn s"
  "n_nextConn (mod_loop l f s) = n_nextConn s" "n_nextConn (set_ps l ps s) = n_nextConn s"
  "n_nextConn (mod_acceptor a h s) = n_nextConn s"
  by (simp_all add: emit_def mod_chan_def mod_loop_def set_ps_def mod_acceptor_def)

lemma setState_sel [simp]:
  "cn_state (setState st cn) = st" "cn_loop (setState st cn) = cn_loop cn"
  "cn_channel (setState st cn) = cn_channel cn" "cn_sockfd (setState st cn) = cn_sockfd cn"
  "cn_outputBuffer (setState st cn) = cn_outputBuffer cn" "cn_name (setState st cn) = cn_name cn"
  "cn_closeCallback (setState st cn) = cn_closeCallback cn"
  "cn_connectionCallback (setState st cn) = cn_connectionCallback cn"
  by (simp_all add: setState_def)

lemma queueInLoop_sel [simp]:
  "r_chans (queueInLoop E l t s) = r_chans s" "r_tid (queueInLoop E l t s) = r_tid s"
  "r_nextChan (queueInLoop E l t s) = r_nextChan s"
  "el_poller (r_loops (queueInLoop E l t s) k) = el_poller (r_loops s k)"
  by (simp_all add: queueInLoop_def wakeup_def Let_def)

lemma queueInLoop_conns [simp]: "n_conns (queueInLoop E l t s) = n_conns s"
  by (simp add: queueInLoop_def wakeup_def Let_def)

lemma queueInLoop_trace:
  "r_trace (queueInLoop E l t s) = r_trace s \<or> (\<exists>fd v r. r_trace (queueInLoop E l t s) = r_trace s @ [SysWriteI64 fd v r])"
  by (simp add: queueInLoop_def wakeup_def Let_def)

lemma queueInLoop_thread [simp]: "isInLoopThread k (queueInLoop E l t s) = isInLoopThread k s"
  by (simp add: isInLoopThread_def)

section \<open>The bytes of a connection\<close>

text \<open>What the trace says of a descriptor: the bytes the kernel took, and the ends sent.\<close>

fun written :: "int \<Rightarrow> trace \<Rightarrow> string" where
  "written fd [] = []"
| "written fd (SysWrite f bs r # tr) = (if f = fd then take (nat r) bs else []) @ written fd tr"
| "written fd (e # tr) = written fd tr"

fun is_write :: "int \<Rightarrow> sysev \<Rightarrow> bool" where
  "is_write fd (SysWrite f bs r) \<longleftrightarrow> f = fd"
| "is_write fd _ \<longleftrightarrow> False"

fun is_fin :: "int \<Rightarrow> sysev \<Rightarrow> bool" where
  "is_fin fd (SysShutdownWr f r) \<longleftrightarrow> f = fd"
| "is_fin fd _ \<longleftrightarrow> False"

definition fins :: "int \<Rightarrow> trace \<Rightarrow> nat" where
  "fins fd tr = length (filter (is_fin fd) tr)"

text \<open>No write comes after an end.\<close>

fun fin_last :: "int \<Rightarrow> trace \<Rightarrow> bool" where
  "fin_last fd [] \<longleftrightarrow> True"
| "fin_last fd (e # tr) \<longleftrightarrow> (is_fin fd e \<longrightarrow> list_all (\<lambda>x. \<not> is_write fd x) tr) \<and> fin_last fd tr"

lemma written_append [simp]: "written fd (tr @ tr') = written fd tr @ written fd tr'"
  by (induction fd tr rule: written.induct) auto

lemma fins_append [simp]: "fins fd (tr @ tr') = fins fd tr + fins fd tr'"
  by (simp add: fins_def)

lemma fins_single [simp]: "fins fd [e] = (if is_fin fd e then 1 else 0)" "fins fd [] = 0"
  by (simp_all add: fins_def)

lemma fin_last_quiet: "\<not> is_write fd e \<Longrightarrow> fin_last fd (tr @ [e]) = fin_last fd tr"
  by (induction tr) auto

lemma fin_last_open: "fins fd tr = 0 \<Longrightarrow> fin_last fd (tr @ [e])"
  by (induction tr) (auto simp: fins_def split: if_splits)

lemma fins_0_last: "fins fd tr = 0 \<Longrightarrow> fin_last fd tr"
  by (induction tr) (auto simp: fins_def split: if_splits)

lemma queueInLoop_io [simp]:
  "written fd (r_trace (queueInLoop E l t s)) = written fd (r_trace s)"
  "fins fd (r_trace (queueInLoop E l t s)) = fins fd (r_trace s)"
  "fin_last fd (r_trace (queueInLoop E l t s)) = fin_last fd (r_trace s)"
  using queueInLoop_trace[of E l t s] by (auto simp: fin_last_quiet)

text \<open>
  The buffer as muduo documents it: a queue of bytes.  Retrieving more than is readable fails
  muduo's assertion.  \<open>write_law\<close>: a \<open>write\<close> that does not fail takes a prefix, of at most
  \<open>0x7ffff000\<close> bytes.
\<close>

definition buffer_laws :: "'b env \<Rightarrow> bool" where
  "buffer_laws E \<longleftrightarrow> buf_peek E (buf_empty E) = [] \<and>
     (\<forall>b x. buf_peek E (buf_append E b x) = buf_peek E b @ x) \<and>
     (\<forall>b. buf_readableBytes E b = length (buf_peek E b)) \<and>
     (\<forall>b n. n \<le> length (buf_peek E b) \<longrightarrow>
        (\<exists>b'. buf_retrieve E b n = Inr b' \<and> buf_peek E b' = drop n (buf_peek E b))) \<and>
     (\<forall>b n. length (buf_peek E b) < n \<longrightarrow> (\<exists>e. buf_retrieve E b n = Inl (External e)))"

definition write_law :: "'b env \<Rightarrow> int \<Rightarrow> bool" where
  "write_law E fd \<longleftrightarrow> (\<forall>tr bs. 0 \<le> write_of E tr fd bs \<and> write_of E tr fd bs \<le> int (length bs) \<and>
     write_of E tr fd bs \<le> 0x7ffff000)"

text \<open>All bytes of a connection, in order: those the kernel has and those still buffered.\<close>

definition stream :: "'b env \<Rightarrow> conn_id \<Rightarrow> ('b, 'z) conns \<Rightarrow> string" where
  "stream E c s = written (cn_sockfd (n_conns s c)) (r_trace s) @ buf_peek E (cn_outputBuffer (n_conns s c))"

text \<open>The channel of a connection is its own, and writing is enabled exactly while bytes are buffered.\<close>

definition conn_live :: "'b env \<Rightarrow> conn_id \<Rightarrow> ('b, 'z) conns \<Rightarrow> bool" where
  "conn_live E c s \<longleftrightarrow> reactor_wf s \<and> chan_ok (cn_channel (n_conns s c)) s \<and>
     ch_ownerLoop (conn_chan c s) = cn_loop (n_conns s c) \<and> ch_fd (conn_chan c s) = cn_sockfd (n_conns s c) \<and>
     (isWriting (conn_chan c s) \<longleftrightarrow> buf_peek E (cn_outputBuffer (n_conns s c)) \<noteq> [])"

text \<open>Only the output buffer of the connection differs.\<close>

definition conn_same :: "conn_id \<Rightarrow> ('b, 'z) conns \<Rightarrow> ('b, 'z) conns \<Rightarrow> bool" where
  "conn_same c s t \<longleftrightarrow>
     n_conns t c = (n_conns s c)\<lparr>cn_outputBuffer := cn_outputBuffer (n_conns t c)\<rparr> \<and> r_tid t = r_tid s \<and>
     (\<forall>l. el_threadId (r_loops t l) = el_threadId (r_loops s l))"

lemma conn_same_sel:
  assumes "conn_same c s t"
  shows "cn_state (n_conns t c) = cn_state (n_conns s c)" "cn_sockfd (n_conns t c) = cn_sockfd (n_conns s c)"
    "cn_loop (n_conns t c) = cn_loop (n_conns s c)" "cn_channel (n_conns t c) = cn_channel (n_conns s c)"
    "isInLoopThread l t = isInLoopThread l s"
proof -
  have "n_conns t c = (n_conns s c)\<lparr>cn_outputBuffer := cn_outputBuffer (n_conns t c)\<rparr>"
    using assms by (simp add: conn_same_def)
  then show "cn_state (n_conns t c) = cn_state (n_conns s c)" "cn_sockfd (n_conns t c) = cn_sockfd (n_conns s c)"
    "cn_loop (n_conns t c) = cn_loop (n_conns s c)" "cn_channel (n_conns t c) = cn_channel (n_conns s c)"
    by (metis conn.ext_inject conn.surjective conn.update_convs(9))+
  show "isInLoopThread l t = isInLoopThread l s" using assms by (simp add: conn_same_def isInLoopThread_def)
qed

lemma conn_same_refl [simp]: "conn_same c s s"
  by (simp add: conn_same_def)

lemma conn_same_trans:
  assumes "conn_same c s t" "conn_same c t u" shows "conn_same c s u"
proof -
  obtain x y where "n_conns t c = (n_conns s c)\<lparr>cn_outputBuffer := x\<rparr>" "n_conns u c = (n_conns t c)\<lparr>cn_outputBuffer := y\<rparr>"
    using assms unfolding conn_same_def by blast
  then have "n_conns u c = (n_conns s c)\<lparr>cn_outputBuffer := cn_outputBuffer (n_conns u c)\<rparr>" by simp
  with assms show ?thesis by (simp add: conn_same_def)
qed

lemma same_reactor_conn:
  assumes "r_chans t = r_chans s" "\<And>l. el_poller (r_loops t l) = el_poller (r_loops s l)" "r_nextChan t = r_nextChan s"
  shows "reactor_wf t = reactor_wf s" "chan_ok ch t = chan_ok ch s" "loop_interest l t = loop_interest l s"
  using assms by (simp_all add: reactor_wf_def chan_ok_def loop_interest_def loop_ps_def)

text \<open>Enabling the channel of a live connection for writing, once there are bytes to write.\<close>

lemma enableWrite_live:
  assumes "reactor_wf s" "chan_ok (cn_channel (n_conns s c)) s"
    "ch_ownerLoop (conn_chan c s) = cn_loop (n_conns s c)" "ch_fd (conn_chan c s) = cn_sockfd (n_conns s c)"
    "buf_peek E (cn_outputBuffer (n_conns s c)) \<noteq> []"
  shows "\<exists>t. enableWrite (cn_channel (n_conns s c)) s = Inr t \<and> conn_live E c t \<and> n_conns t = n_conns s \<and>
    r_trace t = r_trace s \<and> r_tid t = r_tid s \<and> (\<forall>l. el_threadId (r_loops t l) = el_threadId (r_loops s l))"
proof -
  let ?ch = "cn_channel (n_conns s c)"
  obtain t where t: "updateWith addWriteEvent ?ch s = Inr t"
    using updateWith_contract(1)[OF assms(1,2) keeps_identity_ops(2)] by blast
  note k = updateWith_contract(2)[OF assms(1,2) keeps_identity_ops(2) t]
  then obtain l i p where p: "t = set_ps l ((r_chans s)(?ch := set_index i (addWriteEvent (r_chans s ?ch))), p) s"
    unfolding Let_def by blast
  have "isWriting (r_chans t ?ch)" using isWriting_addWrite[of "r_chans s ?ch"]
    by (simp add: p isWriting_def set_index_def)
  moreover have "n_conns t = n_conns s" "r_trace t = r_trace s" "r_tid t = r_tid s"
    "\<forall>l. el_threadId (r_loops t l) = el_threadId (r_loops s l)" by (simp_all add: p)
  moreover have "ch_ownerLoop (r_chans t ?ch) = ch_ownerLoop (r_chans s ?ch)" "ch_fd (r_chans t ?ch) = ch_fd (r_chans s ?ch)"
    by (simp_all add: p set_index_def addWriteEvent_def)
  ultimately show ?thesis using t k assms(3-5) unfolding enable_ops by (simp add: conn_live_def)
qed

lemma queueWriteComplete_conns [simp]: "n_conns (queueWriteComplete E c s) = n_conns s"
  by (simp add: queueWriteComplete_def)

lemma queueWriteComplete_live [simp]:
  "conn_live E c (queueWriteComplete E c u) = conn_live E c u"
  "conn_same c s (queueWriteComplete E c u) = conn_same c s u"
  "stream E c (queueWriteComplete E c u) = stream E c u"
  "fins fd (r_trace (queueWriteComplete E c u)) = fins fd (r_trace u)"
  "fin_last fd (r_trace (queueWriteComplete E c u)) = fin_last fd (r_trace u)"
  using same_reactor_conn[of "queueWriteComplete E c u" u]
  by (simp_all add: queueWriteComplete_def conn_live_def conn_same_def stream_def)

lemma buffer_lawsD:
  assumes "buffer_laws E"
  shows "buf_readableBytes E b = length (buf_peek E b)" "buf_peek E (buf_append E b x) = buf_peek E b @ x"
  using assms by (simp_all add: buffer_laws_def)

text \<open>\<open>sendInLoop\<close> of a live connection with bytes in its buffer: the message is buffered too.\<close>

lemma sendInLoop_buffered:
  assumes bl: "buffer_laws E" and live: "conn_live E c s" and thr: "isInLoopThread (cn_loop (n_conns s c)) s"
    and w: "isWriting (conn_chan c s)"
  shows "\<exists>t. sendInLoop E c m s = Inr t \<and> conn_live E c t \<and> conn_same c s t \<and> stream E c t = stream E c s @ m \<and>
    fins fd (r_trace t) = fins fd (r_trace s) \<and> fin_last fd (r_trace t) = fin_last fd (r_trace s)"
proof (cases "m = []")
  case True
  then have "sendInLoop E c m s = Inr (queueWriteComplete E c s)"
    using w thr by (simp add: sendInLoop_def assertInLoopThread_def)
  then show ?thesis using True live by simp
next
  case False
  let ?t = "mod_conn c (\<lambda>cn. cn\<lparr>cn_outputBuffer := buf_append E (cn_outputBuffer cn) m\<rparr>) s"
  have "sendInLoop E c m s = Inr ?t"
    using w thr False by (simp add: sendInLoop_def assertInLoopThread_def Let_def)
  moreover have "conn_live E c ?t"
    using live same_reactor_conn[of ?t s] w by (simp add: conn_live_def buffer_lawsD(2)[OF bl])
  ultimately show ?thesis by (simp add: conn_same_def stream_def buffer_lawsD(2)[OF bl])
qed

text \<open>And with none: what the kernel does not take is buffered, and writing is enabled.\<close>

lemma sendInLoop_direct:
  assumes bl: "buffer_laws E" and wl: "write_law E (cn_sockfd (n_conns s c))"
    and live: "conn_live E c s" and thr: "isInLoopThread (cn_loop (n_conns s c)) s"
    and nw: "\<not> isWriting (conn_chan c s)"
  shows "\<exists>t w. sendInLoop E c m s = Inr t \<and> conn_live E c t \<and> conn_same c s t \<and> stream E c t = stream E c s @ m \<and>
    fins fd (r_trace t) = fins fd (r_trace s) \<and>
    fin_last fd (r_trace t) = fin_last fd (r_trace s @ [SysWrite (cn_sockfd (n_conns s c)) m w])"
proof -
  let ?cn = "n_conns s c" and ?out = "cn_outputBuffer (n_conns s c)" and ?sfd = "cn_sockfd (n_conns s c)"
  note laws = buffer_lawsD[OF bl]
  have e: "buf_peek E ?out = []" using live nw by (simp add: conn_live_def)
  define w where "w = write_of E (r_trace s) ?sfd m"
  have w: "0 \<le> w" "w \<le> int (length m)" using wl by (simp_all add: w_def write_law_def)
  let ?s1 = "emit (SysWrite ?sfd m w) s"
  have s1: "reactor_wf ?s1" "chan_ok ch ?s1 = chan_ok ch s" for ch
    using live same_reactor_conn[of ?s1 s] by (simp_all add: conn_live_def)
  show ?thesis
  proof (cases "w < int (length m)")
    case True
    let ?s2 = "mod_conn c (\<lambda>cn. cn\<lparr>cn_outputBuffer := buf_append E (cn_outputBuffer cn) (drop (nat w) m)\<rparr>) ?s1"
    have ne: "drop (nat w) m \<noteq> []" using True w(1) by (simp add: not_le nat_less_iff)
    have s2: "reactor_wf ?s2" "chan_ok ch ?s2 = chan_ok ch s" for ch
      using s1 same_reactor_conn[of ?s2 ?s1] by simp_all
    from enableWrite_live[of ?s2 c E] live ne s2 obtain t where t:
      "enableWrite (cn_channel ?cn) ?s2 = Inr t" "conn_live E c t" "n_conns t = n_conns ?s2"
      "r_trace t = r_trace ?s2" "r_tid t = r_tid s" "\<forall>l. el_threadId (r_loops t l) = el_threadId (r_loops s l)"
      by (auto simp: conn_live_def laws)
    have "sendInLoop E c m s = Inr t"
      using nw thr True e w t(1)
      by (simp add: sendInLoop_def assertInLoopThread_def Let_def sysWrite_def w_def[symmetric] laws)
    moreover have "stream E c t = stream E c s @ m" by (simp add: stream_def t e laws)
    moreover have "conn_same c s t" by (simp add: conn_same_def t)
    ultimately show ?thesis using t(2,4) by auto
  next
    case ge: False
    then have "w = int (length m)" using w by simp
    then have "conn_same c s ?s1" "stream E c ?s1 = stream E c s @ m" by (simp_all add: conn_same_def stream_def e)
    moreover have "sendInLoop E c m s = Inr (queueWriteComplete E c ?s1)"
      using nw thr ge e w
      by (simp add: sendInLoop_def assertInLoopThread_def Let_def sysWrite_def w_def[symmetric] laws)
    moreover have "conn_live E c ?s1" using live s1 by (simp add: conn_live_def)
    ultimately show ?thesis by auto
  qed
qed

text \<open>\<open>sendInLoop\<close> of a live connection: the message is appended to the bytes of the connection.\<close>

lemma sendInLoop_step:
  assumes bl: "buffer_laws E" and wl: "write_law E (cn_sockfd (n_conns s c))"
    and live: "conn_live E c s" and thr: "isInLoopThread (cn_loop (n_conns s c)) s"
  shows "\<exists>t. sendInLoop E c m s = Inr t \<and> conn_live E c t \<and> conn_same c s t \<and> stream E c t = stream E c s @ m \<and>
    fins fd (r_trace t) = fins fd (r_trace s) \<and>
    (fins fd (r_trace s) = 0 \<longrightarrow> fin_last fd (r_trace t))"
proof (cases "isWriting (conn_chan c s)")
  case True
  from sendInLoop_buffered[OF bl live thr this, of m fd] show ?thesis using fins_0_last by auto
next
  case False
  from sendInLoop_direct[OF bl wl live thr this, of m fd] show ?thesis using fin_last_open by metis
qed

text \<open>\<open>shutdownInLoop\<close>: the end is sent exactly when nothing is buffered.\<close>

lemma shutdownInLoop_step:
  assumes live: "conn_live E c s" and thr: "isInLoopThread (cn_loop (n_conns s c)) s"
  shows "\<exists>t. shutdownInLoop E c s = Inr t \<and> conn_live E c t \<and> conn_same c s t \<and> stream E c t = stream E c s \<and>
    cn_outputBuffer (n_conns t c) = cn_outputBuffer (n_conns s c) \<and>
    fins (cn_sockfd (n_conns s c)) (r_trace t) = fins (cn_sockfd (n_conns s c)) (r_trace s) +
      (if buf_peek E (cn_outputBuffer (n_conns s c)) = [] then 1 else 0) \<and>
    fin_last fd (r_trace t) = fin_last fd (r_trace s)"
proof (cases "isWriting (conn_chan c s)")
  case True
  then show ?thesis using live thr by (simp add: shutdownInLoop_def assertInLoopThread_def conn_live_def)
next
  case False
  let ?t = "shutdownWrite E (cn_sockfd (n_conns s c)) s"
  have "conn_live E c ?t = conn_live E c s"
    using same_reactor_conn[of ?t s] by (simp add: conn_live_def shutdownWrite_def)
  with False live thr show ?thesis
    by (simp add: shutdownInLoop_def assertInLoopThread_def conn_live_def shutdownWrite_def conn_same_def stream_def
        fin_last_quiet)
qed

lemma disableWrite_conns [simp]: "n_conns (disableWrite ch s) = n_conns s"
  by (simp add: disableWrite_def)

text \<open>\<open>handleWrite\<close> by its three cases: nothing to write, some bytes left, or all bytes written.\<close>

lemma connWrite_cases:
  assumes bl: "buffer_laws E" and wl: "write_law E (cn_sockfd (n_conns s c))"
    and live: "conn_live E c s" and thr: "isInLoopThread (cn_loop (n_conns s c)) s"
    and ne: "buf_peek E (cn_outputBuffer (n_conns s c)) \<noteq> []"
  shows "\<exists>w b. let s1 = mod_conn c (\<lambda>cn. cn\<lparr>cn_outputBuffer := b\<rparr>)
        (emit (SysWrite (cn_sockfd (n_conns s c)) (buf_peek E (cn_outputBuffer (n_conns s c))) w) s) in
    0 \<le> w \<and> buf_peek E b = drop (nat w) (buf_peek E (cn_outputBuffer (n_conns s c))) \<and> stream E c s1 = stream E c s \<and>
    connWrite E c s = (if buf_peek E b = [] then
        (let s2 = queueWriteComplete E c (disableWrite (cn_channel (n_conns s c)) s1)
         in if cn_state (n_conns s c) = KDisconnecting then shutdownInLoop E c s2 else Inr s2)
      else Inr s1)"
proof -
  let ?out = "cn_outputBuffer (n_conns s c)" and ?fd = "cn_sockfd (n_conns s c)"
  define w where "w = write_of E (r_trace s) ?fd (buf_peek E ?out)"
  have w: "0 \<le> w" "w \<le> int (length (buf_peek E ?out))" "w \<le> 0x7ffff000" using wl by (simp_all add: w_def write_law_def)
  obtain b where b: "buf_retrieve E ?out (nat w) = Inr b" "buf_peek E b = drop (nat w) (buf_peek E ?out)"
    using bl w(1,2) unfolding buffer_laws_def by (metis nat_le_iff)
  have all: "buf_peek E b = [] \<longleftrightarrow> w = int (length (buf_peek E ?out))"
    using w(1,2) by (auto simp: b(2))
  have rb: "buf_readableBytes E ?out = length (buf_peek E ?out)" using bl by (simp add: buffer_laws_def)
  have "w mod 18446744073709551616 = w" "isWriting (conn_chan c s)"
    using w live ne by (simp_all add: conn_live_def)
  then show ?thesis
    by (intro exI[of _ w] exI[of _ b])
      (use thr b w(1) all in \<open>simp add: connWrite_def assertInLoopThread_def Let_def sysWrite_def rb w_def[symmetric] stream_def\<close>)
qed

text \<open>All bytes are written: writing is disabled, and the completion queued.\<close>

lemma drained_step:
  assumes live: "conn_live E c s" and e: "buf_peek E b = []"
    and s1: "s1 = mod_conn c (\<lambda>cn. cn\<lparr>cn_outputBuffer := b\<rparr>) (emit ev s)"
    and s2: "s2 = queueWriteComplete E c (disableWrite (cn_channel (n_conns s c)) s1)"
  shows "conn_live E c s2" "conn_same c s s2" "stream E c s2 = stream E c s1" "cn_outputBuffer (n_conns s2 c) = b"
    "fins fd (r_trace s2) = fins fd (r_trace s1)" "fin_last fd (r_trace s2) = fin_last fd (r_trace s1)"
proof -
  let ?cn = "n_conns s c" and ?d = "disableWrite (cn_channel (n_conns s c)) s1"
  have "reactor_wf s1" "chan_ok ch s1 = chan_ok ch s" for ch
    using live same_reactor_conn[of s1 s] by (simp_all add: conn_live_def s1)
  then have wf2: "reactor_wf ?d" "chan_ok ch ?d = chan_ok ch s" for ch
    by (simp_all add: disableWrite_def mod_chan_identity)
  have ch2: "r_chans s2 (cn_channel ?cn) = disableWriteEvent (conn_chan c s)"
    "n_conns s2 = (n_conns s)(c := ?cn\<lparr>cn_outputBuffer := b\<rparr>)" "r_tid s2 = r_tid s"
    "el_threadId (r_loops s2 k) = el_threadId (r_loops s k)" for k
    by (simp_all add: s2 queueWriteComplete_def disableWrite_def s1)
  have "ch_ownerLoop (disableWriteEvent ch) = ch_ownerLoop ch" "ch_fd (disableWriteEvent ch) = ch_fd ch" for ch
    by (simp_all add: disableWriteEvent_def)
  then show "conn_live E c s2"
    using live wf2 same_reactor_conn[of s2 ?d]
    by (simp add: conn_live_def ch2 e) (simp add: s2 queueWriteComplete_def)
  show "conn_same c s s2" "cn_outputBuffer (n_conns s2 c) = b" by (simp_all add: conn_same_def ch2)
  show "stream E c s2 = stream E c s1" "fins fd (r_trace s2) = fins fd (r_trace s1)"
    "fin_last fd (r_trace s2) = fin_last fd (r_trace s1)"
    by (simp_all add: s2 stream_def queueWriteComplete_def disableWrite_def)
qed

text \<open>\<open>handleWrite\<close>: bytes move from the buffer to the kernel; a half-closed connection ends when drained.\<close>

lemma connWrite_step:
  assumes bl: "buffer_laws E" and wl: "write_law E (cn_sockfd (n_conns s c))"
    and live: "conn_live E c s" and thr: "isInLoopThread (cn_loop (n_conns s c)) s"
    and open_fin: "buf_peek E (cn_outputBuffer (n_conns s c)) \<noteq> [] \<Longrightarrow> fins (cn_sockfd (n_conns s c)) (r_trace s) = 0"
    and last: "fin_last (cn_sockfd (n_conns s c)) (r_trace s)"
  shows "\<exists>t. connWrite E c s = Inr t \<and> conn_live E c t \<and> conn_same c s t \<and> stream E c t = stream E c s \<and>
    fin_last (cn_sockfd (n_conns s c)) (r_trace t) \<and>
    fins (cn_sockfd (n_conns s c)) (r_trace t) = fins (cn_sockfd (n_conns s c)) (r_trace s) +
      (if buf_peek E (cn_outputBuffer (n_conns s c)) \<noteq> [] \<and> buf_peek E (cn_outputBuffer (n_conns t c)) = []
          \<and> cn_state (n_conns s c) = KDisconnecting then 1 else 0) \<and>
    (buf_peek E (cn_outputBuffer (n_conns s c)) = [] \<longrightarrow> buf_peek E (cn_outputBuffer (n_conns t c)) = [])"
proof (cases "buf_peek E (cn_outputBuffer (n_conns s c)) = []")
  case True
  then have "connWrite E c s = Inr s" using thr live by (simp add: connWrite_def assertInLoopThread_def conn_live_def)
  with live last True show ?thesis by simp
next
  case ne: False
  let ?fd = "cn_sockfd (n_conns s c)" and ?out = "cn_outputBuffer (n_conns s c)"
  from connWrite_cases[OF bl wl live thr ne] obtain w b s1 s2 where
    s1: "s1 = mod_conn c (\<lambda>cn. cn\<lparr>cn_outputBuffer := b\<rparr>) (emit (SysWrite ?fd (buf_peek E ?out) w) s)"
    and s2: "s2 = queueWriteComplete E c (disableWrite (cn_channel (n_conns s c)) s1)"
    and st1: "stream E c s1 = stream E c s"
    and run: "connWrite E c s = (if buf_peek E b = [] then if cn_state (n_conns s c) = KDisconnecting
        then shutdownInLoop E c s2 else Inr s2 else Inr s1)" unfolding Let_def by blast
  have tr1: "fins ?fd (r_trace s1) = 0" "fin_last ?fd (r_trace s1)" using open_fin[OF ne] by (simp_all add: s1 fin_last_open)
  show ?thesis
  proof (cases "buf_peek E b = []")
    case False
    have "conn_live E c s1" "conn_same c s s1"
      using live ne False same_reactor_conn[of s1 s] by (simp_all add: s1 conn_live_def conn_same_def)
    with False run st1 tr1 ne open_fin show ?thesis by (simp add: s1)
  next
    case e: True
    note d = drained_step[OF live e s1 s2]
    show ?thesis
    proof (cases "cn_state (n_conns s c) = KDisconnecting")
      case False
      with run e have "connWrite E c s = Inr s2" by simp
      then show ?thesis using False d st1 tr1 open_fin[OF ne] ne e by auto
    next
      case dis: True
      have "isInLoopThread (cn_loop (n_conns s2 c)) s2" using thr conn_same_sel[OF d(2)] by simp
      from shutdownInLoop_step[OF d(1) this, of ?fd] obtain t where t: "shutdownInLoop E c s2 = Inr t" "conn_live E c t"
        "conn_same c s2 t" "stream E c t = stream E c s2" "cn_outputBuffer (n_conns t c) = b"
        "fins ?fd (r_trace t) = 1" "fin_last ?fd (r_trace t)"
        using d(3-6) tr1 e conn_same_sel(2)[OF d(2)] by auto
      have "conn_same c s t" by (rule conn_same_trans[OF d(2) t(3)])
      with run dis e t d(3) st1 ne open_fin[OF ne] show ?thesis by auto
    qed
  qed
qed

section \<open>The abstract connection\<close>

text \<open>
  What a connection promises in its loop's thread: a queue of bytes that can be closed at the end.
  The state is the bytes accepted so far and whether the end was asked for; a message sent after
  that is dropped.  The kernel reporting the descriptor writable changes nothing.
\<close>

datatype conn_op = OpSend string | OpShutdown | OpWritable

fun spec_step :: "string \<times> bool \<Rightarrow> conn_op \<Rightarrow> string \<times> bool" where
  "spec_step (bs, ended) (OpSend m) = (if ended then bs else bs @ m, ended)"
| "spec_step (bs, ended) OpShutdown = (bs, True)"
| "spec_step (bs, ended) OpWritable = (bs, ended)"

fun serve_conn ::
  "'b env \<Rightarrow> ('b, 'z) conn_runner \<Rightarrow> conn_id \<Rightarrow> conn_op \<Rightarrow> ('b, 'z) conns \<Rightarrow> ('b, 'z) conns result" where
  "serve_conn E run c (OpSend m) s = send E run c m s"
| "serve_conn E run c OpShutdown s = shutdown E run c s"
| "serve_conn E run c OpWritable s = connWrite E c s"

definition abs_conn :: "'b env \<Rightarrow> conn_id \<Rightarrow> ('b, 'z) conns \<Rightarrow> string \<times> bool" where
  "abs_conn E c s = (stream E c s, cn_state (n_conns s c) = KDisconnecting)"

text \<open>
  The state of an open connection: it is live, its loop's thread runs, it is connected or half
  closed, and the end has been sent once if it was asked for and nothing is buffered, else never.
\<close>

definition conn_open :: "'b env \<Rightarrow> conn_id \<Rightarrow> ('b, 'z) conns \<Rightarrow> bool" where
  "conn_open E c s \<longleftrightarrow> conn_live E c s \<and> isInLoopThread (cn_loop (n_conns s c)) s \<and>
     cn_state (n_conns s c) \<in> {KConnected, KDisconnecting} \<and>
     fins (cn_sockfd (n_conns s c)) (r_trace s) =
       (if cn_state (n_conns s c) = KDisconnecting \<and> buf_peek E (cn_outputBuffer (n_conns s c)) = [] then 1 else 0) \<and>
     fin_last (cn_sockfd (n_conns s c)) (r_trace s)"

lemma serve_send:
  assumes bl: "buffer_laws E" and wl: "write_law E (cn_sockfd (n_conns s c))" and op: "conn_open E c s"
  shows "\<exists>t. send E run c m s = Inr t \<and> conn_open E c t \<and> conn_same c s t \<and>
    abs_conn E c t = spec_step (abs_conn E c s) (OpSend m)"
proof (cases "cn_state (n_conns s c) = KConnected")
  case False
  then show ?thesis using op by (simp add: send_def abs_conn_def conn_open_def)
next
  case True
  let ?fd = "cn_sockfd (n_conns s c)"
  have o: "conn_live E c s" "isInLoopThread (cn_loop (n_conns s c)) s" "fins ?fd (r_trace s) = 0"
    using op True by (simp_all add: conn_open_def)
  from sendInLoop_step[OF bl wl o(1,2), of m ?fd] o(3) obtain t where t: "sendInLoop E c m s = Inr t"
    "conn_live E c t" "conn_same c s t" "stream E c t = stream E c s @ m" "fins ?fd (r_trace t) = 0"
    "fin_last ?fd (r_trace t)" by auto
  note same = conn_same_sel[OF t(3)]
  show ?thesis using True o(2) t by (simp add: send_def abs_conn_def conn_open_def same)
qed

lemma serve_shutdown:
  assumes op: "conn_open E c s" and run: "run (TShutdownInLoop c) = shutdownInLoop E c"
  shows "\<exists>t. shutdown E run c s = Inr t \<and> conn_open E c t \<and> abs_conn E c t = spec_step (abs_conn E c s) OpShutdown \<and>
    cn_sockfd (n_conns t c) = cn_sockfd (n_conns s c)"
proof (cases "cn_state (n_conns s c) = KConnected")
  case False
  then have "cn_state (n_conns s c) = KDisconnecting" using op by (auto simp: conn_open_def)
  then show ?thesis using op by (simp add: shutdown_def abs_conn_def conn_open_def)
next
  case True
  let ?u = "mod_conn c (setState KDisconnecting) s" and ?fd = "cn_sockfd (n_conns s c)"
  have live: "conn_live E c s" and thr: "isInLoopThread (cn_loop (n_conns s c)) s" using op by (simp_all add: conn_open_def)
  have liveu: "conn_live E c ?u" using live same_reactor_conn[of ?u s] by (simp add: conn_live_def)
  have thru: "isInLoopThread (cn_loop (n_conns ?u c)) ?u" using thr by (simp add: isInLoopThread_def)
  have z: "fins ?fd (r_trace s) = 0" "fin_last ?fd (r_trace s)" using op True by (simp_all add: conn_open_def)
  from shutdownInLoop_step[OF liveu thru, of ?fd] z obtain t where t: "shutdownInLoop E c ?u = Inr t"
    "conn_live E c t" "conn_same c ?u t" "stream E c t = stream E c ?u"
    "cn_outputBuffer (n_conns t c) = cn_outputBuffer (n_conns s c)"
    "fins ?fd (r_trace t) = (if buf_peek E (cn_outputBuffer (n_conns s c)) = [] then 1 else 0)"
    "fin_last ?fd (r_trace t)" by auto
  note same = conn_same_sel[OF t(3)]
  have "shutdown E run c s = Inr t"
    using True thru t(1) by (simp add: shutdown_def runInLoop_def run)
  moreover have "stream E c ?u = stream E c s" by (simp add: stream_def)
  ultimately show ?thesis using True thru t by (simp add: abs_conn_def conn_open_def same)
qed

lemma serve_writable:
  assumes bl: "buffer_laws E" and wl: "write_law E (cn_sockfd (n_conns s c))" and op: "conn_open E c s"
  shows "\<exists>t. connWrite E c s = Inr t \<and> conn_open E c t \<and> conn_same c s t \<and> abs_conn E c t = abs_conn E c s"
proof -
  let ?fd = "cn_sockfd (n_conns s c)" and ?st = "cn_state (n_conns s c)"
  have live: "conn_live E c s" and thr: "isInLoopThread (cn_loop (n_conns s c)) s" using op by (simp_all add: conn_open_def)
  have "fins ?fd (r_trace s) = 0" if "buf_peek E (cn_outputBuffer (n_conns s c)) \<noteq> []"
    using op that by (simp add: conn_open_def)
  moreover have "fin_last ?fd (r_trace s)" using op by (simp add: conn_open_def)
  ultimately obtain t where t: "connWrite E c s = Inr t" "conn_live E c t" "conn_same c s t" "stream E c t = stream E c s"
    "fin_last ?fd (r_trace t)"
    "fins ?fd (r_trace t) = fins ?fd (r_trace s) +
      (if buf_peek E (cn_outputBuffer (n_conns s c)) \<noteq> [] \<and> buf_peek E (cn_outputBuffer (n_conns t c)) = []
        \<and> ?st = KDisconnecting then 1 else 0)"
    "buf_peek E (cn_outputBuffer (n_conns s c)) = [] \<longrightarrow> buf_peek E (cn_outputBuffer (n_conns t c)) = []"
    using connWrite_step[OF bl wl live thr] by blast
  note same = conn_same_sel[OF t(3)]
  have "fins ?fd (r_trace t) = (if ?st = KDisconnecting \<and> buf_peek E (cn_outputBuffer (n_conns t c)) = [] then 1 else 0)"
    using t(6,7) op by (auto simp: conn_open_def)
  then show ?thesis using op thr t by (simp add: abs_conn_def conn_open_def same)
qed

lemma serve_conn_step:
  assumes bl: "buffer_laws E" and wl: "write_law E (cn_sockfd (n_conns s c))" and op: "conn_open E c s"
    and run: "run (TShutdownInLoop c) = shutdownInLoop E c"
  shows "\<exists>t. serve_conn E run c x s = Inr t \<and> conn_open E c t \<and> abs_conn E c t = spec_step (abs_conn E c s) x \<and>
    cn_sockfd (n_conns t c) = cn_sockfd (n_conns s c)"
proof (cases x)
  case (OpSend m)
  then show ?thesis using serve_send[OF bl wl op, of run m] conn_same_sel(2) by fastforce
next
  case OpShutdown
  then show ?thesis using serve_shutdown[where run = run, OF op run] by simp
next
  case OpWritable
  have "spec_step (abs_conn E c s) OpWritable = abs_conn E c s" by (simp add: abs_conn_def)
  then show ?thesis using OpWritable serve_writable[OF bl wl op] conn_same_sel(2) by fastforce
qed

section \<open>An example\<close>

text \<open>A kernel that takes at most four bytes at a time, and an open connection on descriptor 5.\<close>

definition slowEnv :: "string env" where
  "slowEnv = sampleEnv\<lparr>write_of := \<lambda>tr fd bs. min 4 (int (length bs))\<rparr>"

definition sampleConn :: "string conn" where
  "sampleConn = \<lparr>cn_loop = 0, cn_state = KConnected, cn_name = ''c'', cn_localAddr = Inet 1, cn_peerAddr = Inet 2,
     cn_sockfd = 5, cn_channel = 0, cn_inputBuffer = [], cn_outputBuffer = [],
     cn_connectionCallback = Some (TUserConnection 1), cn_messageCallback = Some (TUserMessage 2),
     cn_closeCallback = Some (TRemoveConnection 0), cn_writeCompleteCallback = None, cn_highWaterCallback = None\<rparr>"

definition sampleConns :: "string connstate" where
  "sampleConns = netstate.extend sampleNet (connstate.fields (\<lambda>_. sampleConn) 1)"

lemma sampleConns_sel:
  "r_chans sampleConns = r_chans sampleReading" "r_loops sampleConns = r_loops sampleReading"
  "r_nextChan sampleConns = r_nextChan sampleReading" "r_trace sampleConns = []" "r_tid sampleConns = 1"
  "n_conns sampleConns c = sampleConn"
  by (simp_all add: sampleConns_def netstate.extend_def connstate.fields_def sampleNet_def reactor.extend_def
      netstate.fields_def sampleReading_def)

lemma slow_laws: "buffer_laws slowEnv" "write_law slowEnv fd"
  by (auto simp: buffer_laws_def write_law_def slowEnv_def sampleEnv_def)

lemma sampleConns_open: "conn_open slowEnv c sampleConns"
proof -
  have "reactor_wf sampleConns" "chan_ok 0 sampleConns"
    using same_reactor[of sampleConns sampleReading] sampleReading_ok by (simp_all add: sampleConns_sel)
  moreover have "el_threadId (r_loops sampleReading 0) = 1" by (simp add: sampleReading_def)
  ultimately show ?thesis
    by (simp add: conn_open_def conn_live_def sampleConns_sel sampleReading_ok(4) sampleConn_def mkChannel_def
        isWriting_def event_masks poll_bits isInLoopThread_def) (simp add: slowEnv_def sampleEnv_def)
qed

text \<open>A runner that knows only \<open>shutdownInLoop\<close>.\<close>

definition shutRun :: "(string, unit) conn_runner" where
  "shutRun t s = (case t of TShutdownInLoop c \<Rightarrow> shutdownInLoop slowEnv c s | _ \<Rightarrow> Inr s)"

section \<open>Properties\<close>

text \<open>
  C2: a connection used in its loop's thread, with a kernel whose writes take prefixes without
  failing, implements the abstract connection, for every sequence of sends, shutdowns and writable
  events: every call goes through; the bytes the kernel took followed by those in \<open>outputBuffer_\<close>
  are exactly the messages accepted, complete and in order, whatever the sizes of the writes;
  the end is sent exactly once, as soon as the end was asked for and everything was written, and
  nothing is written after it.
\<close>

theorem connection_refines_byte_queue:
  assumes "buffer_laws E" and "write_law E (cn_sockfd (n_conns s c))" and "conn_open E c s"
    and "run (TShutdownInLoop c) = shutdownInLoop E c"
  shows "\<exists>t. foldR (serve_conn E run c) ops s = Inr t \<and> abs_conn E c t = foldl spec_step (abs_conn E c s) ops \<and>
    conn_open E c t"
proof -
  have "\<exists>t. foldR (serve_conn E run c) ops s = Inr t \<and> abs_conn E c t = foldl spec_step (abs_conn E c s) ops \<and>
    conn_open E c t" using assms(2,3)
  proof (induction ops arbitrary: s)
    case Nil
    then show ?case by simp
  next
    case (Cons x ops)
    from serve_conn_step[where run = run and x = x, OF assms(1) Cons.prems assms(4)] obtain u where
      "serve_conn E run c x s = Inr u" "conn_open E c u" "abs_conn E c u = spec_step (abs_conn E c s) x"
      "cn_sockfd (n_conns u c) = cn_sockfd (n_conns s c)" by blast
    with Cons.IH[of u] Cons.prems(1) show ?case by simp
  qed
  then show ?thesis .
qed

theorem connection_refines_byte_queue_witness:
  "\<exists>t. foldR (serve_conn slowEnv shutRun 0) [OpSend ''hello'', OpSend ''world'', OpShutdown, OpSend ''x'', OpWritable,
      OpWritable] sampleConns = Inr t \<and>
    abs_conn slowEnv 0 t = (''helloworld'', True) \<and> conn_open slowEnv 0 t"
proof -
  have "abs_conn slowEnv 0 sampleConns = ([], False)"
    by (simp add: abs_conn_def stream_def sampleConns_sel sampleConn_def slowEnv_def sampleEnv_def)
  with connection_refines_byte_queue[OF slow_laws sampleConns_open, of shutRun 0
      "[OpSend ''hello'', OpSend ''world'', OpShutdown, OpSend ''x'', OpWritable, OpWritable]"]
  show ?thesis by (simp add: shutRun_def fun_eq_iff)
qed



section \<open>The states of a connection\<close>

fun rank :: "connState \<Rightarrow> nat" where
  "rank KConnecting = 0"
| "rank KConnected = 1"
| "rank KDisconnecting = 2"
| "rank KDisconnected = 3"

lemma channel_ops_conns:
  "channelUpdate ch s = Inr t \<Longrightarrow> n_conns t = n_conns s" "channelRemove ch s = Inr t \<Longrightarrow> n_conns t = n_conns s"
  by (auto simp: channelUpdate_def loopUpdateChannel_def channelRemove_def loopRemoveChannel_def
      assertInLoopThread_def result_simps)

lemma enable_conns:
  "enableRead ch s = Inr t \<Longrightarrow> n_conns t = n_conns s" "enableWrite ch s = Inr t \<Longrightarrow> n_conns t = n_conns s"
  "disableAll ch s = Inr t \<Longrightarrow> n_conns t = n_conns s"
  by (auto simp: enableRead_def enableWrite_def disableAll_def dest: channel_ops_conns)

text \<open>A runner that never brings a connection back.\<close>

definition run_forward :: "('b, 'z) conn_runner \<Rightarrow> conn_id \<Rightarrow> bool" where
  "run_forward run c \<longleftrightarrow> (\<forall>t s s'. run t s = Inr s' \<longrightarrow>
     rank (cn_state (n_conns s c)) \<le> rank (cn_state (n_conns s' c)))"

lemma callSet_forward:
  "run_forward run c \<Longrightarrow> callSet w run cb s = Inr t \<Longrightarrow> rank (cn_state (n_conns s c)) \<le> rank (cn_state (n_conns t c))"
  by (auto simp: callSet_def run_forward_def split: option.splits)

lemma connClose_forward:
  assumes "run_forward run c" and "connClose run c s = Inr t"
  shows "rank (cn_state (n_conns s c)) \<le> rank (cn_state (n_conns t c))"
proof -
  from assms(2) obtain u where u: "disableAll (cn_channel (n_conns s c)) (mod_conn c (setState KDisconnected) s) = Inr u"
    "callSet ''closeCallback_'' run (map_option (\<lambda>f. f c) (cn_closeCallback (n_conns u c))) u = Inr t"
    by (auto simp: connClose_def assertInLoopThread_def result_simps)
  have "cn_state (n_conns u c) = KDisconnected" using enable_conns(3)[OF u(1)] by simp
  with callSet_forward[OF assms(1) u(2)] show ?thesis by (cases "cn_state (n_conns s c)") simp_all
qed

lemma shutdownInLoop_conns: "shutdownInLoop E c s = Inr t \<Longrightarrow> n_conns t = n_conns s"
  by (auto simp: shutdownInLoop_def assertInLoopThread_def result_simps shutdownWrite_def split: if_splits)

lemma sendInLoop_state:
  assumes "sendInLoop E c m s = Inr t" shows "cn_state (n_conns t c) = cn_state (n_conns s c)"
  using assms
  by (auto simp: sendInLoop_def assertInLoopThread_def result_simps Let_def sysWrite_def
      split: if_splits prod.splits dest!: enable_conns)

lemma connWrite_state:
  assumes "connWrite E c s = Inr t" shows "cn_state (n_conns t c) = cn_state (n_conns s c)"
  using assms
  by (auto simp: connWrite_def assertInLoopThread_def result_simps Let_def sysWrite_def disableWrite_def
      split: if_splits prod.splits dest!: shutdownInLoop_conns)

lemma connRead_forward:
  assumes "run_forward run c" and "connRead E run c now s = Inr t"
  shows "rank (cn_state (n_conns s c)) \<le> rank (cn_state (n_conns t c))"
proof -
  obtain ret b err where o: "buf_readFd E (r_trace s) (cn_inputBuffer (n_conns s c)) (cn_sockfd (n_conns s c)) = (ret, b, err)"
    by (cases "buf_readFd E (r_trace s) (cn_inputBuffer (n_conns s c)) (cn_sockfd (n_conns s c))")
  let ?u = "emit (SysRead (cn_sockfd (n_conns s c)) ret) (mod_conn c (\<lambda>cn. cn\<lparr>cn_inputBuffer := b\<rparr>) s)"
  have "callSet ''messageCallback_'' run (map_option (\<lambda>f. f c now) (cn_messageCallback (n_conns ?u c))) ?u = Inr t
      \<or> connClose run c ?u = Inr t \<or> t = ?u"
    using assms(2) o by (auto simp: connRead_def assertInLoopThread_def result_simps connError_def Let_def split: if_splits)
  moreover have "cn_state (n_conns ?u c) = cn_state (n_conns s c)" by simp
  ultimately show ?thesis
    using callSet_forward[OF assms(1)] connClose_forward[OF assms(1)] by (metis order_refl)
qed

lemma send_forward:
  assumes "run_forward run c"
  shows "runInLoop E run l x s = Inr t \<Longrightarrow> rank (cn_state (n_conns s c)) \<le> rank (cn_state (n_conns t c))"
    and "send E run c m s = Inr t \<Longrightarrow> rank (cn_state (n_conns s c)) \<le> rank (cn_state (n_conns t c))"
    and "shutdown E run c s = Inr t \<Longrightarrow> rank (cn_state (n_conns s c)) \<le> rank (cn_state (n_conns t c))"
proof -
  have r: "runInLoop E run l x s = Inr t \<Longrightarrow> rank (cn_state (n_conns s c)) \<le> rank (cn_state (n_conns t c))" for l x s
    using assms unfolding run_forward_def by (auto simp: runInLoop_def split: if_splits)
  then show "runInLoop E run l x s = Inr t \<Longrightarrow> rank (cn_state (n_conns s c)) \<le> rank (cn_state (n_conns t c))" .
  show "send E run c m s = Inr t \<Longrightarrow> rank (cn_state (n_conns s c)) \<le> rank (cn_state (n_conns t c))"
    using r sendInLoop_state by (fastforce simp: send_def split: if_splits)
  show "shutdown E run c s = Inr t \<Longrightarrow> rank (cn_state (n_conns s c)) \<le> rank (cn_state (n_conns t c))"
    using r[of "cn_loop (n_conns s c)" "TShutdownInLoop c" "mod_conn c (setState KDisconnecting) s"]
    by (cases "cn_state (n_conns s c) = KConnected") (simp_all add: shutdown_def)
qed

lemma connectionDestryed_forward:
  assumes "connectionDestryed c s = Inr t"
  shows "rank (cn_state (n_conns s c)) \<le> rank (cn_state (n_conns t c))"
proof -
  obtain u where u: "(if cn_state (n_conns s c) = KConnected
      then disableAll (cn_channel (n_conns s c)) (mod_conn c (setState KDisconnected) s) else Inr s) = Inr u"
    "channelRemove (cn_channel (n_conns u c)) u = Inr t"
    using assms by (auto simp: connectionDestryed_def assertInLoopThread_def result_simps)
  have "rank (cn_state (n_conns s c)) \<le> rank (cn_state (n_conns u c))"
    using u(1) by (cases "cn_state (n_conns s c)") (auto dest: enable_conns)
  with channel_ops_conns(2)[OF u(2)] show ?thesis by simp
qed

lemma connectionEstablished_forward:
  assumes "run_forward run c" and "connectionEstablished run c s = Inr t"
    and "cn_state (n_conns s c) \<in> {KConnecting, KConnected}"
  shows "rank (cn_state (n_conns s c)) \<le> rank (cn_state (n_conns t c))"
proof -
  obtain u where u: "enableRead (cn_channel (n_conns s c)) (mod_conn c (setState KConnected) s) = Inr u"
    "callSet ''connectionCallback_'' run (map_option (\<lambda>f. f c) (cn_connectionCallback (n_conns u c))) u = Inr t"
    using assms(2) by (auto simp: connectionEstablished_def assertInLoopThread_def result_simps)
  have "cn_state (n_conns u c) = KConnected" using enable_conns(1)[OF u(1)] by simp
  with callSet_forward[OF assms(1) u(2)] assms(3) show ?thesis by auto
qed



section \<open>The life of a connection\<close>

lemma connectionEstablished_contract:
  assumes wf: "reactor_wf s" and ok: "chan_ok (cn_channel (n_conns s c)) s"
    and chan: "ch_ownerLoop (conn_chan c s) = l" "ch_fd (conn_chan c s) = fd" "ch_events (conn_chan c s) = 0"
    and thr: "cn_loop (n_conns s c) = l" "isInLoopThread l s" and none: "loop_interest l s fd = None"
  shows "\<exists>i p t. connectionEstablished run c s =
      callSet ''connectionCallback_'' run (map_option (\<lambda>f. f c) (cn_connectionCallback (n_conns s c))) t \<and> reactor_wf t \<and> chan_ok (cn_channel (n_conns s c)) t \<and>
    t = set_ps l ((r_chans s)(cn_channel (n_conns s c) := set_index i (addReadEvent (conn_chan c s))), p)
          (mod_conn c (setState KConnected) s) \<and>
    loop_interest l t = (loop_interest l s)(fd \<mapsto> (True, 3))"
proof -
  let ?ch = "cn_channel (n_conns s c)" and ?a = "mod_conn c (setState KConnected) s"
  have a: "reactor_wf ?a" "chan_ok ?ch ?a" "loop_interest l ?a = loop_interest l s"
    using same_reactor_conn[of ?a s] wf ok by simp_all
  obtain t where t: "updateWith addReadEvent ?ch ?a = Inr t"
    using updateWith_contract(1)[OF a(1,2) keeps_identity_ops(1)] by blast
  note k = updateWith_contract(2)[OF a(1,2) keeps_identity_ops(1) t]
  obtain i p where p: "t = set_ps l ((r_chans s)(?ch := set_index i (addReadEvent (conn_chan c s))), p) ?a"
    using k chan unfolding Let_def by auto
  have "loop_interest l t = (loop_interest l s)(fd \<mapsto> (True, 3))"
    using k chan a(3) none unfolding Let_def
    by (simp add: watch_after_def) (simp add: addReadEvent_def event_masks poll_bits)
  moreover have "connectionEstablished run c s =
      callSet ''connectionCallback_'' run (map_option (\<lambda>f. f c) (cn_connectionCallback (n_conns s c))) t"
    using t thr by (simp add: connectionEstablished_def assertInLoopThread_def enable_ops p)
  ultimately show ?thesis using k p by blast
qed

lemma connClose_contract:
  assumes wf: "reactor_wf s" and ok: "chan_ok (cn_channel (n_conns s c)) s"
    and chan: "ch_ownerLoop (conn_chan c s) = l" "ch_fd (conn_chan c s) = fd"
    and thr: "cn_loop (n_conns s c) = l" "isInLoopThread l s"
    and st: "cn_state (n_conns s c) = KConnected \<or> cn_state (n_conns s c) = KDisconnecting"
    and some: "loop_interest l s fd = Some (True, e)"
  shows "\<exists>i p t. connClose run c s =
      callSet ''closeCallback_'' run (map_option (\<lambda>f. f c) (cn_closeCallback (n_conns s c))) t \<and> reactor_wf t \<and> chan_ok (cn_channel (n_conns s c)) t \<and>
    t = set_ps l ((r_chans s)(cn_channel (n_conns s c) := set_index i (clearEvents (conn_chan c s))), p)
          (mod_conn c (setState KDisconnected) s) \<and>
    loop_interest l t = (loop_interest l s)(fd \<mapsto> (False, 0))"
proof -
  let ?ch = "cn_channel (n_conns s c)" and ?b = "mod_conn c (setState KDisconnected) s"
  have b: "reactor_wf ?b" "chan_ok ?ch ?b" "loop_interest l ?b = loop_interest l s"
    using same_reactor_conn[of ?b s] wf ok by simp_all
  obtain t where t: "updateWith clearEvents ?ch ?b = Inr t"
    using updateWith_contract(1)[OF b(1,2) keeps_identity_ops(3)] by blast
  note k = updateWith_contract(2)[OF b(1,2) keeps_identity_ops(3) t]
  obtain i p where p: "t = set_ps l ((r_chans s)(?ch := set_index i (clearEvents (conn_chan c s))), p) ?b"
    using k chan unfolding Let_def by auto
  have "loop_interest l t = (loop_interest l s)(fd \<mapsto> (False, 0))"
    using k b(3) chan some unfolding Let_def by (simp add: watch_after_def) (simp add: clearEvents_def event_masks)
  moreover have "connClose run c s =
      callSet ''closeCallback_'' run (map_option (\<lambda>f. f c) (cn_closeCallback (n_conns s c))) t"
    using t thr st by (simp add: connClose_def assertInLoopThread_def enable_ops assertR_def p)
  ultimately show ?thesis using k p by blast
qed

lemma connectionDestryed_contract:
  assumes wf: "reactor_wf s" and ok: "chan_ok (cn_channel (n_conns s c)) s"
    and chan: "ch_ownerLoop (conn_chan c s) = l" "ch_fd (conn_chan c s) = fd" "isNoneEvent (conn_chan c s)"
      "\<not> ch_isHandling (conn_chan c s)"
    and thr: "cn_loop (n_conns s c) = l" "isInLoopThread l s" and cn: "cn_sockfd (n_conns s c) = fd"
    and st: "cn_state (n_conns s c) = KDisconnected" and some: "loop_interest l s fd = Some (False, 0)"
  shows "\<exists>t. connectionDestryed c s = Inr t \<and> loop_interest l t = (loop_interest l s)(fd := None) \<and>
    dtorConnection E c t = closeSocket E fd t"
proof -
  let ?ch = "cn_channel (n_conns s c)"
  have "loop_interest l s (ch_fd (conn_chan c s)) = Some (False, 0)" using some chan(2) by simp
  from loopRemoveChannel_contract[OF wf ok chan(1)[symmetric] this chan(3) thr(2)] obtain t cs r where
    t: "channelRemove ?ch s = Inr t" "loop_interest l t = (loop_interest l s)(fd := None)" "t = set_ps l (cs, r) s"
      "\<forall>d. cs d = set_index (ch_index (cs d)) (r_chans s d)" using chan(2) by auto
  have "ch_isHandling (cs ?ch) = ch_isHandling (r_chans s ?ch)"
    using t(4) by (metis set_index_def channel.select_convs(6) channel.surjective channel.update_convs(5))
  then have "dtorConnection E c t = closeSocket E fd t"
    using chan(4) cn st by (simp add: dtorConnection_def t(3) dtorChannel_def dtorSocket_def)
  moreover have "connectionDestryed c s = Inr t"
    using t(1) thr st by (simp add: connectionDestryed_def assertInLoopThread_def)
  ultimately show ?thesis using t(2) by blast
qed


text \<open>A new connection is ready for its life.\<close>

lemma newConnection_ready:
  assumes wf: "reactor_wf s" and fd: "0 \<le> fd" "loop_interest l s fd = None" and new: "newConnection E l name la pa fd s = (c, t)"
  shows "reactor_wf t" "c = n_nextConn s" "loop_interest k t = loop_interest k s" "r_tid t = r_tid s" "r_loops t = r_loops s"
    "chan_ok (cn_channel (n_conns t c)) t"
    "conn_chan c t = (mkChannel l fd)\<lparr>ch_readCallback := Some (\<lambda>now. TConnRead c now),
       ch_writeCallback := Some (TConnWrite c), ch_closeCallback := Some (TConnClose c)\<rparr>"
    "n_conns t = (n_conns s)(c := \<lparr>cn_loop = l, cn_state = KConnecting, cn_name = name, cn_localAddr = la,
       cn_peerAddr = pa, cn_sockfd = fd, cn_channel = r_nextChan s, cn_inputBuffer = buf_empty E,
       cn_outputBuffer = buf_empty E, cn_connectionCallback = None, cn_messageCallback = None,
       cn_closeCallback = None, cn_writeCompleteCallback = None, cn_highWaterCallback = None\<rparr>)"
    "n_nextConn t = Suc (n_nextConn s)" "r_trace t = r_trace s"
proof -
  let ?s0 = "s\<lparr>n_nextConn := Suc (n_nextConn s)\<rparr>"
  have wf0: "reactor_wf ?s0" "loop_interest k ?s0 = loop_interest k s" for k
    using same_reactor_conn[of ?s0 s] wf by simp_all
  obtain ch s1 where n: "newChannel l fd ?s0 = (ch, s1)" by (cases "newChannel l fd ?s0")
  note nc = newChannel_contract[OF wf0(1) n]
  have s1: "n_conns s1 = n_conns s" "n_nextConn s1 = Suc (n_nextConn s)" "r_trace s1 = r_trace s" "r_tid s1 = r_tid s"
    using n by (auto simp: newChannel_def Let_def)
  let ?cn = "\<lparr>cn_loop = l, cn_state = KConnecting, cn_name = name, cn_localAddr = la,
       cn_peerAddr = pa, cn_sockfd = fd, cn_channel = ch, cn_inputBuffer = buf_empty E,
       cn_outputBuffer = buf_empty E, cn_connectionCallback = None, cn_messageCallback = None,
       cn_closeCallback = None, cn_writeCompleteCallback = None, cn_highWaterCallback = None\<rparr>"
  let ?c = "n_nextConn s"
  have t: "c = ?c" "t = mod_chan ch (setCloseCallback (TConnClose ?c)) (mod_chan ch (setWriteCallback (TConnWrite ?c))
      (mod_chan ch (setReadCallback (\<lambda>now. TConnRead ?c now)) (mod_conn ?c (\<lambda>_. ?cn) s1)))"
    using new n by (auto simp: newConnection_def Let_def)
  let ?u = "mod_conn ?c (\<lambda>_. ?cn) s1"
  have u: "reactor_wf ?u" "chan_ok d ?u = chan_ok d s1" "loop_interest k ?u = loop_interest k s1" for d k
    using same_reactor_conn[of ?u s1] nc(1) by simp_all
  show "reactor_wf t" "c = ?c" "loop_interest k t = loop_interest k s"
    using t u nc(3) wf0 by (simp_all add: mod_chan_identity)
  show "chan_ok (cn_channel (n_conns t c)) t"
    using t nc(8)[OF fd(1)] fd(2) wf0(2) u(2) by (simp add: mod_chan_identity)
  show "conn_chan c t = (mkChannel l fd)\<lparr>ch_readCallback := Some (\<lambda>now. TConnRead c now),
       ch_writeCallback := Some (TConnWrite c), ch_closeCallback := Some (TConnClose c)\<rparr>"
    using t nc(5) by (simp add: setCloseCallback_def setWriteCallback_def setReadCallback_def)
  show "r_tid t = r_tid s" "r_loops t = r_loops s" "n_nextConn t = Suc (n_nextConn s)" "r_trace t = r_trace s"
    "n_conns t = (n_conns s)(c := \<lparr>cn_loop = l, cn_state = KConnecting, cn_name = name, cn_localAddr = la,
       cn_peerAddr = pa, cn_sockfd = fd, cn_channel = r_nextChan s, cn_inputBuffer = buf_empty E,
       cn_outputBuffer = buf_empty E, cn_connectionCallback = None, cn_messageCallback = None,
       cn_closeCallback = None, cn_writeCompleteCallback = None, cn_highWaterCallback = None\<rparr>)"
    using t s1 nc(2,6) by simp_all
qed


section \<open>Orders of events the connection does not survive\<close>

text \<open>
  A message that another thread sent while the connection was up, and that reaches the loop
  only after \<open>handleClose\<close>, kills the process: \<open>sendInLoop\<close> does not look at the state, so when the
  kernel does not take all of it, it enables writing on the closed channel again, and
  \<open>connectionDestryed\<close> then fails the assertion of \<open>Channel::remove\<close>.
\<close>

theorem late_send_aborts:
  assumes "buffer_laws E" and "write_law E (cn_sockfd (n_conns s c))" and "conn_live E c s"
    and "isInLoopThread (cn_loop (n_conns s c)) s" and "cn_state (n_conns s c) = KDisconnected"
    and "buf_peek E (cn_outputBuffer (n_conns s c)) = []"
    and "write_of E (r_trace s) (cn_sockfd (n_conns s c)) m < int (length m)"
  shows "\<exists>t. sendInLoop E c m s = Inr t \<and>
    connectionDestryed c t = Inl (AssertFailed ''Channel::remove: isNoneEvent()'')"
proof -
  let ?fd = "cn_sockfd (n_conns s c)" and ?w = "write_of E (r_trace s) (cn_sockfd (n_conns s c)) m"
  from sendInLoop_step[OF assms(1-4), of m ?fd] obtain t where
    t: "sendInLoop E c m s = Inr t" "conn_live E c t" "conn_same c s t" "stream E c t = stream E c s @ m" by blast
  have rb: "buf_readableBytes E b = length (buf_peek E b)" for b using assms(1) by (simp add: buffer_laws_def)
  have ap: "buf_peek E (buf_append E b x) = buf_peek E b @ x" for b x using assms(1) by (simp add: buffer_laws_def)
  have nw: "\<not> isWriting (conn_chan c s)" using assms(3,6) by (simp add: conn_live_def)
  have w0: "0 \<le> ?w" using assms(2) by (simp add: write_law_def)
  let ?u = "mod_conn c (\<lambda>cn. cn\<lparr>cn_outputBuffer := buf_append E (cn_outputBuffer cn) (drop (nat ?w) m)\<rparr>)
      (emit (SysWrite ?fd m ?w) s)"
  have "enableWrite (cn_channel (n_conns s c)) ?u = Inr t"
    using t(1) nw assms(4,6,7) w0 by (simp add: sendInLoop_def assertInLoopThread_def sysWrite_def Let_def rb)
  then have "n_conns t = n_conns ?u" by (rule enable_conns(2))
  then have "buf_peek E (cn_outputBuffer (n_conns t c)) \<noteq> []"
    using assms(6,7) w0 by (simp add: ap not_le nat_less_iff)
  then have "isWriting (conn_chan c t)" using t(2) by (simp add: conn_live_def)
  then have "\<not> isNoneEvent (conn_chan c t)" using isNoneEvent_not_writing by blast
  then have "connectionDestryed c t = Inl (AssertFailed ''Channel::remove: isNoneEvent()'')"
    using conn_same_sel[OF t(3)] assms(4,5)
    by (simp add: connectionDestryed_def assertInLoopThread_def channelRemove_def)
  with t(1) show ?thesis by blast
qed

theorem late_send_aborts_witness:
  "\<exists>t. sendInLoop slowEnv 0 ''hello'' (mod_conn 0 (setState KDisconnected) sampleConns) = Inr t \<and>
    connectionDestryed 0 t = Inl (AssertFailed ''Channel::remove: isNoneEvent()'')"
proof (rule late_send_aborts[OF slow_laws])
  let ?s = "mod_conn 0 (setState KDisconnected) sampleConns"
  show "conn_live slowEnv 0 ?s"
    using sampleConns_open[of 0] same_reactor_conn[of ?s sampleConns] by (simp add: conn_open_def conn_live_def)
  show "isInLoopThread (cn_loop (n_conns ?s 0)) ?s"
    using sampleConns_open[of 0] by (simp add: conn_open_def isInLoopThread_def)
  show "cn_state (n_conns ?s 0) = KDisconnected" by simp
  show "buf_peek slowEnv (cn_outputBuffer (n_conns ?s 0)) = []"
    by (simp add: sampleConns_sel sampleConn_def) (simp add: slowEnv_def sampleEnv_def)
  show "write_of slowEnv (r_trace ?s) (cn_sockfd (n_conns ?s 0)) ''hello'' < int (length ''hello'')"
    by (simp add: slowEnv_def)
qed

text \<open>An idle connection writes first.\<close>

lemma sendInLoop_writes:
  assumes bl: "buffer_laws E" and t: "sendInLoop E c m s = Inr t"
    and idle: "\<not> isWriting (conn_chan c s)" "buf_peek E (cn_outputBuffer (n_conns s c)) = []"
  shows "\<exists>x tl. r_trace t = r_trace s @ SysWrite (cn_sockfd (n_conns s c)) m x # tl"
proof -
  define w where "w = write_of E (r_trace s) (cn_sockfd (n_conns s c)) m"
  let ?e = "emit (SysWrite (cn_sockfd (n_conns s c)) m w) s"
  have rb: "buf_readableBytes E b = length (buf_peek E b)" for b using bl by (simp add: buffer_laws_def)
  have en: "r_trace v = r_trace u" if "enableWrite ch u = Inr v" for ch u and v :: "('a, 'b) conns"
    using that by (auto simp: enableWrite_def channelUpdate_def loopUpdateChannel_def result_simps)
  from t have "(if w < int (length m) then enableWrite (cn_channel (n_conns s c))
        (mod_conn c (\<lambda>cn. cn\<lparr>cn_outputBuffer := buf_append E (cn_outputBuffer cn) (drop (nat w) m)\<rparr>) ?e) = Inr t
       else t = queueWriteComplete E c ?e)"
    using idle by (simp add: sendInLoop_def assertInLoopThread_def sysWrite_def Let_def rb w_def[symmetric]
        result_simps split: if_splits)
  then show ?thesis
    using queueInLoop_trace[of E "cn_loop (n_conns s c)" "TWriteComplete c" ?e]
    by (auto simp: queueWriteComplete_def dest: en split: if_splits)
qed

text \<open>
  A message accepted before \<open>shutdown()\<close> can be written after the end was sent: when another
  thread sends, and the loop's thread shuts the idle connection down before it runs the queued
  functor, the end goes out first and the message is written to the half-closed socket.
\<close>

theorem queued_send_after_fin:
  assumes "buffer_laws E" and "write_law E (cn_sockfd (n_conns s c))" and "conn_open E c s"
    and "cn_state (n_conns s c) = KConnected" and "buf_peek E (cn_outputBuffer (n_conns s c)) = []"
    and "cn_loop (n_conns s c) = l" and "el_funcQueue (r_loops s l) = []" and "u \<noteq> el_threadId (r_loops s l)"
    and "run (TShutdownInLoop c) = shutdownInLoop E c" and "run (TSendInLoop c m) = sendInLoop E c m"
  shows "\<exists>s1 s2 s3. send E run c m (s\<lparr>r_tid := u\<rparr>) = Inr s1 \<and>
    shutdown E run c (s1\<lparr>r_tid := r_tid s\<rparr>) = Inr s2 \<and> executeQueueFunctions run l s2 = Inr s3 \<and>
    \<not> fin_last (cn_sockfd (n_conns s c)) (r_trace s3)"
proof -
  let ?fd = "cn_sockfd (n_conns s c)"
  have live: "conn_live E c s" and thr: "isInLoopThread l s" using assms(3,6) by (simp_all add: conn_open_def)
  have nw: "\<not> isWriting (conn_chan c s)" using live assms(5) by (simp add: conn_live_def)
  have rb: "buf_readableBytes E b = length (buf_peek E b)" for b using assms(1) by (simp add: buffer_laws_def)
  let ?s1 = "queueInLoop E l (TSendInLoop c m) (s\<lparr>r_tid := u\<rparr>)"
  have s1: "send E run c m (s\<lparr>r_tid := u\<rparr>) = Inr ?s1"
    using assms(4,6,8) by (simp add: send_def runInLoop_def isInLoopThread_def)
  let ?v = "mod_conn c (setState KDisconnecting) (?s1\<lparr>r_tid := r_tid s\<rparr>)"
  have thrv: "isInLoopThread l ?v" using thr by (simp add: isInLoopThread_def)
  let ?s2 = "shutdownWrite E ?fd ?v"
  have s2: "shutdown E run c (?s1\<lparr>r_tid := r_tid s\<rparr>) = Inr ?s2"
    using assms(4,6,9) thrv nw
    by (simp add: shutdown_def runInLoop_def shutdownInLoop_def assertInLoopThread_def isInLoopThread_def)
  have q: "el_funcQueue (r_loops ?s2 l) = [TSendInLoop c m]"
    using assms(7) by (simp add: shutdownWrite_def)
  let ?s2' = "mod_loop l (\<lambda>el. el\<lparr>el_funcQueue := []\<rparr>) (mod_loop l (\<lambda>el. el\<lparr>el_isExecuteQueueFunc := True\<rparr>) ?s2)"
  have same: "reactor_wf ?s2' = reactor_wf s" "chan_ok ch ?s2' = chan_ok ch s" for ch
    using same_reactor_conn[of ?s2' s] by (simp_all add: shutdownWrite_def)
  have live2: "conn_live E c ?s2'" using live same by (simp add: conn_live_def shutdownWrite_def)
  have thr2: "isInLoopThread (cn_loop (n_conns ?s2' c)) ?s2'"
    using thr assms(6) by (simp add: isInLoopThread_def shutdownWrite_def)
  have wl2: "write_law E (cn_sockfd (n_conns ?s2' c))" using assms(2) by (simp add: shutdownWrite_def)
  obtain t where t: "sendInLoop E c m ?s2' = Inr t"
    using sendInLoop_step[OF assms(1) wl2 live2 thr2] by blast
  \<comment> \<open>the write comes after the end\<close>
  define tr where "tr = r_trace ?s2'"
  have tr: "tr = r_trace ?s1 @ [SysShutdownWr ?fd (shutdown_of E (r_trace ?s1) ?fd)]"
    by (simp add: tr_def shutdownWrite_def)
  have cn2: "n_conns ?s2' c = setState KDisconnecting (n_conns s c)" "conn_chan c ?s2' = conn_chan c s"
    by (simp_all add: shutdownWrite_def)
  have "\<exists>x tl. r_trace t = tr @ SysWrite ?fd m x # tl"
    using sendInLoop_writes[OF assms(1) t(1)] nw assms(5) cn2 by (simp add: tr_def)
  then obtain x tl where tt: "r_trace t = tr @ SysWrite ?fd m x # tl" by blast
  have nf: "\<not> fin_last ?fd (xs @ SysShutdownWr ?fd y # ys @ SysWrite ?fd m x # zs)" for xs y ys zs
    by (induction xs) auto
  have "\<not> fin_last ?fd (r_trace t)" unfolding tt tr using nf[of _ _ "[]"] by simp
  moreover have "executeQueueFunctions run l ?s2 = Inr (mod_loop l (\<lambda>el. el\<lparr>el_isExecuteQueueFunc := False\<rparr>) t)"
    using t q assms(10) by (simp add: executeQueueFunctions_def Let_def)
  ultimately show ?thesis using s1 s2 by fastforce
qed

theorem queued_send_after_fin_witness:
  "\<exists>run s1 s2 s3. send slowEnv run 0 ''hi'' (sampleConns\<lparr>r_tid := 2\<rparr>) = Inr s1 \<and>
    shutdown slowEnv run 0 (s1\<lparr>r_tid := 1\<rparr>) = Inr s2 \<and> executeQueueFunctions run 0 s2 = Inr s3 \<and>
    \<not> fin_last 5 (r_trace s3)"
proof -
  let ?run = "\<lambda>t. case t of TShutdownInLoop c \<Rightarrow> shutdownInLoop slowEnv c | TSendInLoop c m \<Rightarrow> sendInLoop slowEnv c m
    | _ \<Rightarrow> Inr"
  have q: "el_funcQueue (r_loops sampleConns 0) = []" "(2 :: nat) \<noteq> el_threadId (r_loops sampleConns 0)"
    by (simp_all add: sampleConns_sel) (simp_all add: sampleReading_def)
  have c: "cn_state (n_conns sampleConns 0) = KConnected" "cn_loop (n_conns sampleConns 0) = 0"
    "cn_sockfd (n_conns sampleConns 0) = 5" "r_tid sampleConns = 1"
    by (simp_all add: sampleConns_sel sampleConn_def)
  have e: "buf_peek slowEnv (cn_outputBuffer (n_conns sampleConns 0)) = []"
    by (simp add: sampleConns_sel sampleConn_def) (simp add: slowEnv_def sampleEnv_def)
  have "\<exists>s1 s2 s3. send slowEnv ?run 0 ''hi'' (sampleConns\<lparr>r_tid := 2\<rparr>) = Inr s1 \<and>
    shutdown slowEnv ?run 0 (s1\<lparr>r_tid := r_tid sampleConns\<rparr>) = Inr s2 \<and> executeQueueFunctions ?run 0 s2 = Inr s3 \<and>
    \<not> fin_last (cn_sockfd (n_conns sampleConns 0)) (r_trace s3)"
    by (rule queued_send_after_fin[OF slow_laws sampleConns_open c(1) e c(2) q]) simp_all
  then show ?thesis unfolding c(3,4) by blast
qed

end
