(* ===== verification/Decimal.thy ===== *)
theory Decimal
  imports Prelude
begin

text \<open>
  Decimal numerals as \<open>std::to_string\<close> and \<open>printf\<close> write them, which the pool and the server use
  to make names.  Different numbers have different numerals.
\<close>

definition digit :: "nat \<Rightarrow> char" where
  "digit n = char_of (48 + n)"

fun digits :: "nat \<Rightarrow> string" where
  "digits n = (if n < 10 then [digit n] else digits (n div 10) @ [digit (n mod 10)])"

declare digits.simps [simp del]

definition to_string :: "int \<Rightarrow> string" where
  "to_string i = (if i < 0 then CHR ''-'' # digits (nat (- i)) else digits (nat i))"

text \<open>The value of a numeral.\<close>

definition undigit :: "char \<Rightarrow> nat" where
  "undigit c = of_char c - 48"

definition undigits :: "string \<Rightarrow> nat" where
  "undigits ds = foldl (\<lambda>n d. 10 * n + undigit d) 0 ds"

lemma undigit_digit [simp]: "n < 10 \<Longrightarrow> undigit (digit n) = n"
  by (simp add: undigit_def digit_def)

lemma undigits_digits [simp]: "undigits (digits n) = n"
proof (induction n rule: digits.induct)
  case (1 n)
  show ?case
  proof (cases "n < 10")
    case True
    then show ?thesis by (simp add: digits.simps[of n] undigits_def)
  next
    case False
    with 1 have "undigits (digits (n div 10)) = n div 10" by simp
    then have "undigits (digits (n div 10) @ [digit (n mod 10)]) = 10 * (n div 10) + n mod 10"
      by (simp add: undigits_def)
    with False show ?thesis by (simp add: digits.simps[of n])
  qed
qed

lemma digits_inj: "digits m = digits n \<longleftrightarrow> m = n"
  by (metis undigits_digits)

lemma digits_not_minus: "digits n \<noteq> [] \<and> hd (digits n) \<noteq> CHR ''-''"
proof (induction n rule: digits.induct)
  case (1 n)
  have d: "digit k \<noteq> CHR ''-''" if "k < 10" for k
  proof
    assume "digit k = CHR ''-''"
    then have "(of_char (digit k) :: nat) = of_char (CHR ''-'')" by simp
    then show False using that by (simp add: digit_def)
  qed
  show ?case
    by (cases "n < 10") (use 1 d in \<open>auto simp: digits.simps[of n]\<close>)
qed

lemma to_string_inj: "to_string i = to_string j \<longleftrightarrow> i = j"
proof
  assume e: "to_string i = to_string j"
  have h: "(hd (to_string k) = CHR ''-'') \<longleftrightarrow> k < 0" for k
    using digits_not_minus by (simp add: to_string_def)
  then have "(i < 0) \<longleftrightarrow> (j < 0)" using e by metis
  then show "i = j" using e by (auto simp: to_string_def digits_inj split: if_splits)
qed simp

end
