(* ===== verification/ThreadPool.thy ===== *)
theory ThreadPool
  imports TcpConnection Decimal "HOL-Library.Multiset"
begin

text \<open>
  \<open>EventLoopThread\<close> and \<open>EventLoopThreadPool\<close>: a thread that runs its own event loop, the handshake
  by which \<open>startLoop\<close> learns of that loop, and the pool that hands its loops out in turn.
\<close>

section \<open>A thread with a loop\<close>

record loopthread =
  lt_name :: string
  lt_initCallback :: "(loop_id \<Rightarrow> task) option"
  lt_loop :: "loop_id option"

definition mkLoopThread :: "(loop_id \<Rightarrow> task) option \<Rightarrow> string \<Rightarrow> loopthread" where
  "mkLoopThread cb name = \<lparr>lt_name = name, lt_initCallback = cb, lt_loop = None\<rparr>"

text \<open>
  \<open>threadFunc\<close> up to the point where it enters \<open>loop()\<close>, as the new thread runs it: it makes the
  loop, calls the initial callback and publishes the loop.
\<close>

definition threadFunc ::
  "'b env \<Rightarrow> 'z runner \<Rightarrow> loopthread \<Rightarrow> 'z reactor_scheme \<Rightarrow> (loopthread \<times> 'z reactor_scheme) result" where
  "threadFunc E run th s =
     bindR (newEventLoop E s) (\<lambda>(l, s).
     bindR (case lt_initCallback th of Some cb \<Rightarrow> run (cb l) s | None \<Rightarrow> Inr s) (\<lambda>s.
     Inr (th\<lparr>lt_loop := Some l\<rparr>, s)))"

text \<open>
  \<open>startLoop\<close>: the new thread runs up to the publication while the caller waits, and the caller
  returns the loop it finds.
\<close>

definition startLoop ::
  "'b env \<Rightarrow> 'z runner \<Rightarrow> loopthread \<Rightarrow> 'z reactor_scheme \<Rightarrow> (loop_id option \<times> loopthread \<times> 'z reactor_scheme) result" where
  "startLoop E run th s =
     (let caller = r_tid s; tid = thread_of E (r_trace s); s = (emit (SysThread tid) s)\<lparr>r_tid := tid\<rparr> in
      bindR (threadFunc E run th s) (\<lambda>(th, s). Inr (lt_loop th, th, s\<lparr>r_tid := caller\<rparr>)))"

section \<open>The handshake\<close>

text \<open>
  The two threads step by step: who holds \<open>mutex_\<close>, what \<open>loop_\<close> is, and where each thread is.
  A wait gives the mutex up and may end without a notification.
\<close>

datatype io_pc = IoMaking | IoReady | IoLocked | IoPublished | IoLooping
datatype main_pc = MainBefore | MainChecking | MainWaiting | MainAwake | MainDone "loop_id option"

record handshake =
  hs_io :: io_pc
  hs_main :: main_pc
  hs_locked :: bool
  hs_loop :: "loop_id option"

inductive hs_step :: "loop_id \<Rightarrow> handshake \<Rightarrow> handshake \<Rightarrow> bool" for l :: loop_id where
  made: "hs_io h = IoMaking \<Longrightarrow> hs_step l h (h\<lparr>hs_io := IoReady\<rparr>)"
| io_lock: "hs_io h = IoReady \<Longrightarrow> \<not> hs_locked h \<Longrightarrow> hs_step l h (h\<lparr>hs_io := IoLocked, hs_locked := True\<rparr>)"
| publish: "hs_io h = IoLocked \<Longrightarrow>
    hs_step l h (h\<lparr>hs_io := IoPublished, hs_loop := Some l, hs_locked := False\<rparr>)"
| notify: "hs_io h = IoPublished \<Longrightarrow>
    hs_step l h (h\<lparr>hs_io := IoLooping, hs_main := (if hs_main h = MainWaiting then MainAwake else hs_main h)\<rparr>)"
| main_lock: "hs_main h = MainBefore \<or> hs_main h = MainAwake \<Longrightarrow> \<not> hs_locked h \<Longrightarrow>
    hs_step l h (h\<lparr>hs_main := MainChecking, hs_locked := True\<rparr>)"
| found: "hs_main h = MainChecking \<Longrightarrow> hs_loop h \<noteq> None \<Longrightarrow>
    hs_step l h (h\<lparr>hs_main := MainDone (hs_loop h), hs_locked := False\<rparr>)"
| wait: "hs_main h = MainChecking \<Longrightarrow> hs_loop h = None \<Longrightarrow>
    hs_step l h (h\<lparr>hs_main := MainWaiting, hs_locked := False\<rparr>)"

text \<open>A wait that ends by itself.\<close>

inductive hs_spurious :: "handshake \<Rightarrow> handshake \<Rightarrow> bool" where
  "hs_main h = MainWaiting \<Longrightarrow> hs_spurious h (h\<lparr>hs_main := MainAwake\<rparr>)"

definition hs_start :: handshake where
  "hs_start = \<lparr>hs_io = IoMaking, hs_main = MainBefore, hs_locked = False, hs_loop = None\<rparr>"

inductive_simps hs_spurious_iff: "hs_spurious h h'"

text \<open>
  The invariant: the lock is held by exactly the thread that is inside; the loop is published
  exactly from then on; a caller that waits will still be notified; one that is done has the loop.
\<close>

definition hs_inv :: "loop_id \<Rightarrow> handshake \<Rightarrow> bool" where
  "hs_inv l h \<longleftrightarrow>
     (hs_locked h \<longleftrightarrow> (hs_io h = IoLocked) \<noteq> (hs_main h = MainChecking)) \<and>
     \<not> (hs_io h = IoLocked \<and> hs_main h = MainChecking) \<and>
     hs_loop h = (if hs_io h = IoPublished \<or> hs_io h = IoLooping then Some l else None) \<and>
     (hs_main h = MainWaiting \<longrightarrow> hs_io h \<noteq> IoLooping) \<and>
     (\<forall>x. hs_main h = MainDone x \<longrightarrow> x = Some l)"

lemma hs_inv_step: "hs_step l h h' \<Longrightarrow> hs_inv l h \<Longrightarrow> hs_inv l h'"
  by (induction rule: hs_step.induct) (auto simp: hs_inv_def split: if_splits)

lemma hs_inv_spurious: "hs_spurious h h' \<Longrightarrow> hs_inv l h \<Longrightarrow> hs_inv l h'"
  by (auto simp: hs_spurious_iff hs_inv_def)

lemma hs_inv_start: "hs_inv l hs_start"
  by (simp add: hs_inv_def hs_start_def)

lemma hs_reachable_inv: "(\<lambda>h h'. hs_step l h h' \<or> hs_spurious h h')\<^sup>*\<^sup>* hs_start h \<Longrightarrow> hs_inv l h"
  by (induction rule: rtranclp_induct) (auto intro: hs_inv_start dest: hs_inv_step hs_inv_spurious)

text \<open>Every step but a spurious wakeup brings the end nearer.\<close>

fun io_left :: "io_pc \<Rightarrow> nat" where
  "io_left IoMaking = 4"
| "io_left IoReady = 3"
| "io_left IoLocked = 2"
| "io_left IoPublished = 1"
| "io_left IoLooping = 0"

fun main_left :: "main_pc \<Rightarrow> nat" where
  "main_left MainBefore = 3"
| "main_left MainAwake = 3"
| "main_left MainChecking = 2"
| "main_left MainWaiting = 1"
| "main_left (MainDone x) = 0"

definition hs_left :: "handshake \<Rightarrow> nat" where
  "hs_left h = 4 * io_left (hs_io h) + main_left (hs_main h)"

lemma hs_left_step: "hs_step l h h' \<Longrightarrow> hs_left h' < hs_left h"
  by (induction rule: hs_step.induct) (auto simp: hs_left_def)

lemma hs_progress:
  assumes "hs_inv l h" and "\<forall>x. hs_main h \<noteq> MainDone x"
  shows "\<exists>h'. hs_step l h h'"
proof (cases "hs_io h")
  case IoMaking
  then show ?thesis using hs_step.made by blast
next
  case IoReady
  then show ?thesis
  proof (cases "hs_locked h")
    case True
    with assms(1) IoReady have "hs_main h = MainChecking" by (auto simp: hs_inv_def)
    then show ?thesis using hs_step.found hs_step.wait by blast
  qed (use IoReady hs_step.io_lock in blast)
next
  case IoLocked
  then show ?thesis using hs_step.publish by blast
next
  case IoPublished
  then show ?thesis using hs_step.notify by blast
next
  case IoLooping
  then have l: "hs_locked h \<longleftrightarrow> hs_main h = MainChecking" "hs_loop h = Some l" "hs_main h \<noteq> MainWaiting"
    using assms(1) by (auto simp: hs_inv_def)
  show ?thesis
  proof (cases "hs_main h")
    case MainChecking
    with l show ?thesis using hs_step.found[of h l] by blast
  next
    case MainBefore
    with l have "\<not> hs_locked h" by simp
    with MainBefore show ?thesis using hs_step.main_lock[of h l] by blast
  next
    case MainAwake
    with l have "\<not> hs_locked h" by simp
    with MainAwake show ?thesis using hs_step.main_lock[of h l] by blast
  qed (use l(3) assms(2) in simp_all)
qed

section \<open>The pool\<close>

record pool =
  tp_baseLoop :: loop_id
  tp_name :: string
  tp_threads :: "loopthread list"
  tp_loops :: "loop_id option list"
  tp_numThreads :: int
  tp_nextIndex :: int
  tp_started :: bool

definition mkPool :: "loop_id \<Rightarrow> string \<Rightarrow> pool" where
  "mkPool baseLoop name =
     \<lparr>tp_baseLoop = baseLoop, tp_name = name, tp_threads = [], tp_loops = [], tp_numThreads = 0,
      tp_nextIndex = 0, tp_started = False\<rparr>"

definition setThreadNums :: "int \<Rightarrow> pool \<Rightarrow> pool result" where
  "setThreadNums num p =
     bindR (assertR ''num >= 0'' (num \<ge> 0) p) (\<lambda>p. Inr (p\<lparr>tp_numThreads := num\<rparr>))"

definition getNextLoop :: "pool \<Rightarrow> 'z reactor_scheme \<Rightarrow> (loop_id option \<times> pool) result" where
  "getNextLoop p s =
     bindR (assertR ''getNextLoop: started'' (tp_started p) p) (\<lambda>p.
     bindR (assertInLoopThread (tp_baseLoop p) s) (\<lambda>_.
     if tp_numThreads p = 0 then Inr (Some (tp_baseLoop p), p)
     else if \<not> (0 \<le> tp_nextIndex p \<and> nat (tp_nextIndex p) < length (tp_loops p))
     then Inl (OutOfBounds ''getNextLoop: loops_[nextIndex_]'')
     else Inr (tp_loops p ! nat (tp_nextIndex p),
               p\<lparr>tp_nextIndex := (tp_nextIndex p + 1) mod int (length (tp_loops p))\<rparr>)))"

text \<open>One round of the loop in \<open>start\<close>.\<close>

definition startThread ::
  "'b env \<Rightarrow> 'z runner \<Rightarrow> (loop_id \<Rightarrow> task) option \<Rightarrow> nat \<Rightarrow> pool \<times> 'z reactor_scheme \<Rightarrow> (pool \<times> 'z reactor_scheme) result" where
  "startThread E run cb i ps =
     (let (p, s) = ps; threadName = tp_name p @ to_string (int i) in
      bindR (startLoop E run (mkLoopThread cb threadName) s) (\<lambda>(l, th, s).
      Inr (p\<lparr>tp_threads := tp_threads p @ [th], tp_loops := tp_loops p @ [l]\<rparr>, s)))"

definition poolStart ::
  "'b env \<Rightarrow> 'z runner \<Rightarrow> (loop_id \<Rightarrow> task) option \<Rightarrow> pool \<Rightarrow> 'z reactor_scheme \<Rightarrow> (pool \<times> 'z reactor_scheme) result" where
  "poolStart E run cb p s =
     bindR (assertR ''start: !started'' (\<not> tp_started p) p) (\<lambda>p.
     bindR (assertInLoopThread (tp_baseLoop p) s) (\<lambda>s.
     bindR (foldR (startThread E run cb) [0..<nat (tp_numThreads p)] (p\<lparr>tp_started := True\<rparr>, s)) (\<lambda>(p, s).
     case cb of
       Some f \<Rightarrow> if tp_numThreads p = 0 then bindR (run (f (tp_baseLoop p)) s) (\<lambda>s. Inr (p, s)) else Inr (p, s)
     | None \<Rightarrow> Inr (p, s))))"

section \<open>Fairness of the pool\<close>

text \<open>\<open>k\<close> calls of \<open>getNextLoop\<close> in a row.\<close>

fun nextLoops :: "nat \<Rightarrow> pool \<Rightarrow> 'z reactor_scheme \<Rightarrow> (loop_id option list \<times> pool) result" where
  "nextLoops 0 p s = Inr ([], p)"
| "nextLoops (Suc k) p s =
     bindR (getNextLoop p s) (\<lambda>(l, p). bindR (nextLoops k p s) (\<lambda>(ls, p). Inr (l # ls, p)))"

text \<open>A started pool with one loop for each of its threads, asked from the base loop's thread.\<close>

definition pool_ready :: "pool \<Rightarrow> 'z reactor_scheme \<Rightarrow> bool" where
  "pool_ready p s \<longleftrightarrow> tp_started p \<and> isInLoopThread (tp_baseLoop p) s \<and> tp_loops p \<noteq> [] \<and>
     tp_numThreads p = int (length (tp_loops p)) \<and> 0 \<le> tp_nextIndex p \<and>
     tp_nextIndex p < int (length (tp_loops p))"

lemma getNextLoop_ready:
  assumes "pool_ready p s"
  shows "getNextLoop p s = Inr (tp_loops p ! nat (tp_nextIndex p),
      p\<lparr>tp_nextIndex := (tp_nextIndex p + 1) mod int (length (tp_loops p))\<rparr>)"
    and "pool_ready (p\<lparr>tp_nextIndex := i mod int (length (tp_loops p))\<rparr>) s"
  using assms by (auto simp: pool_ready_def getNextLoop_def assertInLoopThread_def)

lemma nextLoops_ready:
  "pool_ready p s \<Longrightarrow> nextLoops k p s =
     Inr (map (\<lambda>i. tp_loops p ! ((nat (tp_nextIndex p) + i) mod length (tp_loops p))) [0..<k],
          p\<lparr>tp_nextIndex := (tp_nextIndex p + int k) mod int (length (tp_loops p))\<rparr>)"
proof (induction k arbitrary: p)
  case 0
  then show ?case by (simp add: pool_ready_def)
next
  case (Suc k)
  let ?n = "length (tp_loops p)" and ?i = "nat (tp_nextIndex p)"
  let ?p = "p\<lparr>tp_nextIndex := (tp_nextIndex p + 1) mod int ?n\<rparr>"
  note g = getNextLoop_ready[OF Suc.prems]
  have r: "0 \<le> tp_nextIndex p" "?i < ?n" using Suc.prems by (auto simp: pool_ready_def)
  have i: "nat (tp_nextIndex ?p) = (?i + 1) mod ?n"
    using r(1) by (simp add: nat_mod_distrib nat_add_distrib)
  have "map (\<lambda>j. tp_loops p ! ((?i + j) mod ?n)) [0..<Suc k] =
      tp_loops p ! ?i # map (\<lambda>j. tp_loops p ! (((?i + 1) mod ?n + j) mod ?n)) [0..<k]"
    using r(2) by (simp add: map_upt_Suc mod_add_left_eq del: upt_Suc)
  moreover have "((tp_nextIndex p + 1) mod int ?n + int k) mod int ?n = (tp_nextIndex p + int (Suc k)) mod int ?n"
    by (simp add: mod_add_left_eq mod_add_right_eq ac_simps)
  ultimately show ?case using Suc.IH[OF g(2), of "tp_nextIndex p + 1"] i by (simp add: g(1) del: upt_Suc)
qed

text \<open>A full turn from any position meets every position once.\<close>

lemma turn_inj:
  assumes "j \<le> i" "i < n" "(c + i) mod n = (c + j) mod n"
  shows "i = (j :: nat)"
proof (rule ccontr)
  assume "i \<noteq> j"
  have "n dvd (c + i) - (c + j)" using assms by (intro mod_eq_dvd_iff_nat[THEN iffD1]) auto
  then show False using assms \<open>i \<noteq> j\<close> by (auto dest: dvd_imp_le)
qed

lemma turn_mset:
  fixes c n :: nat
  shows "mset (map (\<lambda>i. (c + i) mod n) [0..<n]) = mset [0..<n]"
proof -
  let ?f = "\<lambda>i. (c + i) mod n"
  have inj: "inj_on ?f {0..<n}"
    by (rule inj_onI) (metis turn_inj atLeastLessThan_iff nat_le_linear)
  have "?f ` {0..<n} \<subseteq> {0..<n}" by auto
  then have "?f ` {0..<n} = {0..<n}" by (rule card_subset_eq[rotated]) (simp_all add: card_image[OF inj])
  then show ?thesis using inj by (intro set_eq_iff_mset_eq_distinct[THEN iffD1]) (simp_all add: distinct_map)
qed

lemma turns_mset:
  "mset (map (\<lambda>i. xs ! ((c + i) mod length xs)) [0..<m * length xs]) = repeat_mset m (mset xs)"
proof (induction m)
  case 0
  then show ?case by simp
next
  case (Suc m)
  let ?n = "length xs" and ?f = "\<lambda>i. xs ! ((c + i) mod length xs)"
  have "map ?f [m * ?n..<m * ?n + ?n] = map (\<lambda>i. ?f (m * ?n + i)) [0..<?n]"
    by (rule nth_equalityI) simp_all
  also have "\<dots> = map ((!) xs) (map (\<lambda>i. (c + i) mod ?n) [0..<?n])"
    by (simp add: add.left_commute[of c])
  finally have "mset (map ?f [m * ?n..<m * ?n + ?n]) = image_mset ((!) xs) (mset [0..<?n])"
    by (metis mset_map turn_mset)
  also have "\<dots> = mset xs" by (metis map_nth mset_map)
  finally have last: "mset (map ?f [m * ?n..<m * ?n + ?n]) = mset xs" .
  have "[0..<Suc m * ?n] = [0..<m * ?n] @ [m * ?n..<m * ?n + ?n]"
    by (metis add.commute mult_Suc upt_add_eq_append zero_le)
  then show ?case using Suc.IH last by (simp add: ac_simps)
qed

section \<open>Starting the pool\<close>

lemma enableRead_trace: "enableRead c s = Inr t \<Longrightarrow> r_trace t = r_trace s"
  by (auto simp: enableRead_def channelUpdate_def loopUpdateChannel_def result_simps)

lemma newChannel_trace: "r_trace (snd (newChannel l fd s)) = r_trace s"
  by (simp add: newChannel_def Let_def)

lemma newTimerQueue_trace:
  "newTimerQueue E l s = Inr t \<Longrightarrow> r_trace t = r_trace s @ [SysTimerfd (timerfd_of E (r_trace s))]"
  using newChannel_trace[of l "timerfd_of E (r_trace s)" "emit (SysTimerfd (timerfd_of E (r_trace s))) s"]
  by (auto simp: newTimerQueue_def Let_def split: prod.splits dest!: enableRead_trace)

lemma newEventLoop_trace:
  assumes "newEventLoop E s = Inr (l, t)"
  shows "\<exists>a b. r_trace t = r_trace s @ [SysTimerfd a, SysEventfd b]"
proof -
  let ?l = "r_nextLoop s"
  obtain s1 where s1: "newTimerQueue E ?l (mod_loop ?l (\<lambda>_. rawLoop (r_tid s)) (s\<lparr>r_nextLoop := Suc ?l\<rparr>)) = Inr s1"
    using assms by (auto simp: newEventLoop_def Let_def bindR_Inr_iff)
  define fd where "fd = eventfd_of E (r_trace s1)"
  define w where "w = newChannel ?l fd (emit (SysEventfd fd) s1)"
  have w: "r_trace (snd w) = r_trace s1 @ [SysEventfd fd]" by (simp add: w_def newChannel_trace)
  from assms s1 have "r_trace t = r_trace (snd w)"
    by (auto simp: newEventLoop_def Let_def fd_def[symmetric] w_def[symmetric] result_simps
        split: prod.splits if_splits dest!: enableRead_trace)
  with w newTimerQueue_trace[OF s1] show ?thesis by simp
qed

text \<open>
  What the operating system promises of threads and of descriptors: a new thread has an id that no
  thread in \<open>U\<close> and none it started before has, and open descriptors are different numbers.
\<close>

definition threads_fresh :: "'b env \<Rightarrow> thread_id set \<Rightarrow> bool" where
  "threads_fresh E U \<longleftrightarrow> (\<forall>tr. thread_of E tr \<notin> U \<and> SysThread (thread_of E tr) \<notin> set tr)"

definition fds_fresh :: "'b env \<Rightarrow> bool" where
  "fds_fresh E \<longleftrightarrow> (\<forall>tr. 0 \<le> timerfd_of E tr \<and> 0 \<le> eventfd_of E tr \<and>
     eventfd_of E (tr @ [SysTimerfd (timerfd_of E tr)]) \<noteq> timerfd_of E tr)"

text \<open>The state after \<open>i\<close> rounds of \<open>start\<close>.\<close>

definition threadsOf :: "loop_id \<Rightarrow> nat \<Rightarrow> 'z reactor_scheme \<Rightarrow> thread_id list" where
  "threadsOf k i s = map (\<lambda>l. el_threadId (r_loops s l)) [k..<k + i]"

definition pool_rounds :: "pool \<Rightarrow> 'z reactor_scheme \<Rightarrow> nat \<Rightarrow> pool \<times> 'z reactor_scheme \<Rightarrow> bool" where
  "pool_rounds p s i ps \<longleftrightarrow> (case ps of (q, t) \<Rightarrow>
     tp_loops q = map Some [r_nextLoop s..<r_nextLoop s + i] \<and>
     map lt_loop (tp_threads q) = tp_loops q \<and>
     map lt_name (tp_threads q) = map (\<lambda>j. tp_name p @ to_string (int j)) [0..<i] \<and>
     q = p\<lparr>tp_loops := tp_loops q, tp_threads := tp_threads q\<rparr> \<and>
     reactor_wf t \<and> r_tid t = r_tid s \<and> r_nextLoop t = r_nextLoop s + i \<and>
     (\<forall>l < r_nextLoop s. r_loops t l = r_loops s l) \<and>
     distinct (threadsOf (r_nextLoop s) i t) \<and> SysThread ` set (threadsOf (r_nextLoop s) i t) \<subseteq> set (r_trace t) \<and>
     {x. r_loopOfThread t x \<noteq> None} \<subseteq> {x. r_loopOfThread s x \<noteq> None} \<union> set (threadsOf (r_nextLoop s) i t))"

lemma startThread_round:
  assumes fr: "threads_fresh E {x. r_loopOfThread s x \<noteq> None}" and fd: "fds_fresh E"
    and inv: "pool_rounds p s i (q, t)"
  shows "\<exists>r. startThread E run None i (q, t) = Inr r \<and> pool_rounds p s (Suc i) r"
proof -
  let ?k = "r_nextLoop s" and ?tid = "thread_of E (r_trace t)"
  have I: "tp_loops q = map Some [?k..<?k + i]" "map lt_loop (tp_threads q) = tp_loops q"
    "map lt_name (tp_threads q) = map (\<lambda>j. tp_name p @ to_string (int j)) [0..<i]"
    "reactor_wf t" "r_tid t = r_tid s" "r_nextLoop t = ?k + i" "\<forall>l < ?k. r_loops t l = r_loops s l"
    "distinct (threadsOf ?k i t)" "SysThread ` set (threadsOf ?k i t) \<subseteq> set (r_trace t)"
    "{x. r_loopOfThread t x \<noteq> None} \<subseteq> {x. r_loopOfThread s x \<noteq> None} \<union> set (threadsOf ?k i t)"
    and Q: "q = p\<lparr>tp_loops := tp_loops q, tp_threads := tp_threads q\<rparr>"
    using inv[unfolded pool_rounds_def prod.case] by blast+
  let ?t0 = "(emit (SysThread ?tid) t)\<lparr>r_tid := ?tid\<rparr>"
  have wf: "reactor_wf ?t0" using I(4) by (rule reactor_wf_cong) simp_all
  have new: "?tid \<notin> {x. r_loopOfThread s x \<noteq> None}" "SysThread ?tid \<notin> set (r_trace t)"
    using fr by (auto simp: threads_fresh_def)
  then have nt: "?tid \<notin> set (threadsOf ?k i t)" using I(9) by blast
  then have none: "r_loopOfThread ?t0 (r_tid ?t0) = None" using I(10) new(1) by (auto simp: emit_def)
  have f: "0 \<le> timerfd_of E (r_trace ?t0)"
    "0 \<le> eventfd_of E (r_trace ?t0 @ [SysTimerfd (timerfd_of E (r_trace ?t0))])"
    "timerfd_of E (r_trace ?t0) \<noteq> eventfd_of E (r_trace ?t0 @ [SysTimerfd (timerfd_of E (r_trace ?t0))])"
    using fd unfolding fds_fresh_def by metis+
  obtain u el where u: "newEventLoop E ?t0 = Inr (r_nextLoop ?t0, u)" "reactor_wf u"
    "r_loops u = (r_loops ?t0)(r_nextLoop ?t0 := el)" "el_threadId el = r_tid ?t0"
    "r_loopOfThread u = (r_loopOfThread ?t0)(r_tid ?t0 \<mapsto> r_nextLoop ?t0)"
    "r_nextLoop u = Suc (r_nextLoop ?t0)"
    by (insert newEventLoop_contract[where s = ?t0, OF wf refl f(1) refl f(2) f(3) none], elim exE conjE)
      (rule that, assumption+)
  obtain a b where tr: "r_trace u = r_trace ?t0 @ [SysTimerfd a, SysEventfd b]"
    using newEventLoop_trace[OF u(1)] by blast
  note nl = I(6)
  let ?th = "(mkLoopThread None (tp_name q @ to_string (int i)))\<lparr>lt_loop := Some (?k + i)\<rparr>"
  let ?q = "q\<lparr>tp_threads := tp_threads q @ [?th], tp_loops := tp_loops q @ [Some (?k + i)]\<rparr>"
  let ?u = "u\<lparr>r_tid := r_tid t\<rparr>"
  have st: "startThread E run None i (q, t) = Inr (?q, ?u)"
    using u(1) nl by (simp add: startThread_def startLoop_def threadFunc_def Let_def mkLoopThread_def)
  have ths: "threadsOf ?k (Suc i) ?u = threadsOf ?k i t @ [?tid]"
    using u(3,4) nl by (auto simp: threadsOf_def)
  have wfu: "reactor_wf ?u" using u(2) by (rule reactor_wf_cong) simp_all
  have lt: "r_loopOfThread ?u = (r_loopOfThread t)(?tid \<mapsto> ?k + i)" using u(5) nl by (simp add: emit_def)
  have "{x. r_loopOfThread ?u x \<noteq> None} \<subseteq> {x. r_loopOfThread s x \<noteq> None} \<union> set (threadsOf ?k (Suc i) ?u)"
    unfolding ths lt using I(10) by auto
  moreover have "distinct (threadsOf ?k (Suc i) ?u)" unfolding ths using I(8) nt by simp
  moreover have "SysThread ` set (threadsOf ?k (Suc i) ?u) \<subseteq> set (r_trace ?u)"
    unfolding ths using I(9) by (auto simp: tr)
  moreover have "?q = p\<lparr>tp_loops := tp_loops ?q, tp_threads := tp_threads ?q\<rparr>"
    by (subst Q) simp
  moreover have "tp_name q = tp_name p" by (subst Q) simp
  ultimately have "pool_rounds p s (Suc i) (?q, ?u)"
    using I(1-3,5,7) wfu u(3,6) nl by (simp add: pool_rounds_def mkLoopThread_def)
  with st show ?thesis by blast
qed

lemma startThreads_rounds:
  assumes "threads_fresh E {x. r_loopOfThread s x \<noteq> None}" and "fds_fresh E" and "pool_rounds p s 0 r0"
  shows "\<exists>r. foldR (startThread E run None) [0..<n] r0 = Inr r \<and> pool_rounds p s n r"
proof (induction n)
  case 0
  then show ?case using assms(3) by simp
next
  case (Suc n)
  then obtain q t where r: "foldR (startThread E run None) [0..<n] r0 = Inr (q, t)" "pool_rounds p s n (q, t)"
    by auto
  from startThread_round[OF assms(1,2) r(2)] r(1) show ?case by (auto simp: foldR_append)
qed

section \<open>Properties\<close>

text \<open>
  C18: the handshake between \<open>startLoop\<close> and the new thread, however the two threads and the
  spurious wakeups of the condition variable interleave: \<open>startLoop\<close> returns only the loop that
  \<open>threadFunc\<close> made; until it returned, some step is possible, so there is no deadlock and no lost
  notification; every step but a spurious wakeup comes nearer to the end, and the caller can
  always reach it.
\<close>

theorem startLoop_handshake:
  assumes "(\<lambda>h h'. hs_step l h h' \<or> hs_spurious h h')\<^sup>*\<^sup>* hs_start h"
  shows "(\<forall>x. hs_main h = MainDone x \<longrightarrow> x = Some l) \<and>
    ((\<forall>x. hs_main h \<noteq> MainDone x) \<longrightarrow> (\<exists>h'. hs_step l h h')) \<and>
    (\<forall>h'. hs_step l h h' \<longrightarrow> hs_left h' < hs_left h) \<and>
    (\<exists>h'. (hs_step l)\<^sup>*\<^sup>* h h' \<and> hs_main h' = MainDone (Some l))"
proof -
  have inv: "hs_inv l h" by (rule hs_reachable_inv[OF assms])
  have "\<exists>h'. (hs_step l)\<^sup>*\<^sup>* h h' \<and> hs_main h' = MainDone (Some l)" using inv
  proof (induction "hs_left h" arbitrary: h rule: less_induct)
    case less
    show ?case
    proof (cases "\<exists>x. hs_main h = MainDone x")
      case True
      with less.prems show ?thesis by (auto simp: hs_inv_def)
    next
      case False
      then obtain g where g: "hs_step l h g" using hs_progress[OF less.prems] by blast
      with less hs_left_step[OF g] hs_inv_step[OF g] show ?thesis
        by (meson converse_rtranclp_into_rtranclp)
    qed
  qed
  with inv show ?thesis by (auto simp: hs_inv_def intro: hs_left_step hs_progress[OF inv])
qed

theorem startLoop_handshake_witness:
  "\<exists>h. hs_main h = MainWaiting \<and> (\<exists>h'. (hs_step 7)\<^sup>*\<^sup>* h h' \<and> hs_main h' = MainDone (Some 7))"
proof -
  let ?R = "\<lambda>h h'. hs_step 7 h h' \<or> hs_spurious h h'"
  let ?h1 = "hs_start\<lparr>hs_main := MainChecking, hs_locked := True\<rparr>"
  let ?h2 = "?h1\<lparr>hs_main := MainWaiting, hs_locked := False\<rparr>"
  have a: "?R hs_start ?h1" using hs_step.main_lock[of hs_start 7] by (simp add: hs_start_def)
  have b: "?R ?h1 ?h2" using hs_step.wait[of ?h1 7] by (simp add: hs_start_def)
  have "?R\<^sup>*\<^sup>* hs_start ?h2" by (rule rtranclp.rtrancl_into_rtrancl[of ?R, OF r_into_rtranclp[of ?R, OF a] b])
  from startLoop_handshake[OF this] show ?thesis by (intro exI[of _ ?h2]) simp
qed

text \<open>
  C19: the pool starts the threads it is told to: in the base loop's thread, with an operating
  system that gives new threads new ids and descriptors that are different, \<open>start\<close> without an
  initial callback goes through; it makes \<open>numThreads_\<close> threads with the names of the pool
  numbered from 0, each with a new loop of its own that belongs to a thread of its own; the
  earlier loops are unchanged, and the pool is ready to hand its loops out, in the order made.
\<close>

theorem pool_start_makes_loops:
  assumes "reactor_wf s" and "\<not> tp_started p" and "isInLoopThread (tp_baseLoop p) s"
    and "tp_baseLoop p < r_nextLoop s" and "tp_threads p = []" and "tp_loops p = []"
    and "tp_nextIndex p = 0" and "tp_numThreads p = int n" and "0 < n"
    and "threads_fresh E {x. r_loopOfThread s x \<noteq> None}" and "fds_fresh E"
  shows "\<exists>q t. poolStart E run None p s = Inr (q, t) \<and> pool_ready q t \<and> reactor_wf t \<and>
    tp_loops q = map Some [r_nextLoop s..<r_nextLoop s + n] \<and> map lt_loop (tp_threads q) = tp_loops q \<and>
    map lt_name (tp_threads q) = map (\<lambda>i. tp_name p @ to_string (int i)) [0..<n] \<and>
    distinct (map (\<lambda>l. el_threadId (r_loops t l)) [r_nextLoop s..<r_nextLoop s + n]) \<and>
    r_tid t = r_tid s \<and> (\<forall>l < r_nextLoop s. r_loops t l = r_loops s l)"
proof -
  let ?p = "p\<lparr>tp_started := True\<rparr>"
  have "pool_rounds ?p s 0 (?p, s)" using assms(1,5,6) by (simp add: pool_rounds_def threadsOf_def)
  from startThreads_rounds[OF assms(10,11) this, of run n] obtain q t where
    r: "foldR (startThread E run None) [0..<n] (?p, s) = Inr (q, t)" "pool_rounds ?p s n (q, t)" by auto
  have st: "poolStart E run None p s = Inr (q, t)"
    using r(1) assms(2,3,8) by (simp add: poolStart_def assertInLoopThread_def)
  have R: "tp_loops q = map Some [r_nextLoop s..<r_nextLoop s + n]" "map lt_loop (tp_threads q) = tp_loops q"
    "map lt_name (tp_threads q) = map (\<lambda>i. tp_name ?p @ to_string (int i)) [0..<n]" "reactor_wf t" "r_tid t = r_tid s"
    "\<forall>l < r_nextLoop s. r_loops t l = r_loops s l" "distinct (threadsOf (r_nextLoop s) n t)"
    and Q: "q = ?p\<lparr>tp_loops := tp_loops q, tp_threads := tp_threads q\<rparr>"
    using r(2)[unfolded pool_rounds_def prod.case] by blast+
  have "tp_started q" "tp_baseLoop q = tp_baseLoop p" "tp_numThreads q = int n" "tp_nextIndex q = 0"
    using assms(7,8) by (subst Q, simp)+
  then have "pool_ready q t"
    using R(1,5,6) assms(3,4,9) by (simp add: pool_ready_def isInLoopThread_def)
  with st R show ?thesis by (auto simp: threadsOf_def)
qed

text \<open>An operating system that numbers its threads from 2.\<close>

fun newestThread :: "trace \<Rightarrow> thread_id" where
  "newestThread [] = 1"
| "newestThread (SysThread x # tr) = max x (newestThread tr)"
| "newestThread (e # tr) = newestThread tr"

definition threadEnv :: "string env" where
  "threadEnv = sampleEnv\<lparr>thread_of := \<lambda>tr. Suc (newestThread tr)\<rparr>"

lemma newestThread_max: "SysThread x \<in> set tr \<Longrightarrow> x \<le> newestThread tr"
  by (induction tr rule: newestThread.induct) auto

lemma newestThread_ge: "1 \<le> newestThread tr"
  by (induction tr rule: newestThread.induct) auto

lemma threadEnv_fresh: "threads_fresh threadEnv {x. r_loopOfThread sampleReactor x \<noteq> None}" "fds_fresh threadEnv"
proof -
  have "Suc (newestThread tr) \<noteq> 1" "SysThread (Suc (newestThread tr)) \<notin> set tr" for tr
    using newestThread_ge[of tr] newestThread_max[of "Suc (newestThread tr)" tr] by auto
  then show "threads_fresh threadEnv {x. r_loopOfThread sampleReactor x \<noteq> None}"
    by (simp add: threads_fresh_def threadEnv_def sampleReactor_def)
  show "fds_fresh threadEnv" by (simp add: fds_fresh_def threadEnv_def sampleEnv_def)
qed

theorem pool_start_makes_loops_witness:
  "\<exists>q t. poolStart threadEnv (noteRun 0) None ((mkPool 0 ''io'')\<lparr>tp_numThreads := 2\<rparr>) sampleReactor = Inr (q, t) \<and>
    tp_loops q = [Some 1, Some 2] \<and> el_threadId (r_loops t 1) \<noteq> el_threadId (r_loops t 2)"
proof -
  let ?p = "(mkPool 0 ''io'')\<lparr>tp_numThreads := 2\<rparr>"
  have wf: "reactor_wf sampleReactor"
    by (simp add: reactor_wf_def loop_ps_def sampleReactor_def sampleLoop_def poller_wf_mk) (simp add: mkPoller_def)
  have p: "\<not> tp_started ?p" "isInLoopThread (tp_baseLoop ?p) sampleReactor" "tp_baseLoop ?p < r_nextLoop sampleReactor"
    "tp_threads ?p = []" "tp_loops ?p = []" "tp_nextIndex ?p = 0" "tp_numThreads ?p = int 2"
    by (simp_all add: mkPool_def isInLoopThread_def sampleReactor_def sampleLoop_def)
  have n: "r_nextLoop sampleReactor = 1" "[1..<1 + 2] = [1, 2 :: nat]"
    by (simp_all add: sampleReactor_def upt_rec)
  from pool_start_makes_loops[OF wf p _ threadEnv_fresh, of "noteRun 0"] show ?thesis
    unfolding n by auto
qed

text \<open>
  \<open>getNextLoop\<close> is a fair round robin: asked \<open>k\<close> times in a row, a pool that is ready never
  fails and hands out the loops that follow \<open>nextIndex_\<close> in a circle; in \<open>m\<close> full turns every loop
  is handed out exactly \<open>m\<close> times.
\<close>

theorem getNextLoop_round_robin:
  assumes "pool_ready p s"
  shows "nextLoops k p s =
      Inr (map (\<lambda>i. tp_loops p ! ((nat (tp_nextIndex p) + i) mod length (tp_loops p))) [0..<k],
           p\<lparr>tp_nextIndex := (tp_nextIndex p + int k) mod int (length (tp_loops p))\<rparr>) \<and>
    (k = m * length (tp_loops p) \<longrightarrow>
      (\<exists>ls q. nextLoops k p s = Inr (ls, q) \<and> mset ls = repeat_mset m (mset (tp_loops p))))"
  using nextLoops_ready[OF assms, of k] turns_mset by metis

definition samplePool :: pool where
  "samplePool = (mkPool 0 ''p'')\<lparr>tp_started := True, tp_numThreads := 2, tp_loops := [Some 4, Some 5], tp_nextIndex := 1\<rparr>"

theorem getNextLoop_round_robin_witness:
  "nextLoops 3 samplePool sampleReactor = Inr ([Some 5, Some 4, Some 5], samplePool\<lparr>tp_nextIndex := 0\<rparr>)"
proof -
  have "pool_ready samplePool sampleReactor"
    by (simp add: pool_ready_def samplePool_def mkPool_def isInLoopThread_def sampleReactor_def sampleLoop_def)
  moreover have "[0..<3] = [0, 1, 2 :: nat]" "3 mod Suc (Suc 0) = 1" by (simp_all add: upt_rec eval_nat_numeral mod_Suc)
  ultimately show ?thesis using getNextLoop_round_robin[of samplePool sampleReactor 3 0]
    by (simp add: samplePool_def mkPool_def)
qed

text \<open>
  \<open>setThreadNums\<close> does not look at \<open>started\<close>: a pool that was started without threads gives
  the base loop to every connection, but after \<open>setThreadNums\<close> with a positive number the next
  \<open>getNextLoop\<close> indexes the empty vector \<open>loops_\<close>.
\<close>

theorem late_setThreadNums_out_of_bounds:
  assumes "poolStart E run cb p s = Inr (q, t)" and "tp_numThreads p = 0" and "tp_loops p = []"
    and "isInLoopThread (tp_baseLoop p) t" and "0 < n"
  shows "getNextLoop q t = Inr (Some (tp_baseLoop p), q) \<and>
    (\<exists>r. setThreadNums n q = Inr r \<and> getNextLoop r t = Inl (OutOfBounds ''getNextLoop: loops_[nextIndex_]''))"
proof -
  have "q = p\<lparr>tp_started := True\<rparr>"
    using assms(1,2) by (auto simp: poolStart_def assertInLoopThread_def result_simps split: option.splits)
  with assms show ?thesis by (simp add: getNextLoop_def setThreadNums_def assertInLoopThread_def)
qed

theorem late_setThreadNums_out_of_bounds_witness:
  "\<exists>q r. poolStart sampleEnv (noteRun 0) None (mkPool 0 ''p'') sampleReactor = Inr (q, sampleReactor) \<and>
    setThreadNums 4 q = Inr r \<and> getNextLoop r sampleReactor = Inl (OutOfBounds ''getNextLoop: loops_[nextIndex_]'')"
proof -
  let ?q = "(mkPool 0 ''p'')\<lparr>tp_started := True\<rparr>"
  have thr: "isInLoopThread 0 sampleReactor" by (simp add: isInLoopThread_def sampleReactor_def sampleLoop_def)
  then have st: "poolStart sampleEnv (noteRun 0) None (mkPool 0 ''p'') sampleReactor = Inr (?q, sampleReactor)"
    by (simp add: poolStart_def mkPool_def assertInLoopThread_def)
  from late_setThreadNums_out_of_bounds[OF this, of 4] thr st show ?thesis by (auto simp: mkPool_def)
qed

end
