(* ===== verification/TcpServer.thy ===== *)
theory TcpServer
  imports ThreadPool "HOL-Library.List_Lexorder" "HOL-Library.Char_ord"
begin

text \<open>
  \<open>duduo/net/Server/TcpServer.h\<close> and \<open>TcpServer.cc\<close>: the server, which makes a connection of every
  accepted descriptor, gives it a name and a loop, keeps it in \<open>connections_\<close> while it is open and
  forgets it when it closes.

  \<open>std::map\<close> is the list of its pairs in the order of its keys, which is the order in which the
  destructor visits them.  \<open>connectionIndex_\<close> is an \<open>int\<close> of C++, kept without its bound: its
  overflow after \<open>2 ^ 31\<close> connections is undefined behaviour.
\<close>

section \<open>A map with string keys\<close>

type_synonym strmap = "(string \<times> conn_id) list"

text \<open>\<open>m[k] = v\<close> and \<open>m.erase(k)\<close>, with the number of pairs erased.\<close>

fun map_assign :: "string \<Rightarrow> conn_id \<Rightarrow> strmap \<Rightarrow> strmap" where
  "map_assign k v [] = [(k, v)]"
| "map_assign k v ((j, w) # m) =
     (if k = j then (k, v) # m else if k < j then (k, v) # (j, w) # m else (j, w) # map_assign k v m)"

definition map_erase :: "string \<Rightarrow> strmap \<Rightarrow> nat \<times> strmap" where
  "map_erase k m = (length (filter (\<lambda>e. fst e = k) m), filter (\<lambda>e. fst e \<noteq> k) m)"

definition strmap_ok :: "strmap \<Rightarrow> bool" where
  "strmap_ok m \<longleftrightarrow> sorted_wrt (<) (map fst m)"

lemma set_map_assign: "set (map_assign k v m) \<subseteq> insert (k, v) (set m)"
  by (induction m rule: map_assign.induct) auto

lemma map_assign_ok: "strmap_ok m \<Longrightarrow> strmap_ok (map_assign k v m)"
proof (induction m rule: map_assign.induct)
  case (2 k v j w m)
  have "\<forall>e \<in> set (map_assign k v m). j < fst e" if "j < k" "strmap_ok ((j, w) # m)"
    using set_map_assign[of k v m] that by (fastforce simp: strmap_ok_def)
  with 2 show ?case by (auto simp: strmap_ok_def)
qed (simp add: strmap_ok_def)

lemma map_of_assign: "strmap_ok m \<Longrightarrow> map_of (map_assign k v m) = (map_of m)(k \<mapsto> v)"
  by (induction m rule: map_assign.induct) (auto simp: strmap_ok_def fun_eq_iff)

lemma strmap_distinct: "strmap_ok m \<Longrightarrow> distinct (map fst m)"
  by (simp add: strmap_ok_def strict_sorted_iff)

lemma filter_key_None: "k \<notin> fst ` set m \<Longrightarrow> filter (\<lambda>e. fst e = k) m = []"
  by (induction m) auto

lemma map_erase_props:
  assumes "strmap_ok m"
  shows "strmap_ok (snd (map_erase k m))" "map_of (snd (map_erase k m)) = (map_of m)(k := None)"
    "fst (map_erase k m) = (if map_of m k = None then 0 else 1)"
proof -
  show "strmap_ok (snd (map_erase k m))"
    using assms unfolding strmap_ok_def map_erase_def snd_conv
    by (induction m) auto
  show "map_of (snd (map_erase k m)) = (map_of m)(k := None)"
    unfolding map_erase_def snd_conv by (induction m) (auto simp: fun_eq_iff)
  have "distinct (map fst m) \<Longrightarrow> length (filter (\<lambda>e. fst e = k) m) = (if map_of m k = None then 0 else 1)"
  proof (induction m)
    case (Cons e m)
    have "filter (\<lambda>e. fst e = k) m = []" if "fst e = k" using Cons.prems that by (simp add: filter_key_None)
    moreover have "map_of m (fst e) = None" using Cons.prems by (auto simp: map_of_eq_None_iff)
    ultimately show ?case using Cons by (cases e) auto
  qed simp
  then show "fst (map_erase k m) = (if map_of m k = None then 0 else 1)"
    using strmap_distinct[OF assms] by (simp add: map_erase_def)
qed

section \<open>The server\<close>

record server =
  sv_loop :: loop_id
  sv_name :: string
  sv_addr :: inet
  sv_acceptor :: acceptor_id
  sv_connections :: strmap
  sv_threadPool :: pool
  sv_started :: int
  sv_connectionCallback :: "(conn_id \<Rightarrow> task) option"
  sv_messageCallback :: "(conn_id \<Rightarrow> timestamp \<Rightarrow> task) option"
  sv_writeCompleteCallback :: "(conn_id \<Rightarrow> task) option"
  sv_highWaterCallback :: "(conn_id \<Rightarrow> task) option"
  sv_threadInitCallback :: "(loop_id \<Rightarrow> task) option"

record 'b serverstate = "'b connstate" +
  n_servers :: "server_id \<Rightarrow> server"
  n_nextServer :: server_id
  n_serverIndexGen :: "64 word"
  n_connectionIndex :: int

type_synonym ('b, 'z) servs = "('b, 'z) serverstate_scheme"
type_synonym ('b, 'z) serv_runner = "task \<Rightarrow> ('b, 'z) serverstate_scheme \<Rightarrow> ('b, 'z) serverstate_scheme result"

definition mod_server :: "server_id \<Rightarrow> (server \<Rightarrow> server) \<Rightarrow> ('b, 'z) servs \<Rightarrow> ('b, 'z) servs" where
  "mod_server v f s = s\<lparr>n_servers := (n_servers s)(v := f (n_servers s v))\<rparr>"

definition serverDefaultName :: "('b, 'z) servs \<Rightarrow> string \<times> ('b, 'z) servs" where
  "serverDefaultName s =
     (''TcpServer'' @ to_string (sint (n_serverIndexGen s)), s\<lparr>n_serverIndexGen := n_serverIndexGen s + 1\<rparr>)"

definition newServer :: "'b env \<Rightarrow> loop_id \<Rightarrow> inet \<Rightarrow> ('b, 'z) servs \<Rightarrow> (server_id \<times> ('b, 'z) servs) result" where
  "newServer E l addr s =
     (let v = n_nextServer s;
          (name, s) = serverDefaultName (s\<lparr>n_nextServer := Suc v\<rparr>) in
      bindR (newAcceptor E l addr s) (\<lambda>(a, s).
      let s = mod_server v (\<lambda>_. \<lparr>sv_loop = l, sv_name = name, sv_addr = addr, sv_acceptor = a,
                sv_connections = [], sv_threadPool = mkPool l name, sv_started = 0,
                sv_connectionCallback = None, sv_messageCallback = None, sv_writeCompleteCallback = None,
                sv_highWaterCallback = None, sv_threadInitCallback = None\<rparr>) s
      in Inr (v, setNewConnectionCallback a (\<lambda>fd peer. TNewConnection v fd peer) s)))"

definition svSetMessageCallback :: "(conn_id \<Rightarrow> timestamp \<Rightarrow> task) option \<Rightarrow> server \<Rightarrow> server" where
  "svSetMessageCallback cb sv = sv\<lparr>sv_messageCallback := cb\<rparr>"

definition svSetConnectionCallback :: "(conn_id \<Rightarrow> task) option \<Rightarrow> server \<Rightarrow> server" where
  "svSetConnectionCallback cb sv = sv\<lparr>sv_connectionCallback := cb\<rparr>"

definition setThreadInitCallback :: "(loop_id \<Rightarrow> task) option \<Rightarrow> server \<Rightarrow> server" where
  "setThreadInitCallback cb sv = sv\<lparr>sv_threadInitCallback := cb\<rparr>"

definition setThreadNum :: "server_id \<Rightarrow> int \<Rightarrow> ('b, 'z) servs \<Rightarrow> ('b, 'z) servs result" where
  "setThreadNum v numThread s =
     bindR (assertR ''setThreadNum: numThread>=0'' (numThread \<ge> 0) s) (\<lambda>s.
     bindR (setThreadNums numThread (sv_threadPool (n_servers s v))) (\<lambda>p.
     Inr (mod_server v (\<lambda>sv. sv\<lparr>sv_threadPool := p\<rparr>) s)))"

section \<open>Connections come and go\<close>

definition onNewConnection ::
  "'b env \<Rightarrow> ('b, 'z) serv_runner \<Rightarrow> server_id \<Rightarrow> int \<Rightarrow> inet \<Rightarrow> ('b, 'z) servs \<Rightarrow> ('b, 'z) servs result" where
  "onNewConnection E run v peersockfd peeraddr s =
     (let connName = sv_name (n_servers s v) @ to_string (n_connectionIndex s);
          s = s\<lparr>n_connectionIndex := n_connectionIndex s + 1\<rparr> in
      bindR (getNextLoop (sv_threadPool (n_servers s v)) s) (\<lambda>(IOloop, p).
      let s = mod_server v (\<lambda>sv. sv\<lparr>sv_threadPool := p\<rparr>) s in
      case IOloop of
        None \<Rightarrow> Inl (Dangling ''onNewConnection: IOloop'')
      | Some l \<Rightarrow>
          let (c, s) = newConnection E l connName (sv_addr (n_servers s v)) peeraddr peersockfd s;
              s = mod_server v (\<lambda>sv. sv\<lparr>sv_connections := map_assign connName c (sv_connections sv)\<rparr>) s;
              s = mod_conn c (setConnectionCallback (sv_connectionCallback (n_servers s v))) s;
              s = mod_conn c (setMessageCallback (sv_messageCallback (n_servers s v))) s;
              s = mod_conn c (setConnCloseCallback (Some (\<lambda>d. TRemoveConnection v d))) s;
              s = mod_conn c (setWriteCompleteCallback (sv_writeCompleteCallback (n_servers s v))) s
          in runInLoop E run l (TEstablished c) s))"

definition removeConnection ::
  "'b env \<Rightarrow> ('b, 'z) serv_runner \<Rightarrow> server_id \<Rightarrow> conn_id \<Rightarrow> ('b, 'z) servs \<Rightarrow> ('b, 'z) servs result" where
  "removeConnection E run v c s = runInLoop E run (sv_loop (n_servers s v)) (TRemoveInLoop v c) s"

definition removeConnectionInLoop ::
  "'b env \<Rightarrow> server_id \<Rightarrow> conn_id \<Rightarrow> ('b, 'z) servs \<Rightarrow> ('b, 'z) servs result" where
  "removeConnectionInLoop E v c s =
     bindR (assertInLoopThread (sv_loop (n_servers s v)) s) (\<lambda>s.
     let (erasedNum, m) = map_erase (cn_name (n_conns s c)) (sv_connections (n_servers s v));
         s = mod_server v (\<lambda>sv. sv\<lparr>sv_connections := m\<rparr>) s in
     bindR (assertR ''removeConnectionInLoop: erasedNum == 1'' (erasedNum = 1) s) (\<lambda>s.
     Inr (queueInLoop E (cn_loop (n_conns s c)) (TDestroyed c) s)))"

section \<open>Start and end\<close>

definition start :: "'b env \<Rightarrow> ('b, 'z) serv_runner \<Rightarrow> server_id \<Rightarrow> ('b, 'z) servs \<Rightarrow> ('b, 'z) servs result" where
  "start E run v s =
     (let started = sv_started (n_servers s v);
          s = mod_server v (\<lambda>sv. sv\<lparr>sv_started := started + 1\<rparr>) s in
      if started = 0 then
        bindR (poolStart E run (sv_threadInitCallback (n_servers s v)) (sv_threadPool (n_servers s v)) s) (\<lambda>(p, s).
        let s = mod_server v (\<lambda>sv. sv\<lparr>sv_threadPool := p\<rparr>) s; a = sv_acceptor (n_servers s v) in
        bindR (assertR ''start: !acceptor_->isListening()'' (\<not> ac_listening (n_acceptors s a)) s) (\<lambda>s.
        runInLoop E run (sv_loop (n_servers s v)) (TListen a) s))
      else Inr s)"

text \<open>
  The body of \<open>~TcpServer\<close>, then its members; of these, the acceptor does something when it is
  destroyed.
\<close>

definition dtorServer :: "'b env \<Rightarrow> ('b, 'z) serv_runner \<Rightarrow> server_id \<Rightarrow> ('b, 'z) servs \<Rightarrow> ('b, 'z) servs result" where
  "dtorServer E run v s =
     bindR (assertInLoopThread (sv_loop (n_servers s v)) s) (\<lambda>s.
     bindR (foldR (\<lambda>(k, c) s. runInLoop E run (cn_loop (n_conns s c)) (TDestroyed c) s)
              (sv_connections (n_servers s v)) s) (\<lambda>s.
     dtorAcceptor E (sv_acceptor (n_servers s v)) s))"

section \<open>Facts about the state\<close>

lemma mod_server_sel [simp]:
  "r_chans (mod_server v f s) = r_chans s" "r_loops (mod_server v f s) = r_loops s"
  "r_tid (mod_server v f s) = r_tid s" "r_nextChan (mod_server v f s) = r_nextChan s"
  "r_trace (mod_server v f s) = r_trace s" "r_timers (mod_server v f s) = r_timers s"
  "r_nextLoop (mod_server v f s) = r_nextLoop s" "n_acceptors (mod_server v f s) = n_acceptors s"
  "n_nextAcceptor (mod_server v f s) = n_nextAcceptor s"
  "n_conns (mod_server v f s) = n_conns s" "n_nextConn (mod_server v f s) = n_nextConn s"
  "n_connectionIndex (mod_server v f s) = n_connectionIndex s"
  "n_servers (mod_server v f s) = (n_servers s)(v := f (n_servers s v))"
  by (simp_all add: mod_server_def)

lemma n_servers_sel [simp]:
  "n_servers (emit e s) = n_servers s" "n_servers (mod_chan ch g s) = n_servers s"
  "n_servers (mod_loop l h s) = n_servers s" "n_servers (set_ps l ps s) = n_servers s"
  "n_servers (mod_acceptor a k s) = n_servers s" "n_servers (mod_conn c q s) = n_servers s"
  "n_servers (queueInLoop E l t s) = n_servers s"
  "n_connectionIndex (emit e s) = n_connectionIndex s" "n_connectionIndex (mod_chan ch g s) = n_connectionIndex s"
  "n_connectionIndex (mod_loop l h s) = n_connectionIndex s" "n_connectionIndex (set_ps l ps s) = n_connectionIndex s"
  "n_connectionIndex (mod_acceptor a k s) = n_connectionIndex s"
  "n_connectionIndex (mod_conn c q s) = n_connectionIndex s"
  "n_connectionIndex (queueInLoop E l t s) = n_connectionIndex s"
  by (simp_all add: emit_def mod_chan_def mod_loop_def set_ps_def mod_acceptor_def mod_conn_def
      queueInLoop_def wakeup_def Let_def)

lemma newConnection_servers:
  assumes "newConnection E l name la pa fd s = (c, t)"
  shows "n_servers t = n_servers s" "n_connectionIndex t = n_connectionIndex s"
    "n_acceptors t = n_acceptors s" "r_nextLoop t = r_nextLoop s"
  using assms by (auto simp: newConnection_def Let_def newChannel_def)

lemma getNextLoop_cong:
  assumes "r_tid t = r_tid s" "r_loops t = r_loops s"
  shows "getNextLoop p t = getNextLoop p s"
  using assms by (simp add: getNextLoop_def assertInLoopThread_def isInLoopThread_def assertR_def)

section \<open>The invariant of a server\<close>

text \<open>
  \<open>connections_\<close> is in order; every pair in it has the name of the connection as its key; the
  connection reports its end to this server; and the names are the numbered ones already used.
\<close>

definition server_ok :: "server_id \<Rightarrow> ('b, 'z) servs \<Rightarrow> bool" where
  "server_ok v s \<longleftrightarrow> strmap_ok (sv_connections (n_servers s v)) \<and> 0 \<le> n_connectionIndex s \<and>
     (\<forall>(k, c) \<in> set (sv_connections (n_servers s v)).
        cn_name (n_conns s c) = k \<and> c < n_nextConn s \<and>
        cn_closeCallback (n_conns s c) = Some (\<lambda>d. TRemoveConnection v d) \<and>
        (\<exists>i. 0 \<le> i \<and> i < n_connectionIndex s \<and> k = sv_name (n_servers s v) @ to_string i))"

lemma server_okD:
  assumes "server_ok v s" and "(k, c) \<in> set (sv_connections (n_servers s v))"
  shows "cn_name (n_conns s c) = k" "c < n_nextConn s"
    "cn_closeCallback (n_conns s c) = Some (\<lambda>d. TRemoveConnection v d)"
    "\<exists>i. 0 \<le> i \<and> i < n_connectionIndex s \<and> k = sv_name (n_servers s v) @ to_string i"
  using assms by (auto simp: server_ok_def)

text \<open>The name of the next connection is not in use.\<close>

lemma next_name_fresh:
  assumes "server_ok v s"
  shows "map_of (sv_connections (n_servers s v)) (sv_name (n_servers s v) @ to_string (n_connectionIndex s)) = None"
proof (rule ccontr)
  assume "map_of (sv_connections (n_servers s v)) (sv_name (n_servers s v) @ to_string (n_connectionIndex s)) \<noteq> None"
  then obtain c where "(sv_name (n_servers s v) @ to_string (n_connectionIndex s), c) \<in> set (sv_connections (n_servers s v))"
    by (auto dest: map_of_SomeD)
  from server_okD(4)[OF assms this] show False by (auto simp: to_string_inj)
qed

text \<open>The connection \<open>onNewConnection\<close> makes, as it is when \<open>connectionEstablished\<close> is called or posted.\<close>

definition fresh_conn :: "'b env \<Rightarrow> server_id \<Rightarrow> server \<Rightarrow> loop_id \<Rightarrow> string \<Rightarrow> inet \<Rightarrow> int \<Rightarrow> chan_id \<Rightarrow> 'b conn" where
  "fresh_conn E v sv l name peer fd ch =
     \<lparr>cn_loop = l, cn_state = KConnecting, cn_name = name, cn_localAddr = sv_addr sv, cn_peerAddr = peer,
      cn_sockfd = fd, cn_channel = ch, cn_inputBuffer = buf_empty E, cn_outputBuffer = buf_empty E,
      cn_connectionCallback = sv_connectionCallback sv, cn_messageCallback = sv_messageCallback sv,
      cn_closeCallback = Some (\<lambda>d. TRemoveConnection v d),
      cn_writeCompleteCallback = sv_writeCompleteCallback sv, cn_highWaterCallback = None\<rparr>"

lemma onNewConnection_contract:
  assumes ok: "server_ok v s" and wf: "reactor_wf s"
    and nxt: "getNextLoop (sv_threadPool (n_servers s v)) s = Inr (Some l, p)"
    and fd: "0 \<le> fd" "loop_interest l s fd = None"
  shows "\<exists>u. onNewConnection E run v fd peer s = runInLoop E run l (TEstablished (n_nextConn s)) u \<and>
    server_ok v u \<and> reactor_wf u \<and> chan_ok (r_nextChan s) u \<and> (\<forall>k. loop_interest k u = loop_interest k s) \<and>
    map_of (sv_connections (n_servers u v)) =
      (map_of (sv_connections (n_servers s v)))
        (sv_name (n_servers s v) @ to_string (n_connectionIndex s) \<mapsto> n_nextConn s) \<and>
    n_conns u = (n_conns s)(n_nextConn s := fresh_conn E v (n_servers s v) l
        (sv_name (n_servers s v) @ to_string (n_connectionIndex s)) peer fd (r_nextChan s)) \<and>
    r_chans u (r_nextChan s) = (mkChannel l fd)\<lparr>ch_readCallback := Some (\<lambda>now. TConnRead (n_nextConn s) now),
       ch_writeCallback := Some (TConnWrite (n_nextConn s)), ch_closeCallback := Some (TConnClose (n_nextConn s))\<rparr> \<and>
    (\<exists>cs. n_servers u = (n_servers s)(v := (n_servers s v)\<lparr>sv_threadPool := p, sv_connections := cs\<rparr>)) \<and>
    r_loops u = r_loops s \<and> r_tid u = r_tid s \<and> r_trace u = r_trace s \<and>
    n_connectionIndex u = n_connectionIndex s + 1 \<and> n_nextConn u = Suc (n_nextConn s) \<and>
    r_nextChan u = Suc (r_nextChan s) \<and> n_acceptors u = n_acceptors s \<and>
    (\<forall>x. x \<noteq> r_nextChan s \<longrightarrow> r_chans u x = r_chans s x)"
proof -
  let ?sv = "n_servers s v" and ?c = "n_nextConn s"
  let ?name = "sv_name ?sv @ to_string (n_connectionIndex s)"
  let ?s1 = "s\<lparr>n_connectionIndex := n_connectionIndex s + 1\<rparr>"
  let ?s2 = "mod_server v (\<lambda>sv. sv\<lparr>sv_threadPool := p\<rparr>) ?s1"
  have wf2: "reactor_wf ?s2" "loop_interest k ?s2 = loop_interest k s" for k
    using same_reactor[of ?s2 s] wf by simp_all
  have g: "getNextLoop (sv_threadPool (n_servers ?s1 v)) ?s1 = Inr (Some l, p)"
    using nxt getNextLoop_cong[of ?s1 s] by simp
  obtain c s3 where n: "newConnection E l ?name (sv_addr ?sv) peer fd ?s2 = (c, s3)"
    by (cases "newConnection E l ?name (sv_addr ?sv) peer fd ?s2")
  have fd2: "loop_interest l ?s2 fd = None" using fd(2) wf2(2) by simp
  note N = newConnection_ready[OF wf2(1) fd(1) fd2 n] and NS = newConnection_servers[OF n]
  let ?m = "map_assign ?name c (sv_connections ?sv)"
  let ?s4 = "mod_server v (\<lambda>sv. sv\<lparr>sv_connections := map_assign ?name c (sv_connections sv)\<rparr>) s3"
  let ?u = "mod_conn c (setWriteCompleteCallback (sv_writeCompleteCallback ?sv))
     (mod_conn c (setConnCloseCallback (Some (\<lambda>d. TRemoveConnection v d)))
       (mod_conn c (setMessageCallback (sv_messageCallback ?sv))
         (mod_conn c (setConnectionCallback (sv_connectionCallback ?sv)) ?s4)))"
  have on: "onNewConnection E run v fd peer s = runInLoop E run l (TEstablished c) ?u"
    using g n NS(1) by (simp add: onNewConnection_def Let_def)
  have c: "c = ?c" using N(2) by simp
  have ch: "cn_channel (n_conns s3 c) = r_nextChan s" unfolding N(8) c by simp
  have conns: "n_conns ?u = (n_conns s)(?c := fresh_conn E v ?sv l ?name peer fd (r_nextChan s))"
    unfolding mod_conn_sel mod_server_sel N(8) c
    by (simp add: fresh_conn_def setConnectionCallback_def setMessageCallback_def setConnCloseCallback_def
        setWriteCompleteCallback_def)
  have sv: "n_servers ?u = (n_servers s)(v := ?sv\<lparr>sv_threadPool := p, sv_connections := ?m\<rparr>)"
    using NS(1) by simp
  have R: "reactor_wf ?u = reactor_wf s3" "chan_ok d ?u = chan_ok d s3" "loop_interest k ?u = loop_interest k s3" for d k
    using same_reactor_conn[of ?u s3] by simp_all
  have smap: "strmap_ok (sv_connections ?sv)" using ok by (simp add: server_ok_def)
  have svs: "sv_connections (n_servers ?u v) = ?m" "sv_name (n_servers ?u v) = sv_name ?sv" unfolding sv by simp_all
  have "server_ok v ?u"
    unfolding server_ok_def svs
  proof (intro conjI ballI)
    show "strmap_ok ?m" by (rule map_assign_ok[OF smap])
    show "0 \<le> n_connectionIndex ?u" using ok NS(2) by (simp add: server_ok_def)
    fix e assume "e \<in> set ?m"
    then have "e = (?name, ?c) \<or> e \<in> set (sv_connections ?sv)" using set_map_assign[of ?name c] c by auto
    then show "case e of (k, c) \<Rightarrow> cn_name (n_conns ?u c) = k \<and> c < n_nextConn ?u \<and>
        cn_closeCallback (n_conns ?u c) = Some (\<lambda>d. TRemoveConnection v d) \<and>
        (\<exists>i. 0 \<le> i \<and> i < n_connectionIndex ?u \<and> k = sv_name ?sv @ to_string i)"
    proof
      assume "e = (?name, ?c)"
      then show ?thesis unfolding conns using N(9) NS(2) ok
        by (auto simp: fresh_conn_def server_ok_def)
    next
      assume "e \<in> set (sv_connections ?sv)"
      moreover obtain k d where e: "e = (k, d)" by (cases e)
      ultimately have k: "(k, d) \<in> set (sv_connections ?sv)" by simp
      note D = server_okD[OF ok k]
      have "d \<noteq> ?c" using D(2) by simp
      moreover obtain i where "0 \<le> i" "i < n_connectionIndex s" "k = sv_name ?sv @ to_string i" using D(4) by blast
      ultimately show ?thesis unfolding conns e prod.case using D(1-3) N(9) NS(2) by auto
    qed
  qed
  moreover have "map_of ?m = (map_of (sv_connections ?sv))(?name \<mapsto> ?c)"
    using map_of_assign[OF smap] c by simp
  moreover have "reactor_wf ?u" "chan_ok (r_nextChan s) ?u" "loop_interest k ?u = loop_interest k s" for k
    unfolding R using N(1,3,6) ch wf2(2) by simp_all
  moreover have "r_chans ?u (r_nextChan s) = (mkChannel l fd)\<lparr>ch_readCallback := Some (\<lambda>now. TConnRead ?c now),
       ch_writeCallback := Some (TConnWrite ?c), ch_closeCallback := Some (TConnClose ?c)\<rparr>"
    using N(7) ch c by simp
  moreover have "r_loops ?u = r_loops s" "r_tid ?u = r_tid s" "r_trace ?u = r_trace s"
    "n_connectionIndex ?u = n_connectionIndex s + 1" using N(4,5,10) NS(2) by simp_all
  moreover have "n_nextConn ?u = Suc ?c" "r_nextChan ?u = Suc (r_nextChan s)" "n_acceptors ?u = n_acceptors s"
    "\<forall>x. x \<noteq> r_nextChan s \<longrightarrow> r_chans ?u x = r_chans s x"
    using n by (auto simp: newConnection_def newChannel_def Let_def)
  ultimately show ?thesis using on conns sv c by (intro exI[of _ ?u]) auto
qed

lemma removeConnectionInLoop_contract:
  assumes ok: "server_ok v s" and thr: "isInLoopThread (sv_loop (n_servers s v)) s"
    and reg: "map_of (sv_connections (n_servers s v)) (cn_name (n_conns s c)) = Some c"
  shows "\<exists>m t. removeConnectionInLoop E v c s = Inr t \<and> server_ok v t \<and>
    map_of m = (map_of (sv_connections (n_servers s v)))(cn_name (n_conns s c) := None) \<and>
    t = queueInLoop E (cn_loop (n_conns s c)) (TDestroyed c) (mod_server v (\<lambda>sv. sv\<lparr>sv_connections := m\<rparr>) s)"
proof -
  let ?M = "sv_connections (n_servers s v)" and ?k = "cn_name (n_conns s c)"
  have smap: "strmap_ok ?M" using ok by (simp add: server_ok_def)
  note me = map_erase_props[OF smap, of ?k]
  let ?m = "snd (map_erase ?k ?M)"
  let ?t = "queueInLoop E (cn_loop (n_conns s c)) (TDestroyed c) (mod_server v (\<lambda>sv. sv\<lparr>sv_connections := ?m\<rparr>) s)"
  have "removeConnectionInLoop E v c s = Inr ?t"
    using thr reg me(3) by (simp add: removeConnectionInLoop_def assertInLoopThread_def split_beta Let_def)
  moreover have "server_ok v ?t"
  proof -
    have "set ?m \<subseteq> set ?M" by (auto simp: map_erase_def)
    moreover have "n_nextConn ?t = n_nextConn s" by (simp add: queueInLoop_def wakeup_def Let_def)
    ultimately show ?thesis using ok me(1) by (auto simp: server_ok_def)
  qed
  ultimately show ?thesis using me(2) by blast
qed

lemma same_reactor_thread:
  "r_tid t = r_tid s \<Longrightarrow> r_loops t = r_loops s \<Longrightarrow> isInLoopThread l t = isInLoopThread l s"
  by (simp add: isInLoopThread_def)

section \<open>An example\<close>

text \<open>A started server without threads of its own, on the loop and the connections of \<open>sampleConns\<close>.\<close>

definition sampleServer :: server where
  "sampleServer = \<lparr>sv_loop = 0, sv_name = ''TcpServer0'', sv_addr = Inet 1, sv_acceptor = 0, sv_connections = [],
     sv_threadPool = (mkPool 0 ''TcpServer0'')\<lparr>tp_started := True\<rparr>, sv_started = 1,
     sv_connectionCallback = Some (TUserConnection 1), sv_messageCallback = Some (TUserMessage 2),
     sv_writeCompleteCallback = None, sv_highWaterCallback = None, sv_threadInitCallback = None\<rparr>"

definition sampleServers :: "string serverstate" where
  "sampleServers = connstate.extend sampleConns (serverstate.fields (\<lambda>_. sampleServer) 1 1 3)"

lemma sampleServers_sel [simp]:
  "r_chans sampleServers = r_chans sampleReading" "r_loops sampleServers = r_loops sampleReading"
  "r_nextChan sampleServers = r_nextChan sampleReading" "r_trace sampleServers = []" "r_tid sampleServers = 1"
  "n_conns sampleServers = (\<lambda>_. sampleConn)" "n_nextConn sampleServers = 1"
  "n_servers sampleServers v = sampleServer" "n_connectionIndex sampleServers = 3"
  by (simp_all add: sampleServers_def connstate.extend_def serverstate.fields_def sampleConns_def netstate.extend_def
      connstate.fields_def sampleNet_def reactor.extend_def netstate.fields_def sampleReading_def)

lemma sampleServers_ok:
  "server_ok v sampleServers" "reactor_wf sampleServers" "isInLoopThread 0 sampleServers"
  "loop_interest 0 sampleServers 7 = None" "chan_ok 0 sampleServers"
  "getNextLoop (sv_threadPool sampleServer) sampleServers = Inr (Some 0, sv_threadPool sampleServer)"
proof -
  show "server_ok v sampleServers" by (simp add: server_ok_def sampleServer_def strmap_ok_def)
  show "reactor_wf sampleServers" "chan_ok 0 sampleServers"
    using same_reactor[of sampleServers sampleReading] sampleReading_ok by simp_all
  show t: "isInLoopThread 0 sampleServers" by (simp add: isInLoopThread_def) (simp add: sampleReading_def)
  show "loop_interest 0 sampleServers 7 = None"
    by (simp add: loop_interest_def loop_ps_def interest_def) (simp add: sampleReading_def)
  show "getNextLoop (sv_threadPool sampleServer) sampleServers = Inr (Some 0, sv_threadPool sampleServer)"
    using t by (simp add: getNextLoop_def sampleServer_def mkPool_def assertInLoopThread_def)
qed

section \<open>Properties\<close>

text \<open>
  C21: a new connection: when the pool gives a loop and the descriptor is not registered there,
  \<open>onNewConnection\<close> gives the connection a name no connection in \<open>connections_\<close> has, adds it
  under that name and keeps every other entry and connection; the connection has the callbacks of
  the server and reports its end to it; its channel is well-formed and not polled yet, and
  \<open>connectionEstablished\<close> is handed to the connection's own loop.
\<close>

theorem onNewConnection_registers:
  assumes "server_ok v s" and "reactor_wf s"
    and "getNextLoop (sv_threadPool (n_servers s v)) s = Inr (Some l, p)"
    and "0 \<le> fd" and "loop_interest l s fd = None"
  shows "let name = sv_name (n_servers s v) @ to_string (n_connectionIndex s); c = n_nextConn s in
    map_of (sv_connections (n_servers s v)) name = None \<and>
    (\<exists>u. onNewConnection E run v fd peer s = runInLoop E run l (TEstablished c) u \<and>
      server_ok v u \<and> reactor_wf u \<and> chan_ok (cn_channel (n_conns u c)) u \<and>
      (\<forall>k. loop_interest k u = loop_interest k s) \<and>
      map_of (sv_connections (n_servers u v)) = (map_of (sv_connections (n_servers s v)))(name \<mapsto> c) \<and>
      n_conns u = (n_conns s)(c := fresh_conn E v (n_servers s v) l name peer fd (r_nextChan s)))"
proof -
  let ?name = "sv_name (n_servers s v) @ to_string (n_connectionIndex s)" and ?c = "n_nextConn s"
  obtain u where u: "onNewConnection E run v fd peer s = runInLoop E run l (TEstablished ?c) u"
    "server_ok v u" "reactor_wf u" "chan_ok (r_nextChan s) u" "\<forall>k. loop_interest k u = loop_interest k s"
    "map_of (sv_connections (n_servers u v)) = (map_of (sv_connections (n_servers s v)))(?name \<mapsto> ?c)"
    "n_conns u = (n_conns s)(?c := fresh_conn E v (n_servers s v) l ?name peer fd (r_nextChan s))"
    by (insert onNewConnection_contract[OF assms, of E run peer], elim exE conjE) (rule that, assumption+)
  have "cn_channel (n_conns u ?c) = r_nextChan s" unfolding u(7) by (simp add: fresh_conn_def)
  with u next_name_fresh[OF assms(1)] show ?thesis unfolding Let_def by metis
qed

theorem onNewConnection_registers_witness:
  "\<exists>u. onNewConnection sampleEnv (\<lambda>t s. Inr s) 0 7 (Inet 2) sampleServers =
      runInLoop sampleEnv (\<lambda>t s. Inr s) 0 (TEstablished 1) (u :: string serverstate) \<and>
    map_of (sv_connections (n_servers u 0)) = [''TcpServer03'' \<mapsto> 1] \<and> cn_state (n_conns u 1) = KConnecting"
proof -
  have n: "sv_name sampleServer @ to_string 3 = ''TcpServer03''"
    by (simp add: sampleServer_def to_string_def digits.simps digit_def) code_simp
  have m: "sv_connections sampleServer = []" by (simp add: sampleServer_def)
  from onNewConnection_registers[OF sampleServers_ok(1,2) _ _ sampleServers_ok(4), of 0 "sv_threadPool sampleServer"]
    sampleServers_ok(6)
  have "\<exists>u. onNewConnection sampleEnv (\<lambda>t s. Inr s) 0 7 (Inet 2) sampleServers = runInLoop sampleEnv (\<lambda>t s. Inr s) 0 (TEstablished 1) u \<and>
    map_of (sv_connections (n_servers u 0)) = [''TcpServer03'' \<mapsto> 1] \<and>
    n_conns u = (n_conns sampleServers)(1 := fresh_conn sampleEnv 0 sampleServer 0 ''TcpServer03'' (Inet 2) 7 (r_nextChan sampleServers))"
    by (simp add: Let_def n m) blast
  then show ?thesis by (auto simp: fresh_conn_def)
qed

text \<open>
  C22: the end of a connection: for a connection in \<open>connections_\<close>, \<open>removeConnectionInLoop\<close> in the
  server's thread passes its assertion, forgets exactly this connection and posts
  \<open>connectionDestryed\<close> to the connection's loop, so that the connection is still alive while its own
  callbacks run; removing it a second time stops the process.
\<close>

theorem removeConnection_forgets:
  assumes "server_ok v s" and "isInLoopThread (sv_loop (n_servers s v)) s"
    and "map_of (sv_connections (n_servers s v)) (cn_name (n_conns s c)) = Some c"
  shows "\<exists>t. removeConnectionInLoop E v c s = Inr t \<and> server_ok v t \<and>
    map_of (sv_connections (n_servers t v)) =
      (map_of (sv_connections (n_servers s v)))(cn_name (n_conns s c) := None) \<and>
    el_funcQueue (r_loops t (cn_loop (n_conns s c))) =
      el_funcQueue (r_loops s (cn_loop (n_conns s c))) @ [TDestroyed c] \<and>
    r_chans t = r_chans s \<and> n_conns t = n_conns s \<and>
    removeConnectionInLoop E v c t = Inl (AssertFailed ''removeConnectionInLoop: erasedNum == 1'')"
proof -
  obtain m t where t: "removeConnectionInLoop E v c s = Inr t" "server_ok v t"
    "map_of m = (map_of (sv_connections (n_servers s v)))(cn_name (n_conns s c) := None)"
    "t = queueInLoop E (cn_loop (n_conns s c)) (TDestroyed c) (mod_server v (\<lambda>sv. sv\<lparr>sv_connections := m\<rparr>) s)"
    using removeConnectionInLoop_contract[OF assms] by blast
  have sv: "sv_connections (n_servers t v) = m" "sv_loop (n_servers t v) = sv_loop (n_servers s v)"
    "n_conns t = n_conns s" "r_chans t = r_chans s" unfolding t(4) by simp_all
  have "fst (map_erase (cn_name (n_conns s c)) m) = 0"
    using map_erase_props(3)[of m "cn_name (n_conns s c)"] t(2,3) sv(1) by (simp add: server_ok_def)
  moreover have "isInLoopThread (sv_loop (n_servers s v)) t"
    using assms(2) unfolding t(4) by (simp add: same_reactor_thread[of "mod_server v _ s" s])
  ultimately have "removeConnectionInLoop E v c t = Inl (AssertFailed ''removeConnectionInLoop: erasedNum == 1'')"
    by (simp add: removeConnectionInLoop_def assertInLoopThread_def sv split_beta Let_def)
  moreover have "el_funcQueue (r_loops t (cn_loop (n_conns s c))) =
      el_funcQueue (r_loops s (cn_loop (n_conns s c))) @ [TDestroyed c]"
    unfolding t(4) by (simp add: queueInLoop_def wakeup_def Let_def)
  ultimately show ?thesis using t(1-3) sv by auto
qed

theorem removeConnection_forgets_witness:
  "\<exists>t. removeConnectionInLoop sampleEnv 0 0 (mod_server 0 (\<lambda>sv. sv\<lparr>sv_connections := [(''TcpServer01'', 0)]\<rparr>)
      (mod_conn 0 (\<lambda>cn. cn\<lparr>cn_name := ''TcpServer01'', cn_closeCallback := Some (\<lambda>d. TRemoveConnection 0 d)\<rparr>) sampleServers)) = Inr t \<and>
    map_of (sv_connections (n_servers t 0)) = Map.empty \<and> TDestroyed 0 \<in> set (el_funcQueue (r_loops t 0))"
proof -
  let ?s = "mod_server 0 (\<lambda>sv. sv\<lparr>sv_connections := [(''TcpServer01'', 0)]\<rparr>)
      (mod_conn 0 (\<lambda>cn. cn\<lparr>cn_name := ''TcpServer01'', cn_closeCallback := Some (\<lambda>d. TRemoveConnection 0 d)\<rparr>) sampleServers)"
  have "to_string 1 = ''1''" by code_simp
  then have "server_ok 0 ?s"
    by (auto simp: server_ok_def strmap_ok_def sampleServer_def mod_conn_def mod_server_def intro!: exI[of _ 1])
  moreover have "isInLoopThread (sv_loop (n_servers ?s 0)) ?s"
    using sampleServers_ok(3) by (simp add: isInLoopThread_def sampleServer_def)
  ultimately show ?thesis using removeConnection_forgets[of 0 ?s 0 sampleEnv] by (auto simp: sampleConn_def)
qed

lemma same_reactor_server:
  assumes "r_chans t = r_chans s" "r_loops t = r_loops s" "r_nextChan t = r_nextChan s" "r_tid t = r_tid s"
  shows "reactor_wf t = reactor_wf s" "chan_ok c t = chan_ok c s" "loop_interest l t = loop_interest l s"
    "isInLoopThread l t = isInLoopThread l s"
  using assms same_reactor[of t s] by (simp_all add: isInLoopThread_def)

text \<open>A new server, in the loop's thread: its acceptor is bound and waits for \<open>listen\<close>.\<close>

lemma newServer_contract:
  assumes "reactor_wf s" and "isInLoopThread l s" and "socket_of E (r_trace s) = fd" and "0 \<le> fd"
    and "loop_interest l s fd = None" and "\<And>tr. 0 \<le> bind_of E tr fd addr"
  shows "\<exists>name u. newServer E l addr s = Inr (n_nextServer s, u) \<and> reactor_wf u \<and> isInLoopThread l u \<and>
    chan_ok (r_nextChan s) u \<and> (\<forall>k. loop_interest k u = loop_interest k s) \<and>
    r_chans u (r_nextChan s) = setReadCallback (\<lambda>_. TAcceptorRead (n_nextAcceptor s)) (mkChannel l fd) \<and>
    n_acceptors u (n_nextAcceptor s) = \<lparr>ac_loop = l, ac_cb = Some (\<lambda>fd peer. TNewConnection (n_nextServer s) fd peer),
      ac_sockfd = fd, ac_channel = r_nextChan s, ac_listening = False\<rparr> \<and>
    n_servers u (n_nextServer s) = \<lparr>sv_loop = l, sv_name = name, sv_addr = addr, sv_acceptor = n_nextAcceptor s,
      sv_connections = [], sv_threadPool = mkPool l name, sv_started = 0, sv_connectionCallback = None,
      sv_messageCallback = None, sv_writeCompleteCallback = None, sv_highWaterCallback = None,
      sv_threadInitCallback = None\<rparr> \<and> n_connectionIndex u = n_connectionIndex s"
proof -
  let ?v = "n_nextServer s" and ?a = "n_nextAcceptor s" and ?c = "r_nextChan s"
  obtain name s1 where n: "serverDefaultName (s\<lparr>n_nextServer := Suc ?v\<rparr>) = (name, s1)"
    by (cases "serverDefaultName (s\<lparr>n_nextServer := Suc ?v\<rparr>)")
  have s1: "r_chans s1 = r_chans s" "r_loops s1 = r_loops s" "r_nextChan s1 = r_nextChan s" "r_tid s1 = r_tid s"
    "r_trace s1 = r_trace s" "n_nextAcceptor s1 = ?a" "n_connectionIndex s1 = n_connectionIndex s"
    using n by (auto simp: serverDefaultName_def)
  note S = same_reactor_server[OF s1(1-4)]
  obtain u1 cs tr ac where u1: "newAcceptor E l addr s1 = Inr (?a, u1)" "reactor_wf u1" "chan_ok ?c u1"
    "\<forall>k. loop_interest k u1 = loop_interest k s" "r_chans u1 ?c = setReadCallback (\<lambda>_. TAcceptorRead ?a) (mkChannel l fd)"
    "n_acceptors u1 ?a = \<lparr>ac_loop = l, ac_cb = None, ac_sockfd = fd, ac_channel = ?c, ac_listening = False\<rparr>"
    "u1 = s1\<lparr>r_chans := cs, r_nextChan := Suc ?c, r_trace := tr, n_acceptors := ac, n_nextAcceptor := Suc ?a\<rparr>"
    using newAcceptor_contract[of s1 E fd l addr] assms(1,3-6)
    unfolding S s1 by (elim meta_impE) (assumption | elim exE conjE | rule that)+
  let ?sv = "\<lparr>sv_loop = l, sv_name = name, sv_addr = addr, sv_acceptor = ?a, sv_connections = [],
      sv_threadPool = mkPool l name, sv_started = 0, sv_connectionCallback = None,
      sv_messageCallback = None, sv_writeCompleteCallback = None, sv_highWaterCallback = None,
      sv_threadInitCallback = None\<rparr>"
  let ?u = "setNewConnectionCallback ?a (\<lambda>fd peer. TNewConnection ?v fd peer) (mod_server ?v (\<lambda>_. ?sv) u1)"
  have new: "newServer E l addr s = Inr (?v, ?u)" using n u1(1) by (simp add: newServer_def Let_def)
  have R: "r_chans ?u = r_chans u1" "r_loops ?u = r_loops u1" "r_nextChan ?u = r_nextChan u1" "r_tid ?u = r_tid u1"
    by (simp_all add: setNewConnectionCallback_def)
  have "isInLoopThread l u1" using assms(2) S(4) by (simp add: u1(7) isInLoopThread_def)
  moreover have "n_acceptors ?u ?a = (n_acceptors u1 ?a)\<lparr>ac_cb := Some (\<lambda>fd peer. TNewConnection ?v fd peer)\<rparr>"
    "n_servers ?u ?v = ?sv" "n_connectionIndex ?u = n_connectionIndex u1"
    by (simp_all add: setNewConnectionCallback_def)
  moreover have "n_connectionIndex u1 = n_connectionIndex s" by (simp add: u1(7) s1(7))
  ultimately show ?thesis using new u1(2-5) u1(6)
    by (intro exI[of _ name] exI[of _ ?u]) (simp add: same_reactor_server[OF R] R(1))
qed

text \<open>Starting a server that has no threads of its own, in its loop's thread.\<close>

lemma start_contract:
  assumes wf: "reactor_wf u" and thr: "isInLoopThread l u" and ok: "chan_ok c u" and none: "loop_interest l u fd = None"
    and ch: "r_chans u c = setReadCallback rc (mkChannel l fd)"
    and ac: "n_acceptors u a = \<lparr>ac_loop = l, ac_cb = cb, ac_sockfd = fd, ac_channel = c, ac_listening = False\<rparr>"
    and sv: "sv_started (n_servers u v) = 0" "sv_loop (n_servers u v) = l" "sv_acceptor (n_servers u v) = a"
      "sv_threadPool (n_servers u v) = mkPool l name" "sv_threadInitCallback (n_servers u v) = None"
    and lis: "\<And>tr. 0 \<le> listen_of E tr fd" and run: "\<And>a s. run (TListen a) s = acceptorListen E a s"
  shows "\<exists>t. start E run v u = Inr t \<and> reactor_wf t \<and> isInLoopThread l t \<and>
    loop_interest l t = (loop_interest l u)(fd \<mapsto> (True, 3)) \<and>
    n_acceptors t = (n_acceptors u)(a := (n_acceptors u a)\<lparr>ac_listening := True\<rparr>) \<and>
    ch_readCallback (r_chans t c) = Some rc \<and>
    n_servers t v = (n_servers u v)\<lparr>sv_started := 1, sv_threadPool := (mkPool l name)\<lparr>tp_started := True\<rparr>\<rparr> \<and>
    n_connectionIndex t = n_connectionIndex u"
proof -
  let ?w = "mod_server v (\<lambda>sv. sv\<lparr>sv_threadPool := (mkPool l name)\<lparr>tp_started := True\<rparr>\<rparr>)
    (mod_server v (\<lambda>sv. sv\<lparr>sv_started := 1\<rparr>) u)"
  have R: "r_chans ?w = r_chans u" "r_loops ?w = r_loops u" "r_nextChan ?w = r_nextChan u" "r_tid ?w = r_tid u" by simp_all
  note S = same_reactor_server[OF R]
  have aw: "n_acceptors ?w a = \<lparr>ac_loop = l, ac_cb = cb, ac_sockfd = fd, ac_channel = c, ac_listening = False\<rparr>"
    using ac by simp
  have "loop_interest l ?w fd = None" using none by (simp only: S)
  from acceptorListen_contract[OF _ aw _ _ this _ lis, of rc] wf thr ok ch S R
  obtain t ps e where t: "acceptorListen E a ?w = Inr t" "reactor_wf t"
    "loop_interest l t = (loop_interest l u)(fd \<mapsto> (True, 3))"
    "n_acceptors t = (n_acceptors ?w)(a := (n_acceptors ?w a)\<lparr>ac_listening := True\<rparr>)"
    "ch_readCallback (r_chans t c) = Some rc"
    "t = set_ps l ps (emit e (mod_acceptor a (\<lambda>ac. ac\<lparr>ac_listening := True\<rparr>) ?w))"
    by (simp only:) blast
  have th: "isInLoopThread l ?w" "isInLoopThread l (mod_server v (\<lambda>sv. sv\<lparr>sv_started := 1\<rparr>) u)"
    using thr by (simp_all add: isInLoopThread_def)
  have "start E run v u = Inr t"
    using t(1) th ac sv run
    by (simp add: start_def Let_def poolStart_def mkPool_def assertInLoopThread_def runInLoop_def)
  moreover have "isInLoopThread l t" using th(1) unfolding t(6) by (simp add: isInLoopThread_def)
  moreover have "n_servers t v = (n_servers u v)\<lparr>sv_started := 1, sv_threadPool := (mkPool l name)\<lparr>tp_started := True\<rparr>\<rparr>"
    "n_connectionIndex t = n_connectionIndex u" unfolding t(6) by simp_all
  ultimately show ?thesis using t(2-5) by (intro exI[of _ t]) simp
qed



text \<open>What \<open>connectionDestryed\<close> of another connection leaves of a channel.\<close>

lemma channelUpdate_others:
  assumes "channelUpdate d s = Inr t"
  shows "ch_events (r_chans t c) = ch_events (r_chans s c)" "r_tid t = r_tid s" "n_conns t = n_conns s"
    "el_threadId (r_loops t l) = el_threadId (r_loops s l)"
proof -
  let ?l = "ch_ownerLoop (r_chans s d)"
  obtain cs p where u: "updateChannel d (r_chans s, el_poller (r_loops s ?l)) = Inr (cs, p)" "t = set_ps ?l (cs, p) s"
    using assms by (auto simp: channelUpdate_def loopUpdateChannel_def loop_ps_def result_simps)
  have "ch_events (cs c) = ch_events (r_chans s c)"
    using u(1) by (cases rule: updateChannel_cases) (auto simp: set_index_def)
  with u(2) show "ch_events (r_chans t c) = ch_events (r_chans s c)" "r_tid t = r_tid s" "n_conns t = n_conns s"
    "el_threadId (r_loops t l) = el_threadId (r_loops s l)" by auto
qed

lemma channelRemove_others:
  assumes "channelRemove d s = Inr t"
  shows "ch_events (r_chans t c) = ch_events (r_chans s c)" "r_tid t = r_tid s" "n_conns t = n_conns s"
    "el_threadId (r_loops t l) = el_threadId (r_loops s l)"
proof -
  let ?l = "ch_ownerLoop (r_chans s d)"
  obtain cs p where u: "removeChannel True d (r_chans s, el_poller (r_loops s ?l)) = Inr (cs, p)" "t = set_ps ?l (cs, p) s"
    using assms by (auto simp: channelRemove_def loopRemoveChannel_def assertInLoopThread_def loop_ps_def result_simps)
  have "ch_events (cs c) = ch_events (r_chans s c)"
    using u(1) by (cases rule: removeChannel_cases) (auto simp: set_index_def)
  with u(2) show "ch_events (r_chans t c) = ch_events (r_chans s c)" "r_tid t = r_tid s" "n_conns t = n_conns s"
    "el_threadId (r_loops t l) = el_threadId (r_loops s l)" by auto
qed

text \<open>A half-closed connection whose channel still has events, in its loop's thread.\<close>

definition half_closed :: "conn_id \<Rightarrow> chan_id \<Rightarrow> loop_id \<Rightarrow> ('b, 'z) conns \<Rightarrow> bool" where
  "half_closed c ch l s \<longleftrightarrow> cn_state (n_conns s c) = KDisconnecting \<and> cn_loop (n_conns s c) = l \<and>
     cn_channel (n_conns s c) = ch \<and> \<not> isNoneEvent (r_chans s ch) \<and> isInLoopThread l s"

lemma half_closed_others:
  assumes "half_closed c ch l s" and "ch_events (r_chans t ch) = ch_events (r_chans s ch)" and "r_tid t = r_tid s"
    and "\<And>l. el_threadId (r_loops t l) = el_threadId (r_loops s l)" and "n_conns t c = n_conns s c"
  shows "half_closed c ch l t"
  using assms by (simp add: half_closed_def isNoneEvent_def isInLoopThread_def)

lemma connectionDestryed_others:
  assumes h: "half_closed c ch l s" and d: "d \<noteq> c" "cn_channel (n_conns s d) \<noteq> ch"
    and t: "connectionDestryed d s = Inr t"
  shows "half_closed c ch l t \<and> cn_channel (n_conns t e) = cn_channel (n_conns s e)"
proof (cases "cn_state (n_conns s d) = KConnected")
  case True
  let ?m = "mod_chan (cn_channel (n_conns s d)) clearEvents (mod_conn d (setState KDisconnected) s)"
  obtain u where u: "channelUpdate (cn_channel (n_conns s d)) ?m = Inr u" "channelRemove (cn_channel (n_conns u d)) u = Inr t"
    using t True by (auto simp: connectionDestryed_def assertInLoopThread_def disableAll_def result_simps)
  have "half_closed c ch l ?m" using d by (intro half_closed_others[OF h]) auto
  then have "half_closed c ch l u" by (rule half_closed_others) (simp_all add: channelUpdate_others[OF u(1)])
  then have "half_closed c ch l t" by (rule half_closed_others) (simp_all add: channelRemove_others[OF u(2)])
  moreover have "n_conns t = n_conns ?m" using channelUpdate_others(3)[OF u(1)] channelRemove_others(3)[OF u(2)] by simp
  ultimately show ?thesis by simp
next
  case False
  then have u: "channelRemove (cn_channel (n_conns s d)) s = Inr t"
    using t by (auto simp: connectionDestryed_def assertInLoopThread_def result_simps)
  have "half_closed c ch l t" by (rule half_closed_others[OF h]) (simp_all add: channelRemove_others[OF u])
  with channelRemove_others(3)[OF u] show ?thesis by simp
qed

text \<open>Destroying one connection after the other leaves a half-closed one as it is, or stops there.\<close>

lemma half_closed_keeps:
  assumes run: "\<forall>d s. run (TDestroyed d) s = connectionDestryed d s" and H: "half_closed c ch l u"
    and other: "x \<noteq> c \<Longrightarrow> cn_channel (n_conns u x) \<noteq> ch"
    and r: "runInLoop E run (cn_loop (n_conns u x)) (TDestroyed x) u = Inr w"
  shows "x \<noteq> c" "half_closed c ch l w" "cn_channel (n_conns w e) = cn_channel (n_conns u e)"
proof -
  show ne: "x \<noteq> c"
    using H r run by (auto simp: runInLoop_def half_closed_def connectionDestryed_def assertInLoopThread_def
        channelRemove_def result_simps)
  show "half_closed c ch l w" "cn_channel (n_conns w e) = cn_channel (n_conns u e)"
  proof (atomize (full), cases "isInLoopThread (cn_loop (n_conns u x)) u")
    case True
    then have "connectionDestryed x u = Inr w" using r run by (simp add: runInLoop_def)
    from connectionDestryed_others[OF H ne other[OF ne] this]
    show "half_closed c ch l w \<and> cn_channel (n_conns w e) = cn_channel (n_conns u e)" by simp
  next
    case False
    then have w: "w = queueInLoop E (cn_loop (n_conns u x)) (TDestroyed x) u" using r by (simp add: runInLoop_def)
    have "half_closed c ch l w" unfolding w using H by (auto intro!: half_closed_others[of c ch l u])
    then show "half_closed c ch l w \<and> cn_channel (n_conns w e) = cn_channel (n_conns u e)" by (simp add: w)
  qed
qed

text \<open>
  C23: a server cannot be destroyed while one of its connections is half closed: when a connection
  of \<open>connections_\<close> that lives in the current thread has been shut down for writing but not closed
  yet, \<open>~TcpServer\<close> never returns normally, because \<open>connectionDestryed\<close> disables the channel only
  of a connection in \<open>kConnected\<close> and \<open>Channel::remove\<close> insists that it is disabled.
\<close>

theorem destroy_with_half_closed_aborts:
  assumes "(k, c) \<in> set (sv_connections (n_servers s v))" and "half_closed c (cn_channel (n_conns s c)) (cn_loop (n_conns s c)) s"
    and "\<forall>(k', d) \<in> set (sv_connections (n_servers s v)). d \<noteq> c \<longrightarrow> cn_channel (n_conns s d) \<noteq> cn_channel (n_conns s c)"
    and "\<forall>d s. run (TDestroyed d) s = connectionDestryed d s"
  shows "dtorServer E run v s \<noteq> Inr t"
proof
  assume d: "dtorServer E run v s = Inr t"
  let ?f = "\<lambda>(k :: string, c) s. runInLoop E run (cn_loop (n_conns s c)) (TDestroyed c) s"
  let ?P = "\<lambda>u. half_closed c (cn_channel (n_conns s c)) (cn_loop (n_conns s c)) u \<and>
    (\<forall>e. cn_channel (n_conns u e) = cn_channel (n_conns s e))"
  obtain xs ys where split: "sv_connections (n_servers s v) = xs @ (k, c) # ys" using assms(1) by (auto dest: split_list)
  from d obtain w where "foldR ?f (sv_connections (n_servers s v)) s = Inr w"
    by (auto simp: dtorServer_def assertInLoopThread_def result_simps)
  then obtain u w' where u: "foldR ?f xs s = Inr u" "?f (k, c) u = Inr w'"
    unfolding split foldR_append by (auto simp: result_simps)
  have "?P w" if "e \<in> set xs" "?P u" "?f e u = Inr w" for e u w
  proof (cases e)
    case (Pair j x)
    have "x \<noteq> c \<Longrightarrow> cn_channel (n_conns u x) \<noteq> cn_channel (n_conns s c)"
      using assms(3) that(1,2) split Pair by fastforce
    with half_closed_keeps[OF assms(4) conjunct1[OF that(2)], of x E w] that(2,3) Pair show ?thesis by simp
  qed
  then have "?P u" using foldR_keeps[of xs ?P ?f s u, OF _ _ u(1)] assms(2) by blast
  with half_closed_keeps(1)[OF assms(4), of c _ _ u c E w'] u(2) show False by auto
qed

theorem destroy_with_half_closed_aborts_witness:
  "\<forall>t. dtorServer sampleEnv (\<lambda>t s. case t of TDestroyed d \<Rightarrow> connectionDestryed d s | _ \<Rightarrow> Inr s) 0
     (mod_server 0 (\<lambda>sv. sv\<lparr>sv_connections := [(''c'', 0)]\<rparr>) (mod_conn 0 (setState KDisconnecting) sampleServers)) \<noteq> Inr t"
proof -
  let ?s = "mod_server 0 (\<lambda>sv. sv\<lparr>sv_connections := [(''c'', 0)]\<rparr>) (mod_conn 0 (setState KDisconnecting) sampleServers)"
  have "half_closed 0 (cn_channel (n_conns ?s 0)) (cn_loop (n_conns ?s 0)) ?s"
    using sampleServers_ok(3) sampleReading_ok(4)
    by (simp add: half_closed_def sampleConn_def isInLoopThread_def isNoneEvent_def event_masks mkChannel_def)
  then show ?thesis by (intro allI destroy_with_half_closed_aborts[of "''c''" 0]) simp_all
qed

text \<open>The acceptor's channel is not removed either: its loop goes on polling a closed descriptor.\<close>

lemma dtorAcceptor_still_polled:
  "dtorAcceptor E a s = Inr t \<Longrightarrow> loop_interest l t = loop_interest l s \<and>
     (\<exists>r. r_trace t = r_trace s @ [SysClose (ac_sockfd (n_acceptors s a)) r])"
  by (auto simp: dtorAcceptor_def dtorSocket_def closeSocket_def Let_def result_simps split: if_splits)

end
