(* ===== verification/Program.thy ===== *)
theory Program
  imports TcpServer
begin

text \<open>
  The closures of the library at work: \<open>run_task\<close> calls the member function a closure is bound to,
  and \<open>main_server_version1.cc\<close> is the program that serves with them.  The invariant \<open>world_ok\<close>
  says that every closure stored anywhere is a sensible one; every closure keeps it, so the
  contract of the event loop's callbacks holds of the model, and with it what was proved under
  that contract.
\<close>

section \<open>Calling a closure\<close>

text \<open>
  The closures of the user of the library are called by \<open>usr\<close>, which gets the interpreter for the
  calls it makes.  The first argument bounds the nesting of calls; \<open>run_task_deep\<close> shows that four
  levels are enough.  The closure \<open>std::bind(&TcpConnection::writeCompleteCallback_, conn)\<close> binds a
  data member, so calling it gives the member and does nothing else.
\<close>

fun run_task ::
  "'b env \<Rightarrow> (('b, 'z) serv_runner \<Rightarrow> ('b, 'z) serv_runner) \<Rightarrow> nat \<Rightarrow> ('b, 'z) serv_runner" where
  "run_task E usr 0 t s = Inl (External ''call depth'')"
| "run_task E usr (Suc n) t s =
     (case t of
        TWakeupRead l \<Rightarrow> Inr (wakeupRead E l s)
      | TTimerRead l \<Rightarrow> timerRead E (run_task E usr n) l s
      | TAddTimer l p \<Rightarrow> addTimerInLoop E l p s
      | TAcceptorRead a \<Rightarrow> acceptorRead E (run_task E usr n) a s
      | TListen a \<Rightarrow> acceptorListen E a s
      | TConnRead c now \<Rightarrow> connRead E (run_task E usr n) c now s
      | TConnWrite c \<Rightarrow> connWrite E c s
      | TConnClose c \<Rightarrow> connClose (run_task E usr n) c s
      | TSendInLoop c msg \<Rightarrow> sendInLoop E c msg s
      | TShutdownInLoop c \<Rightarrow> shutdownInLoop E c s
      | TWriteComplete c \<Rightarrow> Inr s
      | TEstablished c \<Rightarrow> connectionEstablished (run_task E usr n) c s
      | TDestroyed c \<Rightarrow> connectionDestryed c s
      | TNewConnection v fd peer \<Rightarrow> onNewConnection E (run_task E usr n) v fd peer s
      | TRemoveConnection v c \<Rightarrow> removeConnection E (run_task E usr n) v c s
      | TRemoveInLoop v c \<Rightarrow> removeConnectionInLoop E v c s
      | _ \<Rightarrow> usr (run_task E usr n) t s)"

section \<open>The server program\<close>

text \<open>
  \<open>main_server_version1.cc\<close>: the callbacks \<open>connectionFunc\<close>, \<open>messageFunc\<close> and \<open>quitFunc\<close> are the
  user's closures number 0, 1 and 2; \<open>g_loop\<close> is an argument.  What is printed is not modelled.
\<close>

definition newline :: string where
  "newline = [CHR 0x0A]"

definition connectionFunc :: "'b env \<Rightarrow> ('b, 'z) serv_runner \<Rightarrow> conn_id \<Rightarrow> ('b, 'z) servs \<Rightarrow> ('b, 'z) servs result" where
  "connectionFunc E run c s = send E run c (''Connection has established'' @ newline) s"

text \<open>\<open>retrieveAllAsString\<close> gives the readable bytes and retrieves them.\<close>

definition messageFunc :: "'b env \<Rightarrow> ('b, 'z) serv_runner \<Rightarrow> conn_id \<Rightarrow> ('b, 'z) servs \<Rightarrow> ('b, 'z) servs result" where
  "messageFunc E run c s =
     (let buf = cn_inputBuffer (n_conns s c); msg = buf_peek E buf in
      bindR (buf_retrieve E buf (buf_readableBytes E buf)) (\<lambda>buf.
      send E run c (''server sends this message back - '' @ msg)
        (mod_conn c (\<lambda>cn. cn\<lparr>cn_inputBuffer := buf\<rparr>) s)))"

definition quitFunc :: "'b env \<Rightarrow> loop_id \<Rightarrow> ('b, 'z) servs \<Rightarrow> ('b, 'z) servs" where
  "quitFunc E g_loop s = quit E g_loop s"

definition echo_user :: "'b env \<Rightarrow> loop_id \<Rightarrow> ('b, 'z) serv_runner \<Rightarrow> ('b, 'z) serv_runner" where
  "echo_user E g_loop run t s =
     (case t of
        TUserConnection n c \<Rightarrow> if n = 0 then connectionFunc E run c s else Inr s
      | TUserMessage n c now \<Rightarrow> if n = 1 then messageFunc E run c s else Inr s
      | TUser n \<Rightarrow> if n = 2 then Inr (quitFunc E g_loop s) else Inr s
      | _ \<Rightarrow> Inr s)"

text \<open>\<open>main\<close> up to \<open>loop.loop()\<close>, and as a whole with the destructors of its variables.\<close>

definition serverSetup ::
  "'b env \<Rightarrow> (loop_id \<Rightarrow> ('b, 'z) serv_runner) \<Rightarrow> int \<Rightarrow> ('b, 'z) servs \<Rightarrow> (loop_id \<times> server_id \<times> ('b, 'z) servs) result" where
  "serverSetup E run threads s =
     bindR (newEventLoop E s) (\<lambda>(l, s).
     bindR (newServer E l (Inet 45670) s) (\<lambda>(v, s).
     let s = mod_server v (svSetConnectionCallback (Some (\<lambda>c. TUserConnection 0 c))) s;
         s = mod_server v (svSetMessageCallback (Some (\<lambda>c now. TUserMessage 1 c now))) s in
     bindR (setThreadNum v threads s) (\<lambda>s.
     bindR (start E (run l) v s) (\<lambda>s. Inr (l, v, s)))))"

definition serverMain ::
  "'b env \<Rightarrow> nat \<Rightarrow> ('b, 'z) servs \<Rightarrow> ('b, 'z) servs result option" where
  "serverMain E fuel s =
     (let run = (\<lambda>l. run_task E (echo_user E l) 4) in
      case serverSetup E run 4 s of
        Inl e \<Rightarrow> Some (Inl e)
      | Inr (l, v, s) \<Rightarrow>
          map_option (\<lambda>r. bindR r (\<lambda>s. bindR (dtorServer E (run l) v s) (dtorEventLoop E l)))
            (loop E (run l) fuel l s))"

section \<open>The invariant\<close>

definition is_user :: "task \<Rightarrow> bool" where
  "is_user t \<longleftrightarrow> (case t of TUser _ \<Rightarrow> True | TUserConnection _ _ \<Rightarrow> True | TUserMessage _ _ _ \<Rightarrow> True
     | TUserAccept _ _ _ \<Rightarrow> True | TUserInit _ _ \<Rightarrow> True | _ \<Rightarrow> False)"

definition task_ok :: "task \<Rightarrow> bool" where
  "task_ok t \<longleftrightarrow> (case t of TNewConnection v fd peer \<Rightarrow> 0 \<le> fd | _ \<Rightarrow> True)"

lemma is_user_ok: "is_user t \<Longrightarrow> task_ok t"
  by (simp add: is_user_def task_ok_def split: task.splits)

definition chan_good :: "chan_id \<Rightarrow> 'z reactor_scheme \<Rightarrow> bool" where
  "chan_good c s \<longleftrightarrow> c < r_nextChan s \<and> 0 \<le> ch_fd (r_chans s c)"

definition conn_cbs_ok :: "'b conn \<Rightarrow> bool" where
  "conn_cbs_ok cn \<longleftrightarrow>
     (\<forall>f d. cn_connectionCallback cn = Some f \<longrightarrow> is_user (f d)) \<and>
     (\<forall>f d now. cn_messageCallback cn = Some f \<longrightarrow> is_user (f d now)) \<and>
     (\<forall>f d. cn_closeCallback cn = Some f \<longrightarrow> (\<exists>v. f d = TRemoveConnection v d))"

definition acceptor_cb_ok :: "acceptor \<Rightarrow> bool" where
  "acceptor_cb_ok ac \<longleftrightarrow>
     (\<forall>f fd peer. ac_cb ac = Some f \<longrightarrow> (\<exists>v. f fd peer = TNewConnection v fd peer) \<or> is_user (f fd peer))"

definition server_cbs_ok :: "server \<Rightarrow> bool" where
  "server_cbs_ok sv \<longleftrightarrow>
     (\<forall>f d. sv_connectionCallback sv = Some f \<longrightarrow> is_user (f d)) \<and>
     (\<forall>f d now. sv_messageCallback sv = Some f \<longrightarrow> is_user (f d now))"

definition world_ok :: "('b, 'z) servs \<Rightarrow> bool" where
  "world_ok s \<longleftrightarrow> reactor_wf s \<and>
     (\<forall>c now. \<forall>t \<in> callbacks_of (r_chans s c) now. task_ok t) \<and>
     (\<forall>l. \<forall>t \<in> set (el_funcQueue (r_loops s l)). task_ok t) \<and>
     (\<forall>p tm. r_timers s p = Some tm \<longrightarrow> is_user (tm_callback tm)) \<and>
     (\<forall>c. chan_good (cn_channel (n_conns s c)) s \<and> conn_cbs_ok (n_conns s c)) \<and>
     (\<forall>a. chan_good (ac_channel (n_acceptors s a)) s \<and> acceptor_cb_ok (n_acceptors s a)) \<and>
     (\<forall>v. server_cbs_ok (n_servers s v))"

lemma world_okD:
  assumes "world_ok s"
  shows "reactor_wf s" "t \<in> callbacks_of (r_chans s c) now \<Longrightarrow> task_ok t"
    "t \<in> set (el_funcQueue (r_loops s l)) \<Longrightarrow> task_ok t" "r_timers s p = Some tm \<Longrightarrow> is_user (tm_callback tm)"
    "chan_good (cn_channel (n_conns s d)) s" "conn_cbs_ok (n_conns s d)"
    "chan_good (ac_channel (n_acceptors s a)) s" "acceptor_cb_ok (n_acceptors s a)" "server_cbs_ok (n_servers s v)"
  using assms unfolding world_ok_def by blast+

text \<open>The same objects, whatever else of the reactor changed.\<close>

definition same_objects :: "('b, 'z) servs \<Rightarrow> ('b, 'z) servs \<Rightarrow> bool" where
  "same_objects s t \<longleftrightarrow> n_conns t = n_conns s \<and> n_acceptors t = n_acceptors s \<and> n_servers t = n_servers s"

lemma world_ok_reactor:
  assumes w: "world_ok s" and obj: "same_objects s t" and wf: "reactor_wf t" and nx: "r_nextChan s \<le> r_nextChan t"
    and fd: "\<And>c. c < r_nextChan s \<Longrightarrow> ch_fd (r_chans t c) = ch_fd (r_chans s c)"
    and cb: "\<And>c now u. u \<in> callbacks_of (r_chans t c) now \<Longrightarrow> u \<in> callbacks_of (r_chans s c) now \<or> task_ok u"
    and q: "\<And>l u. u \<in> set (el_funcQueue (r_loops t l)) \<Longrightarrow> u \<in> set (el_funcQueue (r_loops s l)) \<or> task_ok u"
    and tm: "\<And>p x. r_timers t p = Some x \<Longrightarrow> is_user (tm_callback x)"
  shows "world_ok t"
proof -
  note D = world_okD[OF w]
  have "chan_good c s \<Longrightarrow> chan_good c t" for c using nx fd by (auto simp: chan_good_def)
  moreover have "task_ok u" if "u \<in> callbacks_of (r_chans t c) now" for u c now using cb[OF that] D(2) by blast
  moreover have "task_ok u" if "u \<in> set (el_funcQueue (r_loops t l))" for u l using q[OF that] D(3) by blast
  ultimately show ?thesis using D(5-9) wf tm obj unfolding world_ok_def same_objects_def by auto
qed

text \<open>Nothing of the reactor changed but the trace, the thread, or the bookkeeping of a loop.\<close>

lemma world_ok_objects:
  assumes w: "world_ok s" and r: "r_chans t = r_chans s" "r_nextChan t = r_nextChan s" "r_loops t = r_loops s"
      "r_timers t = r_timers s"
    and cn: "\<And>c. cn_channel (n_conns t c) = cn_channel (n_conns s c) \<or> chan_good (cn_channel (n_conns t c)) s"
      "\<And>c. conn_cbs_ok (n_conns t c)"
    and ac: "\<And>a. ac_channel (n_acceptors t a) = ac_channel (n_acceptors s a)" "\<And>a. acceptor_cb_ok (n_acceptors t a)"
    and sv: "\<And>v. server_cbs_ok (n_servers t v)"
  shows "world_ok t"
proof -
  note D = world_okD[OF w]
  have "reactor_wf t" using D(1) by (rule reactor_wf_cong) (simp_all add: r)
  moreover have g: "chan_good c t = chan_good c s" for c by (simp add: chan_good_def r)
  moreover have "chan_good (cn_channel (n_conns t c)) s" for c using cn(1)[of c] D(5)[of c] by auto
  ultimately show ?thesis using D(2-4,7) cn(2) ac sv unfolding world_ok_def by (simp add: r)
qed

section \<open>Every operation keeps it\<close>

named_theorems keeps_world

lemma same_objects_sel [simp]:
  "same_objects s s" "same_objects s (emit e t) = same_objects s t" "same_objects s (mod_chan c g t) = same_objects s t"
  "same_objects s (mod_loop l f t) = same_objects s t" "same_objects s (set_ps l ps t) = same_objects s t"
  "same_objects s (set_timer p x t) = same_objects s t" "same_objects s (set_timers l ts t) = same_objects s t"
  "same_objects s (queueInLoop E l u t) = same_objects s t"
  by (simp_all add: same_objects_def emit_def mod_chan_def mod_loop_def set_ps_def set_timer_def set_timers_def
      queueInLoop_def wakeup_def Let_def)

lemma world_emit [keeps_world]: "world_ok s \<Longrightarrow> world_ok (emit e s)"
  by (rule world_ok_objects) (auto dest: world_okD)

lemma world_mod_conn:
  assumes "world_ok s" and "cn_channel (f (n_conns s c)) = cn_channel (n_conns s c) \<or> chan_good (cn_channel (f (n_conns s c))) s"
    and "conn_cbs_ok (f (n_conns s c))"
  shows "world_ok (mod_conn c f s)"
  using assms by (intro world_ok_objects[OF assms(1)]) (auto dest: world_okD)

lemma world_mod_acceptor:
  assumes "world_ok s" and "ac_channel (f (n_acceptors s a)) = ac_channel (n_acceptors s a)" and "acceptor_cb_ok (f (n_acceptors s a))"
  shows "world_ok (mod_acceptor a f s)"
  using assms by (intro world_ok_objects[OF assms(1)]) (auto dest: world_okD simp: mod_acceptor_def)

lemma world_mod_server:
  assumes "world_ok s" and "server_cbs_ok (f (n_servers s v))"
  shows "world_ok (mod_server v f s)"
  using assms by (intro world_ok_objects[OF assms(1)]) (auto dest: world_okD)

lemma world_mod_chan:
  assumes "world_ok s" and "keeps_identity g"
    and "\<And>now. callbacks_of (g (r_chans s c)) now \<subseteq> callbacks_of (r_chans s c) now"
  shows "world_ok (mod_chan c g s)"
proof (rule world_ok_reactor[OF assms(1)])
  show "reactor_wf (mod_chan c g s)" using world_okD(1)[OF assms(1)] by (rule mod_chan_identity(1)[OF assms(2)])
qed (use assms in \<open>auto simp: keeps_identity_def dest: world_okD split: if_splits\<close>)

lemma callbacks_of_update [simp]:
  "callbacks_of (set_index i ch) now = callbacks_of ch now" "callbacks_of (set_revent r ch) now = callbacks_of ch now"
  "callbacks_of (addReadEvent ch) now = callbacks_of ch now" "callbacks_of (addWriteEvent ch) now = callbacks_of ch now"
  "callbacks_of (clearEvents ch) now = callbacks_of ch now" "callbacks_of (disableWriteEvent ch) now = callbacks_of ch now"
  "callbacks_of (ch\<lparr>ch_isHandling := b\<rparr>) now = callbacks_of ch now"
  "callbacks_of (ch\<lparr>ch_events := e\<rparr>) now = callbacks_of ch now" "callbacks_of (mkChannel l fd) now = {}"
  by (simp_all add: callbacks_of_def set_index_def set_revent_def addReadEvent_def addWriteEvent_def clearEvents_def
      disableWriteEvent_def mkChannel_def)

lemma world_mod_loop:
  assumes "world_ok s" and "el_poller (f (r_loops s l)) = el_poller (r_loops s l)"
    and "\<And>u. u \<in> set (el_funcQueue (f (r_loops s l))) \<Longrightarrow> u \<in> set (el_funcQueue (r_loops s l)) \<or> task_ok u"
  shows "world_ok (mod_loop l f s)"
proof (rule world_ok_reactor[OF assms(1)])
  show "reactor_wf (mod_loop l f s)" using world_okD(1)[OF assms(1)] assms(2) by (rule reactor_wf_mod_loop)
qed (use assms in \<open>auto dest: world_okD split: if_splits\<close>)

lemma world_queueInLoop [keeps_world]: "world_ok s \<Longrightarrow> task_ok t \<Longrightarrow> world_ok (queueInLoop E l t s)"
  unfolding queueInLoop_def Let_def wakeup_def
  by (cases "\<not> isInLoopThread l (mod_loop l (\<lambda>el. el\<lparr>el_funcQueue := el_funcQueue el @ [t]\<rparr>) s)
      \<or> el_isExecuteQueueFunc (r_loops (mod_loop l (\<lambda>el. el\<lparr>el_funcQueue := el_funcQueue el @ [t]\<rparr>) s) l)")
    (auto intro!: world_emit world_mod_loop)

lemma world_set_timer [keeps_world]:
  "world_ok s \<Longrightarrow> (\<And>x'. x = Some x' \<Longrightarrow> is_user (tm_callback x')) \<Longrightarrow> world_ok (set_timer p x s)"
  by (rule world_ok_reactor[of s]) (auto dest: world_okD split: if_splits intro: reactor_wf_cong)

lemma world_set_timers [keeps_world]: "world_ok s \<Longrightarrow> world_ok (set_timers l ts s)"
  unfolding set_timers_def by (rule world_mod_loop) auto

text \<open>Changes of a poller.\<close>

lemma updateChannel_only_index:
  "updateChannel c (cs, p) = Inr (cs', p') \<Longrightarrow> \<exists>i. cs' d = set_index i (cs d)"
  by (erule updateChannel_cases) (auto simp: set_index_def intro: exI[of _ "ch_index (cs d)"])

lemma removeChannel_only_index:
  "removeChannel b c (cs, p) = Inr (cs', p') \<Longrightarrow> \<exists>i. cs' d = set_index i (cs d)"
  by (erule removeChannel_cases) (auto simp: set_index_def intro: exI[of _ "ch_index (cs d)"])

lemma world_set_ps:
  assumes "world_ok s" and "reactor_wf (set_ps l (cs, p) s)" and "\<And>d. \<exists>i. cs d = set_index i (r_chans s d)"
  shows "world_ok (set_ps l (cs, p) s)"
proof (rule world_ok_reactor[OF assms(1) _ assms(2)])
  fix c now
  obtain i where i: "cs c = set_index i (r_chans s c)" using assms(3) by blast
  then show "ch_fd (r_chans (set_ps l (cs, p) s) c) = ch_fd (r_chans s c)" by (simp add: set_index_def)
  fix u assume "u \<in> callbacks_of (r_chans (set_ps l (cs, p) s) c) now"
  then show "u \<in> callbacks_of (r_chans s c) now \<or> task_ok u" by (simp add: i)
qed (use assms(1) in \<open>auto dest: world_okD split: if_splits\<close>)

lemma world_channelUpdate:
  assumes w: "world_ok s" and c: "chan_good c s" and t: "channelUpdate c s = Inr t"
  shows "world_ok t"
proof -
  let ?l = "ch_ownerLoop (r_chans s c)"
  obtain cs p where u: "updateChannel c (r_chans s, el_poller (r_loops s ?l)) = Inr (cs, p)" "t = set_ps ?l (cs, p) s"
    using t by (auto simp: channelUpdate_def loopUpdateChannel_def loop_ps_def result_simps)
  have "reactor_wf t" using channelUpdate_wf[OF world_okD(1)[OF w] _ _ t] c by (simp add: chan_good_def)
  with w updateChannel_only_index[OF u(1)] show ?thesis unfolding u(2) by (intro world_set_ps)
qed

lemma world_channel_ops:
  assumes w: "world_ok s" and c: "chan_good c s"
  shows "enableRead c s = Inr t \<Longrightarrow> world_ok t" "enableWrite c s = Inr t \<Longrightarrow> world_ok t"
    "disableAll c s = Inr t \<Longrightarrow> world_ok t"
proof -
  have m: "world_ok (mod_chan c g s)" "chan_good c (mod_chan c g s)"
    if "g \<in> {addReadEvent, addWriteEvent, clearEvents}" for g
    using that w c by (auto intro!: world_mod_chan simp: chan_good_def addReadEvent_def addWriteEvent_def clearEvents_def)
  show "enableRead c s = Inr t \<Longrightarrow> world_ok t" unfolding enableRead_def by (rule world_channelUpdate[OF m]) auto
  show "enableWrite c s = Inr t \<Longrightarrow> world_ok t" unfolding enableWrite_def by (rule world_channelUpdate[OF m]) auto
  show "disableAll c s = Inr t \<Longrightarrow> world_ok t" unfolding disableAll_def by (rule world_channelUpdate[OF m]) auto
qed

lemma world_disableWrite [keeps_world]: "world_ok s \<Longrightarrow> world_ok (disableWrite c s)"
  unfolding disableWrite_def by (rule world_mod_chan) auto

lemma world_channelRemove:
  assumes w: "world_ok s" and t: "channelRemove c s = Inr t"
  shows "world_ok t"
proof -
  let ?l = "ch_ownerLoop (r_chans s c)"
  obtain cs p where u: "removeChannel True c (r_chans s, el_poller (r_loops s ?l)) = Inr (cs, p)" "t = set_ps ?l (cs, p) s"
    using t by (auto simp: channelRemove_def loopRemoveChannel_def assertInLoopThread_def loop_ps_def result_simps)
  have "reactor_wf t"
    using t world_okD(1)[OF w] by (auto simp: channelRemove_def result_simps intro: loopRemoveChannel_wf)
  with w removeChannel_only_index[OF u(1)] show ?thesis unfolding u(2) by (intro world_set_ps)
qed

definition run_keeps_world :: "('b, 'z) serv_runner \<Rightarrow> bool" where
  "run_keeps_world run \<longleftrightarrow> (\<forall>t s s'. world_ok s \<longrightarrow> task_ok t \<longrightarrow> run t s = Inr s' \<longrightarrow> world_ok s')"

lemma run_keeps_worldD: "run_keeps_world run \<Longrightarrow> world_ok s \<Longrightarrow> task_ok t \<Longrightarrow> run t s = Inr s' \<Longrightarrow> world_ok s'"
  by (auto simp: run_keeps_world_def)

lemma runInLoop_world:
  "run_keeps_world run \<Longrightarrow> world_ok s \<Longrightarrow> task_ok t \<Longrightarrow> runInLoop E run l t s = Inr s' \<Longrightarrow> world_ok s'"
  by (auto simp: runInLoop_def dest: run_keeps_worldD intro: world_queueInLoop split: if_splits)

lemma callSet_world:
  "run_keeps_world run \<Longrightarrow> world_ok s \<Longrightarrow> (\<And>t. cb = Some t \<Longrightarrow> task_ok t) \<Longrightarrow> callSet w run cb s = Inr s' \<Longrightarrow> world_ok s'"
  by (auto simp: callSet_def dest: run_keeps_worldD split: option.splits)

lemma conn_cbs_task_ok:
  assumes "world_ok s"
  shows "map_option (\<lambda>f. f d) (cn_closeCallback (n_conns s c)) = Some t \<Longrightarrow> task_ok t"
    "map_option (\<lambda>f. f d) (cn_connectionCallback (n_conns s c)) = Some t \<Longrightarrow> task_ok t"
    "map_option (\<lambda>f. f d now) (cn_messageCallback (n_conns s c)) = Some t \<Longrightarrow> task_ok t"
proof -
  note D = world_okD(6)[OF assms, of c, unfolded conn_cbs_ok_def]
  show "map_option (\<lambda>f. f d) (cn_closeCallback (n_conns s c)) = Some t \<Longrightarrow> task_ok t"
    using D by (auto simp: task_ok_def split: task.splits) (metis task.distinct)+
  show "map_option (\<lambda>f. f d) (cn_connectionCallback (n_conns s c)) = Some t \<Longrightarrow> task_ok t"
    "map_option (\<lambda>f. f d now) (cn_messageCallback (n_conns s c)) = Some t \<Longrightarrow> task_ok t"
    using D by (auto intro: is_user_ok)
qed

lemma conn_cbs_ok_update [simp]:
  "conn_cbs_ok (setState st cn) = conn_cbs_ok cn"
  "conn_cbs_ok (cn\<lparr>cn_inputBuffer := b\<rparr>) = conn_cbs_ok cn" "conn_cbs_ok (cn\<lparr>cn_outputBuffer := b\<rparr>) = conn_cbs_ok cn"
  by (simp_all add: conn_cbs_ok_def setState_def)

lemma world_conn_field [keeps_world]:
  "world_ok s \<Longrightarrow> world_ok (mod_conn c (setState st) s)"
  "world_ok s \<Longrightarrow> world_ok (mod_conn c (\<lambda>cn. cn\<lparr>cn_inputBuffer := b cn\<rparr>) s)"
  "world_ok s \<Longrightarrow> world_ok (mod_conn c (\<lambda>cn. cn\<lparr>cn_outputBuffer := b cn\<rparr>) s)"
  by (rule world_mod_conn; simp add: world_okD)+

lemma connClose_world:
  assumes run: "run_keeps_world run" and w: "world_ok s" and t: "connClose run c s = Inr t"
  shows "world_ok t"
proof -
  obtain u where u: "disableAll (cn_channel (n_conns s c)) (mod_conn c (setState KDisconnected) s) = Inr u"
    "callSet ''closeCallback_'' run (map_option (\<lambda>f. f c) (cn_closeCallback (n_conns u c))) u = Inr t"
    using t by (auto simp: connClose_def assertInLoopThread_def result_simps)
  have m: "world_ok (mod_conn c (setState KDisconnected) s)" using w by (rule keeps_world)
  have "chan_good (cn_channel (n_conns s c)) (mod_conn c (setState KDisconnected) s)"
    using world_okD(5)[OF w, of c] by (simp add: chan_good_def)
  from world_channel_ops(3)[OF m this u(1)] have "world_ok u" .
  from callSet_world[OF run this conn_cbs_task_ok(1)[OF this] u(2)] show ?thesis .
qed

lemma connRead_world:
  assumes run: "run_keeps_world run" and w: "world_ok s" and t: "connRead E run c now s = Inr t"
  shows "world_ok t"
proof -
  obtain n b e where r: "buf_readFd E (r_trace s) (cn_inputBuffer (n_conns s c)) (cn_sockfd (n_conns s c)) = (n, b, e)"
    by (metis prod_cases3)
  let ?u = "emit (SysRead (cn_sockfd (n_conns s c)) n) (mod_conn c (\<lambda>cn. cn\<lparr>cn_inputBuffer := b\<rparr>) s)"
  have wu: "world_ok ?u" by (intro keeps_world w)
  from t r consider "callSet ''messageCallback_'' run (map_option (\<lambda>f. f c now) (cn_messageCallback (n_conns ?u c))) ?u = Inr t"
    | "connClose run c ?u = Inr t" | "t = ?u"
    by (auto simp: connRead_def assertInLoopThread_def Let_def result_simps connError_def split: if_splits)
  then show ?thesis
  proof cases
    case 1
    show ?thesis by (rule callSet_world[OF run wu conn_cbs_task_ok(3)[OF wu] 1])
  next
    case 2
    then show ?thesis by (rule connClose_world[OF run wu])
  qed (simp only: wu)
qed

lemma queueWriteComplete_world [keeps_world]: "world_ok s \<Longrightarrow> world_ok (queueWriteComplete E c s)"
  by (auto simp: queueWriteComplete_def task_ok_def intro!: keeps_world)

lemma shutdownInLoop_world: "world_ok s \<Longrightarrow> shutdownInLoop E c s = Inr t \<Longrightarrow> world_ok t"
  by (auto simp: shutdownInLoop_def assertInLoopThread_def result_simps shutdownWrite_def intro!: keeps_world)

lemma connWrite_world:
  assumes w: "world_ok s" and t: "connWrite E c s = Inr t"
  shows "world_ok t"
proof -
  let ?fd = "cn_sockfd (n_conns s c)"
  obtain ret bs out where "t = s \<or>
     (let u = mod_conn c (\<lambda>cn. cn\<lparr>cn_outputBuffer := out\<rparr>) (emit (SysWrite ?fd bs ret) s);
          v = queueWriteComplete E c (disableWrite (cn_channel (n_conns u c)) u) in
      t = u \<or> t = v \<or> shutdownInLoop E c v = Inr t)"
    using t by (auto simp: connWrite_def assertInLoopThread_def sysWrite_def Let_def result_simps split: if_splits)
  moreover have u: "world_ok (mod_conn c (\<lambda>cn. cn\<lparr>cn_outputBuffer := out\<rparr>) (emit (SysWrite ?fd bs ret) s))"
    (is "world_ok ?u") by (intro keeps_world w)
  moreover have v: "world_ok (queueWriteComplete E c (disableWrite (cn_channel (n_conns ?u c)) ?u))"
    by (intro keeps_world w)
  ultimately show ?thesis using w shutdownInLoop_world[OF v] unfolding Let_def by blast
qed

lemma sendInLoop_world:
  assumes w: "world_ok s" and t: "sendInLoop E c m s = Inr t"
  shows "world_ok t"
proof -
  obtain u where u: "world_ok u" "n_conns u = n_conns s" "r_chans u = r_chans s" "r_nextChan u = r_nextChan s"
    "t = queueWriteComplete E c u \<or> (\<exists>k. let v = mod_conn c (\<lambda>cn. cn\<lparr>cn_outputBuffer :=
        buf_append E (cn_outputBuffer cn) (drop k m)\<rparr>) u in
      t = v \<or> enableWrite (cn_channel (n_conns v c)) v = Inr t)"
  proof (cases "\<not> isWriting (conn_chan c s) \<and> buf_readableBytes E (cn_outputBuffer (n_conns s c)) = 0")
    case True
    let ?u = "snd (sysWrite E (cn_sockfd (n_conns s c)) m s)"
    have "world_ok ?u" "n_conns ?u = n_conns s" "r_chans ?u = r_chans s" "r_nextChan ?u = r_nextChan s"
      using w by (simp_all add: sysWrite_def Let_def keeps_world)
    moreover have "t = queueWriteComplete E c ?u \<or> (\<exists>k. let v = mod_conn c (\<lambda>cn. cn\<lparr>cn_outputBuffer :=
        buf_append E (cn_outputBuffer cn) (drop k m)\<rparr>) ?u in
      t = v \<or> enableWrite (cn_channel (n_conns v c)) v = Inr t)"
      using t True by (auto simp: sendInLoop_def assertInLoopThread_def sysWrite_def Let_def result_simps split: if_splits)
    ultimately show thesis by (rule that)
  next
    case False
    show thesis
    proof (rule that[of s])
      have "t = queueWriteComplete E c s \<or> (let v = mod_conn c (\<lambda>cn. cn\<lparr>cn_outputBuffer :=
        buf_append E (cn_outputBuffer cn) (drop 0 m)\<rparr>) s in
      t = v \<or> enableWrite (cn_channel (n_conns v c)) v = Inr t)"
        using t False by (auto simp: sendInLoop_def assertInLoopThread_def Let_def result_simps split: if_splits)
      then show "t = queueWriteComplete E c s \<or> (\<exists>k. let v = mod_conn c (\<lambda>cn. cn\<lparr>cn_outputBuffer :=
        buf_append E (cn_outputBuffer cn) (drop k m)\<rparr>) s in
      t = v \<or> enableWrite (cn_channel (n_conns v c)) v = Inr t)"
        by (rule disj_forward) (assumption, rule exI[of _ 0], assumption)
    qed (use w in simp_all)
  qed
  have v: "world_ok (mod_conn c (\<lambda>cn. cn\<lparr>cn_outputBuffer := buf_append E (cn_outputBuffer cn) (drop k m)\<rparr>) u)"
    "chan_good (cn_channel (n_conns (mod_conn c (\<lambda>cn. cn\<lparr>cn_outputBuffer := buf_append E (cn_outputBuffer cn) (drop k m)\<rparr>) u) c))
      (mod_conn c (\<lambda>cn. cn\<lparr>cn_outputBuffer := buf_append E (cn_outputBuffer cn) (drop k m)\<rparr>) u)" for k
    using u(1) world_okD(5)[OF u(1), of c] by (simp_all add: keeps_world chan_good_def)
  from u(5) show ?thesis unfolding Let_def
    using queueWriteComplete_world[OF u(1)] v world_channel_ops(2)[OF v] by blast
qed

lemma send_world:
  assumes "run_keeps_world run" and "world_ok s" and "send E run c m s = Inr t"
  shows "world_ok t"
  using assms sendInLoop_world runInLoop_world[OF assms(1,2), of "TSendInLoop c m"]
  by (auto simp: send_def task_ok_def split: if_splits)

lemma connectionEstablished_world:
  assumes run: "run_keeps_world run" and w: "world_ok s" and t: "connectionEstablished run c s = Inr t"
  shows "world_ok t"
proof -
  obtain u where u: "enableRead (cn_channel (n_conns s c)) (mod_conn c (setState KConnected) s) = Inr u"
    "callSet ''connectionCallback_'' run (map_option (\<lambda>f. f c) (cn_connectionCallback (n_conns u c))) u = Inr t"
    using t by (auto simp: connectionEstablished_def assertInLoopThread_def result_simps)
  have m: "world_ok (mod_conn c (setState KConnected) s)" using w by (rule keeps_world)
  have "chan_good (cn_channel (n_conns s c)) (mod_conn c (setState KConnected) s)"
    using world_okD(5)[OF w, of c] by (simp add: chan_good_def)
  from world_channel_ops(1)[OF m this u(1)] have "world_ok u" .
  from callSet_world[OF run this conn_cbs_task_ok(2)[OF this] u(2)] show ?thesis .
qed

lemma connectionDestryed_world:
  assumes w: "world_ok s" and t: "connectionDestryed c s = Inr t"
  shows "world_ok t"
proof -
  have m: "world_ok (mod_conn c (setState KDisconnected) s)" using w by (rule keeps_world)
  have g: "chan_good (cn_channel (n_conns s c)) (mod_conn c (setState KDisconnected) s)"
    using world_okD(5)[OF w, of c] by (simp add: chan_good_def)
  show ?thesis using t w world_channel_ops(3)[OF m g] world_channelRemove
    by (auto simp: connectionDestryed_def assertInLoopThread_def result_simps split: if_splits)
qed

lemma wakeupRead_world [keeps_world]: "world_ok s \<Longrightarrow> world_ok (wakeupRead E l s)"
  by (simp add: wakeupRead_def Let_def keeps_world)

lemma quit_world [keeps_world]: "world_ok s \<Longrightarrow> world_ok (quit E l s)"
  by (auto simp: quit_def wakeup_def Let_def intro!: world_emit world_mod_loop)

lemma resetTimerfd_world [keeps_world]: "world_ok s \<Longrightarrow> world_ok (resetTimerfd E l when s)"
  by (simp add: resetTimerfd_eq Let_def keeps_world)

lemma queueInsert_world: "world_ok s \<Longrightarrow> queueInsert l p s = Inr (b, t) \<Longrightarrow> world_ok t"
  by (auto simp: queueInsert_Inr_iff keeps_world)

lemma addTimerInLoop_world: "world_ok s \<Longrightarrow> addTimerInLoop E l p s = Inr t \<Longrightarrow> world_ok t"
  by (elim addTimerInLoop_cases) (simp_all add: keeps_world)

lemma resetOne_world: "world_ok s \<Longrightarrow> resetOne E l now e s = Inr t \<Longrightarrow> world_ok t"
proof -
  assume w: "world_ok s" and t: "resetOne E l now e s = Inr t"
  obtain x where x: "r_timers s (entry_timer e) = Some x" using t by (auto simp: resetOne_def result_simps)
  have "is_user (tm_callback (restart E now x))"
    using world_okD(4)[OF w x] by (simp add: restart_def)
  then have "world_ok (set_timer (entry_timer e) (Some (restart E now x)) s)"
    by (intro world_set_timer w) simp
  then show "world_ok t" using t x w
    by (auto simp: resetOne_def result_simps split: if_splits dest: queueInsert_world)
qed

lemma timerReset_world: "world_ok s \<Longrightarrow> timerReset E l ex now s = Inr t \<Longrightarrow> world_ok t"
proof -
  assume w: "world_ok s" and t: "timerReset E l ex now s = Inr t"
  then obtain u where u: "foldR (resetOne E l now) ex s = Inr u" and "t = u \<or> (\<exists>when. t = resetTimerfd E l when u)"
    by (elim timerReset_cases) metis+
  moreover have "world_ok u"
    by (rule foldR_keeps[of ex world_ok "resetOne E l now" s u]) (fact w u | erule (1) resetOne_world)+
  ultimately show "world_ok t" by (auto intro: keeps_world)
qed

lemma runTimer_world:
  "run_keeps_world run \<Longrightarrow> world_ok s \<Longrightarrow> runTimer run p s = Inr t \<Longrightarrow> world_ok t"
  by (auto simp: runTimer_def result_simps dest: world_okD(4) is_user_ok run_keeps_worldD)

lemma timerRead_world:
  assumes run: "run_keeps_world run" and w: "world_ok s" and t: "timerRead E run l s = Inr t"
  shows "world_ok t"
  using t
proof (rule timerRead_steps)
  fix now ex rest u
  assume f: "foldR (\<lambda>e. runTimer run (entry_timer e)) ex (set_timers l rest (emit (SysNow now) s)) = Inr u"
    and r: "timerReset E l ex now u = Inr t"
  have "world_ok (set_timers l rest (emit (SysNow now) s))" by (intro keeps_world w)
  from foldR_keeps[of ex world_ok "\<lambda>e. runTimer run (entry_timer e)", OF runTimer_world[OF run] this f] have "world_ok u" .
  then show "world_ok t" using r by (rule timerReset_world)
qed

section \<open>The acceptor and the server keep it\<close>

lemma acceptorListen_world: "world_ok s \<Longrightarrow> acceptorListen E a s = Inr t \<Longrightarrow> world_ok t"
proof -
  assume w: "world_ok s" and t: "acceptorListen E a s = Inr t"
  let ?s = "mod_acceptor a (\<lambda>ac. ac\<lparr>ac_listening := True\<rparr>) s"
  have "acceptor_cb_ok ((n_acceptors s a)\<lparr>ac_listening := True\<rparr>)"
    using world_okD(8)[OF w, of a] by (simp add: acceptor_cb_ok_def)
  then have w1: "world_ok ?s" using w by (intro world_mod_acceptor) simp_all
  from t obtain e where e: "enableRead (ac_channel (n_acceptors s a)) (emit e ?s) = Inr t"
    by (auto simp: acceptorListen_def assertInLoopThread_def Let_def socketListen_def listenOrDie_def logFatal_def
        result_simps split: if_splits)
  have "world_ok (emit e ?s)" using w1 by (rule keeps_world)
  then show "world_ok t" by (rule world_channel_ops(1)[OF _ _ e])
    (use world_okD(7)[OF w, of a] in \<open>simp add: chan_good_def\<close>)
qed

lemma acceptorRead_world:
  assumes run: "run_keeps_world run" and w: "world_ok s" and t: "acceptorRead E run a s = Inr t"
  shows "world_ok t"
proof -
  obtain fd addr where a: "accept_of E (r_trace s) (ac_sockfd (n_acceptors s a)) = (fd, addr)" by fastforce
  let ?s = "emit (SysAccept (ac_sockfd (n_acceptors s a)) fd) s"
  have w1: "world_ok ?s" using w by (rule keeps_world)
  have "task_ok (f fd addr)" if "ac_cb (n_acceptors s a) = Some f" "0 \<le> fd" for f
    using world_okD(8)[OF w, of a] that
    by (auto simp: acceptor_cb_ok_def task_ok_def is_user_def split: task.splits) (metis task.inject(19))+
  then show ?thesis using t a w1 run_keeps_worldD[OF run w1]
    by (auto simp: acceptorRead_def socketAccept_def acceptSocket_def Let_def logFatal_def result_simps
        split: if_splits option.splits)
qed

lemma newConnection_world:
  assumes w: "world_ok s" and fd: "0 \<le> fd" and n: "newConnection E l name la pa fd s = (c, t)"
  shows "world_ok t"
proof -
  let ?s0 = "s\<lparr>n_nextConn := Suc (n_nextConn s)\<rparr>"
  obtain ch s1 where nc: "newChannel l fd ?s0 = (ch, s1)" by (cases "newChannel l fd ?s0")
  have wf0: "reactor_wf ?s0" using world_okD(1)[OF w] by (rule reactor_wf_cong) simp_all
  note N = newChannel_contract[OF wf0 nc]
  let ?cn = "\<lparr>cn_loop = l, cn_state = KConnecting, cn_name = name, cn_localAddr = la,
       cn_peerAddr = pa, cn_sockfd = fd, cn_channel = ch, cn_inputBuffer = buf_empty E,
       cn_outputBuffer = buf_empty E, cn_connectionCallback = None, cn_messageCallback = None,
       cn_closeCallback = None, cn_writeCompleteCallback = None, cn_highWaterCallback = None\<rparr>"
  let ?c = "n_nextConn s"
  let ?u = "mod_conn ?c (\<lambda>_. ?cn) s1"
  have t: "t = mod_chan ch (setCloseCallback (TConnClose ?c)) (mod_chan ch (setWriteCallback (TConnWrite ?c))
      (mod_chan ch (setReadCallback (\<lambda>now. TConnRead ?c now)) ?u))"
    using n nc by (auto simp: newConnection_def Let_def)
  have s1: "r_chans s1 = (r_chans s)(ch := mkChannel l fd)" "ch = r_nextChan s" "r_nextChan s1 = Suc ch"
    "r_loops s1 = r_loops s" "r_timers s1 = r_timers s" "same_objects s s1"
    using nc by (auto simp: newChannel_def Let_def same_objects_def)
  have "world_ok s1"
    by (rule world_ok_reactor[OF w s1(6) N(1)]) (use s1 world_okD[OF w] in \<open>auto split: if_splits\<close>)
  then have wu: "world_ok ?u"
    by (rule world_mod_conn) (use fd s1 in \<open>simp_all add: chan_good_def conn_cbs_ok_def mkChannel_def\<close>)
  have "reactor_wf t" unfolding t by (intro mod_chan_identity(1) keeps_identity_ops world_okD(1)[OF wu])
  then show ?thesis
    by (rule world_ok_reactor[OF wu, rotated 1])
      (use world_okD[OF wu] s1 in \<open>auto simp: t same_objects_def mod_chan_def setReadCallback_def setWriteCallback_def
        setCloseCallback_def callbacks_of_def task_ok_def mkChannel_def split: if_splits\<close>)
qed

text \<open>\<open>onNewConnection\<close> stops before it hands the connection over, or hands it over in a good state.\<close>

lemma onNewConnection_split:
  assumes w: "world_ok s" and fd: "0 \<le> fd"
  shows "(\<exists>e. \<forall>run. onNewConnection E run v fd peer s = Inl e) \<or>
    (\<exists>l c u. world_ok u \<and> (\<forall>run. onNewConnection E run v fd peer s = runInLoop E run l (TEstablished c) u))"
proof -
  let ?sv = "n_servers s v" and ?name = "sv_name (n_servers s v) @ to_string (n_connectionIndex s)"
  let ?s1 = "s\<lparr>n_connectionIndex := n_connectionIndex s + 1\<rparr>"
  consider (fails) e where "getNextLoop (sv_threadPool ?sv) ?s1 = Inl e"
    | (null) p where "getNextLoop (sv_threadPool ?sv) ?s1 = Inr (None, p)"
    | (runs) l p where "getNextLoop (sv_threadPool ?sv) ?s1 = Inr (Some l, p)"
    by (metis option.exhaust sum.exhaust surj_pair)
  then show ?thesis
  proof cases
    case fails
    then show ?thesis by (simp add: onNewConnection_def Let_def)
  next
    case null
    then show ?thesis by (simp add: onNewConnection_def Let_def)
  next
    case g: (runs l p)
    let ?s2 = "mod_server v (\<lambda>sv. sv\<lparr>sv_threadPool := p\<rparr>) ?s1"
    obtain c s3 where n: "newConnection E l ?name (sv_addr ?sv) peer fd ?s2 = (c, s3)"
      by (cases "newConnection E l ?name (sv_addr ?sv) peer fd ?s2")
    have sv: "server_cbs_ok (?sv\<lparr>sv_threadPool := p\<rparr>)" "server_cbs_ok ?sv"
      using world_okD(9)[OF w, of v] by (simp_all add: server_cbs_ok_def)
    have "world_ok ?s1" by (rule world_ok_objects[OF w]) (use world_okD[OF w] in auto)
    then have w2: "world_ok ?s2" by (rule world_mod_server) (use sv in simp)
    have w3: "world_ok s3" by (rule newConnection_world[OF w2 fd n])
    let ?s4 = "mod_server v (\<lambda>sv. sv\<lparr>sv_connections := map_assign ?name c (sv_connections sv)\<rparr>) s3"
    have w4: "world_ok ?s4" by (rule world_mod_server[OF w3])
      (use sv(2) newConnection_servers(1)[OF n] in \<open>simp add: server_cbs_ok_def\<close>)
    let ?c1 = "mod_conn c (setConnectionCallback (sv_connectionCallback ?sv)) ?s4"
    let ?c2 = "mod_conn c (setMessageCallback (sv_messageCallback ?sv)) ?c1"
    let ?c3 = "mod_conn c (setConnCloseCallback (Some (\<lambda>d. TRemoveConnection v d))) ?c2"
    let ?u = "mod_conn c (setWriteCompleteCallback (sv_writeCompleteCallback ?sv)) ?c3"
    have c1: "world_ok ?c1" by (rule world_mod_conn[OF w4])
      (use world_okD(6)[OF w4, of c] sv(2) in \<open>auto simp: setConnectionCallback_def conn_cbs_ok_def server_cbs_ok_def\<close>)
    have c2: "world_ok ?c2" by (rule world_mod_conn[OF c1])
      (use world_okD(6)[OF c1, of c] sv(2) in \<open>auto simp: setMessageCallback_def conn_cbs_ok_def server_cbs_ok_def\<close>)
    have c3: "world_ok ?c3" by (rule world_mod_conn[OF c2])
      (use world_okD(6)[OF c2, of c] in \<open>auto simp: setConnCloseCallback_def conn_cbs_ok_def\<close>)
    have u: "world_ok ?u" by (rule world_mod_conn[OF c3])
      (use world_okD(6)[OF c3, of c] in \<open>auto simp: setWriteCompleteCallback_def conn_cbs_ok_def\<close>)
    have "onNewConnection E run v fd peer s = runInLoop E run l (TEstablished c) ?u" for run
      using g n newConnection_servers(1)[OF n] by (simp add: onNewConnection_def Let_def)
    with u show ?thesis by blast
  qed
qed

lemma onNewConnection_world:
  assumes run: "run_keeps_world run" and w: "world_ok s" and fd: "0 \<le> fd" and t: "onNewConnection E run v fd peer s = Inr t"
  shows "world_ok t"
  using onNewConnection_split[OF w fd, of E v peer]
proof (elim disjE exE conjE)
  fix l c u assume u: "world_ok u" "\<forall>run. onNewConnection E run v fd peer s = runInLoop E run l (TEstablished c) u"
  then have "runInLoop E run l (TEstablished c) u = Inr t" using t by simp
  then show ?thesis by (rule runInLoop_world[OF run u(1), rotated]) (simp add: task_ok_def)
qed (use t in simp)

lemma removeConnection_world:
  "run_keeps_world run \<Longrightarrow> world_ok s \<Longrightarrow> removeConnection E run v c s = Inr t \<Longrightarrow> world_ok t"
  unfolding removeConnection_def by (rule runInLoop_world) (auto simp: task_ok_def)

lemma removeConnectionInLoop_world:
  assumes w: "world_ok s" and t: "removeConnectionInLoop E v c s = Inr t"
  shows "world_ok t"
proof -
  obtain m where m: "t = queueInLoop E (cn_loop (n_conns s c)) (TDestroyed c) (mod_server v (\<lambda>sv. sv\<lparr>sv_connections := m\<rparr>) s)"
    using t by (auto simp: removeConnectionInLoop_def assertInLoopThread_def Let_def result_simps split: prod.splits)
  have "world_ok (mod_server v (\<lambda>sv. sv\<lparr>sv_connections := m\<rparr>) s)"
    by (rule world_mod_server[OF w]) (use world_okD(9)[OF w, of v] in \<open>simp add: server_cbs_ok_def\<close>)
  then show ?thesis unfolding m by (rule world_queueInLoop) (simp add: task_ok_def)
qed

section \<open>Every closure keeps it\<close>

text \<open>What the user's closures must do: keep the invariant whenever what they call keeps it.\<close>

definition user_keeps :: "(('b, 'z) serv_runner \<Rightarrow> ('b, 'z) serv_runner) \<Rightarrow> bool" where
  "user_keeps usr \<longleftrightarrow> (\<forall>run t s s'. run_keeps_world run \<longrightarrow> world_ok s \<longrightarrow> usr run t s = Inr s' \<longrightarrow> world_ok s')"

lemma run_task_keeps:
  assumes usr: "user_keeps usr"
  shows "run_keeps_world (run_task E usr n)"
proof (induction n)
  case 0
  then show ?case by (simp add: run_keeps_world_def)
next
  case (Suc n)
  note run = Suc.IH
  have u: "world_ok s \<Longrightarrow> usr (run_task E usr n) t s = Inr s' \<Longrightarrow> world_ok s'" for t s s'
    using usr run by (auto simp: user_keeps_def)
  show ?case unfolding run_keeps_world_def
  proof (intro allI impI)
    fix t s s' assume w: "world_ok s" "task_ok t" and r: "run_task E usr (Suc n) t s = Inr s'"
    show "world_ok s'" using r w
      by (cases t) (auto simp: task_ok_def intro: u keeps_world timerRead_world[OF run] addTimerInLoop_world
          acceptorRead_world[OF run] acceptorListen_world connRead_world[OF run] connWrite_world connClose_world[OF run]
          sendInLoop_world shutdownInLoop_world connectionEstablished_world[OF run] connectionDestryed_world
          onNewConnection_world[OF run] removeConnection_world[OF run] removeConnectionInLoop_world)
  qed
qed

lemma echo_user_keeps: "user_keeps (echo_user E l)"
  unfolding user_keeps_def
proof (intro allI impI)
  fix run t and s s' :: "('a, 'b) servs"
  assume run: "run_keeps_world run" and w: "world_ok s" and r: "echo_user E l run t s = Inr s'"
  have m: "world_ok (mod_conn c (\<lambda>cn. cn\<lparr>cn_inputBuffer := b\<rparr>) s)" for c b using w by (rule keeps_world)
  show "world_ok s'" using r w send_world[OF run w] send_world[OF run m]
    by (auto simp: echo_user_def connectionFunc_def messageFunc_def quitFunc_def Let_def result_simps keeps_world
        split: task.splits if_splits)
qed

section \<open>The poller keeps it\<close>

lemma fillActiveChannels_revents:
  "fillActiveChannels ts n m cs act = Inr (cs', act') \<Longrightarrow> \<exists>r. cs' d = set_revent r (cs d)"
proof (induction ts n m cs act rule: fillActiveChannels.induct)
  case (1 n m cs act)
  then show ?case by (auto simp: set_revent_def intro: exI[of _ "ch_revents (cs d)"])
next
  case (2 t ts n m cs act)
  show ?case
  proof (cases "n \<le> 0")
    case True
    with 2(3) show ?thesis by (auto simp: set_revent_def intro: exI[of _ "ch_revents (cs d)"])
  next
    case False
    show ?thesis
    proof (cases "0 <s pfd_revents t")
      case True
      then obtain c where c: "m (pfd_fd t) = Some c"
        "fillActiveChannels ts (n - 1) m (cs(c := set_revent (scast (pfd_revents t)) (cs c))) (act @ [c]) = Inr (cs', act')"
        using 2(3) False by (auto split: option.splits)
      from 2(1)[OF False True c(1,2)] show ?thesis by (auto simp: set_revent_def split: if_splits)
    next
      case F: False
      with 2(2)[OF False F] 2(3) False show ?thesis by simp
    qed
  qed
qed

lemma poll_keeps:
  assumes "poll E w act tr (cs, p) = Inr (now, act', (cs', p'), tr')"
  shows "\<exists>r. cs' d = set_revent r (cs d)"
    and "\<exists>revs. p' = p\<lparr>pollfds := setRevents (pollfds p) revs\<rparr>"
proof -
  have id: "\<exists>r. cs d = set_revent r (cs d)" by (auto simp: set_revent_def intro: exI[of _ "ch_revents (cs d)"])
  from assms show "\<exists>r. cs' d = set_revent r (cs d)"
    using id fillActiveChannels_revents
    by (fastforce simp: poll_def Let_def logFatal_def result_simps split: prod.splits if_splits)
  from assms show "\<exists>revs. p' = p\<lparr>pollfds := setRevents (pollfds p) revs\<rparr>"
    by (auto simp: poll_def Let_def logFatal_def result_simps split: prod.splits if_splits)
qed

lemma pfd_fd_setRevents: "map pfd_fd (setRevents ts rs) = map pfd_fd ts"
  by (induction ts rs rule: setRevents.induct) auto

lemma loopPoll_world:
  assumes w: "world_ok s" and t: "loopPoll E l s = Inr (now, t)"
  shows "world_ok t"
proof -
  let ?el = "r_loops s l"
  obtain act cs p tr where q: "poll E (el_maxWaitTimeM ?el) (el_activeChannels ?el) (r_trace s) (r_chans s, el_poller ?el) =
      Inr (now, act, (cs, p), tr)" "t = mod_loop l (\<lambda>el. el\<lparr>el_activeChannels := act\<rparr>) (set_ps l (cs, p) s\<lparr>r_trace := tr\<rparr>)"
    using t by (auto simp: loopPoll_def Let_def loop_ps_def result_simps)
  note k = poll_keeps[OF q(1)]
  have same: "ch_fd (cs c) = ch_fd (r_chans s c) \<and> ch_index (cs c) = ch_index (r_chans s c) \<and>
      ch_ownerLoop (cs c) = ch_ownerLoop (r_chans s c)" for c
    using k(1)[of c] by (auto simp: set_revent_def)
  obtain revs where p: "p = (el_poller ?el)\<lparr>pollfds := setRevents (pollfds (el_poller ?el)) revs\<rparr>" using k(2) by blast
  have fds: "pfd_fd (setRevents ts revs ! i) = pfd_fd (ts ! i)" if "i < length ts" for ts i
    using pfd_fd_setRevents[of ts revs] that by (metis length_setRevents nth_map)
  have "poller_wf (cs, p)" unfolding p
    by (rule poller_wf_revents[OF reactor_wfD(1)[OF world_okD(1)[OF w]]]) (use same fds in auto)
  then have "reactor_wf (set_ps l (cs, p) s)"
    by (rule reactor_wf_set_ps[OF world_okD(1)[OF w]])
      (use same reactor_wfD(2,3)[OF world_okD(1)[OF w]] in \<open>auto simp: p\<close>)
  moreover have "callbacks_of (cs c) now' = callbacks_of (r_chans s c) now'" for c now' using k(1)[of c] by auto
  ultimately have s1: "world_ok (set_ps l (cs, p) s)"
    by (intro world_ok_reactor[OF w]) (use same world_okD[OF w] in \<open>auto split: if_splits\<close>)
  then have "world_ok (set_ps l (cs, p) s\<lparr>r_trace := tr\<rparr>)"
    by (rule world_ok_objects) (use world_okD[OF s1] in auto)
  then show ?thesis unfolding q(2) by (rule world_mod_loop) auto
qed

section \<open>The contract of the callbacks holds\<close>

interpretation echo: reactor_callbacks E "run_task E (echo_user E g) n" world_ok "\<lambda>t s. task_ok t" for E g n
proof (unfold_locales, goal_cases)
  case (1 s t s')
  then show ?case using run_keeps_worldD[OF run_task_keeps[OF echo_user_keeps]] by blast
next
  case (5 s f l)
  then show ?case by (intro world_mod_loop) auto
qed (auto dest: world_okD loopPoll_world intro!: world_mod_chan)

section \<open>Making the objects\<close>

lemma newChannel_world:
  assumes w: "world_ok s" and fd: "0 \<le> fd" and n: "newChannel l fd s = (c, t)"
  shows "world_ok t" "chan_good c t"
proof -
  note N = newChannel_contract[OF world_okD(1)[OF w] n]
  have t: "r_chans t = (r_chans s)(c := mkChannel l fd)" "c = r_nextChan s" "r_nextChan t = Suc c"
    "r_loops t = r_loops s" "r_timers t = r_timers s" "same_objects s t"
    using n by (auto simp: newChannel_def Let_def same_objects_def)
  show "world_ok t"
    by (rule world_ok_reactor[OF w t(6) N(1)]) (use t world_okD[OF w] in \<open>auto split: if_splits\<close>)
  show "chan_good c t" using fd t by (simp add: chan_good_def mkChannel_def)
qed

lemma setReadCallback_world:
  assumes w: "world_ok s" and ok: "\<And>now. task_ok (rc now)"
  shows "world_ok (mod_chan c (setReadCallback rc) s)"
proof (rule world_ok_reactor[OF w])
  show "reactor_wf (mod_chan c (setReadCallback rc) s)" by (rule mod_chan_identity(1)[OF keeps_identity_ops(5) world_okD(1)[OF w]])
qed (use world_okD[OF w] ok in \<open>auto simp: setReadCallback_def callbacks_of_def split: if_splits\<close>)

text \<open>A channel that is made, wired and enabled, as the constructors do it.\<close>

lemma enable_new_world:
  assumes w: "world_ok s" and fd: "0 \<le> fd" and n: "newChannel l fd s = (c, s1)" and ok: "\<And>now. task_ok (rc now)"
    and f: "\<And>el. el_poller (f el) = el_poller el \<and> el_funcQueue (f el) = el_funcQueue el"
    and x: "x = s1 \<or> x = s1\<lparr>r_loopOfThread := g\<rparr>"
    and t: "enableRead c (mod_chan c (setReadCallback rc) (mod_loop l f x)) = Inr t"
  shows "world_ok t"
proof -
  note N = newChannel_world[OF w fd n]
  have "world_ok (s1\<lparr>r_loopOfThread := g\<rparr>)" by (rule world_ok_objects[OF N(1)]) (use world_okD[OF N(1)] in auto)
  then have "world_ok x" "chan_good c x" using x N by (auto simp: chan_good_def)
  then have m: "world_ok (mod_loop l f x)" using f by (intro world_mod_loop) auto
  have "chan_good c (mod_chan c (setReadCallback rc) (mod_loop l f x))"
    using \<open>chan_good c x\<close> by (simp add: chan_good_def setReadCallback_def)
  from world_channel_ops(1)[OF setReadCallback_world[OF m ok] this t] show ?thesis .
qed

lemma newTimerQueue_world:
  assumes w: "world_ok s" and fd: "0 \<le> timerfd_of E (r_trace s)" and t: "newTimerQueue E l s = Inr t"
  shows "world_ok t"
proof -
  let ?fd = "timerfd_of E (r_trace s)"
  obtain c s1 where n: "newChannel l ?fd (emit (SysTimerfd ?fd) s) = (c, s1)" by (cases "newChannel l ?fd (emit (SysTimerfd ?fd) s)")
  have e: "enableRead c (mod_chan c (setReadCallback (\<lambda>_. TTimerRead l))
      (mod_loop l (\<lambda>el. el\<lparr>el_timerQueue := \<lparr>tq_timerfd = ?fd, tq_timers = [], tq_channel = c\<rparr>\<rparr>) s1)) = Inr t"
    using t n by (simp add: newTimerQueue_def Let_def)
  show ?thesis by (rule enable_new_world[OF world_emit[OF w] fd n _ _ _ e]) (simp_all add: task_ok_def)
qed

lemma newEventLoop_world:
  assumes w: "world_ok s" and fds: "\<And>tr. 0 \<le> timerfd_of E tr" "\<And>tr. 0 \<le> eventfd_of E tr"
    and t: "newEventLoop E s = Inr (l, t)"
  shows "world_ok t"
proof -
  let ?l = "r_nextLoop s"
  let ?s0 = "mod_loop ?l (\<lambda>_. rawLoop (r_tid s)) (s\<lparr>r_nextLoop := Suc ?l\<rparr>)"
  have "reactor_wf ?s0" using world_okD(1)[OF w]
    by (auto simp: reactor_wf_def loop_ps_def rawLoop_def poller_wf_mk) (simp_all add: mkPoller_def)
  then have w0: "world_ok ?s0"
    by (rule world_ok_reactor[OF w, rotated])
      (use world_okD[OF w] in \<open>auto simp: same_objects_def mod_loop_def rawLoop_def split: if_splits\<close>)
  obtain s1 where s1: "newTimerQueue E ?l ?s0 = Inr s1" using t by (auto simp: newEventLoop_def Let_def bindR_Inr_iff)
  have w1: "world_ok s1" by (rule newTimerQueue_world[OF w0 fds(1) s1])
  let ?fd = "eventfd_of E (r_trace s1)"
  obtain c s2 where n: "newChannel ?l ?fd (emit (SysEventfd ?fd) s1) = (c, s2)" by (cases "newChannel ?l ?fd (emit (SysEventfd ?fd) s1)")
  let ?f = "\<lambda>el. el\<lparr>el_wakeupFd := ?fd, el_wakeupChannel := c\<rparr>"
  have sw: "(mod_loop ?l ?f s2)\<lparr>r_loopOfThread := g\<rparr> = mod_loop ?l ?f (s2\<lparr>r_loopOfThread := g\<rparr>)" for g
    by (simp add: mod_loop_def)
  obtain x g where x: "x = s2 \<or> x = s2\<lparr>r_loopOfThread := g\<rparr>"
    "enableRead c (mod_chan c (setReadCallback (\<lambda>_. TWakeupRead ?l)) (mod_loop ?l ?f x)) = Inr t"
    using t s1 n by (auto simp: newEventLoop_def Let_def logFatal_def sw result_simps split: if_splits)
  show ?thesis
    by (rule enable_new_world[OF world_emit[OF w1] fds(2) n _ _ x]) (simp_all add: task_ok_def)
qed

lemma newAcceptor_world:
  assumes w: "world_ok s" and fd: "\<And>tr. 0 \<le> socket_of E tr" and t: "newAcceptor E l addr s = Inr (a, t)"
  shows "world_ok t \<and> n_servers t = n_servers s"
proof -
  let ?a = "n_nextAcceptor s" and ?fd = "socket_of E (r_trace s)"
  let ?s1 = "emit (SysSocket ?fd) (s\<lparr>n_nextAcceptor := Suc ?a\<rparr>)"
  have "world_ok (s\<lparr>n_nextAcceptor := Suc ?a\<rparr>)" by (rule world_ok_objects[OF w]) (use world_okD[OF w] in auto)
  then have w1: "world_ok ?s1" by (rule keeps_world)
  obtain c s2 where n: "newChannel l ?fd ?s1 = (c, s2)" by (cases "newChannel l ?fd ?s1")
  note N = newChannel_world[OF w1 fd n]
  let ?ac = "\<lparr>ac_loop = l, ac_cb = None, ac_sockfd = ?fd, ac_channel = c, ac_listening = False\<rparr>"
  have w2: "world_ok (mod_acceptor ?a (\<lambda>_. ?ac) s2)"
  proof -
    have "chan_good ch (mod_acceptor ?a (\<lambda>_. ?ac) s2) = chan_good ch s2" for ch by (simp add: chan_good_def)
    then show ?thesis using world_okD[OF N(1)] N(2) same_reactor[of "mod_acceptor ?a (\<lambda>_. ?ac) s2" s2]
      unfolding world_ok_def by (auto simp: acceptor_cb_ok_def mod_acceptor_def)
  qed
  obtain e e' where t': "t = mod_chan c (setReadCallback (\<lambda>_. TAcceptorRead ?a)) (emit e (emit e' (mod_acceptor ?a (\<lambda>_. ?ac) s2)))"
    using t n fd[of "r_trace s"]
    by (auto simp: newAcceptor_def createNonblockingOrDie_def Let_def setReuseAddr_def sysSetsockopt_def bindAddress_def
        bindOrDie_def logFatal_def result_simps split: if_splits)
  have "n_servers s2 = n_servers s" using n by (auto simp: newChannel_def Let_def)
  then have "n_servers t = n_servers s" unfolding t' by simp
  moreover have "world_ok t" unfolding t' by (intro setReadCallback_world keeps_world w2) (simp add: task_ok_def)
  ultimately show ?thesis by simp
qed

lemma newServer_world:
  assumes w: "world_ok s" and fd: "\<And>tr. 0 \<le> socket_of E tr" and t: "newServer E l addr s = Inr (v, t)"
  shows "world_ok t" "sv_threadInitCallback (n_servers t v) = None"
proof -
  let ?v = "n_nextServer s"
  obtain name s1 where n: "serverDefaultName (s\<lparr>n_nextServer := Suc ?v\<rparr>) = (name, s1)"
    by (cases "serverDefaultName (s\<lparr>n_nextServer := Suc ?v\<rparr>)")
  have s1: "s1 = s\<lparr>n_nextServer := Suc ?v, n_serverIndexGen := n_serverIndexGen s + 1\<rparr>"
    using n by (auto simp: serverDefaultName_def)
  have "world_ok s1" unfolding s1 by (rule world_ok_objects[OF w]) (use world_okD[OF w] in auto)
  moreover obtain a s2 where a: "newAcceptor E l addr s1 = Inr (a, s2)"
    using t n by (auto simp: newServer_def Let_def result_simps)
  ultimately have w2: "world_ok s2" using newAcceptor_world[OF _ fd a] by blast
  let ?sv = "\<lparr>sv_loop = l, sv_name = name, sv_addr = addr, sv_acceptor = a, sv_connections = [],
      sv_threadPool = mkPool l name, sv_started = 0, sv_connectionCallback = None,
      sv_messageCallback = None, sv_writeCompleteCallback = None, sv_highWaterCallback = None,
      sv_threadInitCallback = None\<rparr>"
  have t': "v = ?v" "t = setNewConnectionCallback a (\<lambda>fd peer. TNewConnection ?v fd peer) (mod_server ?v (\<lambda>_. ?sv) s2)"
    using t n a by (auto simp: newServer_def Let_def)
  have "world_ok (mod_server ?v (\<lambda>_. ?sv) s2)" by (rule world_mod_server[OF w2]) (simp add: server_cbs_ok_def)
  then show "world_ok t" unfolding t'(2) setNewConnectionCallback_def
    by (rule world_mod_acceptor) (simp_all add: acceptor_cb_ok_def)
  show "sv_threadInitCallback (n_servers t v) = None" by (simp add: t' setNewConnectionCallback_def)
qed

lemma startThread_world:
  assumes w: "world_ok s" and fds: "\<And>tr. 0 \<le> timerfd_of E tr" "\<And>tr. 0 \<le> eventfd_of E tr"
    and t: "startThread E run None i (p, s) = Inr (q, t)"
  shows "world_ok t"
proof -
  let ?s = "(emit (SysThread (thread_of E (r_trace s))) s)\<lparr>r_tid := thread_of E (r_trace s)\<rparr>"
  have "world_ok ?s" by (rule world_ok_objects[OF w]) (use world_okD[OF w] in \<open>auto simp: emit_def\<close>)
  moreover obtain l u where u: "newEventLoop E ?s = Inr (l, u)" "t = u\<lparr>r_tid := r_tid s\<rparr>"
    using t by (auto simp: startThread_def startLoop_def threadFunc_def Let_def mkLoopThread_def result_simps)
  ultimately have wu: "world_ok u" using newEventLoop_world[OF _ fds] by blast
  show ?thesis unfolding u(2) by (rule world_ok_objects[OF wu]) (use world_okD[OF wu] in auto)
qed

lemma poolStart_world:
  assumes w: "world_ok s" and fds: "\<And>tr. 0 \<le> timerfd_of E tr" "\<And>tr. 0 \<le> eventfd_of E tr"
    and t: "poolStart E run None p s = Inr (q, t)"
  shows "world_ok t"
proof -
  obtain n where f: "foldR (startThread E run None) [0..<n] (p\<lparr>tp_started := True\<rparr>, s) = Inr (q, t)"
    using t by (auto simp: poolStart_def assertInLoopThread_def result_simps)
  have "world_ok (snd (q, t))"
  proof (rule foldR_keeps[OF _ _ f, of "\<lambda>x. world_ok (snd x)"])
    fix i x y assume "world_ok (snd x)" "startThread E run None i x = Inr y"
    then show "world_ok (snd y)" using startThread_world[OF _ fds] by (cases x, cases y) auto
  qed (use w in simp)
  then show ?thesis by simp
qed

lemma start_world:
  assumes w: "world_ok s" and fds: "\<And>tr. 0 \<le> timerfd_of E tr" "\<And>tr. 0 \<le> eventfd_of E tr"
    and run: "run_keeps_world run" and cb: "sv_threadInitCallback (n_servers s v) = None"
    and t: "start E run v s = Inr t"
  shows "world_ok t"
proof -
  let ?s1 = "mod_server v (\<lambda>sv. sv\<lparr>sv_started := sv_started (n_servers s v) + 1\<rparr>) s"
  have w1: "world_ok ?s1" by (rule world_mod_server[OF w]) (use world_okD(9)[OF w, of v] in \<open>simp add: server_cbs_ok_def\<close>)
  show ?thesis
  proof (cases "sv_started (n_servers s v) = 0")
    case True
    obtain p s2 where s2: "poolStart E run None (sv_threadPool (n_servers s v)) ?s1 = Inr (p, s2)"
      and r: "runInLoop E run (sv_loop (n_servers (mod_server v (\<lambda>sv. sv\<lparr>sv_threadPool := p\<rparr>) s2) v))
        (TListen (sv_acceptor (n_servers (mod_server v (\<lambda>sv. sv\<lparr>sv_threadPool := p\<rparr>) s2) v)))
        (mod_server v (\<lambda>sv. sv\<lparr>sv_threadPool := p\<rparr>) s2) = Inr t"
      using t True cb by (auto simp: start_def Let_def result_simps)
    have w2: "world_ok s2" by (rule poolStart_world[OF w1 fds s2])
    have "world_ok (mod_server v (\<lambda>sv. sv\<lparr>sv_threadPool := p\<rparr>) s2)"
      by (rule world_mod_server[OF w2]) (use world_okD(9)[OF w2, of v] in \<open>simp add: server_cbs_ok_def\<close>)
    then show ?thesis by (rule runInLoop_world[OF run _ _ r]) (simp add: task_ok_def)
  next
    case False
    then show ?thesis using t w1 by (simp add: start_def Let_def)
  qed
qed

lemma serverSetup_world:
  assumes w: "world_ok s" and fds: "\<And>tr. 0 \<le> timerfd_of E tr" "\<And>tr. 0 \<le> eventfd_of E tr" "\<And>tr. 0 \<le> socket_of E tr"
    and run: "\<And>l. run_keeps_world (run l)" and t: "serverSetup E run k s = Inr (l, v, t)"
  shows "world_ok t"
proof -
  obtain s1 s2 p where s1: "newEventLoop E s = Inr (l, s1)" and s2: "newServer E l (Inet 45670) s1 = Inr (v, s2)"
    and st: "start E (run l) v (mod_server v (\<lambda>sv. sv\<lparr>sv_threadPool := p\<rparr>)
       (mod_server v (svSetMessageCallback (Some (\<lambda>c now. TUserMessage 1 c now)))
         (mod_server v (svSetConnectionCallback (Some (\<lambda>c. TUserConnection 0 c))) s2))) = Inr t"
    using t by (auto simp: serverSetup_def setThreadNum_def Let_def result_simps)
  have w2: "world_ok s2" "sv_threadInitCallback (n_servers s2 v) = None"
    using newServer_world[OF newEventLoop_world[OF w fds(1,2) s1] fds(3) s2] by simp_all
  let ?a = "mod_server v (svSetConnectionCallback (Some (\<lambda>c. TUserConnection 0 c))) s2"
  let ?b = "mod_server v (svSetMessageCallback (Some (\<lambda>c now. TUserMessage 1 c now))) ?a"
  let ?c = "mod_server v (\<lambda>sv. sv\<lparr>sv_threadPool := p\<rparr>) ?b"
  have a: "world_ok ?a" by (rule world_mod_server[OF w2(1)])
    (use world_okD(9)[OF w2(1), of v] in \<open>auto simp: server_cbs_ok_def svSetConnectionCallback_def is_user_def\<close>)
  have b: "world_ok ?b" by (rule world_mod_server[OF a])
    (use world_okD(9)[OF a, of v] in \<open>auto simp: server_cbs_ok_def svSetMessageCallback_def is_user_def\<close>)
  have c: "world_ok ?c" by (rule world_mod_server[OF b])
    (use world_okD(9)[OF b, of v] in \<open>auto simp: server_cbs_ok_def\<close>)
  show ?thesis by (rule start_world[OF c fds(1,2) run _ st])
    (simp add: w2(2) svSetMessageCallback_def svSetConnectionCallback_def)
qed

section \<open>The depth of calls\<close>

text \<open>How deep the calls nest below a closure.\<close>

fun depth_of :: "task \<Rightarrow> nat" where
  "depth_of (TAcceptorRead a) = 4"
| "depth_of (TNewConnection v fd peer) = 3"
| "depth_of (TConnRead c now) = 3"
| "depth_of (TConnClose c) = 3"
| "depth_of (TRemoveConnection v c) = 2"
| "depth_of (TEstablished c) = 2"
| "depth_of (TTimerRead l) = 2"
| "depth_of t = 1"

lemma depth_of_user: "is_user t \<Longrightarrow> depth_of t = 1"
  by (cases t) (simp_all add: is_user_def)

lemma depth_of_le: "1 \<le> depth_of t" "depth_of t \<le> 4" "depth_of t \<noteq> 0"
  by (cases t; simp)+

text \<open>Two interpreters that agree on the closures a part of the code may call.\<close>

definition agree_on :: "(task \<Rightarrow> bool) \<Rightarrow> ('b, 'z) serv_runner \<Rightarrow> ('b, 'z) serv_runner \<Rightarrow> bool" where
  "agree_on P run run' \<longleftrightarrow> (\<forall>t s. world_ok s \<longrightarrow> P t \<longrightarrow> task_ok t \<longrightarrow> run t s = run' t s)"

lemma agree_onD: "agree_on P run run' \<Longrightarrow> world_ok s \<Longrightarrow> P t \<Longrightarrow> task_ok t \<Longrightarrow> run t s = run' t s"
  by (simp add: agree_on_def)

lemma foldR_cong_keeps:
  assumes "\<And>x s. P s \<Longrightarrow> f x s = g x s" and "\<And>x s t. P s \<Longrightarrow> f x s = Inr t \<Longrightarrow> P t" and "P s"
  shows "foldR f xs s = foldR g xs s"
  using assms(3)
proof (induction xs arbitrary: s)
  case (Cons x xs)
  then show ?case using assms(1)[OF Cons.prems] assms(2)[OF Cons.prems] by (cases "f x s") auto
qed simp

lemma callSet_agree:
  assumes "agree_on P run run'" and "world_ok s" and "\<And>t. cb = Some t \<Longrightarrow> P t \<and> task_ok t"
  shows "callSet w run cb s = callSet w run' cb s"
  using assms by (auto simp: callSet_def agree_on_def split: option.split)

lemma connClose_agree:
  assumes a: "agree_on P run run'" and P: "\<And>v d. P (TRemoveConnection v d)" and w: "world_ok s"
  shows "connClose run c s = connClose run' c s"
proof -
  let ?m = "mod_conn c (setState KDisconnected) s"
  have m: "world_ok ?m" using w by (rule keeps_world)
  have g: "chan_good (cn_channel (n_conns s c)) ?m" using world_okD(5)[OF w, of c] by (simp add: chan_good_def)
  have "callSet x run (map_option (\<lambda>f. f c) (cn_closeCallback (n_conns u c))) u =
      callSet x run' (map_option (\<lambda>f. f c) (cn_closeCallback (n_conns u c))) u" if u: "world_ok u" for u x
    using world_okD(6)[OF u, of c] P conn_cbs_task_ok(1)[OF u, of c c]
    by (intro callSet_agree[OF a u]) (auto simp: conn_cbs_ok_def, metis)
  then show ?thesis using world_channel_ops(3)[OF m g]
    by (cases "disableAll (cn_channel (n_conns s c)) ?m")
      (auto simp: connClose_def assertInLoopThread_def assertR_def)
qed

lemma connRead_agree:
  assumes a: "agree_on P run run'" and P: "\<And>v d. P (TRemoveConnection v d)" "\<And>t. is_user t \<Longrightarrow> P t" and w: "world_ok s"
  shows "connRead E run c now s = connRead E run' c now s"
proof -
  obtain n b e where r: "buf_readFd E (r_trace s) (cn_inputBuffer (n_conns s c)) (cn_sockfd (n_conns s c)) = (n, b, e)"
    by (metis prod_cases3)
  let ?u = "emit (SysRead (cn_sockfd (n_conns s c)) n) (mod_conn c (\<lambda>cn. cn\<lparr>cn_inputBuffer := b\<rparr>) s)"
  have u: "world_ok ?u" by (intro keeps_world w)
  have "callSet x run (map_option (\<lambda>f. f c now) (cn_messageCallback (n_conns ?u c))) ?u =
      callSet x run' (map_option (\<lambda>f. f c now) (cn_messageCallback (n_conns ?u c))) ?u" for x
  proof (rule callSet_agree[OF a u])
    fix t assume t: "map_option (\<lambda>f. f c now) (cn_messageCallback (n_conns ?u c)) = Some t"
    then have "is_user t" using world_okD(6)[OF u, of c] by (auto simp: conn_cbs_ok_def)
    then show "P t \<and> task_ok t" using P(2) is_user_ok by blast
  qed
  then show ?thesis using connClose_agree[OF a P(1) u, of c]
    by (cases "n = 0") (simp_all add: connRead_def assertInLoopThread_def assertR_def r Let_def)
qed

lemma connectionEstablished_agree:
  assumes a: "agree_on P run run'" and P: "\<And>t. is_user t \<Longrightarrow> P t" and w: "world_ok s"
  shows "connectionEstablished run c s = connectionEstablished run' c s"
proof -
  let ?m = "mod_conn c (setState KConnected) s"
  have m: "world_ok ?m" using w by (rule keeps_world)
  have g: "chan_good (cn_channel (n_conns s c)) ?m" using world_okD(5)[OF w, of c] by (simp add: chan_good_def)
  have "callSet x run (map_option (\<lambda>f. f c) (cn_connectionCallback (n_conns u c))) u =
      callSet x run' (map_option (\<lambda>f. f c) (cn_connectionCallback (n_conns u c))) u" if u: "world_ok u" for u x
  proof (rule callSet_agree[OF a u])
    fix t assume t: "map_option (\<lambda>f. f c) (cn_connectionCallback (n_conns u c)) = Some t"
    then have "is_user t" using world_okD(6)[OF u, of c] by (auto simp: conn_cbs_ok_def)
    then show "P t \<and> task_ok t" using P is_user_ok by blast
  qed
  then show ?thesis using world_channel_ops(1)[OF m g]
    by (cases "enableRead (cn_channel (n_conns s c)) ?m")
      (auto simp: connectionEstablished_def assertInLoopThread_def assertR_def)
qed

lemma timerRead_agree:
  fixes run :: "('a, 'b) serv_runner"
  assumes a: "agree_on P run run'" and P: "\<And>t. is_user t \<Longrightarrow> P t" and k: "run_keeps_world run" and w: "world_ok s"
  shows "timerRead E run l s = timerRead E run' l s"
proof -
  have "foldR (\<lambda>e. runTimer run (entry_timer e)) ex u = foldR (\<lambda>e. runTimer run' (entry_timer e)) ex u"
    if "world_ok u" for ex and u :: "('a, 'b) servs"
  proof (rule foldR_cong_keeps[of world_ok, OF _ _ that])
    fix e and v :: "('a, 'b) servs" assume v: "world_ok v"
    show "runTimer run (entry_timer e) v = runTimer run' (entry_timer e) v"
    proof (cases "r_timers v (entry_timer e)")
      case None
      then show ?thesis by (simp add: runTimer_def deref_def)
    next
      case (Some x)
      with world_okD(4)[OF v Some] a v show ?thesis by (simp add: runTimer_def agree_on_def P is_user_ok)
    qed
    fix y assume "runTimer run (entry_timer e) v = Inr y"
    with k v show "world_ok y" by (rule runTimer_world)
  qed
  moreover have "world_ok (set_timers l rest (emit (SysNow now) s))" for rest now by (intro keeps_world w)
  ultimately show ?thesis
    by (cases "isInLoopThread l s"; cases "getExpired (now_of E (r_trace s)) (timers_of l s)")
      (auto simp: timerRead_def assertInLoopThread_def readNow_eq split: prod.split)
qed

lemma acceptorRead_agree:
  assumes a: "agree_on P run run'" and P: "\<And>v fd p. P (TNewConnection v fd p)" "\<And>t. is_user t \<Longrightarrow> P t" and w: "world_ok s"
  shows "acceptorRead E run a s = acceptorRead E run' a s"
proof -
  obtain fd addr where c: "accept_of E (r_trace s) (ac_sockfd (n_acceptors s a)) = (fd, addr)" by fastforce
  let ?s = "emit (SysAccept (ac_sockfd (n_acceptors s a)) fd) s"
  have w1: "world_ok ?s" using w by (rule keeps_world)
  have "run (f fd addr) ?s = run' (f fd addr) ?s" if "ac_cb (n_acceptors s a) = Some f" "0 \<le> fd" for f
  proof -
    have "(\<exists>v. f fd addr = TNewConnection v fd addr) \<or> is_user (f fd addr)"
      using world_okD(8)[OF w, of a] that(1) by (simp add: acceptor_cb_ok_def)
    then have "P (f fd addr)" "task_ok (f fd addr)" using P that(2) is_user_ok by (auto simp: task_ok_def)
    with a w1 show ?thesis by (simp add: agree_on_def)
  qed
  then show ?thesis
    by (simp add: acceptorRead_def socketAccept_def acceptSocket_def Let_def logFatal_def c split: option.split)
qed

lemma onNewConnection_agree:
  assumes a: "agree_on P run run'" and P: "\<And>c. P (TEstablished c)" and w: "world_ok s" and fd: "0 \<le> fd"
  shows "onNewConnection E run v fd peer s = onNewConnection E run' v fd peer s"
  using onNewConnection_split[OF w fd, of E v peer]
proof (elim disjE exE conjE)
  fix l c u assume u: "world_ok u" "\<forall>run. onNewConnection E run v fd peer s = runInLoop E run l (TEstablished c) u"
  have "run (TEstablished c) u = run' (TEstablished c) u" using a u(1) P by (simp add: agree_on_def task_ok_def)
  with u(2) show ?thesis by (simp add: runInLoop_def)
qed simp

text \<open>The echo callbacks call nothing by their interpreter: in the loop's thread they send at once.\<close>

lemma echo_user_const: "echo_user E g run t s = echo_user E g run' t s"
proof -
  have "send E run = send E run'" by (intro ext) (simp add: send_def runInLoop_def)
  then have "connectionFunc E run = connectionFunc E run'" "messageFunc E run = messageFunc E run'"
    by (intro ext, simp add: connectionFunc_def messageFunc_def)+
  then show ?thesis by (cases t) (simp_all add: echo_user_def)
qed

lemma run_task_agree:
  "agree_on (\<lambda>t. depth_of t \<le> n \<and> depth_of t \<le> m) (run_task E (echo_user E g) n)
    (run_task E (echo_user E g) m :: ('b, 'z) serv_runner)"
proof (induction n arbitrary: m)
  case 0
  then show ?case by (simp add: agree_on_def depth_of_le)
next
  case (Suc n)
  show ?case
  proof (cases m)
    case 0
    then show ?thesis by (simp add: agree_on_def depth_of_le)
  next
    case m: (Suc k)
    let ?r = "run_task E (echo_user E g) :: nat \<Rightarrow> ('b, 'z) serv_runner"
    note A = Suc.IH[of k] and K = run_task_keeps[OF echo_user_keeps[of E g], of E n]
    have B: "agree_on (\<lambda>t. depth_of t \<le> d) (?r n) (?r k)" if "d \<le> n" "d \<le> k" for d
      using A that unfolding agree_on_def by (meson le_trans)
    have user: "depth_of t \<le> d" if "is_user t" "1 \<le> d" for t d using depth_of_user[OF that(1)] that(2) by simp
    show ?thesis unfolding m agree_on_def
    proof (intro allI impI, elim conjE)
      fix t and s :: "('b, 'z) servs"
      assume w: "world_ok s" and ok: "task_ok t" and d: "depth_of t \<le> Suc n" "depth_of t \<le> Suc k"
      show "?r (Suc n) t s = ?r (Suc k) t s"
      proof (cases t)
        case (TTimerRead l)
        with d have a: "agree_on (\<lambda>t. depth_of t \<le> 1) (?r n) (?r k)" by (intro B) simp_all
        from timerRead_agree[OF a _ K w, of E l] user show ?thesis by (simp add: TTimerRead)
      next
        case (TAcceptorRead a)
        with d have a: "agree_on (\<lambda>t. depth_of t \<le> 3) (?r n) (?r k)" by (intro B) simp_all
        from acceptorRead_agree[OF a _ _ w, of E a] user show ?thesis by (simp add: TAcceptorRead)
      next
        case (TConnRead c now)
        with d have a: "agree_on (\<lambda>t. depth_of t \<le> 2) (?r n) (?r k)" by (intro B) simp_all
        from connRead_agree[OF a _ _ w, of E c now] user show ?thesis by (simp add: TConnRead)
      next
        case (TConnClose c)
        with d have a: "agree_on (\<lambda>t. depth_of t \<le> 2) (?r n) (?r k)" by (intro B) simp_all
        from connClose_agree[OF a _ w, of c] show ?thesis by (simp add: TConnClose)
      next
        case (TEstablished c)
        with d have a: "agree_on (\<lambda>t. depth_of t \<le> 1) (?r n) (?r k)" by (intro B) simp_all
        from connectionEstablished_agree[OF a _ w, of c] user show ?thesis by (simp add: TEstablished)
      next
        case (TNewConnection v fd peer)
        with d have a: "agree_on (\<lambda>t. depth_of t \<le> 2) (?r n) (?r k)" by (intro B) simp_all
        from onNewConnection_agree[OF a _ w, of fd E v peer] ok show ?thesis by (simp add: TNewConnection task_ok_def)
      next
        case (TRemoveConnection v c)
        with d have a: "agree_on (\<lambda>t. depth_of t \<le> 1) (?r n) (?r k)" by (intro B) simp_all
        from a have "?r n (TRemoveInLoop v c) s = ?r k (TRemoveInLoop v c) s" using w by (simp add: agree_on_def task_ok_def)
        then show ?thesis by (simp add: TRemoveConnection removeConnection_def runInLoop_def)
      qed (simp_all, (rule echo_user_const)+)
    qed
  qed
qed

section \<open>The state a process starts in\<close>

text \<open>
  No object exists; channel 0, which no loop knows, stands in for the channel of the objects that
  are not made yet.
\<close>

definition bootConn :: "'b env \<Rightarrow> 'b conn" where
  "bootConn E = \<lparr>cn_loop = 0, cn_state = KDisconnected, cn_name = [], cn_localAddr = Inet 0, cn_peerAddr = Inet 0,
     cn_sockfd = - 1, cn_channel = 0, cn_inputBuffer = buf_empty E, cn_outputBuffer = buf_empty E,
     cn_connectionCallback = None, cn_messageCallback = None, cn_closeCallback = None,
     cn_writeCompleteCallback = None, cn_highWaterCallback = None\<rparr>"

definition bootState :: "'b env \<Rightarrow> thread_id \<Rightarrow> 'b serverstate" where
  "bootState E tid =
     \<lparr>r_tid = tid, r_loopOfThread = \<lambda>_. None, r_chans = \<lambda>_. mkChannel 0 0, r_nextChan = 1,
      r_loops = \<lambda>_. rawLoop tid, r_nextLoop = 0, r_timers = \<lambda>_. None, r_seqGen = 0, r_trace = [],
      n_acceptors = \<lambda>_. \<lparr>ac_loop = 0, ac_cb = None, ac_sockfd = - 1, ac_channel = 0, ac_listening = False\<rparr>,
      n_nextAcceptor = 0, n_conns = \<lambda>_. bootConn E, n_nextConn = 0,
      n_servers = \<lambda>_. \<lparr>sv_loop = 0, sv_name = [], sv_addr = Inet 0, sv_acceptor = 0, sv_connections = [],
         sv_threadPool = mkPool 0 [], sv_started = 0, sv_connectionCallback = None, sv_messageCallback = None,
         sv_writeCompleteCallback = None, sv_highWaterCallback = None, sv_threadInitCallback = None\<rparr>,
      n_nextServer = 0, n_serverIndexGen = 0, n_connectionIndex = 0\<rparr>"

lemma bootState_ok: "world_ok (bootState E tid)"
  unfolding world_ok_def
  by (simp add: bootState_def reactor_wf_def loop_ps_def rawLoop_def poller_wf_mk chan_good_def mkChannel_def
      bootConn_def conn_cbs_ok_def acceptor_cb_ok_def server_cbs_ok_def callbacks_of_def)
    (simp add: mkPoller_def)

section \<open>Properties\<close>

text \<open>One iteration of any loop, by the thread the loop belongs to.\<close>

definition loop_turn :: "'b env \<Rightarrow> ('b, 'z) serv_runner \<Rightarrow> ('b, 'z) servs \<Rightarrow> ('b, 'z) servs \<Rightarrow> bool" where
  "loop_turn E run s t \<longleftrightarrow> (\<exists>l. loopIteration E run l (s\<lparr>r_tid := el_threadId (r_loops s l)\<rparr>) = Inr t)"


lemma run_task_listen: "0 < n \<Longrightarrow> run_task E usr n (TListen a) s = acceptorListen E a s"
  by (cases n) simp_all

text \<open>The program comes up, here with all connections in the loop of \<open>main\<close>.\<close>

lemma serverSetup_succeeds:
  assumes wf: "reactor_wf s" and none: "r_loopOfThread s (r_tid s) = None"
    and fds: "timerfd_of E (r_trace s) = tfd" "0 \<le> tfd" "eventfd_of E (r_trace s @ [SysTimerfd tfd]) = efd" "0 \<le> efd" "tfd \<noteq> efd"
    and sock: "\<And>tr. socket_of E tr = sfd" "0 \<le> sfd" "sfd \<noteq> tfd" "sfd \<noteq> efd"
    and ok: "\<And>tr. 0 \<le> bind_of E tr sfd (Inet 45670)" "\<And>tr. 0 \<le> listen_of E tr sfd"
    and run: "\<And>l a s. run l (TListen a) s = acceptorListen E a s"
  shows "\<exists>l v t. serverSetup E run 0 s = Inr (l, v, t) \<and>
    loop_interest l t = [tfd \<mapsto> (True, 3), efd \<mapsto> (True, 3), sfd \<mapsto> (True, 3)]"
proof -
  let ?l = "r_nextLoop s"
  obtain s1 el where s1: "newEventLoop E s = Inr (?l, s1)" "reactor_wf s1" "r_loops s1 = (r_loops s)(?l := el)"
    "loop_interest ?l s1 = [tfd \<mapsto> (True, 3), efd \<mapsto> (True, 3)]" "el_threadId el = r_tid s" "r_tid s1 = r_tid s"
    by (insert newEventLoop_contract[OF wf fds none], elim exE conjE) (rule that, assumption+)
  have thr1: "isInLoopThread ?l s1" by (simp add: isInLoopThread_def s1(3,5,6))
  have n1: "loop_interest ?l s1 sfd = None" using sock by (simp add: s1(4))
  let ?v = "n_nextServer s1" and ?a = "n_nextAcceptor s1" and ?c = "r_nextChan s1"
  obtain name u where u: "newServer E ?l (Inet 45670) s1 = Inr (?v, u)" "reactor_wf u" "isInLoopThread ?l u" "chan_ok ?c u"
    "\<forall>k. loop_interest k u = loop_interest k s1"
    "r_chans u ?c = setReadCallback (\<lambda>_. TAcceptorRead ?a) (mkChannel ?l sfd)"
    "n_acceptors u ?a = \<lparr>ac_loop = ?l, ac_cb = Some (\<lambda>fd peer. TNewConnection ?v fd peer), ac_sockfd = sfd,
       ac_channel = ?c, ac_listening = False\<rparr>"
    "n_servers u ?v = \<lparr>sv_loop = ?l, sv_name = name, sv_addr = Inet 45670, sv_acceptor = ?a, sv_connections = [],
      sv_threadPool = mkPool ?l name, sv_started = 0, sv_connectionCallback = None,
      sv_messageCallback = None, sv_writeCompleteCallback = None, sv_highWaterCallback = None,
      sv_threadInitCallback = None\<rparr>"
    by (insert newServer_contract[OF s1(2) thr1 sock(1) sock(2) n1 ok(1)], elim exE conjE) (rule that, assumption+)
  let ?w = "mod_server ?v (\<lambda>sv. sv\<lparr>sv_threadPool := mkPool ?l name\<rparr>)
     (mod_server ?v (svSetMessageCallback (Some (\<lambda>c now. TUserMessage 1 c now)))
       (mod_server ?v (svSetConnectionCallback (Some (\<lambda>c. TUserConnection 0 c))) u))"
  have "r_chans ?w = r_chans u" "r_loops ?w = r_loops u" "r_nextChan ?w = r_nextChan u" "r_tid ?w = r_tid u" by simp_all
  note S = same_reactor_server[OF this]
  have sv: "sv_started (n_servers ?w ?v) = 0" "sv_loop (n_servers ?w ?v) = ?l" "sv_acceptor (n_servers ?w ?v) = ?a"
    "sv_threadPool (n_servers ?w ?v) = mkPool ?l name" "sv_threadInitCallback (n_servers ?w ?v) = None"
    by (simp_all add: u(8) svSetMessageCallback_def svSetConnectionCallback_def)
  have w: "reactor_wf ?w" "isInLoopThread ?l ?w" "chan_ok ?c ?w" "loop_interest ?l ?w sfd = None"
    "r_chans ?w ?c = setReadCallback (\<lambda>_. TAcceptorRead ?a) (mkChannel ?l sfd)"
    "n_acceptors ?w ?a = \<lparr>ac_loop = ?l, ac_cb = Some (\<lambda>fd peer. TNewConnection ?v fd peer), ac_sockfd = sfd,
       ac_channel = ?c, ac_listening = False\<rparr>"
    unfolding S using u(2-7) n1 by simp_all
  obtain t where t: "start E (run ?l) ?v ?w = Inr t" "loop_interest ?l t = (loop_interest ?l ?w)(sfd \<mapsto> (True, 3))"
    by (insert start_contract[where run = "run ?l", OF w sv ok(2) run], elim exE conjE) (rule that, assumption+)
  have "setThreadNum ?v 0 (mod_server ?v (svSetMessageCallback (Some (\<lambda>c now. TUserMessage 1 c now)))
       (mod_server ?v (svSetConnectionCallback (Some (\<lambda>c. TUserConnection 0 c))) u)) = Inr ?w"
    by (simp add: setThreadNum_def setThreadNums_def u(8) svSetMessageCallback_def svSetConnectionCallback_def mkPool_def)
  then have "serverSetup E run 0 s = Inr (?l, ?v, t)"
    using s1(1) u(1) t(1) by (simp add: serverSetup_def Let_def)
  moreover have "loop_interest ?l t = [tfd \<mapsto> (True, 3), efd \<mapsto> (True, 3), sfd \<mapsto> (True, 3)]"
    unfolding t(2) S u(5)[rule_format] s1(4) ..
  ultimately show ?thesis by blast
qed

lemma bootState_wf: "reactor_wf (bootState E tid)" "r_loopOfThread (bootState E tid) (r_tid (bootState E tid)) = None"
  "r_trace (bootState E tid) = []"
  using world_okD(1)[OF bootState_ok] by (simp_all add: bootState_def)


text \<open>
  The bound on the nesting of calls is never met: in a state the server program can be in, four
  levels are as good as any greater number for every closure.
\<close>

theorem run_task_deep:
  assumes "world_ok s" and "task_ok t" and "4 \<le> n"
  shows "run_task E (echo_user E g) n t s = run_task E (echo_user E g) 4 t s"
proof (rule agree_onD[OF run_task_agree assms(1) _ assms(2)])
  show "depth_of t \<le> n \<and> depth_of t \<le> 4" using depth_of_le(2)[of t] assms(3) by linarith
qed

theorem run_task_deep_witness:
  "run_task sampleEnv (echo_user sampleEnv 0) 9 (TWriteComplete 0) (bootState sampleEnv 1) =
   run_task sampleEnv (echo_user sampleEnv 0) 4 (TWriteComplete 0) (bootState sampleEnv 1)"
  by (rule run_task_deep) (simp_all add: bootState_ok task_ok_def)

definition notWriteComplete :: "task \<Rightarrow> bool" where
  "notWriteComplete t \<longleftrightarrow> (case t of TWriteComplete c \<Rightarrow> False | _ \<Rightarrow> True)"

text \<open>
  The callback for a finished write is never called: a functor posted for it changes nothing
  when it runs, so the functors of an iteration have the same effect with and without those
  posted for finished writes, whatever callback was set.
\<close>

theorem write_complete_never_called:
  "foldR (run_task E usr (Suc n)) ts s = foldR (run_task E usr (Suc n)) (filter notWriteComplete ts) s"
  by (induction ts arbitrary: s) (auto simp: notWriteComplete_def intro!: arg_cong2[where f = bindR] split: task.split)

end
