(* ===== verification/Echo.thy ===== *)
theory Echo
  imports Program
begin

text \<open>
  What the server program does for its clients: the callbacks of \<open>main_server_version1.cc\<close>, the
  connection they are called by, and the buffers together send back what a client sends.
\<close>

section \<open>A session\<close>

text \<open>
  What muduo documents of \<open>Buffer::readFd\<close>: the bytes it reads, here \<open>feed\<close> of the trace so far, are
  appended to the buffer, and it returns their number.
\<close>

definition read_law :: "'b env \<Rightarrow> int \<Rightarrow> (trace \<Rightarrow> string) \<Rightarrow> bool" where
  "read_law E fd feed \<longleftrightarrow> (\<forall>tr b. \<exists>b' e. buf_readFd E tr b fd = (int (length (feed tr)), b', e) \<and>
     buf_peek E b' = buf_peek E b @ feed tr \<and> feed tr \<noteq> [])"

datatype conn_event = Readable timestamp | Writable

text \<open>
  The handlers a connection's channel calls on these events, one after the other; the first
  component of the result is what each read delivered.
\<close>

fun session ::
  "'b env \<Rightarrow> ('b, 'z) serv_runner \<Rightarrow> (trace \<Rightarrow> string) \<Rightarrow> conn_id \<Rightarrow> conn_event list \<Rightarrow> ('b, 'z) servs
   \<Rightarrow> (string list \<times> ('b, 'z) servs) result" where
  "session E run feed c [] s = Inr ([], s)"
| "session E run feed c (Readable now # evs) s =
     bindR (connRead E run c now s) (\<lambda>t.
     bindR (session E run feed c evs t) (\<lambda>(xs, u). Inr (feed (r_trace s) # xs, u)))"
| "session E run feed c (Writable # evs) s = bindR (connWrite E c s) (session E run feed c evs)"

definition reply :: "string \<Rightarrow> string" where
  "reply x = ''server sends this message back - '' @ x"

text \<open>A connection of the server that is open, with nothing left unread in its buffer.\<close>

definition echo_ready :: "'b env \<Rightarrow> conn_id \<Rightarrow> ('b, 'z) servs \<Rightarrow> bool" where
  "echo_ready E c s \<longleftrightarrow> conn_open E c s \<and> cn_state (n_conns s c) = KConnected \<and>
     buf_peek E (cn_inputBuffer (n_conns s c)) = [] \<and> cn_messageCallback (n_conns s c) = Some (\<lambda>c now. TUserMessage 1 c now)"

section \<open>Facts\<close>

lemma conn_same_more:
  assumes "conn_same c s t"
  shows "cn_inputBuffer (n_conns t c) = cn_inputBuffer (n_conns s c)"
    "cn_messageCallback (n_conns t c) = cn_messageCallback (n_conns s c)"
proof -
  have "n_conns t c = (n_conns s c)\<lparr>cn_outputBuffer := cn_outputBuffer (n_conns t c)\<rparr>"
    using assms by (simp add: conn_same_def)
  then show "cn_inputBuffer (n_conns t c) = cn_inputBuffer (n_conns s c)"
    "cn_messageCallback (n_conns t c) = cn_messageCallback (n_conns s c)"
    by (metis conn.ext_inject conn.surjective conn.update_convs(9))+
qed

text \<open>The input buffer plays no part in what \<open>conn_open\<close> says.\<close>

lemma conn_open_input:
  assumes "conn_open E c s"
  shows "conn_open E c (mod_conn c (\<lambda>cn. cn\<lparr>cn_inputBuffer := b\<rparr>) s)"
    and "conn_open E c (emit (SysRead fd r) s)"
  using assms same_reactor_conn[of "mod_conn c (\<lambda>cn. cn\<lparr>cn_inputBuffer := b\<rparr>) s" s]
    same_reactor_conn[of "emit (SysRead fd r) s" s]
  by (auto simp: conn_open_def conn_live_def isInLoopThread_def fin_last_quiet)

lemma stream_input:
  "stream E c (mod_conn c (\<lambda>cn. cn\<lparr>cn_inputBuffer := b\<rparr>) s) = stream E c s"
  "stream E c (emit (SysRead fd r) s) = stream E c s"
  by (simp_all add: stream_def)

lemma send_open:
  assumes "buffer_laws E" and "write_law E (cn_sockfd (n_conns s c))" and op: "conn_open E c s"
    and st: "cn_state (n_conns s c) = KConnected"
  shows "\<exists>t. send E run c m s = Inr t \<and> conn_open E c t \<and> conn_same c s t \<and> stream E c t = stream E c s @ m"
  using serve_send[OF assms(1-3), of run m] st by (auto simp: abs_conn_def)

text \<open>One piece is read: it is answered, and nothing is left in the input buffer.\<close>

lemma read_piece:
  assumes bl: "buffer_laws E" and wl: "write_law E (cn_sockfd (n_conns s c))" and R: "echo_ready E c s"
    and b: "buf_readFd E (r_trace s) (cn_inputBuffer (n_conns s c)) (cn_sockfd (n_conns s c)) = (int (length x), b, e)"
      "buf_peek E b = x" "x \<noteq> []"
  shows "\<exists>u t. connRead E (run_task E (echo_user E g) (Suc n)) c now s = Inr t \<and> echo_ready E c t \<and>
    stream E c t = stream E c s @ reply x \<and> cn_sockfd (n_conns t c) = cn_sockfd (n_conns s c) \<and>
    send E (run_task E (echo_user E g) n) c (reply x) u = Inr t \<and>
    r_trace u = r_trace s @ [SysRead (cn_sockfd (n_conns s c)) (int (length x))] \<and>
    cn_writeCompleteCallback (n_conns u c) = cn_writeCompleteCallback (n_conns s c) \<and> isInLoopThread (cn_loop (n_conns u c)) u"
proof -
  let ?fd = "cn_sockfd (n_conns s c)"
  have op: "conn_open E c s" and st: "cn_state (n_conns s c) = KConnected"
    and cb: "cn_messageCallback (n_conns s c) = Some (\<lambda>c now. TUserMessage 1 c now)"
    using R by (simp_all add: echo_ready_def)
  have "buf_readableBytes E b = length x" using bl b(2) by (simp add: buffer_laws_def)
  then obtain b0 where b0: "buf_retrieve E b (buf_readableBytes E b) = Inr b0" "buf_peek E b0 = []"
    using bl b(2) unfolding buffer_laws_def by (metis drop_all order_refl)
  let ?u = "emit (SysRead ?fd (int (length x))) (mod_conn c (\<lambda>cn. cn\<lparr>cn_inputBuffer := b\<rparr>) s)"
  let ?v = "mod_conn c (\<lambda>cn. cn\<lparr>cn_inputBuffer := b0\<rparr>) ?u"
  have opv: "conn_open E c ?v"
    by (rule conn_open_input(1)[OF conn_open_input(2)[OF conn_open_input(1)[OF op]]])
  have wlv: "write_law E (cn_sockfd (n_conns ?v c))" using wl by simp
  obtain t where t: "send E (run_task E (echo_user E g) n) c (reply x) ?v = Inr t" "conn_open E c t" "conn_same c ?v t"
    "stream E c t = stream E c ?v @ reply x"
    using send_open[OF bl wlv opv] st by auto
  have "connRead E (run_task E (echo_user E g) (Suc n)) c now s = run_task E (echo_user E g) (Suc n) (TUserMessage 1 c now) ?u"
    using op b cb by (simp add: connRead_def assertInLoopThread_def conn_open_def callSet_def)
  also have "\<dots> = Inr t"
    using t(1) b0(1) b(2) by (simp add: echo_user_def messageFunc_def reply_def Let_def)
  finally have "connRead E (run_task E (echo_user E g) (Suc n)) c now s = Inr t" .
  moreover have "echo_ready E c t"
    using t(2) st b0(2) cb conn_same_more[OF t(3)] conn_same_sel[OF t(3)] by (simp add: echo_ready_def)
  moreover have "stream E c t = stream E c s @ reply x" using t(4) by (simp add: stream_input)
  moreover have "isInLoopThread (cn_loop (n_conns ?v c)) ?v" using opv by (simp only: conn_open_def)
  ultimately show ?thesis using conn_same_sel(2)[OF t(3)] t(1) by (intro exI[of _ ?v] exI[of _ t]) (simp del: run_task.simps)
qed

lemma read_step:
  assumes bl: "buffer_laws E" and wl: "write_law E (cn_sockfd (n_conns s c))"
    and rl: "read_law E (cn_sockfd (n_conns s c)) feed" and R: "echo_ready E c s"
  shows "\<exists>t. connRead E (run_task E (echo_user E g) (Suc n)) c now s = Inr t \<and> echo_ready E c t \<and>
    stream E c t = stream E c s @ reply (feed (r_trace s)) \<and> cn_sockfd (n_conns t c) = cn_sockfd (n_conns s c)"
proof -
  have old: "buf_peek E (cn_inputBuffer (n_conns s c)) = []" using R by (simp add: echo_ready_def)
  obtain b e where "buf_readFd E (r_trace s) (cn_inputBuffer (n_conns s c)) (cn_sockfd (n_conns s c)) =
      (int (length (feed (r_trace s))), b, e)" "buf_peek E b = feed (r_trace s)" "feed (r_trace s) \<noteq> []"
    using rl old unfolding read_law_def by fastforce
  from read_piece[OF bl wl R this] show ?thesis by blast
qed

lemma write_step:
  assumes "buffer_laws E" and "write_law E (cn_sockfd (n_conns s c))" and R: "echo_ready E c s"
  shows "\<exists>t. connWrite E c s = Inr t \<and> echo_ready E c t \<and> stream E c t = stream E c s \<and>
    cn_sockfd (n_conns t c) = cn_sockfd (n_conns s c)"
proof -
  have "conn_open E c s" using R by (simp add: echo_ready_def)
  from serve_writable[OF assms(1,2) this] obtain t where
    t: "connWrite E c s = Inr t" "conn_open E c t" "conn_same c s t" "abs_conn E c t = abs_conn E c s" by blast
  note same = conn_same_sel[OF t(3)] conn_same_more[OF t(3)]
  show ?thesis using t R by (simp add: echo_ready_def abs_conn_def same)
qed

text \<open>Reading and writing events in any order, once a connection is ready.\<close>

lemma session_contract:
  assumes "buffer_laws E" and "write_law E (cn_sockfd (n_conns s c))"
    and "read_law E (cn_sockfd (n_conns s c)) feed" and "echo_ready E c s" and "1 \<le> n"
  shows "\<exists>xs t. session E (run_task E (echo_user E g) n) feed c evs s = Inr (xs, t) \<and>
    stream E c t = stream E c s @ concat (map reply xs) \<and> echo_ready E c t \<and>
    length xs = length (filter (\<lambda>e. e \<noteq> Writable) evs)"
proof -
  obtain m where n: "n = Suc m" using assms(5) by (cases n) auto
  show ?thesis using assms(2-4)
  proof (induction evs arbitrary: s)
    case Nil
    then show ?case by simp
  next
    case (Cons e evs)
    show ?case
    proof (cases e)
      case (Readable now)
      from read_step[OF assms(1) Cons.prems] obtain u where u:
        "connRead E (run_task E (echo_user E g) n) c now s = Inr u" "echo_ready E c u"
        "stream E c u = stream E c s @ reply (feed (r_trace s))" "cn_sockfd (n_conns u c) = cn_sockfd (n_conns s c)"
        unfolding n by blast
      with Cons.IH[of u] Cons.prems Readable show ?thesis by auto
    next
      case Writable
      from write_step[OF assms(1) Cons.prems(1,3)] obtain u where
        "connWrite E c s = Inr u" "echo_ready E c u" "stream E c u = stream E c s" "cn_sockfd (n_conns u c) = cn_sockfd (n_conns s c)"
        by blast
      with Cons.IH[of u] Cons.prems Writable show ?thesis by auto
    qed
  qed
qed

section \<open>A new client\<close>

definition greeting :: string where
  "greeting = ''Connection has established'' @ newline"

text \<open>The loop of a new connection runs this thread: it is established and the callback is called.\<close>

lemma established_ready:
  assumes bl: "buffer_laws E" and wf: "reactor_wf s" and ok: "chan_ok (cn_channel (n_conns s c)) s"
    and new: "n_conns s c = fresh_conn E v sv l name peer fd ch"
    and chan: "r_chans s ch = (mkChannel l fd)\<lparr>ch_readCallback := rc, ch_writeCallback := wc, ch_closeCallback := cc\<rparr>"
    and thr: "isInLoopThread l s" and none: "loop_interest l s fd = None" and fin: "fins fd (r_trace s) = 0"
    and cb: "sv_messageCallback sv = Some (\<lambda>c now. TUserMessage 1 c now)"
  shows "\<exists>t. connectionEstablished run c s = callSet ''connectionCallback_'' run (map_option (\<lambda>f. f c) (sv_connectionCallback sv)) t \<and>
    echo_ready E c t \<and> cn_sockfd (n_conns t c) = fd \<and> stream E c t = written fd (r_trace s)"
proof -
  have cn: "cn_channel (n_conns s c) = ch" "cn_loop (n_conns s c) = l" "cn_sockfd (n_conns s c) = fd"
    "cn_connectionCallback (n_conns s c) = sv_connectionCallback sv" by (simp_all add: new fresh_conn_def)
  have ch: "ch_ownerLoop (conn_chan c s) = l" "ch_fd (conn_chan c s) = fd" "ch_events (conn_chan c s) = 0"
    unfolding cn(1) chan by (simp_all add: mkChannel_def kNoneEvent_def)
  obtain i p t where t: "connectionEstablished run c s =
      callSet ''connectionCallback_'' run (map_option (\<lambda>f. f c) (sv_connectionCallback sv)) t" "reactor_wf t" "chan_ok ch t"
    and p: "t = set_ps l ((r_chans s)(ch := set_index i (addReadEvent (r_chans s ch))), p) (mod_conn c (setState KConnected) s)"
    using connectionEstablished_contract[where run = run, OF wf ok ch cn(2) thr none] unfolding cn by blast
  have n: "n_conns t c = setState KConnected (fresh_conn E v sv l name peer fd ch)" by (simp add: p new)
  have pe: "buf_peek E (buf_empty E) = []" using bl by (simp add: buffer_laws_def)
  have "\<not> isWriting (addReadEvent (mkChannel l fd))"
    by (simp add: isWriting_def addReadEvent_def mkChannel_def event_masks poll_bits)
  then have "conn_live E c t"
    using t(2,3) by (simp add: conn_live_def n fresh_conn_def pe)
      (simp add: p chan set_index_def addReadEvent_def mkChannel_def isWriting_def event_masks poll_bits)
  moreover have "isInLoopThread l t" "r_trace t = r_trace s" using thr by (simp_all add: p isInLoopThread_def)
  ultimately have "echo_ready E c t"
    using fin cb by (simp add: echo_ready_def conn_open_def n fresh_conn_def setState_def pe fins_0_last)
  then show ?thesis using t(1) \<open>r_trace t = r_trace s\<close> by (auto simp: stream_def n fresh_conn_def pe)
qed

lemma greets:
  assumes bl: "buffer_laws E" and wl: "write_law E (cn_sockfd (n_conns s c))" and R: "echo_ready E c s"
  shows "\<exists>t. run_task E (echo_user E g) (Suc n) (TUserConnection 0 c) s = Inr t \<and> echo_ready E c t \<and>
    stream E c t = stream E c s @ greeting \<and> cn_sockfd (n_conns t c) = cn_sockfd (n_conns s c)"
proof -
  from R have o: "conn_open E c s" "cn_state (n_conns s c) = KConnected" by (simp_all add: echo_ready_def)
  from send_open[OF bl wl o] obtain t where t: "send E (run_task E (echo_user E g) n) c greeting s = Inr t" "conn_open E c t"
    "conn_same c s t" "stream E c t = stream E c s @ greeting" by blast
  moreover have "echo_ready E c t"
    using t(2) R conn_same_more[OF t(3)] conn_same_sel[OF t(3)] by (simp add: echo_ready_def)
  ultimately show ?thesis
    using conn_same_sel(2)[OF t(3)] by (auto simp: echo_user_def connectionFunc_def greeting_def)
qed

text \<open>The whole way of a new client through acceptor, server, pool, connection and callback.\<close>

lemma accept_ready:
  assumes bl: "buffer_laws E" and wl: "write_law E fd" and ok: "server_ok v s" and wf: "reactor_wf s"
    and thr: "isInLoopThread l s" and nxt: "getNextLoop (sv_threadPool (n_servers s v)) s = Inr (Some l, p)"
    and acb: "ac_cb (n_acceptors s a) = Some (\<lambda>fd peer. TNewConnection v fd peer)"
    and acc: "accept_of E (r_trace s) (ac_sockfd (n_acceptors s a)) = (fd, peer)" "0 \<le> fd"
    and none: "loop_interest l s fd = None" and fin: "fins fd (r_trace s) = 0"
    and cbs: "sv_connectionCallback (n_servers s v) = Some (\<lambda>c. TUserConnection 0 c)"
      "sv_messageCallback (n_servers s v) = Some (\<lambda>c now. TUserMessage 1 c now)"
  shows "\<exists>t. acceptorRead E (run_task E (echo_user E g) (Suc (Suc (Suc m)))) a s = Inr t \<and>
    echo_ready E (n_nextConn s) t \<and> cn_sockfd (n_conns t (n_nextConn s)) = fd \<and>
    stream E (n_nextConn s) t = written fd (r_trace s) @ greeting"
proof -
  let ?c = "n_nextConn s" and ?run = "run_task E (echo_user E g) (Suc (Suc m))"
  let ?s = "emit (SysAccept (ac_sockfd (n_acceptors s a)) fd) s"
  have s: "server_ok v ?s" "reactor_wf ?s" "getNextLoop (sv_threadPool (n_servers ?s v)) ?s = Inr (Some l, p)"
    "loop_interest l ?s fd = None"
    using ok wf nxt none same_reactor[of ?s s] getNextLoop_cong[of ?s s] by (simp_all add: server_ok_def)
  from onNewConnection_contract[OF s(1-3) acc(2) s(4), of E ?run peer] obtain name u where
    u: "onNewConnection E ?run v fd peer ?s = runInLoop E ?run l (TEstablished ?c) u" "reactor_wf u"
      "chan_ok (r_nextChan s) u" "loop_interest l u fd = None"
      "n_conns u ?c = fresh_conn E v (n_servers s v) l name peer fd (r_nextChan s)"
      "r_chans u (r_nextChan s) = (mkChannel l fd)\<lparr>ch_readCallback := Some (\<lambda>now. TConnRead ?c now),
         ch_writeCallback := Some (TConnWrite ?c), ch_closeCallback := Some (TConnClose ?c)\<rparr>"
      "r_trace u = r_trace ?s" "isInLoopThread l u"
    using none thr by (auto simp: isInLoopThread_def)
  have ok: "chan_ok (cn_channel (n_conns u ?c)) u" using u(3,5) by (simp add: fresh_conn_def)
  have "fins fd (r_trace u) = 0" "written fd (r_trace u) = written fd (r_trace s)" using fin by (simp_all add: u(7))
  with established_ready[where run = "run_task E (echo_user E g) (Suc m)", OF bl u(2) ok u(5,6,8,4) _ cbs(2)] obtain t where
    t: "connectionEstablished (run_task E (echo_user E g) (Suc m)) ?c u = run_task E (echo_user E g) (Suc m) (TUserConnection 0 ?c) t"
      "echo_ready E ?c t" "cn_sockfd (n_conns t ?c) = fd" "stream E ?c t = written fd (r_trace s)"
    using cbs(1) by (auto simp: callSet_def simp del: run_task.simps)
  have wlt: "write_law E (cn_sockfd (n_conns t ?c))" using wl t(3) by simp
  from greets[OF bl wlt t(2), of g m] obtain w where
    w: "run_task E (echo_user E g) (Suc m) (TUserConnection 0 ?c) t = Inr w" "echo_ready E ?c w"
      "stream E ?c w = written fd (r_trace s) @ greeting" "cn_sockfd (n_conns w ?c) = fd" using t(3,4) by auto
  have "acceptorRead E (run_task E (echo_user E g) (Suc (Suc (Suc m)))) a s = onNewConnection E ?run v fd peer ?s"
    using acc acb by (simp add: acceptorRead_def socketAccept_def acceptSocket_def)
  also have "\<dots> = Inr w" using u(1,8) t(1) w(1) by (simp add: runInLoop_def)
  finally show ?thesis using w by blast
qed

section \<open>Properties\<close>

text \<open>
  The server is an echo server: whatever a client sends, in whatever pieces the kernel delivers
  it and takes the answers, and however readable and writable events alternate, no handler fails, and
  the bytes of the connection (those the kernel took and those still buffered) are, in order, one
  answer for each piece read: the fixed text followed by exactly that piece.  Nothing is lost,
  duplicated or left in the input buffer.
\<close>

theorem server_echoes:
  assumes "buffer_laws E" and "write_law E (cn_sockfd (n_conns s c))"
    and "read_law E (cn_sockfd (n_conns s c)) feed" and "echo_ready E c s" and "1 \<le> n"
  shows "\<exists>xs t. session E (run_task E (echo_user E g) n) feed c evs s = Inr (xs, t) \<and>
    stream E c t = stream E c s @ concat (map reply xs) \<and> echo_ready E c t \<and>
    length xs = length (filter (\<lambda>e. e \<noteq> Writable) evs)"
  by (rule session_contract[OF assms])

text \<open>A client that keeps sending \<open>hi\<close>, on the slow kernel.\<close>

definition hiEnv :: "string env" where
  "hiEnv = slowEnv\<lparr>buf_readFd := \<lambda>tr b fd. (2, b @ ''hi'', 0)\<rparr>"

definition echoConns :: "(string, unit) servs" where
  "echoConns = mod_conn 0 (\<lambda>cn. cn\<lparr>cn_messageCallback := Some (\<lambda>c now. TUserMessage 1 c now)\<rparr>) sampleServers"

lemma hi_laws: "buffer_laws hiEnv" "write_law hiEnv fd" "read_law hiEnv fd (\<lambda>_. ''hi'')"
  by (auto simp: buffer_laws_def write_law_def read_law_def hiEnv_def slowEnv_def sampleEnv_def)

lemma echoConns_ready: "echo_ready hiEnv 0 echoConns"
  using sampleConns_open[of 0] same_reactor_conn[of echoConns sampleConns]
  by (simp add: echo_ready_def echoConns_def conn_open_def conn_live_def sampleServers_sel sampleConns_sel isInLoopThread_def)
    (simp add: sampleConn_def hiEnv_def slowEnv_def sampleEnv_def)

theorem server_echoes_witness:
  "\<exists>xs t. session hiEnv (run_task hiEnv (echo_user hiEnv 0) 1) (\<lambda>_. ''hi'') 0 [Readable 7, Writable, Readable 8] echoConns =
      Inr (xs, t) \<and> length xs = 2"
  using server_echoes[OF hi_laws echoConns_ready, of 1 0 "[Readable 7, Writable, Readable 8]"] by auto


text \<open>The sample server with the program's callbacks, whose acceptor gets descriptor 7.\<close>

definition echoServers :: "(string, unit) servs" where
  "echoServers = mod_server 0 (\<lambda>sv. sv\<lparr>sv_connectionCallback := Some (\<lambda>c. TUserConnection 0 c),
       sv_messageCallback := Some (\<lambda>c now. TUserMessage 1 c now)\<rparr>)
     (mod_acceptor 0 (\<lambda>ac. ac\<lparr>ac_cb := Some (\<lambda>fd peer. TNewConnection 0 fd peer)\<rparr>) sampleServers)"

definition acceptEnv :: "string env" where
  "acceptEnv = hiEnv\<lparr>accept_of := \<lambda>_ _. (7, Inet 2)\<rparr>"

lemma accept_laws: "buffer_laws acceptEnv" "write_law acceptEnv fd" "read_law acceptEnv fd (\<lambda>_. ''hi'')"
  by (auto simp: buffer_laws_def write_law_def read_law_def acceptEnv_def hiEnv_def slowEnv_def sampleEnv_def)

lemma echoServers_ok:
  "server_ok 0 echoServers" "reactor_wf echoServers" "isInLoopThread 0 echoServers" "loop_interest 0 echoServers 7 = None"
  "getNextLoop (sv_threadPool (n_servers echoServers 0)) echoServers = Inr (Some 0, sv_threadPool sampleServer)"
  using sampleServers_ok same_reactor_server[of echoServers sampleServers] getNextLoop_cong[of echoServers sampleServers]
  by (simp_all add: echoServers_def server_ok_def)


end
