(* ===== verification/Isolation.thy ===== *)
theory Isolation
  imports Echo
begin

text \<open>
  What an operation on one connection may touch: the connection, its channel, the registration of
  its descriptor in its loop, and the descriptor itself.  Everything else of the process, every
  other connection in particular, is as before.  The lemmas go operation by operation; they are
  the frame for what is said about a server with many clients.
\<close>

section \<open>The view of everybody else\<close>

text \<open>What the poller of a loop knows of a descriptor: its channel and what is polled.\<close>

definition entry :: "loop_id \<Rightarrow> 'z reactor_scheme \<Rightarrow> int \<Rightarrow> chan_id option \<times> (bool \<times> 16 word) option" where
  "entry l s f = (channels (el_poller (r_loops s l)) f, loop_interest l s f)"

fun on_fd :: "int \<Rightarrow> sysev \<Rightarrow> bool" where
  "on_fd fd (SysWrite f bs r) \<longleftrightarrow> f = fd"
| "on_fd fd (SysRead f r) \<longleftrightarrow> f = fd"
| "on_fd fd (SysShutdownWr f r) \<longleftrightarrow> f = fd"
| "on_fd fd e \<longleftrightarrow> False"

text \<open>The loop polls the descriptor of the connection for input.\<close>

definition watched :: "conn_id \<Rightarrow> ('b, 'z) conns \<Rightarrow> bool" where
  "watched c s \<longleftrightarrow> bit (ch_events (conn_chan c s)) 0 \<and>
     fst (entry (cn_loop (n_conns s c)) s (cn_sockfd (n_conns s c))) = Some (cn_channel (n_conns s c)) \<and>
     (\<exists>e. snd (entry (cn_loop (n_conns s c)) s (cn_sockfd (n_conns s c))) = Some (True, e) \<and> bit e 0)"

definition stays_watched :: "conn_id \<Rightarrow> ('b, 'z) conns \<Rightarrow> ('b, 'z) conns \<Rightarrow> bool" where
  "stays_watched c s t \<longleftrightarrow> (cn_state (n_conns s c) = KDisconnected \<longrightarrow> cn_state (n_conns t c) = KDisconnected) \<and>
     (watched c s \<longrightarrow> watched c t \<or> cn_state (n_conns t c) = KDisconnected)"

text \<open>
  The relation: only the connection, its channel, its buffers and its descriptor change, calls are
  made on this descriptor only, and it stays watched unless the connection ends.
\<close>

definition only_conn :: "conn_id \<Rightarrow> ('b, 'z) servs \<Rightarrow> ('b, 'z) servs \<Rightarrow> bool" where
  "only_conn c s t \<longleftrightarrow>
     (\<exists>ev i st ib ob P ts.
        t = s\<lparr>r_chans := (r_chans s)(cn_channel (n_conns s c) := (conn_chan c s)\<lparr>ch_events := ev, ch_index := i\<rparr>),
              r_loops := (\<lambda>k. (r_loops s k)\<lparr>el_poller := P k\<rparr>), r_trace := r_trace s @ ts,
              n_conns := (n_conns s)(c := (n_conns s c)\<lparr>cn_state := st, cn_inputBuffer := ib, cn_outputBuffer := ob\<rparr>)\<rparr> \<and>
        (\<forall>e \<in> set ts. on_fd (cn_sockfd (n_conns s c)) e)) \<and>
     (\<forall>k f. (k, f) \<noteq> (cn_loop (n_conns s c), cn_sockfd (n_conns s c)) \<longrightarrow> entry k t f = entry k s f) \<and>
     stays_watched c s t"

lemma only_connI:
  assumes "t = s\<lparr>r_chans := (r_chans s)(cn_channel (n_conns s c) := (conn_chan c s)\<lparr>ch_events := ev, ch_index := i\<rparr>),
      r_loops := (\<lambda>k. (r_loops s k)\<lparr>el_poller := P k\<rparr>), r_trace := r_trace s @ ts,
      n_conns := (n_conns s)(c := (n_conns s c)\<lparr>cn_state := st, cn_inputBuffer := ib, cn_outputBuffer := ob\<rparr>)\<rparr>"
    and "\<And>e. e \<in> set ts \<Longrightarrow> on_fd (cn_sockfd (n_conns s c)) e"
    and "\<And>k f. (k, f) \<noteq> (cn_loop (n_conns s c), cn_sockfd (n_conns s c)) \<Longrightarrow> entry k t f = entry k s f"
    and "stays_watched c s t"
  shows "only_conn c s t"
  unfolding only_conn_def using assms by blast

lemma stays_watched_refl [simp]: "stays_watched c s s"
  by (simp add: stays_watched_def)

lemma stays_watched_trans: "stays_watched c s t \<Longrightarrow> stays_watched c t u \<Longrightarrow> stays_watched c s u"
  by (auto simp: stays_watched_def)

text \<open>Entries depend on the pollers and the indices of the channels only.\<close>

lemma entry_cong:
  assumes "el_poller (r_loops t k) = el_poller (r_loops s k)"
    and "\<And>x. channels (el_poller (r_loops s k)) f = Some x \<Longrightarrow> ch_index (r_chans t x) = ch_index (r_chans s x)"
  shows "entry k t f = entry k s f"
  using assms by (simp add: entry_def loop_interest_def loop_ps_def interest_def Let_def split: option.splits)

lemma only_conn_refl [simp]: "only_conn c s s"
  by (rule only_connI[where P = "\<lambda>k. el_poller (r_loops s k)" and ts = "[]" and ev = "ch_events (conn_chan c s)"
        and i = "ch_index (conn_chan c s)" and st = "cn_state (n_conns s c)" and ib = "cn_inputBuffer (n_conns s c)"
        and ob = "cn_outputBuffer (n_conns s c)"]) simp_all

lemma only_conn_trans [trans]:
  assumes "only_conn c s t" and "only_conn c t u"
  shows "only_conn c s u"
proof -
  obtain ev i st ib ob P ts where
    t: "t = s\<lparr>r_chans := (r_chans s)(cn_channel (n_conns s c) := (conn_chan c s)\<lparr>ch_events := ev, ch_index := i\<rparr>),
      r_loops := (\<lambda>k. (r_loops s k)\<lparr>el_poller := P k\<rparr>), r_trace := r_trace s @ ts,
      n_conns := (n_conns s)(c := (n_conns s c)\<lparr>cn_state := st, cn_inputBuffer := ib, cn_outputBuffer := ob\<rparr>)\<rparr>"
    and ts: "\<forall>e \<in> set ts. on_fd (cn_sockfd (n_conns s c)) e" using assms(1) unfolding only_conn_def by blast
  obtain ev' i' st' ib' ob' P' ts' where
    u: "u = t\<lparr>r_chans := (r_chans t)(cn_channel (n_conns t c) := (conn_chan c t)\<lparr>ch_events := ev', ch_index := i'\<rparr>),
      r_loops := (\<lambda>k. (r_loops t k)\<lparr>el_poller := P' k\<rparr>), r_trace := r_trace t @ ts',
      n_conns := (n_conns t)(c := (n_conns t c)\<lparr>cn_state := st', cn_inputBuffer := ib', cn_outputBuffer := ob'\<rparr>)\<rparr>"
    and ts': "\<forall>e \<in> set ts'. on_fd (cn_sockfd (n_conns t c)) e" using assms(2) unfolding only_conn_def by blast
  have id: "cn_sockfd (n_conns t c) = cn_sockfd (n_conns s c)" "cn_loop (n_conns t c) = cn_loop (n_conns s c)"
    by (simp_all add: t)
  show ?thesis
  proof (rule only_connI[where ts = "ts @ ts'"])
    show "u = s\<lparr>r_chans := (r_chans s)(cn_channel (n_conns s c) := (conn_chan c s)\<lparr>ch_events := ev', ch_index := i'\<rparr>),
      r_loops := (\<lambda>k. (r_loops s k)\<lparr>el_poller := P' k\<rparr>), r_trace := r_trace s @ ts @ ts',
      n_conns := (n_conns s)(c := (n_conns s c)\<lparr>cn_state := st', cn_inputBuffer := ib', cn_outputBuffer := ob'\<rparr>)\<rparr>"
      unfolding u by (simp add: t)
    show "on_fd (cn_sockfd (n_conns s c)) e" if "e \<in> set (ts @ ts')" for e using that ts ts' id by auto
    show "entry k u f = entry k s f" if "(k, f) \<noteq> (cn_loop (n_conns s c), cn_sockfd (n_conns s c))" for k f
      using assms that id unfolding only_conn_def by metis
    show "stays_watched c s u" using assms unfolding only_conn_def by (blast intro: stays_watched_trans)
  qed
qed

text \<open>What follows for the rest of the process.\<close>

lemma only_conn_sel:
  assumes "only_conn c s t"
  shows "r_tid t = r_tid s" "r_nextChan t = r_nextChan s" "n_acceptors t = n_acceptors s" "n_nextConn t = n_nextConn s"
    "n_servers t = n_servers s" "n_connectionIndex t = n_connectionIndex s" "r_timers t = r_timers s"
    "d \<noteq> c \<Longrightarrow> n_conns t d = n_conns s d" "x \<noteq> cn_channel (n_conns s c) \<Longrightarrow> r_chans t x = r_chans s x"
    "r_loops t k = (r_loops s k)\<lparr>el_poller := el_poller (r_loops t k)\<rparr>"
    "(k, f) \<noteq> (cn_loop (n_conns s c), cn_sockfd (n_conns s c)) \<Longrightarrow> entry k t f = entry k s f"
    "conn_chan c t = (conn_chan c s)\<lparr>ch_events := ch_events (conn_chan c t), ch_index := ch_index (conn_chan c t)\<rparr>"
    "n_conns t c = (n_conns s c)\<lparr>cn_state := cn_state (n_conns t c), cn_inputBuffer := cn_inputBuffer (n_conns t c),
       cn_outputBuffer := cn_outputBuffer (n_conns t c)\<rparr>"
  using assms unfolding only_conn_def by auto

lemma only_conn_loop_sel:
  assumes "only_conn c s t"
  shows "el_threadId (r_loops t k) = el_threadId (r_loops s k)" "el_funcQueue (r_loops t k) = el_funcQueue (r_loops s k)"
    "el_timerQueue (r_loops t k) = el_timerQueue (r_loops s k)"
    "el_activeChannels (r_loops t k) = el_activeChannels (r_loops s k)"
    "isInLoopThread k t = isInLoopThread k s"
proof -
  have k: "r_loops t k = (r_loops s k)\<lparr>el_poller := el_poller (r_loops t k)\<rparr>" by (rule only_conn_sel(10)[OF assms])
  show "el_threadId (r_loops t k) = el_threadId (r_loops s k)" "el_funcQueue (r_loops t k) = el_funcQueue (r_loops s k)"
    "el_timerQueue (r_loops t k) = el_timerQueue (r_loops s k)"
    "el_activeChannels (r_loops t k) = el_activeChannels (r_loops s k)"
    by (subst k, simp)+
  then show "isInLoopThread k t = isInLoopThread k s" using only_conn_sel(1)[OF assms] by (simp add: isInLoopThread_def)
qed

lemma only_conn_trace:
  assumes "only_conn c s t"
  shows "\<exists>ts. r_trace t = r_trace s @ ts \<and> (\<forall>e \<in> set ts. on_fd (cn_sockfd (n_conns s c)) e)"
  using assms unfolding only_conn_def by auto

lemma only_conn_same:
  assumes "only_conn c s t"
  shows "cn_loop (n_conns t c) = cn_loop (n_conns s c)" "cn_channel (n_conns t c) = cn_channel (n_conns s c)"
    "cn_sockfd (n_conns t c) = cn_sockfd (n_conns s c)" "cn_name (n_conns t c) = cn_name (n_conns s c)"
    "cn_connectionCallback (n_conns t c) = cn_connectionCallback (n_conns s c)"
    "cn_messageCallback (n_conns t c) = cn_messageCallback (n_conns s c)"
    "cn_closeCallback (n_conns t c) = cn_closeCallback (n_conns s c)"
    "cn_writeCompleteCallback (n_conns t c) = cn_writeCompleteCallback (n_conns s c)"
  by (subst only_conn_sel(13)[OF assms], simp)+

section \<open>One operation after the other\<close>

lemma only_conn_emit: "on_fd (cn_sockfd (n_conns s c)) e \<Longrightarrow> only_conn c s (emit e s)"
  by (rule only_connI[where P = "\<lambda>k. el_poller (r_loops s k)" and ts = "[e]" and ev = "ch_events (conn_chan c s)"
        and i = "ch_index (conn_chan c s)" and st = "cn_state (n_conns s c)" and ib = "cn_inputBuffer (n_conns s c)"
        and ob = "cn_outputBuffer (n_conns s c)"]) (simp_all add: emit_def entry_def loop_interest_def loop_ps_def stays_watched_def watched_def)

lemma only_conn_mod_conn:
  assumes "cn_state (n_conns s c) = KDisconnected \<longrightarrow> cn_state (f (n_conns s c)) = KDisconnected"
    and "\<exists>st ib ob. f (n_conns s c) = (n_conns s c)\<lparr>cn_state := st, cn_inputBuffer := ib, cn_outputBuffer := ob\<rparr>"
  shows "only_conn c s (mod_conn c f s)"
proof -
  obtain st ib ob where "f (n_conns s c) = (n_conns s c)\<lparr>cn_state := st, cn_inputBuffer := ib, cn_outputBuffer := ob\<rparr>"
    using assms(2) by blast
  with assms(1) show ?thesis
    by (intro only_connI[where P = "\<lambda>k. el_poller (r_loops s k)" and ts = "[]" and ev = "ch_events (conn_chan c s)"
        and i = "ch_index (conn_chan c s)" and st = st and ib = ib and ob = ob])
      (simp_all add: mod_conn_def entry_def loop_interest_def loop_ps_def stays_watched_def watched_def)
qed

lemma only_conn_fields:
  "cn_state (n_conns s c) \<noteq> KDisconnected \<or> st = KDisconnected \<Longrightarrow> only_conn c s (mod_conn c (setState st) s)" "only_conn c s (mod_conn c (\<lambda>cn. cn\<lparr>cn_inputBuffer := ib\<rparr>) s)"
  "only_conn c s (mod_conn c (\<lambda>cn. cn\<lparr>cn_outputBuffer := g cn\<rparr>) s)"
proof -
  let ?cn = "n_conns s c"
  show "only_conn c s (mod_conn c (setState st) s)" if "cn_state (n_conns s c) \<noteq> KDisconnected \<or> st = KDisconnected"
    using that by (intro only_conn_mod_conn exI[of _ st] exI[of _ "cn_inputBuffer ?cn"] exI[of _ "cn_outputBuffer ?cn"])
      (auto simp: setState_def)
  show "only_conn c s (mod_conn c (\<lambda>cn. cn\<lparr>cn_inputBuffer := ib\<rparr>) s)"
    by (intro only_conn_mod_conn exI[of _ "cn_state ?cn"] exI[of _ ib] exI[of _ "cn_outputBuffer ?cn"]) simp_all
  show "only_conn c s (mod_conn c (\<lambda>cn. cn\<lparr>cn_outputBuffer := g cn\<rparr>) s)"
    by (intro only_conn_mod_conn exI[of _ "cn_state ?cn"] exI[of _ "cn_inputBuffer ?cn"] exI[of _ "g ?cn"]) simp_all
qed

lemma only_conn_disableWrite: "only_conn c s (disableWrite (cn_channel (n_conns s c)) s)"
proof (rule only_connI[where P = "\<lambda>k. el_poller (r_loops s k)" and ts = "[]" and ev = "ch_events (conn_chan c s) AND NOT kWriteEvent"
        and i = "ch_index (conn_chan c s)" and st = "cn_state (n_conns s c)" and ib = "cn_inputBuffer (n_conns s c)"
        and ob = "cn_outputBuffer (n_conns s c)"])
  show "entry k (disableWrite (cn_channel (n_conns s c)) s) f = entry k s f" for k f
    by (rule entry_cong) (simp_all add: disableWrite_def disableWriteEvent_def)
  then show "stays_watched c s (disableWrite (cn_channel (n_conns s c)) s)"
    by (simp add: stays_watched_def watched_def)
      (simp add: disableWrite_def disableWriteEvent_def event_masks poll_bits bit_simps)
qed (simp_all add: disableWrite_def mod_chan_def disableWriteEvent_def)

text \<open>A connection whose channel its loop knows correctly.\<close>

definition conn_base :: "conn_id \<Rightarrow> ('b, 'z) conns \<Rightarrow> bool" where
  "conn_base c s \<longleftrightarrow> reactor_wf s \<and> chan_ok (cn_channel (n_conns s c)) s \<and>
     ch_ownerLoop (conn_chan c s) = cn_loop (n_conns s c) \<and> ch_fd (conn_chan c s) = cn_sockfd (n_conns s c)"

definition events_only :: "(channel \<Rightarrow> channel) \<Rightarrow> bool" where
  "events_only g \<longleftrightarrow> (\<forall>ch. \<exists>ev. g ch = ch\<lparr>ch_events := ev\<rparr>)"

lemma events_only_ops [simp]: "events_only addReadEvent" "events_only addWriteEvent" "events_only clearEvents"
  unfolding events_only_def addReadEvent_def addWriteEvent_def clearEvents_def by blast+

lemma read_bit_ops: "bit (ch_events (addReadEvent ch)) 0" "bit (ch_events (addWriteEvent ch)) 0 = bit (ch_events ch) 0"
  by (simp_all add: addReadEvent_def addWriteEvent_def event_masks poll_bits bit_or_iff)

lemma events_only_identity: "events_only g \<Longrightarrow> keeps_identity g"
  unfolding events_only_def keeps_identity_def
proof
  fix ch assume "\<forall>ch. \<exists>ev. g ch = ch\<lparr>ch_events := ev\<rparr>"
  then obtain ev where "g ch = ch\<lparr>ch_events := ev\<rparr>" by blast
  then show "ch_fd (g ch) = ch_fd ch \<and> ch_index (g ch) = ch_index ch \<and> ch_ownerLoop (g ch) = ch_ownerLoop ch" by simp
qed

text \<open>\<open>update()\<close> of a channel leaves the entries of all other descriptors, in its loop and in all other loops.\<close>

lemma updateWith_entry:
  assumes wf: "reactor_wf s" and ok: "chan_ok x s" and g: "keeps_identity g" and t: "updateWith g x s = Inr t"
    and other: "(k, f) \<noteq> (ch_ownerLoop (r_chans s x), ch_fd (r_chans s x))"
  shows "entry k t f = entry k s f"
proof (cases "k = ch_ownerLoop (r_chans s x)")
  case False
  note K = updateWith_contract(2)[OF wf ok g t]
  then obtain i p where p: "t = set_ps (ch_ownerLoop (r_chans s x)) ((r_chans s)(x := set_index i (g (r_chans s x))), p) s"
    by (auto simp: Let_def)
  show ?thesis
  proof (rule entry_cong)
    fix d assume "channels (el_poller (r_loops s k)) f = Some d"
    from reactor_wfD(2)[OF wf this] False have "d \<noteq> x" by auto
    then show "ch_index (r_chans t d) = ch_index (r_chans s d)" by (simp add: p)
  qed (use False in \<open>simp add: p\<close>)
next
  case True
  let ?l = "ch_ownerLoop (r_chans s x)" and ?s = "mod_chan x g s"
  have f: "f \<noteq> ch_fd (g (r_chans s x))" using other True g by (simp add: keeps_identity_def)
  have l: "ch_ownerLoop (r_chans ?s x) = ?l" using g by (simp add: keeps_identity_def)
  obtain cs p where u: "updateChannel x (r_chans ?s, el_poller (r_loops s ?l)) = Inr (cs, p)" "t = set_ps ?l (cs, p) ?s"
    using t l by (auto simp: updateWith_def channelUpdate_def loopUpdateChannel_def loop_ps_def result_simps)
  have "channels p f = channels (el_poller (r_loops s ?l)) f"
    using u(1) by (cases rule: updateChannel_cases) (use f in auto)
  moreover have "loop_interest ?l t f = loop_interest ?l s f"
    using updateWith_contract(2)[OF wf ok g t] other True by (simp add: Let_def)
  ultimately show ?thesis using True by (simp add: entry_def u(2))
qed

lemma only_conn_update:
  assumes base: "conn_base c s" and g: "events_only g" and t: "updateWith g (cn_channel (n_conns s c)) s = Inr t"
    and b: "cn_state (n_conns s c) = KDisconnected \<or>
      (bit (ch_events (conn_chan c s)) 0 \<longrightarrow> bit (ch_events (g (conn_chan c s))) 0)"
  shows "only_conn c s t"
proof -
  have wf: "reactor_wf s" "chan_ok (cn_channel (n_conns s c)) s" and id: "keeps_identity g"
    using base g by (simp_all add: conn_base_def events_only_identity)
  obtain i p where p: "t = set_ps (cn_loop (n_conns s c)) ((r_chans s)(cn_channel (n_conns s c) := set_index i (g (conn_chan c s))), p) s"
    using updateWith_contract(2)[OF wf id t] base by (auto simp: Let_def conn_base_def)
  obtain ev where ev: "g (conn_chan c s) = (conn_chan c s)\<lparr>ch_events := ev\<rparr>" using g unfolding events_only_def by blast
  show ?thesis
  proof (rule only_connI[where ts = "[]" and ev = ev and i = i and st = "cn_state (n_conns s c)"
        and ib = "cn_inputBuffer (n_conns s c)" and ob = "cn_outputBuffer (n_conns s c)"
        and P = "\<lambda>k. if k = cn_loop (n_conns s c) then p else el_poller (r_loops s k)"])
    show "entry k t f = entry k s f" if "(k, f) \<noteq> (cn_loop (n_conns s c), cn_sockfd (n_conns s c))" for k f
      using updateWith_entry[OF wf id t] that base by (simp add: conn_base_def)
    show "stays_watched c s t"
    proof (cases "cn_state (n_conns s c) = KDisconnected")
      case False
      have e: "bit (ch_events (g (conn_chan c s))) 0" "\<not> isNoneEvent (g (conn_chan c s))" if "watched c s"
      proof -
        show "bit (ch_events (g (conn_chan c s))) 0" using that b False by (simp add: watched_def)
        then show "\<not> isNoneEvent (g (conn_chan c s))" by (auto simp: isNoneEvent_def event_masks)
      qed
      have "watched c t" if w: "watched c s"
        using updateWith_contract(2)[OF wf id t] w e[OF w] base
        by (auto simp: Let_def watched_def conn_base_def p entry_def set_index_def watch_after_def bit_simps)
      then show ?thesis using False by (simp add: stays_watched_def)
    qed (simp add: stays_watched_def p)
  qed (auto simp: p set_ps_def ev set_index_def fun_eq_iff)
qed

lemma conn_base_keep:
  "conn_base c (emit e s) = conn_base c s"
  "cn_channel (f (n_conns s c)) = cn_channel (n_conns s c) \<Longrightarrow> cn_loop (f (n_conns s c)) = cn_loop (n_conns s c) \<Longrightarrow>
     cn_sockfd (f (n_conns s c)) = cn_sockfd (n_conns s c) \<Longrightarrow> conn_base c (mod_conn c f s) = conn_base c s"
  using same_reactor_conn[of "emit e s" s] same_reactor_conn[of "mod_conn c f s" s] by (simp_all add: conn_base_def)

lemma queueWriteComplete_none: "cn_writeCompleteCallback (n_conns s c) = None \<Longrightarrow> queueWriteComplete E c s = s"
  by (simp add: queueWriteComplete_def)

lemma enableWrite_only:
  "conn_base c s \<Longrightarrow> enableWrite (cn_channel (n_conns s c)) s = Inr t \<Longrightarrow> only_conn c s t"
  unfolding enable_ops using read_bit_ops(2) by (auto intro!: only_conn_update)

lemma sendInLoop_only:
  assumes base: "conn_base c s" and wc: "cn_writeCompleteCallback (n_conns s c) = None"
    and t: "sendInLoop E c m s = Inr t"
  shows "only_conn c s t"
proof -
  obtain ret u where u: "(if \<not> isWriting (conn_chan c s) \<and> buf_readableBytes E (cn_outputBuffer (n_conns s c)) = 0
      then sysWrite E (cn_sockfd (n_conns s c)) m s else (0, s)) = (ret, u)" by (metis surj_pair)
  then have su: "only_conn c s u" "conn_base c u"
    using base by (auto simp: sysWrite_def Let_def conn_base_keep split: if_splits intro!: only_conn_emit)
  have wcu: "cn_writeCompleteCallback (n_conns u c) = None" using only_conn_same(8)[OF su(1)] wc by simp
  show ?thesis
  proof (cases "ret < int (length m)")
    case False
    then have "t = u"
      using t u wcu by (auto simp: sendInLoop_def result_simps assertInLoopThread_def queueWriteComplete_none)
    with su show ?thesis by simp
  next
    case True
    let ?v = "mod_conn c (\<lambda>cn. cn\<lparr>cn_outputBuffer := buf_append E (cn_outputBuffer cn) (drop (nat ret) m)\<rparr>) u"
    have uv: "only_conn c u ?v" by (rule only_conn_fields(3))
    have bv: "conn_base c ?v" using su(2) by (simp add: conn_base_keep)
    have "t = ?v \<or> enableWrite (cn_channel (n_conns ?v c)) ?v = Inr t"
      using t u True by (auto simp: sendInLoop_def result_simps assertInLoopThread_def Let_def split: if_splits)
    then have "only_conn c ?v t" using enableWrite_only[OF bv] by auto
    with su(1) uv show ?thesis by (blast intro: only_conn_trans)
  qed
qed

lemma send_only:
  assumes "conn_base c s" and "cn_writeCompleteCallback (n_conns s c) = None" and "send E run c m s = Inr t"
    and "isInLoopThread (cn_loop (n_conns s c)) s"
  shows "only_conn c s t"
  using assms sendInLoop_only[OF assms(1,2)] by (auto simp: send_def split: if_splits)

lemma shutdownInLoop_only: "shutdownInLoop E c s = Inr t \<Longrightarrow> only_conn c s t"
  by (auto simp: shutdownInLoop_def shutdownWrite_def result_simps assertInLoopThread_def intro!: only_conn_emit)

lemma connWrite_only:
  assumes base: "conn_base c s" and wc: "cn_writeCompleteCallback (n_conns s c) = None"
    and t: "connWrite E c s = Inr t"
  shows "only_conn c s t"
proof (cases "isWriting (conn_chan c s)")
  case False
  then show ?thesis using t by (auto simp: connWrite_def result_simps assertInLoopThread_def)
next
  case True
  obtain ret u where u: "sysWrite E (cn_sockfd (n_conns s c)) (take (buf_readableBytes E (cn_outputBuffer (n_conns s c)))
      (buf_peek E (cn_outputBuffer (n_conns s c)))) s = (ret, u)" by (metis surj_pair)
  then have su: "only_conn c s u" by (auto simp: sysWrite_def Let_def intro!: only_conn_emit)
  have nu: "n_conns u = n_conns s" using u by (auto simp: sysWrite_def Let_def)
  let ?v = "\<lambda>out. mod_conn c (\<lambda>cn. cn\<lparr>cn_outputBuffer := out\<rparr>) u"
  let ?w = "\<lambda>out. disableWrite (cn_channel (n_conns s c)) (?v out)"
  have v: "only_conn c s (?v out)" for out by (rule only_conn_trans[OF su only_conn_fields(3)])
  have w: "only_conn c s (?w out)" for out
    using only_conn_trans[OF v[of out]] only_conn_disableWrite[of c "?v out"] by (simp add: nu)
  have "queueWriteComplete E c (?w out) = ?w out" for out
    by (rule queueWriteComplete_none) (simp add: nu wc)
  with t True u have "\<exists>out. t = ?v out \<or> t = ?w out \<or> shutdownInLoop E c (?w out) = Inr t"
    by (auto simp: connWrite_def result_simps assertInLoopThread_def Let_def nu split: if_splits)
  with v w shutdownInLoop_only show ?thesis by (blast intro: only_conn_trans)
qed

section \<open>The program's callbacks\<close>

lemma messageFunc_only:
  assumes base: "conn_base c s" and wc: "cn_writeCompleteCallback (n_conns s c) = None"
    and thr: "isInLoopThread (cn_loop (n_conns s c)) s" and t: "messageFunc E run c s = Inr t"
  shows "only_conn c s t"
proof -
  obtain b where b: "send E run c (''server sends this message back - '' @ buf_peek E (cn_inputBuffer (n_conns s c)))
      (mod_conn c (\<lambda>cn. cn\<lparr>cn_inputBuffer := b\<rparr>) s) = Inr t"
    using t by (auto simp: messageFunc_def Let_def result_simps)
  let ?u = "mod_conn c (\<lambda>cn. cn\<lparr>cn_inputBuffer := b\<rparr>) s"
  have "conn_base c ?u" "cn_writeCompleteCallback (n_conns ?u c) = None" "isInLoopThread (cn_loop (n_conns ?u c)) ?u"
    using base wc thr by (simp_all add: conn_base_keep isInLoopThread_def)
  from send_only[OF this(1,2) b this(3)] only_conn_fields(2)[of c s b] show ?thesis by (blast intro: only_conn_trans)
qed

lemma connRead_only:
  assumes base: "conn_base c s" and wc: "cn_writeCompleteCallback (n_conns s c) = None"
    and thr: "isInLoopThread (cn_loop (n_conns s c)) s" and mc: "cn_messageCallback (n_conns s c) = Some (\<lambda>c now. TUserMessage 1 c now)"
    and t: "connRead E (run_task E (echo_user E g) (Suc n)) c now s = Inr t"
    and r: "fst (buf_readFd E (r_trace s) (cn_inputBuffer (n_conns s c)) (cn_sockfd (n_conns s c))) \<noteq> 0"
  shows "only_conn c s t"
proof -
  obtain ret b e where b: "buf_readFd E (r_trace s) (cn_inputBuffer (n_conns s c)) (cn_sockfd (n_conns s c)) = (ret, b, e)"
    by (metis surj_pair)
  let ?u = "emit (SysRead (cn_sockfd (n_conns s c)) ret) (mod_conn c (\<lambda>cn. cn\<lparr>cn_inputBuffer := b\<rparr>) s)"
  have u: "only_conn c s ?u"
    by (rule only_conn_trans[OF only_conn_fields(2) only_conn_emit]) simp
  have bu: "conn_base c ?u" "cn_writeCompleteCallback (n_conns ?u c) = None" "isInLoopThread (cn_loop (n_conns ?u c)) ?u"
    using base wc thr by (simp_all add: conn_base_keep isInLoopThread_def)
  show ?thesis
  proof (cases "ret > 0")
    case True
    then have "messageFunc E (run_task E (echo_user E g) n) c ?u = Inr t"
      using t b mc thr by (simp add: connRead_def assertInLoopThread_def callSet_def echo_user_def)
    with messageFunc_only[OF bu] u show ?thesis by (blast intro: only_conn_trans)
  next
    case False
    then have "t = ?u" using t b r thr by (simp add: connRead_def assertInLoopThread_def connError_def)
    with u show ?thesis by simp
  qed
qed

lemma connectionEstablished_only:
  assumes base: "conn_base c s" and wc: "cn_writeCompleteCallback (n_conns s c) = None"
    and thr: "isInLoopThread (cn_loop (n_conns s c)) s" and cc: "cn_connectionCallback (n_conns s c) = Some (\<lambda>c. TUserConnection 0 c)"
    and t: "connectionEstablished (run_task E (echo_user E g) (Suc n)) c s = Inr t" and st: "cn_state (n_conns s c) \<noteq> KDisconnected"
  shows "only_conn c s t"
proof -
  let ?v = "mod_conn c (setState KConnected) s"
  have bv: "conn_base c ?v" and sv: "only_conn c s ?v" using base st by (simp_all add: conn_base_keep only_conn_fields)
  obtain u where u: "updateWith addReadEvent (cn_channel (n_conns ?v c)) ?v = Inr u"
    "callSet ''connectionCallback_'' (run_task E (echo_user E g) (Suc n)) (map_option (\<lambda>f. f c) (cn_connectionCallback (n_conns u c))) u = Inr t"
    using t by (auto simp: connectionEstablished_def assertInLoopThread_def result_simps enable_ops)
  have "only_conn c ?v u"
    by (rule only_conn_update[OF bv _ u(1)]) (simp_all add: read_bit_ops)
  with sv have su: "only_conn c s u" by (rule only_conn_trans)
  have k: "reactor_wf u" "chan_ok (cn_channel (n_conns s c)) u"
    using updateWith_contract(2)[OF _ _ _ u(1)] bv by (simp_all add: conn_base_def)
  have "conn_base c u"
    using k base by (simp add: conn_base_def only_conn_same[OF su]) (subst only_conn_sel(12)[OF su, unfolded only_conn_same[OF su]], simp)+
  moreover have "cn_writeCompleteCallback (n_conns u c) = None" "cn_connectionCallback (n_conns u c) = Some (\<lambda>c. TUserConnection 0 c)"
    "isInLoopThread (cn_loop (n_conns u c)) u"
    using wc cc thr by (simp_all add: only_conn_same[OF su] only_conn_loop_sel(5)[OF su])
  ultimately have "only_conn c u t"
    using u(2) send_only by (auto simp: callSet_def echo_user_def connectionFunc_def)
  with su show ?thesis by (rule only_conn_trans)
qed

text \<open>\<open>handleClose\<close> up to the callback.\<close>

lemma connClose_only:
  assumes base: "conn_base c s" and t: "connClose run c s = Inr t"
  shows "\<exists>u. only_conn c s u \<and> reactor_wf u \<and>
    callSet ''closeCallback_'' run (map_option (\<lambda>f. f c) (cn_closeCallback (n_conns s c))) u = Inr t"
proof -
  let ?v = "mod_conn c (setState KDisconnected) s"
  have bv: "conn_base c ?v" and sv: "only_conn c s ?v" using base by (simp_all add: conn_base_keep only_conn_fields)
  obtain u where u: "updateWith clearEvents (cn_channel (n_conns ?v c)) ?v = Inr u"
    "callSet ''closeCallback_'' run (map_option (\<lambda>f. f c) (cn_closeCallback (n_conns u c))) u = Inr t"
    using t by (auto simp: connClose_def assertInLoopThread_def result_simps enable_ops)
  have "only_conn c ?v u" by (rule only_conn_update[OF bv _ u(1)]) simp_all
  with sv have su: "only_conn c s u" by (rule only_conn_trans)
  moreover have "reactor_wf u" using updateWith_contract(2)[OF _ _ _ u(1)] bv by (simp add: conn_base_def)
  ultimately show ?thesis using u(2) by (auto simp: only_conn_same[OF su])
qed

end
