(* ===== verification/Serving.thy ===== *)
theory Serving
  imports Isolation
begin

text \<open>
  The server program at work, with all its loops and all its clients: the invariant \<open>serving\<close> of
  the states between two turns of its loops, and that every turn of every loop goes through, keeps
  it, and answers each client exactly.
\<close>

section \<open>The kernel\<close>

text \<open>The descriptors that are open after the calls of a trace.\<close>

fun open_after :: "sysev \<Rightarrow> int set \<Rightarrow> int set" where
  "open_after (SysEventfd fd) A = insert fd A"
| "open_after (SysTimerfd fd) A = insert fd A"
| "open_after (SysSocket fd) A = insert fd A"
| "open_after (SysAccept l fd) A = insert fd A"
| "open_after (SysClose fd r) A = A - {fd}"
| "open_after e A = A"

definition open_fds :: "trace \<Rightarrow> int set" where
  "open_fds tr = fold open_after tr {}"

text \<open>
  What arrives at a descriptor: the piece a \<open>read\<close> made after a given trace delivers, empty at the
  end of the stream, and \<open>None\<close> when the call fails, as it may without any data.
\<close>

type_synonym feed = "int \<Rightarrow> trace \<Rightarrow> string option"

fun pieces_from :: "feed \<Rightarrow> int \<Rightarrow> trace \<Rightarrow> trace \<Rightarrow> string list" where
  "pieces_from feed fd pre [] = []"
| "pieces_from feed fd pre (e # tr) =
     (case e of
        SysRead f r \<Rightarrow>
          if f = fd then (case feed fd pre of Some x \<Rightarrow> if x = [] then [] else [x] | None \<Rightarrow> []) else []
      | _ \<Rightarrow> []) @ pieces_from feed fd (pre @ [e]) tr"

definition pieces :: "feed \<Rightarrow> int \<Rightarrow> trace \<Rightarrow> string list" where
  "pieces feed fd tr = pieces_from feed fd [] tr"

text \<open>
  The documented behaviour of the calls, where nothing fails but a \<open>read\<close> without data: \<open>write\<close> and
  the buffer as before; \<open>Buffer::readFd\<close> appends what the descriptor delivers and returns its length,
  or is negative and leaves the buffer; \<open>accept\<close> gives a descriptor that is not open; \<open>poll\<close> reports
  as poll(2) says, and neither urgent data nor \<open>POLLRDHUP\<close>, which nobody asks for.
\<close>

definition read_ok :: "'b env \<Rightarrow> feed \<Rightarrow> bool" where
  "read_ok E feed \<longleftrightarrow> (\<forall>fd tr b. case feed fd tr of
       None \<Rightarrow> \<exists>r b' e. buf_readFd E tr b fd = (r, b', e) \<and> r < 0 \<and> buf_peek E b' = buf_peek E b
     | Some x \<Rightarrow> \<exists>b' e. buf_readFd E tr b fd = (int (length x), b', e) \<and> buf_peek E b' = buf_peek E b @ x)"

definition accept_ok :: "'b env \<Rightarrow> bool" where
  "accept_ok E \<longleftrightarrow> (\<forall>tr fd. 0 \<le> fst (accept_of E tr fd) \<and> fst (accept_of E tr fd) \<notin> open_fds tr)"

definition poll_ok :: "'b env \<Rightarrow> bool" where
  "poll_ok E \<longleftrightarrow> (\<forall>tr req w. poll_reports req (fst (poll_of E tr req w)) (snd (poll_of E tr req w)) \<and>
     (\<forall>r \<in> set (snd (poll_of E tr req w)). r AND 0x2002 = 0))"

definition kernel_ok :: "'b env \<Rightarrow> feed \<Rightarrow> bool" where
  "kernel_ok E feed \<longleftrightarrow> buffer_laws E \<and> (\<forall>fd. write_law E fd) \<and> read_ok E feed \<and> accept_ok E \<and> poll_ok E"

section \<open>The invariant\<close>

text \<open>What a client gets is the greeting and one answer for each piece it sent.\<close>

definition answered :: "'b env \<Rightarrow> feed \<Rightarrow> conn_id \<Rightarrow> ('b, 'z) servs \<Rightarrow> bool" where
  "answered E feed c s \<longleftrightarrow>
     stream E c s = greeting @ concat (map reply (pieces feed (cn_sockfd (n_conns s c)) (r_trace s)))"

definition in_map :: "server_id \<Rightarrow> conn_id \<Rightarrow> ('b, 'z) servs \<Rightarrow> bool" where
  "in_map v c s \<longleftrightarrow> map_of (sv_connections (n_servers s v)) (cn_name (n_conns s c)) = Some c"

text \<open>A connection with the callbacks of the program, on an open descriptor.\<close>

definition wired :: "server_id \<Rightarrow> conn_id \<Rightarrow> ('b, 'z) servs \<Rightarrow> bool" where
  "wired v c s \<longleftrightarrow> (let cn = n_conns s c; ch = conn_chan c s in
     cn_channel cn < r_nextChan s \<and> 0 \<le> cn_sockfd cn \<and> cn_sockfd cn \<in> open_fds (r_trace s) \<and>
     ch_ownerLoop ch = cn_loop cn \<and> ch_fd ch = cn_sockfd cn \<and>
     ch_readCallback ch = Some (\<lambda>now. TConnRead c now) \<and> ch_writeCallback ch = Some (TConnWrite c) \<and>
     ch_closeCallback ch = Some (TConnClose c) \<and> ch_errorCallback ch = None \<and>
     cn_connectionCallback cn = Some (\<lambda>c. TUserConnection 0 c) \<and>
     cn_messageCallback cn = Some (\<lambda>c now. TUserMessage 1 c now) \<and>
     cn_closeCallback cn = Some (\<lambda>d. TRemoveConnection v d) \<and> cn_writeCompleteCallback cn = None)"

text \<open>What is true of a connection in each of its states.\<close>

definition phase_ok :: "'b env \<Rightarrow> feed \<Rightarrow> server_id \<Rightarrow> conn_id \<Rightarrow> ('b, 'z) servs \<Rightarrow> bool" where
  "phase_ok E feed v c s \<longleftrightarrow>
     (let cn = n_conns s c; ch = conn_chan c s; fd = cn_sockfd cn; en = entry (cn_loop cn) s fd; tr = r_trace s in
      case cn_state cn of
        KConnecting \<Rightarrow> in_map v c s \<and> fst en = None \<and> ch_index ch < 0 \<and> ch_events ch = 0 \<and>
          buf_peek E (cn_inputBuffer cn) = [] \<and> buf_peek E (cn_outputBuffer cn) = [] \<and>
          written fd tr = [] \<and> fins fd tr = 0 \<and> pieces feed fd tr = []
      | KConnected \<Rightarrow> in_map v c s \<and> watched c s \<and>
          (isWriting ch \<longleftrightarrow> buf_peek E (cn_outputBuffer cn) \<noteq> []) \<and> buf_peek E (cn_inputBuffer cn) = [] \<and>
          fins fd tr = 0 \<and> answered E feed c s
      | KDisconnecting \<Rightarrow> False
      | KDisconnected \<Rightarrow> isNoneEvent ch \<and>
          (fst en = None \<or> fst en = Some (cn_channel cn) \<and> snd en = Some (False, 0)) \<and> answered E feed c s)"

text \<open>The functors the program queues, each in the loop it belongs to and in time.\<close>

definition task_fits :: "server_id \<Rightarrow> loop_id \<Rightarrow> task \<Rightarrow> ('b, 'z) servs \<Rightarrow> bool" where
  "task_fits v k t s \<longleftrightarrow> (case t of
     TEstablished c \<Rightarrow> c < n_nextConn s \<and> k = cn_loop (n_conns s c) \<and> cn_state (n_conns s c) = KConnecting
   | TRemoveInLoop w c \<Rightarrow> c < n_nextConn s \<and> w = v \<and> k = sv_loop (n_servers s v) \<and>
       cn_state (n_conns s c) = KDisconnected \<and> in_map v c s \<and>
       fst (entry (cn_loop (n_conns s c)) s (cn_sockfd (n_conns s c))) \<noteq> None
   | TDestroyed c \<Rightarrow> c < n_nextConn s \<and> k = cn_loop (n_conns s c) \<and>
       cn_state (n_conns s c) = KDisconnected \<and> \<not> in_map v c s \<and>
       fst (entry (cn_loop (n_conns s c)) s (cn_sockfd (n_conns s c))) \<noteq> None
   | _ \<Rightarrow> False)"

text \<open>The functors of a loop: those of the batch it is running, then those in its queue.\<close>

definition pend_ok :: "server_id \<Rightarrow> (loop_id \<Rightarrow> task list) \<Rightarrow> ('b, 'z) servs \<Rightarrow> bool" where
  "pend_ok v bat s \<longleftrightarrow> (\<forall>k. distinct (bat k @ el_funcQueue (r_loops s k)) \<and>
     (\<forall>t \<in> set (bat k @ el_funcQueue (r_loops s k)). task_fits v k t s))"

definition pool_ok :: "pool \<Rightarrow> bool" where
  "pool_ok p \<longleftrightarrow> tp_started p \<and> (tp_numThreads p = 0 \<or>
     tp_loops p \<noteq> [] \<and> tp_numThreads p = int (length (tp_loops p)) \<and> 0 \<le> tp_nextIndex p \<and>
     tp_nextIndex p < int (length (tp_loops p)) \<and> None \<notin> set (tp_loops p))"

definition front_ok :: "server_id \<Rightarrow> ('b, 'z) servs \<Rightarrow> bool" where
  "front_ok v s \<longleftrightarrow> (let sv = n_servers s v in
     server_ok v s \<and> sv_connectionCallback sv = Some (\<lambda>c. TUserConnection 0 c) \<and>
     sv_messageCallback sv = Some (\<lambda>c now. TUserMessage 1 c now) \<and> sv_writeCompleteCallback sv = None \<and>
     tp_baseLoop (sv_threadPool sv) = sv_loop sv \<and> pool_ok (sv_threadPool sv) \<and>
     ac_cb (n_acceptors s (sv_acceptor sv)) = Some (\<lambda>fd peer. TNewConnection v fd peer))"

text \<open>
  The channels that do not belong to a connection: of the timers, for waking up, of the acceptor.
  They have no callback but the one for reading.
\<close>

definition aux_chan :: "server_id \<Rightarrow> loop_id \<Rightarrow> chan_id \<Rightarrow> ('b, 'z) servs \<Rightarrow> bool" where
  "aux_chan v k x s \<longleftrightarrow> x < r_nextChan s \<and> (let ch = r_chans s x in
     ch_errorCallback ch = None \<and> ch_closeCallback ch = None \<and> ch_writeCallback ch = None \<and>
     (ch_readCallback ch = None \<or> ch_readCallback ch = Some (\<lambda>_. TWakeupRead k) \<or> ch_readCallback ch = Some (\<lambda>_. TTimerRead k) \<or>
      k = sv_loop (n_servers s v) \<and> ch_readCallback ch = Some (\<lambda>_. TAcceptorRead (sv_acceptor (n_servers s v)))))"

definition reg_ok :: "server_id \<Rightarrow> ('b, 'z) servs \<Rightarrow> bool" where
  "reg_ok v s \<longleftrightarrow> (\<forall>k f x. fst (entry k s f) = Some x \<longrightarrow> f \<in> open_fds (r_trace s) \<and>
     (aux_chan v k x s \<or> (\<exists>c < n_nextConn s. x = cn_channel (n_conns s c) \<and> k = cn_loop (n_conns s c) \<and>
        f = cn_sockfd (n_conns s c))))"

definition clean :: "feed \<Rightarrow> trace \<Rightarrow> bool" where
  "clean feed tr \<longleftrightarrow> (\<forall>fd. fd \<notin> open_fds tr \<longrightarrow> written fd tr = [] \<and> fins fd tr = 0 \<and> pieces feed fd tr = [])"

definition serving :: "'b env \<Rightarrow> feed \<Rightarrow> server_id \<Rightarrow> (loop_id \<Rightarrow> task list) \<Rightarrow> ('b, 'z) servs \<Rightarrow> bool" where
  "serving E feed v bat s \<longleftrightarrow> reactor_wf s \<and> front_ok v s \<and> reg_ok v s \<and> pend_ok v bat s \<and>
     (\<forall>c < n_nextConn s. wired v c s \<and> phase_ok E feed v c s) \<and>
     inj_on (\<lambda>c. cn_sockfd (n_conns s c)) {..<n_nextConn s} \<and>
     (\<forall>k. tq_timers (el_timerQueue (r_loops s k)) = []) \<and> clean feed (r_trace s)"

section \<open>Traces\<close>

lemma open_fds_append: "open_fds (tr @ ts) = fold open_after ts (open_fds tr)"
  by (simp add: open_fds_def)

lemma pieces_append: "pieces feed fd (tr @ ts) = pieces feed fd tr @ pieces_from feed fd tr ts"
proof -
  have "pieces_from feed fd pre (tr @ ts) = pieces_from feed fd pre tr @ pieces_from feed fd (pre @ tr) ts" for pre
    by (induction tr arbitrary: pre) simp_all
  from this[of "[]"] show ?thesis by (simp add: pieces_def)
qed

text \<open>A call that neither opens, closes, reads, writes nor ends any descriptor.\<close>

fun silent :: "sysev \<Rightarrow> bool" where
  "silent (SysWrite f bs r) \<longleftrightarrow> False"
| "silent (SysRead f r) \<longleftrightarrow> False"
| "silent (SysShutdownWr f r) \<longleftrightarrow> False"
| "silent e \<longleftrightarrow> (\<forall>A. open_after e A = A)"

lemma on_fd_open: "on_fd fd e \<Longrightarrow> open_after e A = A"
  by (cases e) simp_all

lemma on_fd_other:
  assumes "on_fd fd e" and "f \<noteq> fd"
  shows "written f [e] = []" "fins f [e] = 0" "pieces_from feed f pre [e] = []"
  using assms by (cases e; simp)+

lemma silent_other:
  assumes "silent e"
  shows "open_after e A = A" "written f [e] = []" "fins f [e] = 0" "pieces_from feed f pre [e] = []"
  using assms by (cases e; simp)+

text \<open>What a trace says about the descriptors that its last calls leave alone.\<close>

definition same_io :: "feed \<Rightarrow> int \<Rightarrow> trace \<Rightarrow> trace \<Rightarrow> bool" where
  "same_io feed f tr tr' \<longleftrightarrow> written f tr' = written f tr \<and> fins f tr' = fins f tr \<and> pieces feed f tr' = pieces feed f tr"

lemma same_io_refl [simp]: "same_io feed f tr tr"
  by (simp add: same_io_def)

lemma on_fd_trace:
  assumes "\<forall>e \<in> set ts. on_fd fd e" and "f \<noteq> fd"
  shows "same_io feed f tr (tr @ ts)"
  using assms(1)
proof (induction ts rule: rev_induct)
  case (snoc e ts)
  have "on_fd fd e" using snoc.prems by simp
  note o = on_fd_other[OF this assms(2)]
  have "written f ((tr @ ts) @ [e]) = written f (tr @ ts)" "fins f ((tr @ ts) @ [e]) = fins f (tr @ ts)"
    "pieces feed f ((tr @ ts) @ [e]) = pieces feed f (tr @ ts)"
    using o by (simp_all only: written_append fins_append pieces_append append_Nil2 add_0_right)
  with snoc show ?case by (simp add: same_io_def)
qed simp

lemma on_fd_opens: "\<forall>e \<in> set ts. on_fd fd e \<Longrightarrow> open_fds (tr @ ts) = open_fds tr"
proof (induction ts rule: rev_induct)
  case (snoc e ts)
  then show ?case using on_fd_open[of fd e] by (simp add: open_fds_append)
qed simp

lemma silent_trace:
  assumes "list_all silent ts"
  shows "same_io feed f tr (tr @ ts)" "open_fds (tr @ ts) = open_fds tr"
  using assms
proof (induction ts rule: rev_induct)
  case (snoc e ts)
  { case 1
    then have "silent e" "list_all silent ts" by simp_all
    note o = silent_other(2-4)[OF this(1), where f = f]
    have "written f ((tr @ ts) @ [e]) = written f (tr @ ts)" "fins f ((tr @ ts) @ [e]) = fins f (tr @ ts)"
      "pieces feed f ((tr @ ts) @ [e]) = pieces feed f (tr @ ts)"
      using o by (simp_all only: written_append fins_append pieces_append append_Nil2 add_0_right)
    then show ?case using snoc.IH(1) \<open>list_all silent ts\<close> by (simp add: same_io_def) }
  { case 2
    then have "silent e" "list_all silent ts" by simp_all
    then show ?case using snoc.IH(2) silent_other(1) by (simp add: open_fds_append) }
qed simp_all

lemma clean_keeps:
  assumes "clean feed tr" and "open_fds tr' = open_fds tr" and "\<And>f. f \<notin> open_fds tr \<Longrightarrow> same_io feed f tr tr'"
  shows "clean feed tr'"
  using assms by (simp add: clean_def same_io_def)

section \<open>What one connection does leaves the others as they are\<close>

lemma entry_fst: "fst (entry k s f) = channels (el_poller (r_loops s k)) f"
  by (simp add: entry_def)

text \<open>The parts of a channel that a connection's place in the invariant depends on.\<close>

definition chan_like :: "channel \<Rightarrow> channel \<Rightarrow> bool" where
  "chan_like a b \<longleftrightarrow> ch_ownerLoop b = ch_ownerLoop a \<and> ch_fd b = ch_fd a \<and> ch_events b = ch_events a \<and>
     ch_readCallback b = ch_readCallback a \<and> ch_writeCallback b = ch_writeCallback a \<and>
     ch_closeCallback b = ch_closeCallback a \<and> ch_errorCallback b = ch_errorCallback a \<and>
     (ch_index b < 0 \<longleftrightarrow> ch_index a < 0)"

lemma chan_like_refl [simp]: "chan_like a a"
  by (simp add: chan_like_def)

lemma conn_keeps:
  assumes n: "n_conns t d = n_conns s d" and ch: "chan_like (conn_chan d s) (r_chans t (cn_channel (n_conns s d)))"
    and nc: "r_nextChan s \<le> r_nextChan t" and op: "open_fds (r_trace s) \<subseteq> open_fds (r_trace t)"
  shows "wired v d s \<Longrightarrow> wired v d t"
    and "entry (cn_loop (n_conns s d)) t (cn_sockfd (n_conns s d)) = entry (cn_loop (n_conns s d)) s (cn_sockfd (n_conns s d))
      \<Longrightarrow> same_io feed (cn_sockfd (n_conns s d)) (r_trace s) (r_trace t)
      \<Longrightarrow> in_map v d s \<longrightarrow> cn_state (n_conns s d) = KDisconnected \<or> in_map v d t
      \<Longrightarrow> phase_ok E feed v d s \<Longrightarrow> phase_ok E feed v d t"
proof -
  show "wired v d s \<Longrightarrow> wired v d t"
    using ch nc op by (auto simp: wired_def Let_def n chan_like_def)
  have w: "isWriting (r_chans t (cn_channel (n_conns s d))) = isWriting (conn_chan d s)"
    "isNoneEvent (r_chans t (cn_channel (n_conns s d))) = isNoneEvent (conn_chan d s)"
    using ch by (simp_all add: chan_like_def isWriting_def isNoneEvent_def)
  assume en: "entry (cn_loop (n_conns s d)) t (cn_sockfd (n_conns s d)) = entry (cn_loop (n_conns s d)) s (cn_sockfd (n_conns s d))"
    and io: "same_io feed (cn_sockfd (n_conns s d)) (r_trace s) (r_trace t)"
    and m: "in_map v d s \<longrightarrow> cn_state (n_conns s d) = KDisconnected \<or> in_map v d t"
  have "answered E feed d t = answered E feed d s" using io by (simp add: answered_def stream_def n same_io_def)
  moreover have "watched d t = watched d s" using ch en by (simp add: watched_def n chan_like_def)
  ultimately show "phase_ok E feed v d s \<Longrightarrow> phase_ok E feed v d t"
    using ch en io m w
    by (cases "cn_state (n_conns s d)") (simp_all add: phase_ok_def Let_def n same_io_def chan_like_def)
qed

text \<open>Every connection that is not the one that acts keeps its place in the invariant.\<close>

lemma others_keep:
  assumes oc: "only_conn c s t" and d: "d \<noteq> c" and w: "wired v d s" and wc: "wired v c s"
    and fd: "cn_sockfd (n_conns s d) \<noteq> cn_sockfd (n_conns s c)"
  shows "wired v d t" "phase_ok E feed v d s \<Longrightarrow> phase_ok E feed v d t"
proof -
  have nd: "n_conns t d = n_conns s d" by (rule only_conn_sel(8)[OF oc d])
  have "cn_channel (n_conns s d) \<noteq> cn_channel (n_conns s c)" using w wc d by (auto simp: wired_def Let_def)
  then have cd: "chan_like (conn_chan d s) (r_chans t (cn_channel (n_conns s d)))" by (simp add: only_conn_sel(9)[OF oc])
  have en: "entry k t (cn_sockfd (n_conns s d)) = entry k s (cn_sockfd (n_conns s d))" for k
    by (rule only_conn_sel(11)[OF oc]) (use fd in simp)
  obtain ts where ts: "r_trace t = r_trace s @ ts" "\<forall>e \<in> set ts. on_fd (cn_sockfd (n_conns s c)) e"
    using only_conn_trace[OF oc] by blast
  have io: "same_io feed (cn_sockfd (n_conns s d)) (r_trace s) (r_trace t)"
    unfolding ts(1) by (rule on_fd_trace[OF ts(2) fd])
  have op: "open_fds (r_trace s) \<subseteq> open_fds (r_trace t)" unfolding ts(1) by (simp add: on_fd_opens[OF ts(2)])
  have nc: "r_nextChan s \<le> r_nextChan t" by (simp add: only_conn_sel(2)[OF oc])
  have m: "in_map v d t = in_map v d s" by (simp add: in_map_def nd only_conn_sel(5)[OF oc])
  show "wired v d t" by (rule conn_keeps(1)[OF nd cd nc op w])
  show "phase_ok E feed v d s \<Longrightarrow> phase_ok E feed v d t"
    using conn_keeps(2)[OF nd cd nc op en io] m by simp
qed

lemma wired_keep:
  assumes oc: "only_conn c s t" and w: "wired v c s"
  shows "wired v c t"
proof -
  note sm = only_conn_same[OF oc]
  obtain ts where ts: "r_trace t = r_trace s @ ts" "\<forall>e \<in> set ts. on_fd (cn_sockfd (n_conns s c)) e"
    using only_conn_trace[OF oc] by blast
  have op: "open_fds (r_trace t) = open_fds (r_trace s)" unfolding ts(1) by (rule on_fd_opens[OF ts(2)])
  have ch: "r_chans t (cn_channel (n_conns s c)) = (conn_chan c s)\<lparr>ch_events := ch_events (r_chans t (cn_channel (n_conns s c))),
      ch_index := ch_index (r_chans t (cn_channel (n_conns s c)))\<rparr>"
    using only_conn_sel(12)[OF oc] unfolding sm(2) .
  have sel: "ch_ownerLoop (r_chans t (cn_channel (n_conns s c))) = ch_ownerLoop (conn_chan c s)"
    "ch_fd (r_chans t (cn_channel (n_conns s c))) = ch_fd (conn_chan c s)"
    "ch_readCallback (r_chans t (cn_channel (n_conns s c))) = ch_readCallback (conn_chan c s)"
    "ch_writeCallback (r_chans t (cn_channel (n_conns s c))) = ch_writeCallback (conn_chan c s)"
    "ch_closeCallback (r_chans t (cn_channel (n_conns s c))) = ch_closeCallback (conn_chan c s)"
    "ch_errorCallback (r_chans t (cn_channel (n_conns s c))) = ch_errorCallback (conn_chan c s)"
    by (subst ch, simp)+
  show ?thesis using w unfolding wired_def Let_def sm sel op only_conn_sel(2)[OF oc] by simp
qed

lemma servingD:
  assumes "serving E feed v bat s"
  shows "reactor_wf s" "front_ok v s" "reg_ok v s" "pend_ok v bat s" "tq_timers (el_timerQueue (r_loops s k)) = []"
    "clean feed (r_trace s)" "c < n_nextConn s \<Longrightarrow> wired v c s" "c < n_nextConn s \<Longrightarrow> phase_ok E feed v c s"
    "c < n_nextConn s \<Longrightarrow> d < n_nextConn s \<Longrightarrow> cn_sockfd (n_conns s c) = cn_sockfd (n_conns s d) \<Longrightarrow> c = d"
  using assms by (auto simp: serving_def inj_on_def)

lemma wiredD:
  assumes "wired v c s"
  shows "cn_channel (n_conns s c) < r_nextChan s" "0 \<le> cn_sockfd (n_conns s c)" "cn_sockfd (n_conns s c) \<in> open_fds (r_trace s)"
    "ch_ownerLoop (conn_chan c s) = cn_loop (n_conns s c)" "ch_fd (conn_chan c s) = cn_sockfd (n_conns s c)"
    "ch_readCallback (conn_chan c s) = Some (\<lambda>now. TConnRead c now)" "ch_writeCallback (conn_chan c s) = Some (TConnWrite c)"
    "ch_closeCallback (conn_chan c s) = Some (TConnClose c)" "ch_errorCallback (conn_chan c s) = None"
    "cn_connectionCallback (n_conns s c) = Some (\<lambda>c. TUserConnection 0 c)"
    "cn_messageCallback (n_conns s c) = Some (\<lambda>c now. TUserMessage 1 c now)"
    "cn_closeCallback (n_conns s c) = Some (\<lambda>d. TRemoveConnection v d)" "cn_writeCompleteCallback (n_conns s c) = None"
  using assms by (simp_all add: wired_def Let_def)

text \<open>The channel of a connection is its own, and not one of the others'.\<close>

lemma wired_channel:
  assumes "wired v c s" and "wired v d s" and "cn_channel (n_conns s c) = cn_channel (n_conns s d)"
  shows "c = d"
proof -
  have "Some (TConnWrite c) = Some (TConnWrite d)" using wiredD(7)[OF assms(1)] wiredD(7)[OF assms(2)] assms(3) by metis
  then show ?thesis by simp
qed

lemma aux_not_conn:
  assumes "aux_chan v k x s" and "wired v c s" shows "x \<noteq> cn_channel (n_conns s c)"
  using assms wiredD(7)[OF assms(2)] by (auto simp: aux_chan_def Let_def)

lemma regD:
  assumes "reg_ok v s" and "fst (entry k s f) = Some x"
  shows "f \<in> open_fds (r_trace s)"
    and "aux_chan v k x s \<or> (\<exists>c < n_nextConn s. x = cn_channel (n_conns s c) \<and> k = cn_loop (n_conns s c) \<and> f = cn_sockfd (n_conns s c))"
  using assms unfolding reg_ok_def by blast+

lemma only_conn_open: "only_conn c s t \<Longrightarrow> open_fds (r_trace t) = open_fds (r_trace s)"
  using only_conn_trace on_fd_opens by metis

lemma only_conn_ids:
  assumes "only_conn c s t"
  shows "cn_sockfd (n_conns t d) = cn_sockfd (n_conns s d)" "cn_loop (n_conns t d) = cn_loop (n_conns s d)"
    "cn_channel (n_conns t d) = cn_channel (n_conns s d)" "cn_name (n_conns t d) = cn_name (n_conns s d)"
    "cn_closeCallback (n_conns t d) = cn_closeCallback (n_conns s d)" "in_map v d t = in_map v d s"
proof -
  have n: "n_conns t d = n_conns s d" if "d \<noteq> c" using only_conn_sel(8)[OF assms that] .
  show "cn_sockfd (n_conns t d) = cn_sockfd (n_conns s d)" "cn_loop (n_conns t d) = cn_loop (n_conns s d)"
    "cn_channel (n_conns t d) = cn_channel (n_conns s d)" "cn_name (n_conns t d) = cn_name (n_conns s d)"
    "cn_closeCallback (n_conns t d) = cn_closeCallback (n_conns s d)"
    by (cases "d = c"; simp add: n only_conn_same[OF assms])+
  then show "in_map v d t = in_map v d s" by (simp add: in_map_def only_conn_sel(5)[OF assms])
qed

lemma front_only:
  assumes "only_conn c s t" and "front_ok v s" shows "front_ok v t"
  using assms(2) only_conn_ids[OF assms(1)] only_conn_sel(3-6)[OF assms(1)]
  by (simp add: front_ok_def Let_def server_ok_def)

text \<open>
  An operation of a connection keeps the invariant when it leaves the connection itself in order and
  the queued functors fit.
\<close>

lemma serving_conn:
  assumes S: "serving E feed v bat s" and c: "c < n_nextConn s" and oc: "only_conn c s t" and wf: "reactor_wf t"
    and ph: "phase_ok E feed v c t" and pend: "pend_ok v bat' t"
    and own: "fst (entry (cn_loop (n_conns s c)) t (cn_sockfd (n_conns s c))) \<in> {None, Some (cn_channel (n_conns s c))}"
  shows "serving E feed v bat' t"
proof -
  note D = servingD[OF S] and sel = only_conn_sel[OF oc] and ids = only_conn_ids[OF oc]
  have wc: "wired v c s" using D(7) c by blast
  have all: "wired v d t \<and> phase_ok E feed v d t" if "d < n_nextConn t" for d
  proof (cases "d = c")
    case True
    with ph wired_keep[OF oc wc] show ?thesis by simp
  next
    case False
    have d: "d < n_nextConn s" using that sel(4) by simp
    have "cn_sockfd (n_conns s d) \<noteq> cn_sockfd (n_conns s c)" using D(9)[OF d c] False by blast
    from others_keep[OF oc False D(7)[OF d] wc this] D(8)[OF d] show ?thesis by blast
  qed
  have aux: "aux_chan v k x t" if "aux_chan v k x s" for k x
  proof -
    have "r_chans t x = r_chans s x" using sel(9) aux_not_conn[OF that wc] by blast
    with that show ?thesis unfolding aux_chan_def Let_def using sel(2,5) by simp
  qed
  have "reg_ok v t" unfolding reg_ok_def
  proof (intro allI impI)
    fix k f x assume e: "fst (entry k t f) = Some x"
    show "f \<in> open_fds (r_trace t) \<and> (aux_chan v k x t \<or> (\<exists>c<n_nextConn t. x = cn_channel (n_conns t c) \<and>
        k = cn_loop (n_conns t c) \<and> f = cn_sockfd (n_conns t c)))"
    proof (cases "(k, f) = (cn_loop (n_conns s c), cn_sockfd (n_conns s c))")
      case True
      then show ?thesis using e own wc c only_conn_open[OF oc] ids sel(4) by (auto simp: wired_def Let_def)
    next
      case False
      have "fst (entry k s f) = Some x" using e sel(11)[OF False] by simp
      from regD[OF D(3) this] show ?thesis using aux only_conn_open[OF oc] ids sel(4) by auto
    qed
  qed
  moreover have "inj_on (\<lambda>c. cn_sockfd (n_conns t c)) {..<n_nextConn t}"
    using D(9) sel(4) ids(1) by (auto simp: inj_on_def)
  moreover have "clean feed (r_trace t)"
  proof -
    obtain ts where ts: "r_trace t = r_trace s @ ts" "\<forall>e \<in> set ts. on_fd (cn_sockfd (n_conns s c)) e"
      using only_conn_trace[OF oc] by blast
    show ?thesis
    proof (rule clean_keeps[OF D(6) only_conn_open[OF oc]])
      fix f assume "f \<notin> open_fds (r_trace s)"
      then have "f \<noteq> cn_sockfd (n_conns s c)" using wc by (auto simp: wired_def Let_def)
      then show "same_io feed f (r_trace s) (r_trace t)" unfolding ts(1) by (rule on_fd_trace[OF ts(2)])
    qed
  qed
  ultimately show ?thesis
    using all wf pend front_only[OF oc D(2)] D(5) only_conn_loop_sel(3)[OF oc] by (simp add: serving_def)
qed

text \<open>The connection a queued functor is about.\<close>

fun about :: "task \<Rightarrow> conn_id option" where
  "about (TEstablished c) = Some c"
| "about (TRemoveInLoop w c) = Some c"
| "about (TDestroyed c) = Some c"
| "about t = None"

lemma fits_other:
  assumes oc: "only_conn c s t" and x: "task_fits v k x s" "about x \<noteq> Some c" and S: "serving E feed v bat s" and c: "c < n_nextConn s"
  shows "task_fits v k x t"
proof -
  obtain d where d: "about x = Some d" "d < n_nextConn s" using x(1) by (cases x) (simp_all add: task_fits_def)
  have dc: "d \<noteq> c" using d(1) x(2) by auto
  then have "cn_sockfd (n_conns s d) \<noteq> cn_sockfd (n_conns s c)" using servingD(9)[OF S d(2) c] by blast
  then have en: "entry k t (cn_sockfd (n_conns s d)) = entry k s (cn_sockfd (n_conns s d))" for k
    by (intro only_conn_sel(11)[OF oc]) simp
  show ?thesis
    using x(1) d(1) dc only_conn_sel(4,5,8)[OF oc] en
    by (cases x) (simp_all add: task_fits_def in_map_def)
qed

text \<open>No functor is queued about a connection that is up.\<close>

lemma connected_no_task:
  assumes "task_fits v k x s" and "cn_state (n_conns s c) = KConnected"
  shows "about x \<noteq> Some c"
  using assms by (cases x) (auto simp: task_fits_def)

lemma pend_connected:
  assumes S: "serving E feed v bat s" and c: "c < n_nextConn s" and st: "cn_state (n_conns s c) = KConnected"
    and oc: "only_conn c s t"
  shows "pend_ok v bat t"
  using servingD(4)[OF S] fits_other[OF oc _ _ S c] connected_no_task[OF _ st]
  unfolding pend_ok_def by (simp add: only_conn_loop_sel(2)[OF oc])

section \<open>A connection that is up\<close>

lemma connectedD:
  assumes S: "serving E feed v bat s" and c: "c < n_nextConn s" and st: "cn_state (n_conns s c) = KConnected"
  shows "in_map v c s" "watched c s" "isWriting (conn_chan c s) \<longleftrightarrow> buf_peek E (cn_outputBuffer (n_conns s c)) \<noteq> []"
    "buf_peek E (cn_inputBuffer (n_conns s c)) = []" "fins (cn_sockfd (n_conns s c)) (r_trace s) = 0" "answered E feed c s"
  using servingD(8)[OF S c] st by (simp_all add: phase_ok_def Let_def)

lemma chan_ok_registered:
  assumes "reactor_wf s" and "wired v c s" and "fst (entry (cn_loop (n_conns s c)) s (cn_sockfd (n_conns s c))) = Some (cn_channel (n_conns s c))"
  shows "conn_base c s"
proof -
  note w = wiredD(1-5)[OF assms(2)]
  have "channels (el_poller (r_loops s (cn_loop (n_conns s c)))) (cn_sockfd (n_conns s c)) = Some (cn_channel (n_conns s c))"
    using assms(3) by (simp add: entry_fst)
  then have "chan_known (loop_ps (cn_loop (n_conns s c)) s) (cn_channel (n_conns s c))"
    using w(5) by (simp add: chan_known_def loop_ps_def) (use poller_wf_chan(3)[OF reactor_wfD(1)[OF assms(1)]] in force)
  then show ?thesis using w assms(1) by (simp add: conn_base_def chan_ok_def)
qed

lemma connected_ready:
  assumes S: "serving E feed v bat s" and c: "c < n_nextConn s" and st: "cn_state (n_conns s c) = KConnected"
    and thr: "isInLoopThread (cn_loop (n_conns s c)) s"
  shows "conn_base c s" "echo_ready E c s"
proof -
  note D = connectedD[OF S c st]
  have w: "wired v c s" by (rule servingD(7)[OF S c])
  show b: "conn_base c s"
    by (rule chan_ok_registered[OF servingD(1)[OF S] w]) (use D(2) in \<open>simp add: watched_def\<close>)
  then show "echo_ready E c s"
    using D(3-5) st thr wiredD(11)[OF w] fins_0_last
    by (simp add: echo_ready_def conn_open_def conn_live_def conn_base_def)
qed

text \<open>After an operation that leaves the connection ready, the invariant holds again.\<close>

lemma ready_serving:
  assumes S: "serving E feed v bat s" and c: "c < n_nextConn s" and st: "cn_state (n_conns s c) = KConnected"
    and oc: "only_conn c s t" and R: "echo_ready E c t" and an: "answered E feed c t"
  shows "serving E feed v bat t"
proof -
  note D = connectedD[OF S c st]
  have r: "reactor_wf t" "cn_state (n_conns t c) = KConnected" "fins (cn_sockfd (n_conns t c)) (r_trace t) = 0"
    "isWriting (conn_chan c t) \<longleftrightarrow> buf_peek E (cn_outputBuffer (n_conns t c)) \<noteq> []" "buf_peek E (cn_inputBuffer (n_conns t c)) = []"
    using R by (simp_all add: echo_ready_def conn_open_def conn_live_def)
  have "stays_watched c s t" using oc by (simp add: only_conn_def)
  then have w: "watched c t" using D(2) r(2) by (simp add: stays_watched_def)
  have ph: "phase_ok E feed v c t"
    using r w an D(1) only_conn_ids(6)[OF oc] by (simp add: phase_ok_def Let_def)
  have own: "fst (entry (cn_loop (n_conns s c)) t (cn_sockfd (n_conns s c))) = Some (cn_channel (n_conns s c))"
    using w unfolding watched_def only_conn_ids[OF oc] by blast
  show ?thesis
    by (rule serving_conn[OF S c oc r(1) ph pend_connected[OF S c st oc]]) (simp add: own)
qed

text \<open>The calls \<open>sendInLoop\<close> and \<open>handleWrite\<close> make.\<close>

lemma channelUpdate_trace: "updateWith g x s = Inr t \<Longrightarrow> r_trace t = r_trace s"
  by (auto simp: updateWith_def channelUpdate_def loopUpdateChannel_def result_simps)

lemma sendInLoop_trace:
  assumes "cn_writeCompleteCallback (n_conns s c) = None" and "sendInLoop E c m s = Inr t"
  shows "r_trace t = r_trace s \<or> (\<exists>bs r. r_trace t = r_trace s @ [SysWrite (cn_sockfd (n_conns s c)) bs r])"
proof -
  obtain ret u where u: "(if \<not> isWriting (conn_chan c s) \<and> buf_readableBytes E (cn_outputBuffer (n_conns s c)) = 0
      then sysWrite E (cn_sockfd (n_conns s c)) m s else (0, s)) = (ret, u)" by (metis surj_pair)
  have wu: "cn_writeCompleteCallback (n_conns u c) = None"
    using u assms(1) by (auto simp: sysWrite_def Let_def split: if_splits)
  have "r_trace t = r_trace u"
    using assms(2) u wu
    by (auto simp: sendInLoop_def result_simps assertInLoopThread_def Let_def queueWriteComplete_none enable_ops
        split: if_splits dest!: channelUpdate_trace)
  then show ?thesis using u by (auto simp: sysWrite_def Let_def split: if_splits)
qed

lemma pieces_write: "pieces feed fd (tr @ [SysWrite f bs r]) = pieces feed fd tr"
  by (simp add: pieces_append)

lemma send_pieces:
  assumes "cn_writeCompleteCallback (n_conns s c) = None" and "send E run c m s = Inr t" and "isInLoopThread (cn_loop (n_conns s c)) s"
  shows "pieces feed fd (r_trace t) = pieces feed fd (r_trace s)"
proof (cases "cn_state (n_conns s c) = KConnected")
  case True
  then have "sendInLoop E c m s = Inr t" using assms(2,3) by (simp add: send_def)
  from sendInLoop_trace[OF assms(1) this] show ?thesis by (auto simp: pieces_write)
qed (use assms in \<open>simp add: send_def\<close>)

section \<open>Steps that no client sees\<close>

text \<open>Bookkeeping: calls that say nothing about the descriptors, flags, queues, \<open>revents_\<close>.\<close>

definition quiet :: "('b, 'z) servs \<Rightarrow> ('b, 'z) servs \<Rightarrow> bool" where
  "quiet s t \<longleftrightarrow> reactor_wf t \<and> n_conns t = n_conns s \<and> n_nextConn t = n_nextConn s \<and> n_servers t = n_servers s \<and>
     n_acceptors t = n_acceptors s \<and> n_connectionIndex t = n_connectionIndex s \<and> r_nextChan t = r_nextChan s \<and>
     (\<forall>x. chan_like (r_chans s x) (r_chans t x)) \<and> (\<forall>k f. entry k t f = entry k s f) \<and>
     (\<exists>ts. r_trace t = r_trace s @ ts \<and> list_all silent ts) \<and>
     (\<forall>k. el_timerQueue (r_loops t k) = el_timerQueue (r_loops s k))"

lemma quietD:
  assumes "quiet s t"
  shows "reactor_wf t" "n_conns t = n_conns s" "n_nextConn t = n_nextConn s" "n_servers t = n_servers s"
    "n_acceptors t = n_acceptors s" "n_connectionIndex t = n_connectionIndex s" "r_nextChan t = r_nextChan s"
    "chan_like (r_chans s x) (r_chans t x)" "entry k t f = entry k s f" "el_timerQueue (r_loops t k) = el_timerQueue (r_loops s k)"
    "same_io feed fd (r_trace s) (r_trace t)" "open_fds (r_trace t) = open_fds (r_trace s)"
    "task_fits v k y t = task_fits v k y s"
proof -
  obtain ts where ts: "r_trace t = r_trace s @ ts" "list_all silent ts" using assms by (auto simp: quiet_def)
  show "same_io feed fd (r_trace s) (r_trace t)" "open_fds (r_trace t) = open_fds (r_trace s)"
    unfolding ts(1) using silent_trace[OF ts(2)] by blast+
  show "task_fits v k y t = task_fits v k y s"
    using assms by (cases y) (simp_all add: task_fits_def quiet_def in_map_def)
qed (use assms in \<open>simp_all add: quiet_def\<close>)

lemma serving_quiet:
  assumes S: "serving E feed v bat s" and q: "quiet s t" and pend: "pend_ok v bat' t"
  shows "serving E feed v bat' t"
proof -
  note D = servingD[OF S] and Q = quietD[OF q]
  have im: "in_map v d t = in_map v d s" for d by (simp add: in_map_def Q(2,4))
  have all: "wired v d t \<and> phase_ok E feed v d t" if "d < n_nextConn t" for d
  proof -
    have d: "d < n_nextConn s" using that Q(3) by simp
    have n: "n_conns t d = n_conns s d" by (simp add: Q(2))
    have nc: "r_nextChan s \<le> r_nextChan t" "open_fds (r_trace s) \<subseteq> open_fds (r_trace t)" by (simp_all add: Q(7,12))
    show ?thesis
      using conn_keeps(1)[OF n Q(8) nc D(7)[OF d]] conn_keeps(2)[OF n Q(8) nc Q(9,11) _ D(8)[OF d]] im by blast
  qed
  have aux: "aux_chan v k x t = aux_chan v k x s" for k x
    using Q(8)[of x] by (auto simp: aux_chan_def Let_def Q(4,7) chan_like_def)
  have "reg_ok v t" using D(3) unfolding reg_ok_def aux Q(2,3,9,12) .
  moreover have "front_ok v t"
    using D(2) by (simp add: front_ok_def Let_def server_ok_def Q(2-6))
  moreover have "clean feed (r_trace t)" by (rule clean_keeps[OF D(6) Q(12)]) (rule Q(11))
  ultimately show ?thesis
    using all pend Q(1,2,3,10) S by (simp add: serving_def)
qed

lemma quiet_pend:
  assumes "pend_ok v bat s" and "quiet s t" and "\<And>k. el_funcQueue (r_loops t k) = el_funcQueue (r_loops s k)"
  shows "pend_ok v bat t"
  using assms(1) by (simp add: pend_ok_def quietD(13)[OF assms(2)] assms(3))

lemma quiet_refl: "reactor_wf s \<Longrightarrow> quiet s s"
  by (auto simp: quiet_def intro!: exI[of _ "[]"])

lemma quiet_emit: "reactor_wf s \<Longrightarrow> silent e \<Longrightarrow> quiet s (emit e s)"
  by (auto simp: quiet_def reactor_wf_emit entry_def loop_interest_def loop_ps_def)

lemma quiet_queue: "reactor_wf s \<Longrightarrow> quiet s (queueInLoop E l x s)"
proof -
  assume wf: "reactor_wf s"
  let ?t = "queueInLoop E l x s"
  have "reactor_wf ?t" using wf by (rule reactor_wf_cong) (simp_all add: queueInLoop_def wakeup_def Let_def)
  moreover have "entry k ?t f = entry k s f" for k f by (rule entry_cong) simp_all
  moreover have "\<exists>ts. r_trace ?t = r_trace s @ ts \<and> list_all silent ts" using queueInLoop_trace[of E l x s] by fastforce
  ultimately show ?thesis
    unfolding quiet_def by (simp add: queueInLoop_def wakeup_def Let_def)
qed

lemma queue_funcs:
  "el_funcQueue (r_loops (queueInLoop E l x s) k) = el_funcQueue (r_loops s k) @ (if k = l then [x] else [])"
  by (simp add: queueInLoop_def wakeup_def Let_def)

lemma queue_serving:
  assumes S: "serving E feed v bat s" and x: "task_fits v l x s" "x \<notin> set (bat l @ el_funcQueue (r_loops s l))"
  shows "serving E feed v bat (queueInLoop E l x s)"
proof (rule serving_quiet[OF S])
  show q: "quiet s (queueInLoop E l x s)" by (rule quiet_queue[OF servingD(1)[OF S]])
  show "pend_ok v bat (queueInLoop E l x s)"
    unfolding pend_ok_def quietD(13)[OF q] queue_funcs
  proof
    fix k
    have "distinct (bat k @ el_funcQueue (r_loops s k)) \<and> (\<forall>y \<in> set (bat k @ el_funcQueue (r_loops s k)). task_fits v k y s)"
      using servingD(4)[OF S] unfolding pend_ok_def by blast
    then show "distinct (bat k @ el_funcQueue (r_loops s k) @ (if k = l then [x] else [])) \<and>
        (\<forall>y \<in> set (bat k @ el_funcQueue (r_loops s k) @ (if k = l then [x] else [])). task_fits v k y s)"
      using x by (cases "k = l") simp_all
  qed
qed

section \<open>Closing\<close>

text \<open>A step that one channel takes part in: the other channels and connections are as before.\<close>

definition beside :: "chan_id \<Rightarrow> ('b, 'z) servs \<Rightarrow> ('b, 'z) servs \<Rightarrow> bool" where
  "beside x s t \<longleftrightarrow> r_tid t = r_tid s \<and> (\<forall>k. el_threadId (r_loops t k) = el_threadId (r_loops s k)) \<and>
     r_nextChan s \<le> r_nextChan t \<and> n_nextConn s \<le> n_nextConn t \<and>
     (\<forall>y < r_nextChan s. y \<noteq> x \<longrightarrow> r_chans t y = r_chans s y) \<and>
     (\<forall>d < n_nextConn s. cn_channel (n_conns s d) \<noteq> x \<longrightarrow> n_conns t d = n_conns s d) \<and>
     (\<forall>v. sv_loop (n_servers t v) = sv_loop (n_servers s v) \<and> sv_acceptor (n_servers t v) = sv_acceptor (n_servers s v))"

lemma beside_refl [simp]: "beside x s s"
  by (simp add: beside_def)

lemma beside_trans [trans]: "beside x s t \<Longrightarrow> beside x t u \<Longrightarrow> beside x s u"
  unfolding beside_def by (metis (no_types, lifting) order.strict_trans2 order.trans)

lemma beside_only:
  assumes "only_conn c s t" shows "beside (cn_channel (n_conns s c)) s t"
proof -
  have "n_conns t d = n_conns s d" if "cn_channel (n_conns s d) \<noteq> cn_channel (n_conns s c)" for d
    using that only_conn_sel(8)[OF assms, of d] by (cases "d = c") simp_all
  then show ?thesis
    unfolding beside_def using only_conn_sel(1,2,4,5,9)[OF assms] only_conn_loop_sel(1)[OF assms] by simp
qed

lemma beside_same:
  assumes "r_chans t = r_chans s" "n_conns t = n_conns s" "r_tid t = r_tid s" "r_nextChan t = r_nextChan s"
    "n_nextConn t = n_nextConn s" "\<And>k. el_threadId (r_loops t k) = el_threadId (r_loops s k)"
    "\<And>v. sv_loop (n_servers t v) = sv_loop (n_servers s v) \<and> sv_acceptor (n_servers t v) = sv_acceptor (n_servers s v)"
  shows "beside x s t"
  using assms by (simp add: beside_def)

lemma beside_thread: "beside x s t \<Longrightarrow> isInLoopThread k t = isInLoopThread k s"
  by (simp add: beside_def isInLoopThread_def)

lemma queueInLoop_same:
  "r_loops (queueInLoop E l x s) k = (r_loops s k)\<lparr>el_funcQueue := el_funcQueue (r_loops (queueInLoop E l x s) k)\<rparr>"
  "n_nextConn (queueInLoop E l x s) = n_nextConn s" "n_acceptors (queueInLoop E l x s) = n_acceptors s"
  by (simp_all add: queueInLoop_def wakeup_def Let_def)

lemma beside_queue: "beside y s (queueInLoop E l x s)"
  by (rule beside_same) (simp_all add: queueInLoop_def wakeup_def Let_def)

text \<open>No functor about the connection waits in any loop.\<close>

definition unqueued :: "(loop_id \<Rightarrow> task list) \<Rightarrow> conn_id \<Rightarrow> ('b, 'z) servs \<Rightarrow> bool" where
  "unqueued bat c s \<longleftrightarrow> (\<forall>k. \<forall>x \<in> set (bat k @ el_funcQueue (r_loops s k)). about x \<noteq> Some c)"

lemma unqueuedD: "unqueued bat c s \<Longrightarrow> x \<in> set (bat k @ el_funcQueue (r_loops s k)) \<Longrightarrow> about x \<noteq> Some c"
  unfolding unqueued_def by blast

text \<open>The connection is forgotten by the server; its end is queued in its loop.\<close>

lemma map_change_serving:
  assumes S: "serving E feed v bat s" and c: "c < n_nextConn s" and st: "cn_state (n_conns s c) = KDisconnected"
    and im: "in_map v c s" and no: "unqueued bat c s"
    and m: "map_of m = (map_of (sv_connections (n_servers s v)))(cn_name (n_conns s c) := None)"
    and ok: "server_ok v (mod_server v (\<lambda>sv. sv\<lparr>sv_connections := m\<rparr>) s)"
  shows "serving E feed v bat (mod_server v (\<lambda>sv. sv\<lparr>sv_connections := m\<rparr>) s)"
proof -
  let ?t = "mod_server v (\<lambda>sv. sv\<lparr>sv_connections := m\<rparr>) s"
  note D = servingD[OF S]
  have wf: "reactor_wf ?t" and en: "entry k ?t f = entry k s f" for k f
    using same_reactor_conn[of ?t s] D(1) by (simp_all add: entry_def)
  have imd: "in_map v d ?t \<longleftrightarrow> in_map v d s \<and> d \<noteq> c" for d using im by (auto simp: in_map_def m)
  have all: "wired v d ?t \<and> phase_ok E feed v d ?t" if d: "d < n_nextConn s" for d
  proof
    have n: "n_conns ?t d = n_conns s d" "chan_like (conn_chan d s) (r_chans ?t (cn_channel (n_conns s d)))"
      "r_nextChan s \<le> r_nextChan ?t" "open_fds (r_trace s) \<subseteq> open_fds (r_trace ?t)" by simp_all
    show "wired v d ?t" by (rule conn_keeps(1)[OF n D(7)[OF d]])
    show "phase_ok E feed v d ?t"
      by (rule conn_keeps(2)[OF n en _ _ D(8)[OF d]]) (use st imd in auto)
  qed
  have fits: "task_fits v k x ?t" if "x \<in> set (bat k @ el_funcQueue (r_loops s k))" for k x
  proof -
    have "task_fits v k x s" using D(4) that unfolding pend_ok_def by blast
    then show ?thesis using unqueuedD[OF no that] by (cases x) (auto simp: task_fits_def imd en)
  qed
  have "pend_ok v bat ?t" using D(4) fits unfolding pend_ok_def by simp
  moreover have "front_ok v ?t" using D(2) ok by (simp add: front_ok_def Let_def)
  moreover have "reg_ok v ?t" using D(3) by (simp add: reg_ok_def en aux_chan_def Let_def)
  ultimately show ?thesis using wf all S by (simp add: serving_def)
qed

lemma remove_step:
  assumes S: "serving E feed v bat s" and c: "c < n_nextConn s" and st: "cn_state (n_conns s c) = KDisconnected"
    and im: "in_map v c s" and reg: "fst (entry (cn_loop (n_conns s c)) s (cn_sockfd (n_conns s c))) \<noteq> None"
    and no: "unqueued bat c s"
    and thr: "isInLoopThread (sv_loop (n_servers s v)) s"
  shows "\<exists>t. removeConnectionInLoop E v c s = Inr t \<and> serving E feed v bat t \<and> beside x s t \<and>
    n_conns t = n_conns s \<and> n_nextConn t = n_nextConn s \<and> r_chans t = r_chans s"
proof -
  have "server_ok v s" using servingD(2)[OF S] by (simp add: front_ok_def Let_def)
  from removeConnectionInLoop_contract[OF this thr im[unfolded in_map_def], of E] obtain m t where
    t: "removeConnectionInLoop E v c s = Inr t" "server_ok v t"
      "map_of m = (map_of (sv_connections (n_servers s v)))(cn_name (n_conns s c) := None)"
      "t = queueInLoop E (cn_loop (n_conns s c)) (TDestroyed c) (mod_server v (\<lambda>sv. sv\<lparr>sv_connections := m\<rparr>) s)" by blast
  let ?u = "mod_server v (\<lambda>sv. sv\<lparr>sv_connections := m\<rparr>) s"
  have ok: "server_ok v ?u" using t(2) unfolding t(4) by (simp add: server_ok_def queueInLoop_same)
  have Su: "serving E feed v bat ?u" by (rule map_change_serving[OF S c st im no t(3) ok])
  have en: "entry k ?u f = entry k s f" for k f using same_reactor_conn[of ?u s] by (simp add: entry_def)
  have "\<not> in_map v c ?u" by (simp add: in_map_def t(3))
  then have fits: "task_fits v (cn_loop (n_conns s c)) (TDestroyed c) ?u"
    using c st reg by (simp add: task_fits_def en)
  have new: "TDestroyed c \<notin> set (bat (cn_loop (n_conns s c)) @ el_funcQueue (r_loops ?u (cn_loop (n_conns s c))))"
    using unqueuedD[OF no, of "TDestroyed c"] by auto
  have "serving E feed v bat t" unfolding t(4) by (rule queue_serving[OF Su fits new])
  moreover have "beside x s ?u" by (rule beside_same) simp_all
  then have "beside x s t" unfolding t(4) using beside_queue beside_trans by blast
  moreover have "n_conns t = n_conns s" unfolding t(4) by simp
  moreover have "n_nextConn t = n_nextConn s \<and> r_chans t = r_chans s" unfolding t(4) by (simp add: queueInLoop_same(2))
  ultimately show ?thesis using t(1) by blast
qed

end
