(* ===== verification/Turns.thy ===== *)
theory Turns
  imports Serving
begin

text \<open>
  The handlers and functors the loops of the server program run: each goes through and keeps the
  invariant \<open>serving\<close>.  From them, that every turn of every loop does.
\<close>

section \<open>Readable, writable and closing connections\<close>

lemma kernelD:
  assumes "kernel_ok E feed"
  shows "buffer_laws E" "write_law E fd" "read_ok E feed" "accept_ok E" "poll_ok E"
  using assms by (simp_all add: kernel_ok_def)

lemma connWrite_trace:
  assumes "buffer_laws E" and "write_law E (cn_sockfd (n_conns s c))" and R: "echo_ready E c s"
    and wc: "cn_writeCompleteCallback (n_conns s c) = None" and t: "connWrite E c s = Inr t"
  shows "pieces feed fd (r_trace t) = pieces feed fd (r_trace s)"
proof (cases "buf_peek E (cn_outputBuffer (n_conns s c)) = []")
  case True
  then show ?thesis using R t by (simp add: connWrite_def assertInLoopThread_def echo_ready_def conn_open_def conn_live_def)
next
  case False
  have live: "conn_live E c s" "isInLoopThread (cn_loop (n_conns s c)) s" and st: "cn_state (n_conns s c) = KConnected"
    using R by (simp_all add: echo_ready_def conn_open_def)
  from connWrite_cases[OF assms(1,2) live False] obtain w b s1 where
    s1: "s1 = mod_conn c (\<lambda>cn. cn\<lparr>cn_outputBuffer := b\<rparr>)
        (emit (SysWrite (cn_sockfd (n_conns s c)) (buf_peek E (cn_outputBuffer (n_conns s c))) w) s)"
    and run: "connWrite E c s = (if buf_peek E b = [] then
        let s2 = queueWriteComplete E c (disableWrite (cn_channel (n_conns s c)) s1)
        in if cn_state (n_conns s c) = KDisconnecting then shutdownInLoop E c s2 else Inr s2 else Inr s1)"
    unfolding Let_def by blast
  have "cn_writeCompleteCallback (n_conns (disableWrite (cn_channel (n_conns s c)) s1) c) = None"
    using wc by (simp add: s1)
  then have "t = s1 \<or> t = disableWrite (cn_channel (n_conns s c)) s1"
    using run st t by (simp add: queueWriteComplete_none Let_def split: if_splits)
  then have "r_trace t = r_trace s1" by (auto simp: disableWrite_def)
  then show ?thesis by (simp add: s1 pieces_write)
qed

text \<open>\<open>handleWrite\<close>, of a connection that is up or was closed by an earlier handler of the same event.\<close>

lemma step_write:
  assumes K: "kernel_ok E feed" and S: "serving E feed v bat s" and c: "c < n_nextConn s"
    and st: "cn_state (n_conns s c) \<in> {KConnected, KDisconnected}" and thr: "isInLoopThread (cn_loop (n_conns s c)) s"
  shows "\<exists>t. connWrite E c s = Inr t \<and> serving E feed v bat t \<and> beside (cn_channel (n_conns s c)) s t"
proof (cases "cn_state (n_conns s c) = KConnected")
  case False
  then have "isNoneEvent (conn_chan c s)" using servingD(8)[OF S c] st by (simp add: phase_ok_def Let_def)
  then have "\<not> isWriting (conn_chan c s)" by (simp add: isNoneEvent_def isWriting_def event_masks)
  then have "connWrite E c s = Inr s" using thr by (simp add: connWrite_def assertInLoopThread_def)
  with S show ?thesis by simp
next
  case up: True
  note ready = connected_ready[OF S c up thr]
  have wc: "cn_writeCompleteCallback (n_conns s c) = None" by (rule wiredD(13)[OF servingD(7)[OF S c]])
  from write_step[OF kernelD(1,2)[OF K] ready(2)] obtain t where
    t: "connWrite E c s = Inr t" "echo_ready E c t" "stream E c t = stream E c s" "cn_sockfd (n_conns t c) = cn_sockfd (n_conns s c)"
    by blast
  have oc: "only_conn c s t" by (rule connWrite_only[OF ready(1) wc t(1)])
  have "answered E feed c t"
    using connectedD(6)[OF S c up] t(3,4) connWrite_trace[OF kernelD(1,2)[OF K] ready(2) wc t(1)] by (simp add: answered_def)
  from ready_serving[OF S c up oc t(2) this] show ?thesis using t(1) beside_only[OF oc] by blast
qed

text \<open>What an event handler needs of its connection after a callback.\<close>

definition conn_kept :: "conn_id \<Rightarrow> ('b, 'z) servs \<Rightarrow> ('b, 'z) servs \<Rightarrow> bool" where
  "conn_kept c s t \<longleftrightarrow> n_nextConn t = n_nextConn s \<and> cn_channel (n_conns t c) = cn_channel (n_conns s c) \<and>
     cn_loop (n_conns t c) = cn_loop (n_conns s c) \<and>
     ch_revents (r_chans t (cn_channel (n_conns s c))) = ch_revents (conn_chan c s)"

lemma conn_kept_refl [simp]: "conn_kept c s s"
  by (simp add: conn_kept_def)

lemma conn_kept_trans [trans]: "conn_kept c s t \<Longrightarrow> conn_kept c t u \<Longrightarrow> conn_kept c s u"
  by (simp add: conn_kept_def)

lemma conn_kept_only:
  assumes "only_conn c s t" shows "conn_kept c s t"
proof -
  have "ch_revents (conn_chan c t) = ch_revents (conn_chan c s)" by (subst only_conn_sel(12)[OF assms]) simp
  then show ?thesis using only_conn_sel(4)[OF assms] only_conn_same[OF assms] by (simp add: conn_kept_def)
qed

text \<open>\<open>handleClose\<close>: the connection is down, and the server forgets it or is told to.\<close>

lemma closed_serving:
  assumes S: "serving E feed v bat s" and c: "c < n_nextConn s" and st: "cn_state (n_conns s c) = KConnected"
    and thr: "isInLoopThread (cn_loop (n_conns s c)) s"
  shows "\<exists>u. (\<forall>run. connClose run c s = run (TRemoveConnection v c) u) \<and> serving E feed v bat u \<and> only_conn c s u \<and>
    cn_state (n_conns u c) = KDisconnected \<and> fst (entry (cn_loop (n_conns s c)) u (cn_sockfd (n_conns s c))) \<noteq> None"
proof -
  let ?l = "cn_loop (n_conns s c)" and ?fd = "cn_sockfd (n_conns s c)"
  note D = connectedD[OF S c st] and w = wiredD[OF servingD(7)[OF S c]]
  have base: "conn_base c s" by (rule connected_ready(1)[OF S c st thr])
  have ok: "chan_ok (cn_channel (n_conns s c)) s" using base by (simp add: conn_base_def)
  obtain e where e: "loop_interest ?l s ?fd = Some (True, e)" using D(2) by (auto simp: watched_def entry_def)
  let ?v = "mod_conn c (setState KDisconnected) s"
  have bv: "reactor_wf ?v" "chan_ok (cn_channel (n_conns s c)) ?v" "conn_base c ?v"
    using base by (simp_all add: conn_base_keep conn_base_def same_reactor_conn[of ?v s])
  obtain u where u: "updateWith clearEvents (cn_channel (n_conns s c)) ?v = Inr u"
    using updateWith_contract(1)[OF bv(1,2), of clearEvents] by auto
  have nu: "n_conns u = n_conns ?v" by (rule enable_conns(3)[unfolded enable_ops, OF u])
  have cl: "connClose run c s = run (TRemoveConnection v c) u" for run
    using thr st u w(12) by (simp add: connClose_def assertInLoopThread_def enable_ops nu callSet_def)
  from updateWith_contract(2)[OF bv(1,2) _ u] have U: "reactor_wf u"
    "channels (el_poller (r_loops u ?l)) ?fd = Some (cn_channel (n_conns s c))" "loop_interest ?l u ?fd = Some (False, 0)"
    "isNoneEvent (r_chans u (cn_channel (n_conns s c)))"
    using w(4,5) e same_reactor_conn(3)[of ?v s]
    by (auto simp: Let_def watch_after_def isNoneEvent_def event_masks clearEvents_def set_index_def)
  have oc: "only_conn c s u"
    using connClose_only[OF base, of "\<lambda>_. Inr" u] cl by (auto simp: callSet_def w(12))
  note ids = only_conn_ids[OF oc]
  have ent: "entry ?l u ?fd = (Some (cn_channel (n_conns s c)), Some (False, 0))" by (simp add: entry_def U(2,3))
  have ts: "r_trace u = r_trace s" by (simp add: channelUpdate_trace[OF u])
  have an: "answered E feed c u" using D(6) by (simp add: answered_def stream_def nu ts)
  have ph: "phase_ok E feed v c u" using U(4) ent an by (simp add: phase_ok_def Let_def nu)
  have "serving E feed v bat u"
    by (rule serving_conn[OF S c oc U(1) ph pend_connected[OF S c st oc]]) (simp add: ent)
  with cl oc ent show ?thesis by (auto simp: nu)
qed

text \<open>No functor is queued about a connection that was just closed.\<close>

lemma step_close:
  assumes S: "serving E feed v bat s" and c: "c < n_nextConn s" and st: "cn_state (n_conns s c) = KConnected"
    and thr: "isInLoopThread (cn_loop (n_conns s c)) s"
  shows "\<exists>t. connClose (run_task E usr (Suc (Suc n))) c s = Inr t \<and> serving E feed v bat t \<and>
    beside (cn_channel (n_conns s c)) s t \<and> conn_kept c s t \<and> cn_state (n_conns t c) = KDisconnected"
proof -
  let ?l = "cn_loop (n_conns s c)" and ?fd = "cn_sockfd (n_conns s c)" and ?run = "run_task E usr (Suc (Suc n))"
  from closed_serving[OF S c st thr] obtain u where u: "\<And>run. connClose run c s = run (TRemoveConnection v c) u"
    "serving E feed v bat u" "only_conn c s u" "cn_state (n_conns u c) = KDisconnected" "fst (entry ?l u ?fd) \<noteq> None" by blast
  note ids = only_conn_ids[OF u(3)] and sel = only_conn_sel[OF u(3)]
  have cu: "c < n_nextConn u" and im: "in_map v c u" using c sel(4) connectedD(1)[OF S c st] ids(6) by simp_all
  have reg: "fst (entry (cn_loop (n_conns u c)) u (cn_sockfd (n_conns u c))) \<noteq> None" using u(5) by (simp add: ids)
  have no: "unqueued bat c u" unfolding unqueued_def only_conn_loop_sel(2)[OF u(3)]
    using servingD(4)[OF S] connected_no_task[OF _ st] unfolding pend_ok_def by blast
  have rem: "connClose ?run c s = removeConnection E (run_task E usr (Suc n)) v c u" by (simp add: u(1))
  have b: "beside (cn_channel (n_conns s c)) s u" by (rule beside_only[OF u(3)])
  show ?thesis
  proof (cases "isInLoopThread (sv_loop (n_servers u v)) u")
    case True
    from remove_step[OF u(2) cu u(4) im reg no True, where x = "cn_channel (n_conns s c)"] obtain t where
      t: "removeConnectionInLoop E v c u = Inr t" "serving E feed v bat t" "beside (cn_channel (n_conns s c)) u t" "n_conns t = n_conns u"
      "n_nextConn t = n_nextConn u" "r_chans t = r_chans u" by blast
    have "conn_kept c u t" by (simp add: conn_kept_def t(4-6))
    then have "conn_kept c s t" by (rule conn_kept_trans[OF conn_kept_only[OF u(3)]])
    moreover have "connClose ?run c s = Inr t" using True t(1) by (simp add: rem removeConnection_def runInLoop_def)
    ultimately show ?thesis using t(2,4) u(4) beside_trans[OF b t(3)] by auto
  next
    case False
    let ?t = "queueInLoop E (sv_loop (n_servers u v)) (TRemoveInLoop v c) u"
    have fits: "task_fits v (sv_loop (n_servers u v)) (TRemoveInLoop v c) u"
      using cu u(4) im reg by (simp add: task_fits_def)
    have new: "TRemoveInLoop v c \<notin> set (bat (sv_loop (n_servers u v)) @ el_funcQueue (r_loops u (sv_loop (n_servers u v))))"
      using unqueuedD[OF no, of "TRemoveInLoop v c"] by auto
    have "connClose ?run c s = Inr ?t" using False by (simp add: rem removeConnection_def runInLoop_def)
    moreover have "serving E feed v bat ?t" by (rule queue_serving[OF u(2) fits new])
    moreover have "beside (cn_channel (n_conns s c)) s ?t" by (rule beside_trans[OF b beside_queue])
    moreover have "conn_kept c u ?t" by (simp add: conn_kept_def queueInLoop_same(2))
    then have "conn_kept c s ?t" by (rule conn_kept_trans[OF conn_kept_only[OF u(3)]])
    ultimately show ?thesis using u(4) by simp
  qed
qed

text \<open>\<open>handleRead\<close>: an answer, the end, or nothing.\<close>

lemma step_read:
  assumes K: "kernel_ok E feed" and S: "serving E feed v bat s" and c: "c < n_nextConn s"
    and st: "cn_state (n_conns s c) = KConnected" and thr: "isInLoopThread (cn_loop (n_conns s c)) s"
  shows "\<exists>t. connRead E (run_task E (echo_user E g) (Suc (Suc n))) c now s = Inr t \<and> serving E feed v bat t \<and>
    beside (cn_channel (n_conns s c)) s t \<and> conn_kept c s t \<and> cn_state (n_conns t c) \<in> {KConnected, KDisconnected}"
proof -
  let ?fd = "cn_sockfd (n_conns s c)" and ?b = "cn_inputBuffer (n_conns s c)" and ?run = "run_task E (echo_user E g) (Suc (Suc n))"
  note D = connectedD[OF S c st] and w = wiredD[OF servingD(7)[OF S c]] and ready = connected_ready[OF S c st thr]
  have rd: "case feed ?fd (r_trace s) of
       None \<Rightarrow> \<exists>r b' e. buf_readFd E (r_trace s) ?b ?fd = (r, b', e) \<and> r < 0 \<and> buf_peek E b' = buf_peek E ?b
     | Some x \<Rightarrow> \<exists>b' e. buf_readFd E (r_trace s) ?b ?fd = (int (length x), b', e) \<and> buf_peek E b' = buf_peek E ?b @ x"
    using kernelD(3)[OF K] unfolding read_ok_def by blast
  let ?u = "\<lambda>r b. emit (SysRead ?fd r) (mod_conn c (\<lambda>cn. cn\<lparr>cn_inputBuffer := b\<rparr>) s)"
  have quiet_read: "serving E feed v bat (?u r b) \<and> only_conn c s (?u r b)"
    if "buf_peek E b = []" "feed ?fd (r_trace s) \<in> {None, Some []}" for r b
  proof
    show oc: "only_conn c s (?u r b)" by (rule only_conn_trans[OF only_conn_fields(2) only_conn_emit]) simp
    have "echo_ready E c (?u r b)"
      using ready(2) that(1) conn_open_input(2)[OF conn_open_input(1)[of E c s b], of ?fd r] by (simp add: echo_ready_def)
    moreover have "answered E feed c (?u r b)"
      using D(6) that(2) by (auto simp: answered_def stream_def pieces_append)
    ultimately show "serving E feed v bat (?u r b)" by (rule ready_serving[OF S c st oc])
  qed
  consider (fail) "feed ?fd (r_trace s) = None" | (eof) "feed ?fd (r_trace s) = Some []"
    | (piece) x where "feed ?fd (r_trace s) = Some x" "x \<noteq> []" by (cases "feed ?fd (r_trace s)") blast+
  then show ?thesis
  proof cases
    case fail
    then obtain r b e where b: "buf_readFd E (r_trace s) ?b ?fd = (r, b, e)" "r < 0" "buf_peek E b = []" using rd D(4) by auto
    have "connRead E ?run c now s = Inr (?u r b)"
      using b(1,2) thr by (simp add: connRead_def assertInLoopThread_def connError_def)
    with quiet_read[OF b(3), of r] fail st show ?thesis
      using beside_only conn_kept_only by (intro exI[of _ "?u r b"]) auto
  next
    case eof
    then obtain b e where b: "buf_readFd E (r_trace s) ?b ?fd = (0, b, e)" "buf_peek E b = []" using rd D(4) by auto
    have run: "connRead E ?run c now s = connClose ?run c (?u 0 b)"
      using b(1) thr by (simp add: connRead_def assertInLoopThread_def)
    have q: "serving E feed v bat (?u 0 b)" "only_conn c s (?u 0 b)" using quiet_read[OF b(2)] eof by auto
    from step_close[OF q(1), where c = c and usr = "echo_user E g" and n = n] c st thr obtain t where
      "connClose ?run c (?u 0 b) = Inr t" "serving E feed v bat t" "beside (cn_channel (n_conns s c)) (?u 0 b) t"
      "conn_kept c (?u 0 b) t" "cn_state (n_conns t c) = KDisconnected" by (auto simp: isInLoopThread_def)
    with run beside_trans[OF beside_only[OF q(2)]] conn_kept_trans[OF conn_kept_only[OF q(2)]] show ?thesis by auto
  next
    case (piece x)
    then obtain b e where b: "buf_readFd E (r_trace s) ?b ?fd = (int (length x), b, e)" "buf_peek E b = x" using rd D(4) by auto
    from read_piece[OF kernelD(1,2)[OF K] ready(2) b piece(2)] obtain u t where
      t: "connRead E ?run c now s = Inr t" "echo_ready E c t" "stream E c t = stream E c s @ reply x"
      "cn_sockfd (n_conns t c) = ?fd" "send E (run_task E (echo_user E g) (Suc n)) c (reply x) u = Inr t"
      "r_trace u = r_trace s @ [SysRead ?fd (int (length x))]"
      "cn_writeCompleteCallback (n_conns u c) = cn_writeCompleteCallback (n_conns s c)"
      "isInLoopThread (cn_loop (n_conns u c)) u" by blast
    have oc: "only_conn c s t"
      by (rule connRead_only[OF ready(1) w(13) thr w(11) t(1)]) (use b(1) piece(2) in simp)
    have "pieces feed ?fd (r_trace t) = pieces feed ?fd (r_trace s) @ [x]"
      using send_pieces[OF _ t(5,8)] t(7) w(13) piece by (simp add: t(6) pieces_append)
    then have "answered E feed c t" using D(6) t(3,4) by (simp add: answered_def)
    from ready_serving[OF S c st oc t(2) this] have "serving E feed v bat t" .
    moreover have "cn_state (n_conns t c) = KConnected" using t(2) by (simp add: echo_ready_def)
    ultimately show ?thesis using t(1) beside_only[OF oc] conn_kept_only[OF oc] by auto
  qed
qed

section \<open>The functors\<close>

lemma fits_some: "task_fits v k x s \<Longrightarrow> \<exists>d. about x = Some d \<and> d < n_nextConn s"
  by (cases x) (simp_all add: task_fits_def)

lemma fits_about:
  assumes "task_fits v k x s" and "about x = Some c"
  shows "(x = TEstablished c \<and> k = cn_loop (n_conns s c) \<and> cn_state (n_conns s c) = KConnecting) \<or>
    (x = TRemoveInLoop v c \<and> k = sv_loop (n_servers s v) \<and> cn_state (n_conns s c) = KDisconnected \<and> in_map v c s) \<or>
    (x = TDestroyed c \<and> k = cn_loop (n_conns s c) \<and> cn_state (n_conns s c) = KDisconnected \<and> \<not> in_map v c s)"
  using assms by (cases x) (simp_all add: task_fits_def)

text \<open>The next functor of a batch: no other one is about its connection.\<close>

lemma popped:
  assumes S: "serving E feed v bat s" and b: "bat k = x # rest" and x: "about x = Some c"
  shows "serving E feed v (bat(k := rest)) s" "unqueued (bat(k := rest)) c s" "task_fits v k x s"
proof -
  have P: "distinct (bat j @ el_funcQueue (r_loops s j))"
    "y \<in> set (bat j @ el_funcQueue (r_loops s j)) \<Longrightarrow> task_fits v j y s" for j y
    using servingD(4)[OF S] unfolding pend_ok_def by blast+
  have sub: "set ((bat(k := rest)) j) \<subseteq> set (bat j)" for j using b by auto
  have d: "distinct ((bat(k := rest)) j @ el_funcQueue (r_loops s j))" for j using P(1)[of j] b by (cases "j = k") auto
  show fx: "task_fits v k x s" using P(2)[of x k] b by simp
  have "task_fits v j y s" if "y \<in> set ((bat(k := rest)) j @ el_funcQueue (r_loops s j))" for j y
    using that P(2)[of y j] sub[of j] by auto
  then have "pend_ok v (bat(k := rest)) s" using d by (simp only: pend_ok_def) blast
  then show "serving E feed v (bat(k := rest)) s" using S by (simp add: serving_def)
  show "unqueued (bat(k := rest)) c s" unfolding unqueued_def
  proof (intro allI ballI notI)
    fix j y assume y: "y \<in> set ((bat(k := rest)) j @ el_funcQueue (r_loops s j))" "about y = Some c"
    then have "task_fits v j y s" using P(2)[of y j] sub[of j] by auto
    then have "j = k \<and> y = x" using fits_about[OF fx x] fits_about[of v j y s c] y(2) by auto
    then show False using y(1) P(1)[of k] b by auto
  qed
qed

lemma pend_unqueued:
  assumes S: "serving E feed v bat s" and c: "c < n_nextConn s" and no: "unqueued bat c s" and oc: "only_conn c s t"
  shows "pend_ok v bat t"
  unfolding pend_ok_def only_conn_loop_sel(2)[OF oc]
  using servingD(4)[OF S] fits_other[OF oc _ _ S c] no unfolding pend_ok_def unqueued_def by blast

text \<open>\<open>connectionEstablished\<close>: the connection is up and watched, and its client is greeted.\<close>

lemma step_established:
  assumes K: "kernel_ok E feed" and S: "serving E feed v bat s" and c: "c < n_nextConn s" and no: "unqueued bat c s"
    and st: "cn_state (n_conns s c) = KConnecting" and thr: "isInLoopThread (cn_loop (n_conns s c)) s"
  shows "\<exists>t. connectionEstablished (run_task E (echo_user E g) (Suc n)) c s = Inr t \<and> serving E feed v bat t \<and>
    beside (cn_channel (n_conns s c)) s t"
proof -
  let ?l = "cn_loop (n_conns s c)" and ?fd = "cn_sockfd (n_conns s c)" and ?ch = "cn_channel (n_conns s c)"
    and ?run = "run_task E (echo_user E g) (Suc n)"
  note w = wiredD[OF servingD(7)[OF S c]]
  have P: "in_map v c s" "fst (entry ?l s ?fd) = None" "ch_index (conn_chan c s) < 0" "ch_events (conn_chan c s) = 0"
    "buf_peek E (cn_inputBuffer (n_conns s c)) = []" "buf_peek E (cn_outputBuffer (n_conns s c)) = []"
    "written ?fd (r_trace s) = []" "fins ?fd (r_trace s) = 0" "pieces feed ?fd (r_trace s) = []"
    using servingD(8)[OF S c] st by (simp_all add: phase_ok_def Let_def)
  have none: "loop_interest ?l s ?fd = None" "channels (el_poller (r_loops s ?l)) ?fd = None"
    using P(2) by (simp_all add: entry_def loop_interest_def interest_def loop_ps_def)
  have ok: "chan_ok ?ch s" using w(1,2,4,5) P(3) none(2) by (simp add: chan_ok_def chan_known_def loop_ps_def)
  have base: "conn_base c s" using ok w(4,5) servingD(1)[OF S] by (simp add: conn_base_def)
  from connectionEstablished_contract[where run = ?run, OF servingD(1)[OF S] ok w(4,5) P(4) refl thr none(1)] obtain i p u where
    run: "connectionEstablished ?run c s = ?run (TUserConnection 0 c) u" and u: "reactor_wf u" "chan_ok ?ch u"
    "loop_interest ?l u = (loop_interest ?l s)(?fd \<mapsto> (True, 3))"
    and ue: "u = set_ps ?l ((r_chans s)(?ch := set_index i (addReadEvent (conn_chan c s))), p) (mod_conn c (setState KConnected) s)"
    by (auto simp: callSet_def w(10) simp del: run_task.simps)
  have nu: "n_conns u c = setState KConnected (n_conns s c)" "r_trace u = r_trace s" "isInLoopThread ?l u"
    "r_chans u ?ch = set_index i (addReadEvent (conn_chan c s))"
    using thr by (simp_all add: ue isInLoopThread_def)
  have "\<not> isWriting (r_chans u ?ch)" using P(4) by (simp add: nu(4) isWriting_def set_index_def addReadEvent_def event_masks poll_bits)
  then have Ru: "echo_ready E c u"
    using u(1,2) w(4,5,11) P(5,6,8) nu fins_0_last
    by (simp add: echo_ready_def conn_open_def conn_live_def set_index_def addReadEvent_def setState_def)
  have "fst (entry ?l u ?fd) = Some ?ch"
  proof -
    have "channels (el_poller (r_loops u ?l)) ?fd \<noteq> None"
    proof
      assume "channels (el_poller (r_loops u ?l)) ?fd = None"
      then have "loop_interest ?l u ?fd = None" by (simp add: loop_interest_def interest_def loop_ps_def)
      then show False by (simp add: u(3))
    qed
    then show ?thesis
      using u(2) nu(4) w(4,5) by (auto simp: chan_ok_def chan_known_def loop_ps_def entry_def set_index_def addReadEvent_def split: if_splits)
  qed
  then have wu: "watched c u"
    using u(3) by (simp add: watched_def nu entry_def set_index_def read_bit_ops bit_simps)
  have wl: "write_law E (cn_sockfd (n_conns u c))" by (rule kernelD(2)[OF K])
  from greets[OF kernelD(1)[OF K] wl Ru, of g n] obtain t where t: "?run (TUserConnection 0 c) u = Inr t" "echo_ready E c t"
    "stream E c t = stream E c u @ greeting" "cn_sockfd (n_conns t c) = ?fd" by (auto simp: nu(1) simp del: run_task.simps)
  have est: "connectionEstablished ?run c s = Inr t" using run t(1) by simp
  have oc: "only_conn c s t"
    by (rule connectionEstablished_only[OF base w(13) thr w(10) est]) (simp add: st)
  have snd: "send E (run_task E (echo_user E g) n) c greeting u = Inr t"
    using t(1) by (simp add: echo_user_def connectionFunc_def greeting_def)
  have wc: "cn_writeCompleteCallback (n_conns u c) = None" "isInLoopThread (cn_loop (n_conns u c)) u"
    using w(13) nu by (simp_all add: setState_def)
  have bu: "conn_base c u" using Ru by (simp add: echo_ready_def conn_open_def conn_live_def conn_base_def)
  have R: "cn_state (n_conns t c) = KConnected" "reactor_wf t" using t(2) by (simp_all add: echo_ready_def conn_open_def conn_live_def)
  have wt: "watched c t"
    using send_only[OF bu wc(1) snd wc(2)] wu R(1) unfolding only_conn_def stays_watched_def by simp
  have "stream E c u = []" using P(6,7) by (simp add: stream_def nu)
  moreover have "pieces feed ?fd (r_trace t) = []" using send_pieces[OF wc(1) snd wc(2)] P(9) by (simp add: nu(2))
  ultimately have "answered E feed c t" using t(3,4) by (simp add: answered_def)
  then have "phase_ok E feed v c t"
    using t(2) wt R P(1) only_conn_ids(6)[OF oc]
    by (simp add: phase_ok_def Let_def echo_ready_def conn_open_def conn_live_def)
  moreover have "fst (entry ?l t ?fd) \<in> {None, Some ?ch}"
    using wt unfolding watched_def only_conn_ids[OF oc] by blast
  ultimately have "serving E feed v bat t"
    using serving_conn[OF S c oc R(2) _ pend_unqueued[OF S c no oc]] by blast
  with est beside_only[OF oc] show ?thesis by blast
qed

text \<open>A registration is removed: all others are as before, whatever became of the indices.\<close>

lemma channelRemove_frame:
  assumes wf: "reactor_wf s" and ok: "chan_ok x s"
    and reg: "loop_interest (ch_ownerLoop (r_chans s x)) s (ch_fd (r_chans s x)) = Some (False, 0)"
    and none: "isNoneEvent (r_chans s x)" and thr: "isInLoopThread (ch_ownerLoop (r_chans s x)) s"
  shows "\<exists>t. channelRemove x s = Inr t \<and> reactor_wf t \<and> (\<exists>cs p. t = set_ps (ch_ownerLoop (r_chans s x)) (cs, p) s) \<and>
    (\<forall>y. chan_like (r_chans s y) (r_chans t y)) \<and>
    (\<forall>k f. entry k t f = (if k = ch_ownerLoop (r_chans s x) \<and> f = ch_fd (r_chans s x) then (None, None) else entry k s f))"
proof -
  let ?l = "ch_ownerLoop (r_chans s x)" and ?fd = "ch_fd (r_chans s x)"
  from loopRemoveChannel_contract[OF wf ok refl reg none thr] obtain t cs p where
    t: "channelRemove x s = Inr t" "reactor_wf t" "loop_interest ?l t = (loop_interest ?l s)(?fd := None)" "t = set_ps ?l (cs, p) s"
    by blast
  have "removeChannel True x (r_chans s, el_poller (r_loops s ?l)) = Inr (r_chans t, el_poller (r_loops t ?l))"
    using t(1) thr by (auto simp: channelRemove_def loopRemoveChannel_def assertInLoopThread_def result_simps loop_ps_def set_ps_def)
  then have R: "channels (el_poller (r_loops t ?l)) = (channels (el_poller (r_loops s ?l)))(?fd := None) \<and>
    (\<forall>y. r_chans t y = r_chans s y \<or> (0 \<le> ch_index (r_chans s x) \<and> r_chans t y = set_index (ch_index (r_chans s x)) (r_chans s y) \<and>
       (\<exists>f. channels (el_poller (r_loops s ?l)) f = Some y)))"
    by (cases rule: removeChannel_cases) (auto split: if_splits)
  have own: "ch_ownerLoop (r_chans s y) = ?l" "0 \<le> ch_index (r_chans s y)" if "channels (el_poller (r_loops s ?l)) f = Some y" for f y
    using reactor_wfD(2)[OF wf that] poller_wf_chan(3)[OF reactor_wfD(1)[OF wf] that] by auto
  have "chan_like (r_chans s y) (r_chans t y)" for y
  proof (cases "r_chans t y = r_chans s y")
    case False
    then obtain f where "0 \<le> ch_index (r_chans s x)" "r_chans t y = set_index (ch_index (r_chans s x)) (r_chans s y)"
      "channels (el_poller (r_loops s ?l)) f = Some y" using R by blast
    then show ?thesis using own(2)[of f y] by (auto simp: chan_like_def set_index_def)
  qed simp
  moreover have "entry k t f = (if k = ?l \<and> f = ?fd then (None, None) else entry k s f)" for k f
  proof (cases "k = ?l")
    case True
    then show ?thesis using R t(3) by (simp add: entry_def)
  next
    case False
    have "entry k t f = entry k s f"
    proof (rule entry_cong)
      fix d assume "channels (el_poller (r_loops s k)) f = Some d"
      then have "ch_ownerLoop (r_chans s d) \<noteq> ?l" using reactor_wfD(2)[OF wf] False by simp
      then have "r_chans t d = r_chans s d" using R own(1) by metis
      then show "ch_index (r_chans t d) = ch_index (r_chans s d)" by simp
    qed (use False in \<open>simp add: t(4)\<close>)
    with False show ?thesis by simp
  qed
  ultimately show ?thesis using t by blast
qed

text \<open>\<open>connectionDestryed\<close>: the last registration of the connection goes.\<close>

lemma step_destroyed:
  assumes S: "serving E feed v bat s" and c: "c < n_nextConn s" and no: "unqueued bat c s"
    and st: "cn_state (n_conns s c) = KDisconnected" and thr: "isInLoopThread (cn_loop (n_conns s c)) s"
    and reg: "fst (entry (cn_loop (n_conns s c)) s (cn_sockfd (n_conns s c))) \<noteq> None"
  shows "\<exists>t. connectionDestryed c s = Inr t \<and> serving E feed v bat t \<and> r_tid t = r_tid s \<and>
    (\<forall>k. el_threadId (r_loops t k) = el_threadId (r_loops s k))"
proof -
  let ?l = "cn_loop (n_conns s c)" and ?fd = "cn_sockfd (n_conns s c)" and ?ch = "cn_channel (n_conns s c)"
  note D = servingD[OF S] and w = wiredD[OF servingD(7)[OF S c]]
  have P: "isNoneEvent (conn_chan c s)" "fst (entry ?l s ?fd) = Some ?ch" "snd (entry ?l s ?fd) = Some (False, 0)" "answered E feed c s"
    using D(8)[OF c] st reg by (auto simp: phase_ok_def Let_def)
  have ok: "chan_ok ?ch s" using chan_ok_registered[OF D(1) D(7)[OF c] P(2)] by (simp add: conn_base_def)
  have pre: "loop_interest (ch_ownerLoop (conn_chan c s)) s (ch_fd (conn_chan c s)) = Some (False, 0)"
    "isInLoopThread (ch_ownerLoop (conn_chan c s)) s" using P(3) thr by (simp_all add: w(4,5) entry_def)
  from channelRemove_frame[OF D(1) ok pre(1) P(1) pre(2)] obtain t cs p where
    t: "channelRemove ?ch s = Inr t" "reactor_wf t" "t = set_ps ?l (cs, p) s" "\<And>y. chan_like (r_chans s y) (r_chans t y)"
    and en: "\<And>k f. entry k t f = (if k = ?l \<and> f = ?fd then (None, None) else entry k s f)"
    unfolding w(4,5) by blast
  have same: "n_conns t = n_conns s" "n_nextConn t = n_nextConn s" "n_servers t = n_servers s" "n_acceptors t = n_acceptors s"
    "n_connectionIndex t = n_connectionIndex s" "r_nextChan t = r_nextChan s" "r_trace t = r_trace s" "r_tid t = r_tid s"
    "el_funcQueue (r_loops t k) = el_funcQueue (r_loops s k)" "el_timerQueue (r_loops t k) = el_timerQueue (r_loops s k)"
    "el_threadId (r_loops t k) = el_threadId (r_loops s k)" for k by (simp_all add: t(3) set_ps_def)
  have run: "connectionDestryed c s = Inr t" using t(1) thr st by (simp add: connectionDestryed_def assertInLoopThread_def)
  have im: "in_map v d t = in_map v d s" for d by (simp add: in_map_def same)
  have all: "wired v d t \<and> phase_ok E feed v d t" if d: "d < n_nextConn s" for d
  proof
    have n: "n_conns t d = n_conns s d" "r_nextChan s \<le> r_nextChan t" "open_fds (r_trace s) \<subseteq> open_fds (r_trace t)" by (simp_all add: same)
    show "wired v d t" by (rule conn_keeps(1)[OF n(1) t(4) n(2,3) D(7)[OF d]])
    show "phase_ok E feed v d t"
    proof (cases "d = c")
      case True
      then show ?thesis using P(1,4) st t(4)[of ?ch] en[of ?l ?fd]
        by (simp add: phase_ok_def Let_def same answered_def stream_def isNoneEvent_def chan_like_def)
    next
      case False
      then have "cn_sockfd (n_conns s d) \<noteq> ?fd" using D(9)[OF d c] by blast
      then have "entry k t (cn_sockfd (n_conns s d)) = entry k s (cn_sockfd (n_conns s d))" for k by (simp add: en)
      from conn_keeps(2)[OF n(1) t(4) n(2,3) this _ _ D(8)[OF d]] show ?thesis by (simp add: same im)
    qed
  qed
  have fits: "task_fits v k x t" if "x \<in> set (bat k @ el_funcQueue (r_loops s k))" for k x
  proof -
    have f: "task_fits v k x s" using D(4) that unfolding pend_ok_def by blast
    obtain d where d: "about x = Some d" "d < n_nextConn s" using fits_some[OF f] by blast
    then have "d \<noteq> c" using unqueuedD[OF no that] by auto
    then have "cn_sockfd (n_conns s d) \<noteq> ?fd" using D(9)[OF d(2) c] by blast
    then show ?thesis using f d(1) by (cases x) (simp_all add: task_fits_def same im en)
  qed
  have "pend_ok v bat t" using D(4) fits by (simp add: pend_ok_def same)
  moreover have "front_ok v t" using D(2) by (simp add: front_ok_def Let_def server_ok_def same)
  moreover have "aux_chan v k x t = aux_chan v k x s" for k x
    using t(4)[of x] by (auto simp: aux_chan_def Let_def same chan_like_def)
  then have "reg_ok v t" using D(3) by (auto simp: reg_ok_def en same)
  ultimately have "serving E feed v bat t" using all t(2) S by (simp add: serving_def same)
  with run same show ?thesis by blast
qed

text \<open>Every functor of the batch goes through.\<close>

lemma step_functor:
  assumes K: "kernel_ok E feed" and S: "serving E feed v bat s" and b: "bat k = x # rest" and thr: "isInLoopThread k s"
  shows "\<exists>t. run_task E (echo_user E g) (Suc (Suc n)) x s = Inr t \<and> serving E feed v (bat(k := rest)) t \<and> isInLoopThread k t"
proof -
  have "task_fits v k x s" using servingD(4)[OF S] b unfolding pend_ok_def by (metis list.set_intros(1) Un_iff set_append)
  then obtain c where c: "about x = Some c" "c < n_nextConn s" using fits_some by blast
  note P = popped[OF S b c(1)]
  from fits_about[OF P(3) c(1)] show ?thesis
  proof (elim disjE conjE)
    assume x: "x = TEstablished c" "k = cn_loop (n_conns s c)" "cn_state (n_conns s c) = KConnecting"
    from step_established[OF K P(1) c(2) P(2) x(3) thr[unfolded x(2)]] obtain t where
      "connectionEstablished (run_task E (echo_user E g) (Suc n)) c s = Inr t" "serving E feed v (bat(k := rest)) t"
      "beside (cn_channel (n_conns s c)) s t" by blast
    then show ?thesis using x(1) thr beside_thread by auto
  next
    assume x: "x = TRemoveInLoop v c" "k = sv_loop (n_servers s v)" "cn_state (n_conns s c) = KDisconnected" "in_map v c s"
    have "fst (entry (cn_loop (n_conns s c)) s (cn_sockfd (n_conns s c))) \<noteq> None" using P(3) by (simp add: x(1) task_fits_def)
    from remove_step[OF P(1) c(2) x(3,4) this P(2) thr[unfolded x(2)], where x = 0] show ?thesis
      using x(1) thr beside_thread by fastforce
  next
    assume x: "x = TDestroyed c" "k = cn_loop (n_conns s c)" "cn_state (n_conns s c) = KDisconnected"
    have "fst (entry (cn_loop (n_conns s c)) s (cn_sockfd (n_conns s c))) \<noteq> None" using P(3) by (simp add: x(1) task_fits_def)
    from step_destroyed[OF P(1) c(2) P(2) x(3) thr[unfolded x(2)] this] show ?thesis
      using x(1) thr by (auto simp: isInLoopThread_def)
  qed
qed

section \<open>New clients\<close>

lemma pool_next:
  assumes "pool_ok p" and "isInLoopThread (tp_baseLoop p) s"
  shows "\<exists>l q. getNextLoop p s = Inr (Some l, q) \<and> pool_ok q \<and> tp_baseLoop q = tp_baseLoop p"
proof (cases "tp_numThreads p = 0")
  case True
  with assms show ?thesis by (simp add: getNextLoop_def assertInLoopThread_def pool_ok_def)
next
  case False
  with assms have P: "pool_ready p s" by (simp add: pool_ready_def pool_ok_def)
  have "nat (tp_nextIndex p) < length (tp_loops p)" using P by (auto simp: pool_ready_def)
  then have "tp_loops p ! nat (tp_nextIndex p) \<in> set (tp_loops p)" by simp
  moreover have "None \<notin> set (tp_loops p)" using assms(1) False by (simp add: pool_ok_def)
  ultimately obtain l where l: "tp_loops p ! nat (tp_nextIndex p) = Some l" by (metis not_None_eq)
  have "pool_ok (p\<lparr>tp_nextIndex := (tp_nextIndex p + 1) mod int (length (tp_loops p))\<rparr>)"
    using assms(1) by (auto simp: pool_ok_def)
  then show ?thesis using getNextLoop_ready(1)[OF P] l by simp
qed

text \<open>A connection is made for a descriptor that was just accepted.\<close>

lemma new_conn_serving:
  assumes bl: "buffer_laws E" and S: "serving E feed v bat s" and fd: "0 \<le> fd" "fd \<notin> open_fds (r_trace s)"
    and ok: "server_ok v u" and wf: "reactor_wf u" and p: "pool_ok p" "tp_baseLoop p = sv_loop (n_servers s v)"
    and map: "map_of (sv_connections (n_servers u v)) = (map_of (sv_connections (n_servers s v)))(name \<mapsto> n_nextConn s)"
      "map_of (sv_connections (n_servers s v)) name = None"
    and conns: "n_conns u = (n_conns s)(n_nextConn s := fresh_conn E v (n_servers s v) l name peer fd (r_nextChan s))"
    and ch: "r_chans u (r_nextChan s) = (mkChannel l fd)\<lparr>ch_readCallback := Some (\<lambda>now. TConnRead (n_nextConn s) now),
       ch_writeCallback := Some (TConnWrite (n_nextConn s)), ch_closeCallback := Some (TConnClose (n_nextConn s))\<rparr>"
      "\<forall>x. x \<noteq> r_nextChan s \<longrightarrow> r_chans u x = r_chans s x"
    and sv: "n_servers u = (n_servers s)(v := (n_servers s v)\<lparr>sv_threadPool := p, sv_connections := cs\<rparr>)"
    and same: "r_loops u = r_loops s" "r_trace u = r_trace s @ [SysAccept a fd]" "n_nextConn u = Suc (n_nextConn s)"
      "r_nextChan u = Suc (r_nextChan s)" "n_acceptors u = n_acceptors s"
  shows "serving E feed v bat u \<and> unqueued bat (n_nextConn s) u \<and> wired v (n_nextConn s) u \<and>
    cn_state (n_conns u (n_nextConn s)) = KConnecting"
proof -
  let ?c = "n_nextConn s"
  note D = servingD[OF S]
  have F: "sv_connectionCallback (n_servers s v) = Some (\<lambda>c. TUserConnection 0 c)"
    "sv_messageCallback (n_servers s v) = Some (\<lambda>c now. TUserMessage 1 c now)" "sv_writeCompleteCallback (n_servers s v) = None"
    "ac_cb (n_acceptors s (sv_acceptor (n_servers s v))) = Some (\<lambda>fd peer. TNewConnection v fd peer)"
    using D(2) by (simp_all add: front_ok_def Let_def)
  have nc: "n_conns u ?c = fresh_conn E v (n_servers s v) l name peer fd (r_nextChan s)" by (simp add: conns)
  have op: "open_fds (r_trace u) = insert fd (open_fds (r_trace s))" by (simp add: same(2) open_fds_append)
  have io: "same_io feed f (r_trace s) (r_trace u)" for f by (simp add: same(2) same_io_def pieces_append)
  have en: "entry k u f = entry k s f" for k f
  proof (rule entry_cong)
    fix x assume "channels (el_poller (r_loops s k)) f = Some x"
    from reactor_wfD(3)[OF D(1) this] show "ch_index (r_chans u x) = ch_index (r_chans s x)" using ch(2) by simp
  qed (simp add: same)
  have none: "fst (entry k s fd) = None" for k using regD(1)[OF D(3)] fd(2) by (cases "fst (entry k s fd)") blast+
  have im: "in_map v d u \<longleftrightarrow> in_map v d s" if "d < ?c" for d using that map by (auto simp: in_map_def conns)
  have w: "wired v ?c u"
    using F fd(1) op same(4) by (simp add: wired_def Let_def nc fresh_conn_def ch(1) mkChannel_def)
  have cl: "written fd (r_trace s) = [] \<and> fins fd (r_trace s) = 0 \<and> pieces feed fd (r_trace s) = []"
    using D(6) fd(2) by (simp add: clean_def)
  have "phase_ok E feed v ?c u"
    using cl io[of fd] none map(1) bl
    by (simp add: phase_ok_def Let_def nc fresh_conn_def in_map_def en ch(1) mkChannel_def kNoneEvent_def same_io_def buffer_laws_def)
  moreover have "wired v d u \<and> phase_ok E feed v d u" if d: "d < ?c" for d
  proof -
    have "cn_channel (n_conns s d) < r_nextChan s" by (rule wiredD(1)[OF D(7)[OF d]])
    then have n: "n_conns u d = n_conns s d" "chan_like (conn_chan d s) (r_chans u (cn_channel (n_conns s d)))"
      "r_nextChan s \<le> r_nextChan u" "open_fds (r_trace s) \<subseteq> open_fds (r_trace u)"
      using d ch(2) op by (auto simp: conns same(4))
    show ?thesis using conn_keeps(1)[OF n D(7)[OF d]] conn_keeps(2)[OF n en io _ D(8)[OF d]] im[OF d] by blast
  qed
  ultimately have all: "wired v d u \<and> phase_ok E feed v d u" if "d < n_nextConn u" for d
    using that w same(3) by (cases "d = ?c") auto
  have fits: "task_fits v k x u \<and> about x \<noteq> Some ?c" if f: "task_fits v k x s" for k x
  proof -
    obtain d where "about x = Some d" "d < ?c" using fits_some[OF f] by blast
    then show ?thesis using f im[of d] by (cases x) (simp_all add: task_fits_def conns en same sv)
  qed
  have "pend_ok v bat u" using D(4) fits unfolding pend_ok_def same(1) by blast
  moreover have "unqueued bat ?c u" using D(4) fits unfolding pend_ok_def unqueued_def same(1) by blast
  moreover have "front_ok v u" using F ok p by (simp add: front_ok_def Let_def sv same)
  moreover have "aux_chan v k x u" if "aux_chan v k x s" for k x
    using that ch(2) by (auto simp: aux_chan_def Let_def sv same)
  then have "reg_ok v u" using regD[OF D(3)] unfolding reg_ok_def en op same(3) conns by (metis (no_types, lifting) fun_upd_other insertCI less_Suc_eq less_irrefl)
  moreover have "inj_on (\<lambda>c. cn_sockfd (n_conns u c)) {..<n_nextConn u}"
  proof (rule inj_onI)
    fix d e assume de: "d \<in> {..<n_nextConn u}" "e \<in> {..<n_nextConn u}" "cn_sockfd (n_conns u d) = cn_sockfd (n_conns u e)"
    have "cn_sockfd (n_conns u b) = fd \<longleftrightarrow> b = ?c" if "b < n_nextConn u" for b
      using that wiredD(3)[OF D(7), of b] fd(2) by (cases "b = ?c") (auto simp: conns fresh_conn_def same)
    from this[of d] this[of e] have "d = ?c \<longleftrightarrow> e = ?c" using de by auto
    then show "d = e" using de D(9)[of d e] by (cases "d = ?c") (auto simp: conns same)
  qed
  moreover have "clean feed (r_trace u)"
    using D(6) io by (auto simp: clean_def op same_io_def)
  ultimately show ?thesis using all wf D(5) w by (simp add: serving_def same nc fresh_conn_def)
qed

text \<open>\<open>Acceptor::handleRead\<close>: the new client's connection is up, or on its way to its loop.\<close>

lemma step_accept:
  assumes K: "kernel_ok E feed" and S: "serving E feed v bat s" and thr: "isInLoopThread (sv_loop (n_servers s v)) s"
  shows "\<exists>t. acceptorRead E (run_task E (echo_user E g) (Suc (Suc (Suc n)))) (sv_acceptor (n_servers s v)) s = Inr t \<and>
    serving E feed v bat t \<and> (\<forall>x. beside x s t)"
proof -
  let ?a = "sv_acceptor (n_servers s v)" and ?c = "n_nextConn s" and ?run = "run_task E (echo_user E g) (Suc (Suc n))"
  note D = servingD[OF S]
  have F: "server_ok v s" "tp_baseLoop (sv_threadPool (n_servers s v)) = sv_loop (n_servers s v)" "pool_ok (sv_threadPool (n_servers s v))"
    "ac_cb (n_acceptors s ?a) = Some (\<lambda>fd peer. TNewConnection v fd peer)"
    using D(2) by (simp_all add: front_ok_def Let_def)
  obtain fd peer where fp: "accept_of E (r_trace s) (ac_sockfd (n_acceptors s ?a)) = (fd, peer)" by (metis surj_pair)
  have fd: "0 \<le> fd" "fd \<notin> open_fds (r_trace s)" using kernelD(4)[OF K] fp unfolding accept_ok_def by (metis fst_conv)+
  let ?s = "emit (SysAccept (ac_sockfd (n_acceptors s ?a)) fd) s"
  have "isInLoopThread (tp_baseLoop (sv_threadPool (n_servers s v))) s" using thr F(2) by simp
  from pool_next[OF F(3) this] F(2) obtain l q where q: "getNextLoop (sv_threadPool (n_servers s v)) s = Inr (Some l, q)"
    "pool_ok q" "tp_baseLoop q = sv_loop (n_servers s v)" by auto
  have nxt: "getNextLoop (sv_threadPool (n_servers ?s v)) ?s = Inr (Some l, q)" using q(1) getNextLoop_cong[of ?s s] by simp
  have "fst (entry l s fd) = None" using regD(1)[OF D(3)] fd(2) by (cases "fst (entry l s fd)") blast+
  then have none: "loop_interest l ?s fd = None" by (simp add: entry_def loop_interest_def interest_def loop_ps_def)
  have s: "server_ok v ?s" "reactor_wf ?s" using F(1) D(1) by (simp_all add: server_ok_def reactor_wf_emit)
  from onNewConnection_contract[OF s nxt fd(1) none, of E ?run peer] obtain u cs where
    u: "onNewConnection E ?run v fd peer ?s = runInLoop E ?run l (TEstablished ?c) u" "server_ok v u" "reactor_wf u"
      "map_of (sv_connections (n_servers u v)) = (map_of (sv_connections (n_servers s v)))
         (sv_name (n_servers s v) @ to_string (n_connectionIndex s) \<mapsto> ?c)"
      "n_conns u = (n_conns s)(?c := fresh_conn E v (n_servers s v) l (sv_name (n_servers s v) @ to_string (n_connectionIndex s))
         peer fd (r_nextChan s))"
      "r_chans u (r_nextChan s) = (mkChannel l fd)\<lparr>ch_readCallback := Some (\<lambda>now. TConnRead ?c now),
         ch_writeCallback := Some (TConnWrite ?c), ch_closeCallback := Some (TConnClose ?c)\<rparr>"
      "\<forall>x. x \<noteq> r_nextChan s \<longrightarrow> r_chans u x = r_chans s x"
      "n_servers u = (n_servers s)(v := (n_servers s v)\<lparr>sv_threadPool := q, sv_connections := cs\<rparr>)"
      "r_loops u = r_loops s" "r_trace u = r_trace s @ [SysAccept (ac_sockfd (n_acceptors s ?a)) fd]"
      "n_nextConn u = Suc ?c" "r_nextChan u = Suc (r_nextChan s)" "n_acceptors u = n_acceptors s" "r_tid u = r_tid s"
    by (auto simp del: run_task.simps)
  note new = new_conn_serving[OF kernelD(1)[OF K] S fd u(2,3) q(2,3) u(4) next_name_fresh[OF F(1)] u(5-13)]
  have b: "beside x s u" for x
    by (auto simp: beside_def u(5,7-9,11,12,14))
  have run: "acceptorRead E (run_task E (echo_user E g) (Suc (Suc (Suc n)))) ?a s = runInLoop E ?run l (TEstablished ?c) u"
    using fp fd(1) F(4) u(1) by (simp add: acceptorRead_def socketAccept_def acceptSocket_def)
  have cl: "cn_loop (n_conns u ?c) = l" "?c < n_nextConn u" by (simp_all add: u(5,11) fresh_conn_def)
  show ?thesis
  proof (cases "isInLoopThread l u")
    case True
    have est: "unqueued bat ?c u" "cn_state (n_conns u ?c) = KConnecting" "serving E feed v bat u" using new by blast+
    from step_established[OF K est(3) cl(2) est(1,2), of g n] True obtain t where
      t: "connectionEstablished (run_task E (echo_user E g) (Suc n)) ?c u = Inr t" "serving E feed v bat t"
      "beside (cn_channel (n_conns u ?c)) u t" by (auto simp: cl(1))
    have "cn_channel (n_conns u ?c) = r_nextChan s" by (simp add: u(5) fresh_conn_def)
    then have bt: "beside (r_nextChan s) u t" using t(3) by simp
    have "n_conns t d = n_conns s d" if "d < ?c" for d
    proof -
      have "n_conns u d = n_conns s d" "cn_channel (n_conns s d) \<noteq> r_nextChan s"
        using that wiredD(1)[OF D(7)[OF that]] by (simp_all add: u(5))
      then show ?thesis using bt that by (simp add: beside_def u(11))
    qed
    moreover have "r_chans t y = r_chans s y" if "y < r_nextChan s" for y using bt that u(7) by (simp add: beside_def u(12))
    ultimately have "beside x s t" for x using bt b[of x] by (simp add: beside_def)
    with t(1,2) True show ?thesis by (simp add: run runInLoop_def)
  next
    case False
    have fits: "task_fits v l (TEstablished ?c) u" using new cl by (simp add: task_fits_def)
    have "TEstablished ?c \<notin> set (bat l @ el_funcQueue (r_loops u l))"
      using new unqueuedD[of bat ?c u "TEstablished ?c" l] by auto
    moreover have "beside x s (queueInLoop E l (TEstablished ?c) u)" for x by (rule beside_trans[OF b beside_queue])
    ultimately show ?thesis using queue_serving[OF _ fits] new False by (simp add: run runInLoop_def)
  qed
qed

section \<open>An event\<close>

lemma quiet_mod_chan:
  assumes "reactor_wf s" and "keeps_identity f" and "\<And>ch. chan_like ch (f ch)"
  shows "quiet s (mod_chan x f s)"
proof -
  have "entry k (mod_chan x f s) fd = entry k s fd" for k fd
    by (rule entry_cong) (use assms(2) in \<open>simp_all add: keeps_identity_def\<close>)
  then show ?thesis
    using assms(3) mod_chan_identity(1)[OF assms(2,1)]
    unfolding quiet_def by (auto simp: mod_chan_def intro!: exI[of _ "[]"])
qed

lemma serving_handling:
  assumes "serving E feed v bat s"
  shows "serving E feed v bat (mod_chan x (\<lambda>ch. ch\<lparr>ch_isHandling := b\<rparr>) s)"
proof -
  have q: "quiet s (mod_chan x (\<lambda>ch. ch\<lparr>ch_isHandling := b\<rparr>) s)"
    by (rule quiet_mod_chan[OF servingD(1)[OF assms]]) (simp_all add: keeps_identity_def chan_like_def)
  show ?thesis by (rule serving_quiet[OF assms q quiet_pend[OF servingD(4)[OF assms] q]]) simp
qed

lemma beside_mod_chan: "beside x s (mod_chan x f s)"
  by (simp add: beside_def)

lemma conn_kept_handling: "conn_kept c s (mod_chan x (\<lambda>ch. ch\<lparr>ch_isHandling := b\<rparr>) s)"
  by (simp add: conn_kept_def)

lemma stage_one:
  "cond (ch_revents (r_chans s x)) \<Longrightarrow> cb (r_chans s x) = Some t \<Longrightarrow> dispatchStage run x cond cb s = run t s"
  by (simp add: dispatchStage_def callOpt_def)

lemma stage_skip:
  "\<not> cond (ch_revents (r_chans s x)) \<or> cb (r_chans s x) = None \<Longrightarrow> dispatchStage run x cond cb s = Inr s"
  by (auto simp: dispatchStage_def callOpt_def Let_def)

text \<open>What holds between the stages of an event of a connection that was up at its beginning.\<close>

definition handling :: "'b env \<Rightarrow> feed \<Rightarrow> server_id \<Rightarrow> (loop_id \<Rightarrow> task list) \<Rightarrow> conn_id \<Rightarrow> ('b, 'z) servs \<Rightarrow> ('b, 'z) servs \<Rightarrow> bool"
where
  "handling E feed v bat c s u \<longleftrightarrow> c < n_nextConn s \<and> isInLoopThread (cn_loop (n_conns s c)) s \<and>
     serving E feed v bat u \<and> beside (cn_channel (n_conns s c)) s u \<and> conn_kept c s u \<and>
     cn_state (n_conns u c) \<in> {KConnected, KDisconnected}"

lemma handlingD:
  assumes "handling E feed v bat c s u"
  shows "serving E feed v bat u" "c < n_nextConn u" "isInLoopThread (cn_loop (n_conns u c)) u" "wired v c u"
    "cn_channel (n_conns u c) = cn_channel (n_conns s c)" "ch_revents (conn_chan c u) = ch_revents (conn_chan c s)"
    "cn_state (n_conns u c) \<in> {KConnected, KDisconnected}"
proof -
  show S: "serving E feed v bat u" and c: "c < n_nextConn u" "isInLoopThread (cn_loop (n_conns u c)) u"
    "cn_channel (n_conns u c) = cn_channel (n_conns s c)" "ch_revents (conn_chan c u) = ch_revents (conn_chan c s)"
    "cn_state (n_conns u c) \<in> {KConnected, KDisconnected}"
    using assms beside_thread[of "cn_channel (n_conns s c)" s u] by (auto simp: handling_def conn_kept_def)
  show "wired v c u" by (rule servingD(7)[OF S c(1)])
qed

lemma handling_next:
  assumes "handling E feed v bat c s u" and "serving E feed v bat t" and "beside (cn_channel (n_conns u c)) u t"
    and "conn_kept c u t" and "cn_state (n_conns t c) \<in> {KConnected, KDisconnected}"
  shows "handling E feed v bat c s t"
  using assms beside_trans conn_kept_trans handlingD(5)[OF assms(1)] unfolding handling_def by metis

lemma close_stage:
  assumes H: "handling E feed v bat c s u" and up: "cn_state (n_conns u c) = KConnected"
  shows "\<exists>t. dispatchStage (run_task E usr (Suc (Suc (Suc n)))) (cn_channel (n_conns u c))
      (\<lambda>r. r AND POLLHUP \<noteq> 0 \<and> r AND POLLIN = 0) ch_closeCallback u = Inr t \<and> handling E feed v bat c s t \<and>
    (ch_revents (conn_chan c u) AND POLLIN = 0 \<or> cn_state (n_conns t c) = KConnected)"
proof (cases "ch_revents (conn_chan c u) AND POLLHUP \<noteq> 0 \<and> ch_revents (conn_chan c u) AND POLLIN = 0")
  case False
  then have "dispatchStage run (cn_channel (n_conns u c)) (\<lambda>r. r AND POLLHUP \<noteq> 0 \<and> r AND POLLIN = 0) ch_closeCallback u = Inr u" for run
    by (intro stage_skip) simp
  with H up show ?thesis by blast
next
  case True
  note h = handlingD[OF H]
  from step_close[OF h(1,2) up h(3), of usr n] obtain t where
    t: "connClose (run_task E usr (Suc (Suc n))) c u = Inr t" "serving E feed v bat t" "beside (cn_channel (n_conns u c)) u t"
    "conn_kept c u t" "cn_state (n_conns t c) = KDisconnected" by blast
  have "dispatchStage (run_task E usr (Suc (Suc (Suc n)))) (cn_channel (n_conns u c))
      (\<lambda>r. r AND POLLHUP \<noteq> 0 \<and> r AND POLLIN = 0) ch_closeCallback u = Inr t"
    using True t(1) wiredD(8)[OF h(4)] by (subst stage_one[where t = "TConnClose c"]) simp_all
  with True t(5) handling_next[OF H t(2-4)] show ?thesis by auto
qed

lemma read_stage:
  assumes K: "kernel_ok E feed" and H: "handling E feed v bat c s u"
    and rev: "ch_revents (conn_chan c u) AND (POLLPRI OR POLLRDHUP) = 0"
    and up: "ch_revents (conn_chan c u) AND POLLIN = 0 \<or> cn_state (n_conns u c) = KConnected"
  shows "\<exists>t. dispatchStage (run_task E (echo_user E g) (Suc (Suc (Suc n)))) (cn_channel (n_conns u c))
      (\<lambda>r. r AND (POLLIN OR POLLPRI OR POLLRDHUP) \<noteq> 0) (\<lambda>ch. map_option (\<lambda>f. f now) (ch_readCallback ch)) u = Inr t \<and>
    handling E feed v bat c s t"
proof (cases "ch_revents (conn_chan c u) AND POLLIN = 0")
  case True
  then have "ch_revents (conn_chan c u) AND (POLLIN OR (POLLPRI OR POLLRDHUP)) = 0"
    using rev by (simp only: bit.conj_disj_distrib or.right_neutral)
  then have "dispatchStage run (cn_channel (n_conns u c)) (\<lambda>r. r AND (POLLIN OR POLLPRI OR POLLRDHUP) \<noteq> 0)
      (\<lambda>ch. map_option (\<lambda>f. f now) (ch_readCallback ch)) u = Inr u" for run
    by (intro stage_skip) (simp add: or.assoc)
  with H show ?thesis by blast
next
  case False
  then have st: "cn_state (n_conns u c) = KConnected" using up by simp
  note h = handlingD[OF H]
  from step_read[OF K h(1,2) st h(3), of g n now] obtain t where
    t: "connRead E (run_task E (echo_user E g) (Suc (Suc n))) c now u = Inr t" "serving E feed v bat t"
    "beside (cn_channel (n_conns u c)) u t" "conn_kept c u t" "cn_state (n_conns t c) \<in> {KConnected, KDisconnected}" by blast
  note cb = wiredD(6)[OF h(4)]
  have "ch_revents (conn_chan c u) AND (POLLIN OR POLLPRI OR POLLRDHUP) \<noteq> 0"
  proof
    assume "ch_revents (conn_chan c u) AND (POLLIN OR POLLPRI OR POLLRDHUP) = 0"
    then have "(ch_revents (conn_chan c u) AND (POLLIN OR POLLPRI OR POLLRDHUP)) AND POLLIN = 0" by (simp only: and_zero_eq zero_and_eq)
    moreover have "(POLLIN OR POLLPRI OR POLLRDHUP) AND POLLIN = POLLIN" by (simp add: poll_bits)
    ultimately show False using False by (simp only: and.assoc)
  qed
  then have "dispatchStage (run_task E (echo_user E g) (Suc (Suc (Suc n)))) (cn_channel (n_conns u c))
      (\<lambda>r. r AND (POLLIN OR POLLPRI OR POLLRDHUP) \<noteq> 0) (\<lambda>ch. map_option (\<lambda>f. f now) (ch_readCallback ch)) u = Inr t"
    using t(1) by (subst stage_one[where t = "TConnRead c now"]) (simp_all add: cb)
  with handling_next[OF H t(2-5)] show ?thesis by blast
qed

lemma write_stage:
  assumes K: "kernel_ok E feed" and H: "handling E feed v bat c s u"
  shows "\<exists>t. dispatchStage (run_task E usr (Suc n)) (cn_channel (n_conns u c)) (\<lambda>r. r AND POLLOUT \<noteq> 0) ch_writeCallback u = Inr t \<and>
    serving E feed v bat t \<and> beside (cn_channel (n_conns u c)) u t"
proof (cases "ch_revents (conn_chan c u) AND POLLOUT = 0")
  case True
  then have "dispatchStage run (cn_channel (n_conns u c)) (\<lambda>r. r AND POLLOUT \<noteq> 0) ch_writeCallback u = Inr u" for run
    by (intro stage_skip) simp
  with handlingD(1)[OF H] show ?thesis by simp
next
  case False
  note h = handlingD[OF H]
  from step_write[OF K h(1,2,7,3)] obtain t where
    t: "connWrite E c u = Inr t" "serving E feed v bat t" "beside (cn_channel (n_conns u c)) u t" by blast
  have "dispatchStage (run_task E usr (Suc n)) (cn_channel (n_conns u c)) (\<lambda>r. r AND POLLOUT \<noteq> 0) ch_writeCallback u = Inr t"
    using False t(1) wiredD(7)[OF h(4)] by (subst stage_one[where t = "TConnWrite c"]) simp_all
  with t show ?thesis by blast
qed

text \<open>An event of a connection that is up: it may be closed, read, and written.\<close>

lemma handle_conn:
  assumes K: "kernel_ok E feed" and S: "serving E feed v bat s" and c: "c < n_nextConn s"
    and st: "cn_state (n_conns s c) = KConnected" and thr: "isInLoopThread (cn_loop (n_conns s c)) s"
    and rev: "ch_revents (conn_chan c s) AND (POLLPRI OR POLLRDHUP) = 0"
  shows "\<exists>t. handleEvents (run_task E (echo_user E g) (Suc (Suc (Suc n)))) now (cn_channel (n_conns s c)) s = Inr t \<and>
    serving E feed v bat t \<and> beside (cn_channel (n_conns s c)) s t"
proof -
  let ?x = "cn_channel (n_conns s c)" and ?run = "run_task E (echo_user E g) (Suc (Suc (Suc n)))"
  let ?s0 = "mod_chan ?x (\<lambda>ch. ch\<lparr>ch_isHandling := True\<rparr>) s"
  have H0: "handling E feed v bat c s ?s0"
    unfolding handling_def using serving_handling[OF S] beside_mod_chan conn_kept_handling st c thr by (simp only: mod_chan_sel n_conns_sel) blast
  have s0: "dispatchStage ?run ?x (\<lambda>r. r AND (POLLNVAL OR POLLERR) \<noteq> 0) ch_errorCallback ?s0 = Inr ?s0"
    by (rule stage_skip) (use wiredD(9)[OF handlingD(4)[OF H0]] in simp)
  from close_stage[OF H0, of "echo_user E g" n] st obtain t1 where
    t1: "dispatchStage ?run ?x (\<lambda>r. r AND POLLHUP \<noteq> 0 \<and> r AND POLLIN = 0) ch_closeCallback ?s0 = Inr t1"
    "handling E feed v bat c s t1" "ch_revents (conn_chan c s) AND POLLIN = 0 \<or> cn_state (n_conns t1 c) = KConnected"
    by (auto simp del: run_task.simps)
  note h1 = handlingD[OF t1(2)]
  from read_stage[OF K t1(2), of g n now] rev t1(3) obtain t2 where
    t2: "dispatchStage ?run ?x (\<lambda>r. r AND (POLLIN OR POLLPRI OR POLLRDHUP) \<noteq> 0)
        (\<lambda>ch. map_option (\<lambda>f. f now) (ch_readCallback ch)) t1 = Inr t2" "handling E feed v bat c s t2"
    unfolding h1(6) unfolding h1(5) by blast
  from write_stage[OF K t2(2), of "echo_user E g" "Suc (Suc n)"] obtain t3 where
    t3: "dispatchStage ?run ?x (\<lambda>r. r AND POLLOUT \<noteq> 0) ch_writeCallback t2 = Inr t3" "serving E feed v bat t3" "beside ?x t2 t3"
    unfolding handlingD(5)[OF t2(2)] by blast
  let ?t = "mod_chan ?x (\<lambda>ch. ch\<lparr>ch_isHandling := False\<rparr>) t3"
  have "handleEvents ?run now ?x s = Inr ?t"
    using s0 t1(1) t2(1) t3(1) by (simp add: handleEvents_def del: run_task.simps)
  moreover have "beside ?x s ?t"
    using t2(2) t3(3) beside_mod_chan beside_trans unfolding handling_def by blast
  ultimately show ?thesis using serving_handling[OF t3(2)] by blast
qed

section \<open>The other channels\<close>

lemma quiet_trans:
  assumes "quiet s t" and "quiet t u" shows "quiet s u"
proof -
  obtain ts where ts: "r_trace t = r_trace s @ ts" "list_all silent ts" using assms(1) by (auto simp: quiet_def)
  obtain us where us: "r_trace u = r_trace t @ us" "list_all silent us" using assms(2) by (auto simp: quiet_def)
  have "\<exists>vs. r_trace u = r_trace s @ vs \<and> list_all silent vs" using ts us by (intro exI[of _ "ts @ us"]) simp
  moreover have "chan_like (r_chans s x) (r_chans u x)" for x
    using assms unfolding quiet_def chan_like_def by metis
  ultimately show ?thesis using assms by (simp add: quiet_def)
qed

text \<open>Bookkeeping that no channel takes part in.\<close>

definition still :: "('b, 'z) servs \<Rightarrow> ('b, 'z) servs \<Rightarrow> bool" where
  "still s t \<longleftrightarrow> quiet s t \<and> (\<forall>x. beside x s t) \<and> (\<forall>k. el_funcQueue (r_loops t k) = el_funcQueue (r_loops s k))"

lemma still_trans: "still s t \<Longrightarrow> still t u \<Longrightarrow> still s u"
  unfolding still_def using quiet_trans beside_trans by metis

lemma still_emit: "reactor_wf s \<Longrightarrow> silent e \<Longrightarrow> still s (emit e s)"
  unfolding still_def using quiet_emit by (auto intro: beside_same)

lemma still_serving:
  assumes "serving E feed v bat s" and "still s t" shows "serving E feed v bat t"
proof -
  have "quiet s t" "el_funcQueue (r_loops t k) = el_funcQueue (r_loops s k)" for k using assms(2) by (simp_all add: still_def)
  then show ?thesis using serving_quiet[OF assms(1)] quiet_pend[OF servingD(4)[OF assms(1)]] by blast
qed

lemma set_timers_empty: "timers_of l s = [] \<Longrightarrow> set_timers l [] s = s"
proof -
  assume "timers_of l s = []"
  then have "(el_timerQueue (r_loops s l))\<lparr>tq_timers := []\<rparr> = el_timerQueue (r_loops s l)"
    by (cases "el_timerQueue (r_loops s l)") (simp add: timers_of_def)
  then show ?thesis by (simp add: set_timers_def mod_loop_def)
qed

text \<open>The timer's channel, when no timer is in the queue: the clock is read.\<close>

lemma timerRead_empty:
  assumes "timers_of l s = []" and "isInLoopThread l s" and "reactor_wf s"
  shows "\<exists>t. timerRead E run l s = Inr t \<and> still s t"
proof -
  let ?s = "emit (SysNow (now_of E (r_trace s))) s"
  have e: "timers_of l ?s = []" using assms(1) by (simp add: timers_of_def)
  have wf: "reactor_wf ?s" using assms(3) by (simp add: reactor_wf_emit)
  have run: "timerRead E run l s = Inr (if stamp_valid E (stamp_invalid E) then resetTimerfd E l (stamp_invalid E) ?s else ?s)"
    using assms(1,2) e
    by (simp add: timerRead_def assertInLoopThread_def readNow_eq getExpired_def set_timers_empty timerReset_def)
  have "still s ?s" by (rule still_emit[OF assms(3)]) simp
  moreover have "still ?s (resetTimerfd E l w ?s)" for w
    unfolding resetTimerfd_eq Let_def
    by (rule still_trans[OF still_emit[OF wf] still_emit]) (simp_all add: assms(3) reactor_wf_emit)
  ultimately show ?thesis using run still_trans by (auto split: if_splits)
qed

text \<open>An event of a channel that belongs to a loop or to the acceptor.\<close>

lemma aux_run:
  assumes K: "kernel_ok E feed" and S: "serving E feed v bat s" and a: "aux_chan v k x s" and thr: "isInLoopThread k s"
    and f: "ch_readCallback (r_chans s x) = Some f"
  shows "\<exists>t. run_task E (echo_user E g) (Suc (Suc (Suc (Suc n)))) (f now) s = Inr t \<and> serving E feed v bat t \<and> beside x s t \<and>
    ch_writeCallback (r_chans t x) = None"
proof -
  have wf: "reactor_wf s" by (rule servingD(1)[OF S])
  have x: "x < r_nextChan s" "ch_writeCallback (r_chans s x) = None" using a by (simp_all add: aux_chan_def Let_def)
  have keep: "beside x s t \<and> ch_writeCallback (r_chans t x) = None" if "\<forall>x. beside x s t" for t
  proof -
    have "beside (r_nextChan s) s t" using that by blast
    then show ?thesis using that x by (simp add: beside_def)
  qed
  consider "ch_readCallback (r_chans s x) = Some (\<lambda>_. TWakeupRead k)" | "ch_readCallback (r_chans s x) = Some (\<lambda>_. TTimerRead k)"
    | "k = sv_loop (n_servers s v)" "ch_readCallback (r_chans s x) = Some (\<lambda>_. TAcceptorRead (sv_acceptor (n_servers s v)))"
    using a f by (auto simp: aux_chan_def Let_def)
  then show ?thesis
  proof cases
    case 1
    have "still s (wakeupRead E k s)" unfolding wakeupRead_def Let_def by (rule still_emit[OF wf]) simp
    with still_serving[OF S this] keep 1 f show ?thesis by (auto simp: still_def)
  next
    case 2
    have "timers_of k s = []" using servingD(5)[OF S] by (simp add: timers_of_def)
    from timerRead_empty[OF this thr wf, of E "run_task E (echo_user E g) (Suc (Suc (Suc n)))"] obtain t where
      "timerRead E (run_task E (echo_user E g) (Suc (Suc (Suc n)))) k s = Inr t" "still s t" by blast
    with still_serving[OF S this(2)] keep 2 f show ?thesis by (auto simp: still_def)
  next
    case 3
    from step_accept[OF K S thr[unfolded 3(1)], of g n] 3(2) f keep show ?thesis by auto
  qed
qed

lemma handle_aux:
  assumes K: "kernel_ok E feed" and S: "serving E feed v bat s" and a: "aux_chan v k x s" and thr: "isInLoopThread k s"
  shows "\<exists>t. handleEvents (run_task E (echo_user E g) (Suc (Suc (Suc (Suc n))))) now x s = Inr t \<and>
    serving E feed v bat t \<and> beside x s t"
proof -
  let ?run = "run_task E (echo_user E g) (Suc (Suc (Suc (Suc n))))"
  let ?s0 = "mod_chan x (\<lambda>ch. ch\<lparr>ch_isHandling := True\<rparr>) s"
  have S0: "serving E feed v bat ?s0" by (rule serving_handling[OF S])
  have a0: "aux_chan v k x ?s0" using a by (simp add: aux_chan_def Let_def)
  have thr0: "isInLoopThread k ?s0" using thr by (simp add: isInLoopThread_def)
  have none: "ch_errorCallback (r_chans ?s0 x) = None" "ch_closeCallback (r_chans ?s0 x) = None" "ch_writeCallback (r_chans ?s0 x) = None"
    using a0 by (simp_all add: aux_chan_def Let_def)
  let ?in = "\<lambda>r. r AND (POLLIN OR POLLPRI OR POLLRDHUP) \<noteq> 0" and ?cb = "\<lambda>ch. map_option (\<lambda>f. f now) (ch_readCallback ch)"
  obtain t where t: "dispatchStage ?run x ?in ?cb ?s0 = Inr t" "serving E feed v bat t" "beside x ?s0 t"
    "ch_writeCallback (r_chans t x) = None"
  proof (cases "?in (ch_revents (r_chans ?s0 x)) \<and> ch_readCallback (r_chans ?s0 x) \<noteq> None")
    case True
    then obtain f where f: "ch_readCallback (r_chans ?s0 x) = Some f" by blast
    from aux_run[OF K S0 a0 thr0 f, of g n now] obtain t1 where
      t1: "?run (f now) ?s0 = Inr t1" "serving E feed v bat t1" "beside x ?s0 t1" "ch_writeCallback (r_chans t1 x) = None" by blast
    have "dispatchStage ?run x ?in ?cb ?s0 = ?run (f now) ?s0"
      using True f by (simp add: dispatchStage_def callOpt_def Let_def del: run_task.simps)
    with t1 that show ?thesis by simp
  next
    case False
    then have "dispatchStage ?run x ?in ?cb ?s0 = Inr ?s0" by (intro stage_skip) auto
    with S0 none(3) that beside_refl show ?thesis by blast
  qed
  let ?t = "mod_chan x (\<lambda>ch. ch\<lparr>ch_isHandling := False\<rparr>) t"
  have "dispatchStage ?run x c ch_errorCallback ?s0 = Inr ?s0" "dispatchStage ?run x c ch_closeCallback ?s0 = Inr ?s0"
    "dispatchStage ?run x c ch_writeCallback t = Inr t" for c
    by (rule stage_skip, use none t(4) in blast)+
  then have "handleEvents ?run now x s = Inr ?t"
    using t(1) by (simp add: handleEvents_def del: run_task.simps)
  moreover have "beside x s ?t" using t(3) beside_mod_chan beside_trans by blast
  ultimately show ?thesis using serving_handling[OF t(2)] by blast
qed

end
