(* ===== verification/Startup.thy ===== *)
theory Startup
  imports Serving
begin

text \<open>
  From the start of the process to a server that is at work: every object \<open>main\<close> makes keeps the
  invariant \<open>laid\<close>, the making goes through with any number of threads, and what is then there
  satisfies \<open>serving\<close>.
\<close>

section \<open>What is there before the first client\<close>

text \<open>A channel of a loop or of the acceptor, by the callbacks it has.\<close>

definition plain :: "loop_id \<Rightarrow> acceptor_id \<Rightarrow> channel \<Rightarrow> bool" where
  "plain l a ch \<longleftrightarrow> ch_errorCallback ch = None \<and> ch_closeCallback ch = None \<and> ch_writeCallback ch = None \<and>
     (ch_readCallback ch = None \<or> ch_readCallback ch = Some (\<lambda>_. TWakeupRead (ch_ownerLoop ch)) \<or>
      ch_readCallback ch = Some (\<lambda>_. TTimerRead (ch_ownerLoop ch)) \<or>
      ch_ownerLoop ch = l \<and> ch_readCallback ch = Some (\<lambda>_. TAcceptorRead a))"

definition io_call :: "sysev \<Rightarrow> bool" where
  "io_call e \<longleftrightarrow> (\<exists>f. on_fd f e)"

definition laid :: "loop_id \<Rightarrow> acceptor_id \<Rightarrow> ('b, 'z) servs \<Rightarrow> bool" where
  "laid l a s \<longleftrightarrow> reactor_wf s \<and> n_nextConn s = 0 \<and> (\<forall>x. plain l a (r_chans s x)) \<and>
     (\<forall>k. el_funcQueue (r_loops s k) = [] \<and> tq_timers (el_timerQueue (r_loops s k)) = []) \<and>
     (\<forall>k. dom (channels (el_poller (r_loops s k))) \<subseteq> open_fds (r_trace s)) \<and>
     (\<forall>e \<in> set (r_trace s). \<not> io_call e)"

text \<open>Making something leaves what was there.\<close>

definition built :: "('b, 'z) servs \<Rightarrow> ('b, 'z) servs \<Rightarrow> bool" where
  "built s t \<longleftrightarrow> r_nextChan s \<le> r_nextChan t \<and> (\<forall>d < r_nextChan s. r_chans t d = r_chans s d) \<and>
     n_acceptors t = n_acceptors s \<and> n_servers t = n_servers s \<and> n_connectionIndex t = n_connectionIndex s \<and>
     open_fds (r_trace s) \<subseteq> open_fds (r_trace t)"

lemma built_refl [simp]: "built s s"
  by (simp add: built_def)

lemma built_trans: "built s t \<Longrightarrow> built t u \<Longrightarrow> built s u"
  by (auto simp: built_def)

lemma laidD:
  assumes "laid l a s"
  shows "reactor_wf s" "plain l a (r_chans s x)" "channels (el_poller (r_loops s k)) f = Some x \<Longrightarrow> f \<in> open_fds (r_trace s)"
  using assms unfolding laid_def by blast+

lemma laid_cong:
  assumes "laid l a s" and "r_chans t = r_chans s" "r_nextChan t = r_nextChan s" "r_trace t = r_trace s" "n_nextConn t = n_nextConn s"
    and "\<And>k. el_poller (r_loops t k) = el_poller (r_loops s k) \<and> el_funcQueue (r_loops t k) = el_funcQueue (r_loops s k) \<and>
      tq_timers (el_timerQueue (r_loops t k)) = tq_timers (el_timerQueue (r_loops s k))"
  shows "laid l a t"
proof -
  have "reactor_wf t" using laidD(1)[OF assms(1)] by (rule reactor_wf_cong) (simp_all add: assms(2,3,6))
  then show ?thesis using assms by (simp add: laid_def)
qed

lemma laid_emit:
  assumes "laid l a s" and "\<not> io_call e" and "open_fds (r_trace s) \<subseteq> open_after e (open_fds (r_trace s))"
  shows "laid l a (emit e s)"
  using assms unfolding laid_def by (simp add: reactor_wf_emit open_fds_append) blast

lemma laid_newChannel:
  assumes "laid l a s" and "newChannel k fd s = (c, t)"
  shows "laid l a t" "c = r_nextChan s" "r_chans t c = mkChannel k fd" "r_trace t = r_trace s" "r_nextChan t = Suc (r_nextChan s)"
    "built s t"
proof -
  have t: "c = r_nextChan s" "t = s\<lparr>r_chans := (r_chans s)(c := mkChannel k fd), r_nextChan := Suc c\<rparr>"
    using assms(2) by (auto simp: newChannel_def Let_def)
  have "reactor_wf t" by (rule newChannel_wf[OF laidD(1)[OF assms(1)] assms(2)])
  then show "laid l a t" using assms(1) by (simp add: laid_def t(2)) (simp add: plain_def mkChannel_def)
  show "c = r_nextChan s" "r_chans t c = mkChannel k fd" "r_trace t = r_trace s" "r_nextChan t = Suc (r_nextChan s)" "built s t"
    using t by (simp_all add: built_def)
qed

lemma laid_setRead:
  assumes "laid l a s" and "plain l a (setReadCallback rc (r_chans s c))"
  shows "laid l a (mod_chan c (setReadCallback rc) s)"
proof -
  have "reactor_wf (mod_chan c (setReadCallback rc) s)" using laidD(1)[OF assms(1)] by (simp add: mod_chan_identity)
  then show ?thesis using assms by (simp add: laid_def)
qed

text \<open>Enabling a channel registers its descriptor at most.\<close>

lemma updateWith_frame:
  assumes g: "events_only g" and t: "updateWith g c s = Inr t"
  shows "\<exists>ev i p. t = set_ps (ch_ownerLoop (r_chans s c)) ((r_chans s)(c := (r_chans s c)\<lparr>ch_events := ev, ch_index := i\<rparr>), p) s \<and>
    dom (channels p) \<subseteq> insert (ch_fd (r_chans s c)) (dom (channels (el_poller (r_loops s (ch_ownerLoop (r_chans s c))))))"
proof -
  obtain ev where ev: "g (r_chans s c) = (r_chans s c)\<lparr>ch_events := ev\<rparr>" using g unfolding events_only_def by blast
  let ?l = "ch_ownerLoop (r_chans s c)" and ?s = "mod_chan c g s"
  obtain cs p where u: "updateChannel c (r_chans ?s, el_poller (r_loops s ?l)) = Inr (cs, p)" "t = set_ps ?l (cs, p) ?s"
    using t by (auto simp: updateWith_def channelUpdate_def loopUpdateChannel_def loop_ps_def result_simps ev)
  have "cs = (r_chans s)(c := (r_chans s c)\<lparr>ch_events := ev, ch_index := ch_index (cs c)\<rparr>)"
    using u(1) by (cases rule: updateChannel_cases) (auto simp: set_index_def ev fun_eq_iff)
  moreover have "dom (channels p) \<subseteq> insert (ch_fd (r_chans s c)) (dom (channels (el_poller (r_loops s ?l))))"
    using u(1) by (cases rule: updateChannel_cases) (auto simp: ev split: if_splits)
  moreover have "t = set_ps ?l (cs, p) s" using u(2) by (simp add: set_ps_def mod_chan_def)
  ultimately show ?thesis by metis
qed

lemma laid_enableRead:
  assumes L: "laid l a s" and t: "enableRead c s = Inr t" and c: "c < r_nextChan s" "0 \<le> ch_fd (r_chans s c)"
    "ch_fd (r_chans s c) \<in> open_fds (r_trace s)"
  shows "laid l a t" and "d \<noteq> c \<Longrightarrow> r_chans t d = r_chans s d" "r_nextChan t = r_nextChan s" "n_servers t = n_servers s"
    "n_acceptors t = n_acceptors s" "n_connectionIndex t = n_connectionIndex s" "r_trace t = r_trace s"
proof -
  obtain ev i p where p: "t = set_ps (ch_ownerLoop (r_chans s c)) ((r_chans s)(c := (r_chans s c)\<lparr>ch_events := ev, ch_index := i\<rparr>), p) s"
    "dom (channels p) \<subseteq> insert (ch_fd (r_chans s c)) (dom (channels (el_poller (r_loops s (ch_ownerLoop (r_chans s c))))))"
    using updateWith_frame[OF events_only_ops(1) t[unfolded enable_ops]] by blast
  have "reactor_wf t" using channel_ops_wf(1)[OF laidD(1)[OF L] c(1,2) t] .
  moreover have "plain l a (r_chans t x)" for x using laidD(2)[OF L, of x] laidD(2)[OF L, of c] by (simp add: p(1) plain_def)
  moreover have "dom (channels (el_poller (r_loops t k))) \<subseteq> open_fds (r_trace s)" for k
    using L c(3) p(2) unfolding laid_def p(1) by (cases "k = ch_ownerLoop (r_chans s c)") (simp, blast, simp)
  ultimately show "laid l a t"
    using L by (simp add: laid_def) (simp add: p(1))
  show "d \<noteq> c \<Longrightarrow> r_chans t d = r_chans s d" "r_nextChan t = r_nextChan s" "n_servers t = n_servers s"
    "n_acceptors t = n_acceptors s" "n_connectionIndex t = n_connectionIndex s" "r_trace t = r_trace s"
    by (simp_all add: p(1))
qed

section \<open>Loops and threads\<close>

text \<open>A descriptor is opened, a channel made for it, given a callback for reading and enabled.\<close>

lemma laid_reader:
  assumes L: "laid l a s" and new: "newChannel k fd (emit e s) = (c, s1)" and e: "\<not> io_call e" "\<And>A. open_after e A = insert fd A"
    and fd: "0 \<le> fd" and u: "r_chans u = r_chans s1" "r_nextChan u = r_nextChan s1" "r_trace u = r_trace s1"
      "n_nextConn u = n_nextConn s1" "n_servers u = n_servers s" "n_acceptors u = n_acceptors s" "n_connectionIndex u = n_connectionIndex s"
      "\<And>j. el_poller (r_loops u j) = el_poller (r_loops s1 j) \<and> el_funcQueue (r_loops u j) = el_funcQueue (r_loops s1 j) \<and>
        tq_timers (el_timerQueue (r_loops u j)) = tq_timers (el_timerQueue (r_loops s1 j))"
    and rc: "plain l a (setReadCallback rc (mkChannel k fd))"
    and t: "enableRead c (mod_chan c (setReadCallback rc) u) = Inr t"
  shows "laid l a t" "built s t" "r_trace t = r_trace s @ [e]"
proof -
  have L0: "laid l a (emit e s)" by (rule laid_emit[OF L e(1)]) (use e(2) in blast)
  note N = laid_newChannel[OF L0 new]
  have Lu: "laid l a u" by (rule laid_cong[OF N(1) u(1-4) u(8)])
  let ?v = "mod_chan c (setReadCallback rc) u"
  have Lv: "laid l a ?v" by (rule laid_setRead[OF Lu]) (use rc u(1) N(3) in simp)
  have "ch_fd (r_chans ?v c) = fd" by (simp add: u(1) N(3) setReadCallback_def mkChannel_def)
  then have c: "c < r_nextChan ?v" "0 \<le> ch_fd (r_chans ?v c)" "ch_fd (r_chans ?v c) \<in> open_fds (r_trace ?v)"
    using fd e(2) N(2,4,5) by (simp_all add: u(2,3) open_fds_append)
  note E = laid_enableRead[OF Lv t c]
  show "laid l a t" by (rule E(1))
  show tr: "r_trace t = r_trace s @ [e]" by (simp add: E(7) u(3) N(4))
  have "r_chans t d = r_chans s d" if "d < r_nextChan s" for d
    using that E(2)[of d] N(2,6) by (simp add: u(1) built_def)
  then show "built s t"
    using N(5) by (simp add: built_def E(3-6) u(2,5-7) tr open_fds_append e(2)) blast
qed

lemma newEventLoop_laid:
  assumes L: "laid l a s" and t: "newEventLoop E s = Inr (k, t)" and fd: "\<And>tr. 0 \<le> timerfd_of E tr" "\<And>tr. 0 \<le> eventfd_of E tr"
  shows "laid l a t" "built s t"
proof -
  let ?k = "r_nextLoop s" and ?tfd = "timerfd_of E (r_trace s)"
  let ?s0 = "mod_loop ?k (\<lambda>_. rawLoop (r_tid s)) (s\<lparr>r_nextLoop := Suc ?k\<rparr>)"
  have wf0: "reactor_wf ?s0"
    using laidD(1)[OF L] by (auto simp: reactor_wf_def loop_ps_def rawLoop_def poller_wf_mk mkPoller_def poller_wf_def)
  have L0: "laid l a ?s0"
    using L wf0 unfolding laid_def by (simp add: rawLoop_def mkPoller_def)
  have b0: "built s ?s0" by (simp add: built_def)
  obtain c1 s1 where n1: "newChannel ?k ?tfd (emit (SysTimerfd ?tfd) ?s0) = (c1, s1)"
    by (cases "newChannel ?k ?tfd (emit (SysTimerfd ?tfd) ?s0)")
  let ?u1 = "mod_loop ?k (\<lambda>el. el\<lparr>el_timerQueue := \<lparr>tq_timerfd = ?tfd, tq_timers = [], tq_channel = c1\<rparr>\<rparr>) s1"
  obtain t1 where "newTimerQueue E ?k ?s0 = Inr t1"
    using t by (auto simp: newEventLoop_def Let_def result_simps)
  then have t1: "enableRead c1 (mod_chan c1 (setReadCallback (\<lambda>_. TTimerRead ?k)) ?u1) = Inr t1"
    using n1 by (simp add: newTimerQueue_def Let_def)
  let ?efd = "eventfd_of E (r_trace t1)"
  obtain c2 s2 where n2: "newChannel ?k ?efd (emit (SysEventfd ?efd) t1) = (c2, s2)" by (cases "newChannel ?k ?efd (emit (SysEventfd ?efd) t1)")
  let ?u2 = "mod_loop ?k (\<lambda>el. el\<lparr>el_wakeupFd := ?efd, el_wakeupChannel := c2\<rparr>) s2"
  have "bindR (if r_loopOfThread ?u2 (r_tid ?u2) \<noteq> None then logFatal E ''EventLoop::EventLoop() - Already has an EventLoop!'' ?u2
      else Inr (?u2\<lparr>r_loopOfThread := (r_loopOfThread ?u2)(r_tid ?u2 \<mapsto> ?k)\<rparr>))
    (\<lambda>s. bindR (enableRead c2 (mod_chan c2 (setReadCallback (\<lambda>_. TWakeupRead ?k)) s)) (\<lambda>s. Inr (?k, s))) = Inr (k, t)"
    using t n2 \<open>newTimerQueue E ?k ?s0 = Inr t1\<close> by (simp add: newEventLoop_def Let_def)
  then obtain v where v: "v = ?u2 \<or> v = ?u2\<lparr>r_loopOfThread := (r_loopOfThread ?u2)(r_tid ?u2 \<mapsto> ?k)\<rparr>"
    "enableRead c2 (mod_chan c2 (setReadCallback (\<lambda>_. TWakeupRead ?k)) v) = Inr t"
    by (auto simp: result_simps split: if_splits)
  moreover have "?u2 = ?u2\<lparr>r_loopOfThread := r_loopOfThread ?u2\<rparr>" by simp
  ultimately have "\<exists>w. enableRead c2 (mod_chan c2 (setReadCallback (\<lambda>_. TWakeupRead ?k)) (?u2\<lparr>r_loopOfThread := w\<rparr>)) = Inr t"
    by metis
  then obtain w where t2: "enableRead c2 (mod_chan c2 (setReadCallback (\<lambda>_. TWakeupRead ?k)) (?u2\<lparr>r_loopOfThread := w\<rparr>)) = Inr t" by blast
  have s1: "s1 = (emit (SysTimerfd ?tfd) ?s0)\<lparr>r_chans := (r_chans ?s0)(c1 := mkChannel ?k ?tfd), r_nextChan := Suc c1\<rparr>"
    using n1 by (auto simp: newChannel_def Let_def)
  have 1: "laid l a t1" "built ?s0 t1"
    by (rule laid_reader[OF L0 n1 _ _ fd(1) _ _ _ _ _ _ _ _ _ t1]; simp add: s1 io_call_def plain_def setReadCallback_def mkChannel_def rawLoop_def)+
  have s2: "s2 = (emit (SysEventfd (eventfd_of E (r_trace t1))) t1)\<lparr>r_chans := (r_chans t1)(c2 := mkChannel ?k (eventfd_of E (r_trace t1))), r_nextChan := Suc c2\<rparr>"
    using n2 by (auto simp: newChannel_def Let_def)
  have 2: "laid l a t" "built t1 t"
    by (rule laid_reader[OF 1(1) n2 _ _ fd(2) _ _ _ _ _ _ _ _ _ t2]; simp add: s2 io_call_def plain_def setReadCallback_def mkChannel_def)+
  show "laid l a t" "built s t" using 2 built_trans[OF b0 built_trans[OF 1(2) 2(2)]] by blast+
qed

text \<open>A thread of the pool: its loop is made, and handed to the pool.\<close>

lemma startThread_laid:
  assumes L: "laid l a s" and fd: "\<And>tr. 0 \<le> timerfd_of E tr" "\<And>tr. 0 \<le> eventfd_of E tr"
    and t: "startThread E run None i (p, s) = Inr (q, t)"
  shows "laid l a t" "built s t" "\<exists>j th. q = p\<lparr>tp_threads := tp_threads p @ [th], tp_loops := tp_loops p @ [Some j]\<rparr>"
proof -
  let ?tid = "thread_of E (r_trace s)"
  let ?s0 = "(emit (SysThread ?tid) s)\<lparr>r_tid := ?tid\<rparr>"
  from t obtain j u th where u: "newEventLoop E ?s0 = Inr (j, u)" "t = u\<lparr>r_tid := r_tid s\<rparr>"
    and q: "q = p\<lparr>tp_threads := tp_threads p @ [th], tp_loops := tp_loops p @ [Some j]\<rparr>"
    by (auto simp: startThread_def startLoop_def threadFunc_def Let_def mkLoopThread_def result_simps)
  have "laid l a (emit (SysThread ?tid) s)" by (rule laid_emit[OF L]) (simp_all add: io_call_def)
  then have L0: "laid l a ?s0" by (rule laid_cong) simp_all
  note N = newEventLoop_laid[OF L0 u(1) fd]
  show "laid l a t" by (rule laid_cong[OF N(1)]) (simp_all add: u(2))
  have "built s ?s0" by (simp add: built_def open_fds_append)
  from built_trans[OF this N(2)] show "built s t" by (simp add: built_def u(2))
  show "\<exists>j th. q = p\<lparr>tp_threads := tp_threads p @ [th], tp_loops := tp_loops p @ [Some j]\<rparr>" using q by blast
qed

lemma startThreads_laid:
  assumes fd: "\<And>tr. 0 \<le> timerfd_of E tr" "\<And>tr. 0 \<le> eventfd_of E tr" and L: "laid l a s"
    and t: "foldR (startThread E run None) is (p, s) = Inr (q, t)"
  shows "laid l a t \<and> built s t \<and> (\<exists>js ths. q = p\<lparr>tp_threads := tp_threads p @ ths, tp_loops := tp_loops p @ map Some js\<rparr> \<and>
    length js = length is)"
  using L t
proof (induction "is" arbitrary: p s)
  case Nil
  then have "q = p\<lparr>tp_threads := tp_threads p @ [], tp_loops := tp_loops p @ map Some []\<rparr>" "t = s" by simp_all
  with Nil show ?case by (metis built_refl list.size(3))
next
  case (Cons i "is")
  from Cons.prems(2) obtain p1 s1 where 1: "startThread E run None i (p, s) = Inr (p1, s1)"
    "foldR (startThread E run None) is (p1, s1) = Inr (q, t)" by (auto simp: result_simps)
  note S = startThread_laid[OF Cons.prems(1) fd 1(1)]
  obtain j th where p1: "p1 = p\<lparr>tp_threads := tp_threads p @ [th], tp_loops := tp_loops p @ [Some j]\<rparr>" using S(3) by blast
  from Cons.IH[OF S(1) 1(2)] obtain js ths where
    q: "q = p1\<lparr>tp_threads := tp_threads p1 @ ths, tp_loops := tp_loops p1 @ map Some js\<rparr>" "length js = length is"
    and L: "laid l a t" "built s1 t" by blast
  have "q = p\<lparr>tp_threads := tp_threads p @ th # ths, tp_loops := tp_loops p @ map Some (j # js)\<rparr>" by (simp add: q(1) p1)
  moreover have "length (j # js) = length (i # is)" by (simp add: q(2))
  ultimately show ?case using L built_trans[OF S(2)] by blast
qed

section \<open>The server\<close>

lemma newAcceptor_laid:
  assumes L: "laid l (n_nextAcceptor s) s" and t: "newAcceptor E l addr s = Inr (a, t)" and fd: "socket_of E (r_trace s) = fd" "0 \<le> fd"
  shows "laid l (n_nextAcceptor s) t" "fd \<in> open_fds (r_trace t)" "n_connectionIndex t = n_connectionIndex s" "a = n_nextAcceptor s"
    "r_nextLoop t = r_nextLoop s" "r_loopOfThread t = r_loopOfThread s"
proof -
  let ?s0 = "s\<lparr>n_nextAcceptor := Suc (n_nextAcceptor s)\<rparr>"
  let ?s1 = "emit (SysSocket fd) ?s0"
  let ?a = "n_nextAcceptor s"
  have L0: "laid l ?a ?s0" by (rule laid_cong[OF L]) simp_all
  have L1: "laid l ?a ?s1" by (rule laid_emit[OF L0]) (auto simp: io_call_def)
  obtain c s2 where n: "newChannel l fd ?s1 = (c, s2)" by (cases "newChannel l fd ?s1")
  note N = laid_newChannel[OF L1 n]
  let ?ac = "\<lparr>ac_loop = l, ac_cb = None, ac_sockfd = fd, ac_channel = c, ac_listening = False\<rparr>"
  let ?s3 = "mod_acceptor (n_nextAcceptor s) (\<lambda>_. ?ac) s2"
  let ?s4 = "setReuseAddr E fd True ?s3"
  let ?s5 = "emit (SysBind fd addr (bind_of E (r_trace ?s4) fd addr)) ?s4"
  have a: "a = ?a" and run: "t = mod_chan c (setReadCallback (\<lambda>_. TAcceptorRead ?a)) ?s5"
    using t fd n by (auto simp: newAcceptor_def createNonblockingOrDie_def bindAddress_def bindOrDie_def Let_def result_simps split: if_splits)
  have L3: "laid l ?a ?s3" by (rule laid_cong[OF N(1)]) simp_all
  have L4: "laid l ?a ?s4" unfolding setReuseAddr_def sysSetsockopt_def by (rule laid_emit[OF L3]) (simp_all add: io_call_def)
  have L5: "laid l ?a ?s5" by (rule laid_emit[OF L4]) (simp_all add: io_call_def)
  have c5: "r_chans ?s5 c = mkChannel l fd" by (simp add: setReuseAddr_def sysSetsockopt_def N(3))
  show "a = ?a" by (rule a)
  show "laid l ?a t" unfolding run by (rule laid_setRead[OF L5]) (simp only: c5, simp add: plain_def setReadCallback_def mkChannel_def)
  show "fd \<in> open_fds (r_trace t)" by (simp add: run setReuseAddr_def sysSetsockopt_def N(4) open_fds_append)
  have s2: "s2 = ?s1\<lparr>r_chans := (r_chans s)(c := mkChannel l fd), r_nextChan := Suc c\<rparr>" using n by (auto simp: newChannel_def Let_def)
  show "n_connectionIndex t = n_connectionIndex s" "r_nextLoop t = r_nextLoop s" "r_loopOfThread t = r_loopOfThread s"
    by (simp_all add: run setReuseAddr_def sysSetsockopt_def s2) (simp_all add: emit_def mod_acceptor_def)
qed

lemma newServer_laid:
  assumes L: "laid l (n_nextAcceptor s) s" and t: "newServer E l addr s = Inr (v, t)" and fd: "socket_of E (r_trace s) = fd" "0 \<le> fd"
  shows "laid l (n_nextAcceptor s) t" "fd \<in> open_fds (r_trace t)" "n_connectionIndex t = n_connectionIndex s"
    "r_nextLoop t = r_nextLoop s" "r_loopOfThread t = r_loopOfThread s"
proof -
  obtain name s1 where n: "serverDefaultName (s\<lparr>n_nextServer := Suc (n_nextServer s)\<rparr>) = (name, s1)"
    by (cases "serverDefaultName (s\<lparr>n_nextServer := Suc (n_nextServer s)\<rparr>)")
  have s1: "r_trace s1 = r_trace s" "n_nextAcceptor s1 = n_nextAcceptor s" "n_connectionIndex s1 = n_connectionIndex s"
    "r_nextLoop s1 = r_nextLoop s" "r_loopOfThread s1 = r_loopOfThread s"
    and L1: "laid l (n_nextAcceptor s) s1"
    using n by (auto simp: serverDefaultName_def intro!: laid_cong[OF L])
  obtain a u where u: "newAcceptor E l addr s1 = Inr (a, u)" using t n by (auto simp: newServer_def Let_def result_simps)
  have "\<exists>f g. t = setNewConnectionCallback a f (mod_server v g u)"
    using t n u by (auto simp: newServer_def Let_def)
  then obtain f g where run: "t = setNewConnectionCallback a f (mod_server v g u)" by blast
  note A = newAcceptor_laid[OF L1[folded s1(2)] u fd(1)[folded s1(1)] fd(2), unfolded s1(2)]
  show "laid l (n_nextAcceptor s) t"
    by (rule laid_cong[OF A(1)]) (simp_all add: run setNewConnectionCallback_def)
  show "fd \<in> open_fds (r_trace t)" "n_connectionIndex t = n_connectionIndex s"
    "r_nextLoop t = r_nextLoop s" "r_loopOfThread t = r_loopOfThread s"
    using A(2,3,5,6) s1(3-5) by (simp_all add: run setNewConnectionCallback_def) (simp_all add: mod_server_def mod_acceptor_def)
qed

text \<open>The acceptor listens.\<close>

lemma listen_laid:
  assumes L: "laid l a s" and t: "acceptorListen E a s = Inr t" and c: "ac_channel (n_acceptors s a) = c" "c < r_nextChan s"
    "0 \<le> ch_fd (r_chans s c)" "ch_fd (r_chans s c) \<in> open_fds (r_trace s)"
  shows "laid l a t" "n_servers t = n_servers s" "n_connectionIndex t = n_connectionIndex s"
    "ac_cb (n_acceptors t a) = ac_cb (n_acceptors s a)"
proof -
  let ?s1 = "mod_acceptor a (\<lambda>ac. ac\<lparr>ac_listening := True\<rparr>) s"
  have L1: "laid l a ?s1" by (rule laid_cong[OF L]) simp_all
  obtain z where run: "enableRead c (emit (SysListen (ac_sockfd (n_acceptors s a)) z) ?s1) = Inr t"
    using t c(1) by (auto simp: acceptorListen_def assertInLoopThread_def socketListen_def listenOrDie_def Let_def result_simps split: if_splits)
  have L2: "laid l a (emit (SysListen (ac_sockfd (n_acceptors s a)) z) ?s1)"
    by (rule laid_emit[OF L1]) (simp_all add: io_call_def)
  have c2: "c < r_nextChan (emit (SysListen (ac_sockfd (n_acceptors s a)) z) ?s1)"
    "0 \<le> ch_fd (r_chans (emit (SysListen (ac_sockfd (n_acceptors s a)) z) ?s1) c)"
    "ch_fd (r_chans (emit (SysListen (ac_sockfd (n_acceptors s a)) z) ?s1) c) \<in>
      open_fds (r_trace (emit (SysListen (ac_sockfd (n_acceptors s a)) z) ?s1))"
    using c by (simp_all add: open_fds_append)
  note E = laid_enableRead[OF L2 run c2]
  show "laid l a t" "n_servers t = n_servers s" "n_connectionIndex t = n_connectionIndex s"
    "ac_cb (n_acceptors t a) = ac_cb (n_acceptors s a)"
    using E(1) by (simp_all add: E(4-6))
qed

section \<open>The program comes up\<close>

text \<open>
  What the kernel promises of new descriptors and threads: a descriptor that is handed out is not
  open, a thread that starts is a new one; and here \<open>bind\<close> and \<open>listen\<close> succeed.
\<close>

definition boot_ok :: "'b env \<Rightarrow> thread_id \<Rightarrow> bool" where
  "boot_ok E tid \<longleftrightarrow> (\<forall>tr. 0 \<le> timerfd_of E tr \<and> timerfd_of E tr \<notin> open_fds tr) \<and>
     (\<forall>tr. 0 \<le> eventfd_of E tr \<and> eventfd_of E tr \<notin> open_fds tr) \<and>
     (\<forall>tr. 0 \<le> socket_of E tr \<and> socket_of E tr \<notin> open_fds tr) \<and> threads_fresh E {tid} \<and>
     (\<forall>tr fd addr. 0 \<le> bind_of E tr fd addr) \<and> (\<forall>tr fd. 0 \<le> listen_of E tr fd)"

lemma boot_okD:
  assumes "boot_ok E tid"
  shows "0 \<le> timerfd_of E tr" "0 \<le> eventfd_of E tr" "0 \<le> socket_of E tr" "socket_of E tr \<notin> open_fds tr"
    "threads_fresh E {tid}" "0 \<le> bind_of E tr fd addr" "0 \<le> listen_of E tr fd" "fds_fresh E"
proof -
  show "0 \<le> timerfd_of E tr" "0 \<le> eventfd_of E tr" "0 \<le> socket_of E tr" "socket_of E tr \<notin> open_fds tr"
    "threads_fresh E {tid}" "0 \<le> bind_of E tr fd addr" "0 \<le> listen_of E tr fd" using assms unfolding boot_ok_def by blast+
  have "eventfd_of E (tr @ [SysTimerfd (timerfd_of E tr)]) \<noteq> timerfd_of E tr" for tr
  proof -
    have "eventfd_of E (tr @ [SysTimerfd (timerfd_of E tr)]) \<notin> open_fds (tr @ [SysTimerfd (timerfd_of E tr)])"
      using assms unfolding boot_ok_def by blast
    then show ?thesis by (simp add: open_fds_append)
  qed
  then show "fds_fresh E" using assms unfolding fds_fresh_def boot_ok_def by blast
qed

lemma boot_laid: "laid l a (bootState E tid)"
  using bootState_wf(1)[of E tid]
  by (simp add: laid_def) (simp add: bootState_def rawLoop_def mkPoller_def plain_def mkChannel_def)

text \<open>No call on a descriptor yet: nothing was written, ended or read.\<close>

lemma no_io_clean:
  assumes "\<forall>e \<in> set tr. \<not> io_call e"
  shows "clean feed tr"
proof -
  have "written fd tr = [] \<and> fins fd tr = 0 \<and> pieces_from feed fd pre tr = []" for fd pre
    using assms
  proof (induction tr arbitrary: pre)
    case (Cons e tr)
    then have e: "\<not> on_fd f e" for f by (auto simp: io_call_def)
    from Cons show ?case using e by (cases e) (auto simp: fins_def)
  qed simp
  then show ?thesis by (simp add: clean_def pieces_def)
qed

lemma laid_serving:
  assumes L: "laid l a s" and F: "front_ok v s" and sv: "sv_loop (n_servers s v) = l" "sv_acceptor (n_servers s v) = a"
  shows "serving E feed v (\<lambda>_. []) s"
proof -
  have "aux_chan v k x s" if "channels (el_poller (r_loops s k)) f = Some x" for k f x
    using laidD(2)[OF L, of x] reactor_wfD(2,3)[OF laidD(1)[OF L] that] sv by (auto simp: aux_chan_def plain_def Let_def)
  then have "reg_ok v s" using laidD(3)[OF L] unfolding reg_ok_def entry_fst by blast
  then show ?thesis
    using L F no_io_clean[of "r_trace s" feed] by (simp add: serving_def laid_def pend_ok_def)
qed

lemma pool_starts:
  assumes L: "laid l a s" and K: "boot_ok E tid" and own: "{x. r_loopOfThread s x \<noteq> None} = {tid}"
    and l: "isInLoopThread l s" "l < r_nextLoop s"
  shows "\<exists>q t. poolStart E run None ((mkPool l name)\<lparr>tp_numThreads := int n\<rparr>) s = Inr (q, t) \<and> laid l a t \<and> built s t \<and>
    r_tid t = r_tid s \<and> r_loops t l = r_loops s l \<and> pool_ok q \<and> tp_baseLoop q = l"
proof -
  let ?p = "(mkPool l name)\<lparr>tp_numThreads := int n, tp_started := True\<rparr>"
  have fr: "threads_fresh E {x. r_loopOfThread s x \<noteq> None}" unfolding own by (rule boot_okD(5)[OF K])
  have 0: "pool_rounds ?p s 0 (?p, s)" using laidD(1)[OF L] by (simp add: pool_rounds_def threadsOf_def mkPool_def)
  from startThreads_rounds[OF fr boot_okD(8)[OF K] 0, of run n] obtain q t where
    r: "foldR (startThread E run None) [0..<n] (?p, s) = Inr (q, t)" "pool_rounds ?p s n (q, t)" by auto
  from startThreads_laid[OF boot_okD(1,2)[OF K] L r(1)] obtain js ths where
    q: "laid l a t" "built s t" "q = ?p\<lparr>tp_threads := tp_threads ?p @ ths, tp_loops := tp_loops ?p @ map Some js\<rparr>"
    "length js = n" by auto
  have st: "poolStart E run None ((mkPool l name)\<lparr>tp_numThreads := int n\<rparr>) s = Inr (q, t)"
    using r(1) l(1) by (simp add: poolStart_def assertInLoopThread_def mkPool_def)
  have "pool_ok q \<and> tp_baseLoop q = l" using q(4) by (auto simp: q(3) pool_ok_def mkPool_def)
  moreover have "r_tid t = r_tid s" "\<forall>k < r_nextLoop s. r_loops t k = r_loops s k"
    using r(2) unfolding pool_rounds_def prod.case by blast+
  ultimately show ?thesis using st q(1,2) l(2) by blast
qed

text \<open>The server's loop and acceptor, with the program's callbacks and its number of threads, are started.\<close>

lemma start_serves:
  assumes K: "boot_ok E tid" and L: "laid l a s" and thr: "isInLoopThread l s" "l < r_nextLoop s"
    and own: "{x. r_loopOfThread s x \<noteq> None} = {tid}" and ok: "chan_ok c s" and fd: "fd \<in> open_fds (r_trace s)"
    and none: "loop_interest l s fd = None" and ch: "r_chans s c = setReadCallback (\<lambda>_. TAcceptorRead a) (mkChannel l fd)"
    and ac: "n_acceptors s a = \<lparr>ac_loop = l, ac_cb = Some (\<lambda>fd peer. TNewConnection v fd peer), ac_sockfd = fd, ac_channel = c,
      ac_listening = False\<rparr>"
    and sv: "n_servers s v = \<lparr>sv_loop = l, sv_name = name, sv_addr = addr, sv_acceptor = a, sv_connections = [],
      sv_threadPool = (mkPool l name)\<lparr>tp_numThreads := int n\<rparr>, sv_started = 0, sv_connectionCallback = Some (\<lambda>c. TUserConnection 0 c),
      sv_messageCallback = Some (\<lambda>c now. TUserMessage 1 c now), sv_writeCompleteCallback = None, sv_highWaterCallback = None,
      sv_threadInitCallback = None\<rparr>"
    and idx: "0 \<le> n_connectionIndex s" and run: "\<And>a s. run (TListen a) s = acceptorListen E a s"
  shows "\<exists>t. start E run v s = Inr t \<and> serving E feed v (\<lambda>_. []) t"
proof -
  let ?s1 = "mod_server v (\<lambda>sv. sv\<lparr>sv_started := 1\<rparr>) s"
  have L1: "laid l a ?s1" by (rule laid_cong[OF L]) simp_all
  have 1: "isInLoopThread l ?s1" "l < r_nextLoop ?s1" "{x. r_loopOfThread ?s1 x \<noteq> None} = {tid}"
    using thr own by (simp_all add: isInLoopThread_def mod_server_def)
  from pool_starts[where run = run and name = name and n = n, OF L1 K 1(3,1,2)] obtain q t where
    q: "poolStart E run None ((mkPool l name)\<lparr>tp_numThreads := int n\<rparr>) ?s1 = Inr (q, t)" "laid l a t" "built ?s1 t" "r_tid t = r_tid s"
      "r_loops t l = r_loops s l" "pool_ok q" "tp_baseLoop q = l" by auto
  let ?t = "mod_server v (\<lambda>sv. sv\<lparr>sv_threadPool := q\<rparr>) t"
  have c: "c < r_nextChan s" using ok by (simp add: chan_ok_def)
  have B: "r_chans ?t c = r_chans s c" "n_acceptors ?t = n_acceptors s" "n_connectionIndex ?t = n_connectionIndex s"
    "n_servers ?t v = (n_servers s v)\<lparr>sv_started := 1, sv_threadPool := q\<rparr>" "c < r_nextChan ?t" "fd \<in> open_fds (r_trace ?t)"
    "n_servers t v = (n_servers s v)\<lparr>sv_started := 1\<rparr>"
    using q(3) c fd by (auto simp: built_def)
  have Lt: "laid l a ?t" by (rule laid_cong[OF q(2)]) simp_all
  have thrt: "isInLoopThread l ?t" using thr(1) by (simp add: isInLoopThread_def q(4,5))
  have fd0: "0 \<le> fd" using ok by (simp add: chan_ok_def ch setReadCallback_def mkChannel_def)
  have reg: "channels (el_poller (r_loops ?t l)) fd = None"
    using none by (auto simp: q(5) loop_interest_def interest_def loop_ps_def Let_def split: option.splits)
  then have ok2: "chan_ok c ?t" "loop_interest l ?t fd = None"
    using fd0 B(5) by (simp_all add: chan_ok_def B(1)[simplified] ch chan_known_def loop_ps_def setReadCallback_def mkChannel_def
        loop_interest_def interest_def)
  obtain u where u: "acceptorListen E a ?t = Inr u"
    using acceptorListen_contract[OF laidD(1)[OF Lt] ac[folded B(2)] thrt ok2(1,2) ch[folded B(1)] boot_okD(7)[OF K]] by blast
  have cf: "ac_channel (n_acceptors ?t a) = c" "0 \<le> ch_fd (r_chans ?t c)" "ch_fd (r_chans ?t c) \<in> open_fds (r_trace ?t)"
    using ac fd0 B(6) unfolding B(1,2) ch by (simp_all add: setReadCallback_def mkChannel_def)
  note E = listen_laid[OF Lt u cf(1) B(5) cf(2,3)]
  have "front_ok v u"
    using q(6,7) idx ac B(2-4) unfolding front_ok_def Let_def server_ok_def E(2,3) by (simp add: sv E(4) strmap_ok_def)
  then have "serving E feed v (\<lambda>_. []) u"
    by (rule laid_serving[OF E(1)]) (use B(4) in \<open>simp_all add: E(2) sv\<close>)
  moreover have "start E run v s = Inr u"
    using q(1) u thrt run B(2) by (simp add: start_def Let_def sv ac runInLoop_def B(7))
  ultimately show ?thesis by blast
qed

lemma setup_serves:
  assumes K: "boot_ok E tid" and run: "\<And>l a s. run l (TListen a) s = acceptorListen E a s"
  shows "\<exists>l v s. serverSetup E run (int n) (bootState E tid) = Inr (l, v, s) \<and> serving E feed v (\<lambda>_. []) s"
proof -
  let ?s = "bootState E tid" and ?tfd = "timerfd_of E []" and ?efd = "eventfd_of E [SysTimerfd (timerfd_of E [])]"
  let ?l = "r_nextLoop ?s" and ?a = "n_nextAcceptor ?s"
  have ne: "?tfd \<noteq> ?efd" using boot_okD(8)[OF K] unfolding fds_fresh_def by (metis append_Nil)
  obtain s1 el where s1: "newEventLoop E ?s = Inr (?l, s1)" "reactor_wf s1" "r_loops s1 = (r_loops ?s)(?l := el)"
    "el_threadId el = r_tid ?s" "r_tid s1 = r_tid ?s" "r_nextLoop s1 = Suc ?l"
    "r_loopOfThread s1 = (r_loopOfThread ?s)(r_tid ?s \<mapsto> ?l)"
    by (insert newEventLoop_contract[where s = ?s and tfd = ?tfd and efd = ?efd and E = E, OF bootState_wf(1), unfolded bootState_wf(3),
          OF refl boot_okD(1)[OF K] _ boot_okD(2)[OF K] ne bootState_wf(2)], simp, elim exE conjE) (rule that, assumption+)
  have L1: "laid ?l a s1" "built ?s s1" for a
    by (rule newEventLoop_laid[OF boot_laid s1(1) boot_okD(1,2)[OF K]])+
  let ?v = "n_nextServer s1" and ?a = "n_nextAcceptor s1" and ?c = "r_nextChan s1" and ?fd = "socket_of E (r_trace s1)"
  have thr1: "isInLoopThread ?l s1" by (simp add: isInLoopThread_def s1(3-5))
  have "channels (el_poller (r_loops s1 ?l)) ?fd = None"
    using laidD(3)[OF L1(1)] boot_okD(4)[OF K] by (cases "channels (el_poller (r_loops s1 ?l)) ?fd") blast+
  then have n1: "loop_interest ?l s1 ?fd = None" by (simp add: loop_interest_def interest_def loop_ps_def)
  obtain name u where u: "newServer E ?l (Inet 45670) s1 = Inr (?v, u)" "reactor_wf u" "isInLoopThread ?l u" "chan_ok ?c u"
    "\<forall>k. loop_interest k u = loop_interest k s1"
    "r_chans u ?c = setReadCallback (\<lambda>_. TAcceptorRead ?a) (mkChannel ?l ?fd)"
    "n_acceptors u ?a = \<lparr>ac_loop = ?l, ac_cb = Some (\<lambda>fd peer. TNewConnection ?v fd peer), ac_sockfd = ?fd,
       ac_channel = ?c, ac_listening = False\<rparr>"
    "n_servers u ?v = \<lparr>sv_loop = ?l, sv_name = name, sv_addr = Inet 45670, sv_acceptor = ?a, sv_connections = [],
      sv_threadPool = mkPool ?l name, sv_started = 0, sv_connectionCallback = None,
      sv_messageCallback = None, sv_writeCompleteCallback = None, sv_highWaterCallback = None,
      sv_threadInitCallback = None\<rparr>"
    by (insert newServer_contract[where addr = "Inet 45670", OF s1(2) thr1 refl boot_okD(3)[OF K] n1 boot_okD(6)[OF K]],
        elim exE conjE) (rule that, assumption+)
  note N = newServer_laid[OF L1(1) u(1) refl boot_okD(3)[OF K]]
  let ?cbs = "mod_server ?v (svSetMessageCallback (Some (\<lambda>c now. TUserMessage 1 c now)))
       (mod_server ?v (svSetConnectionCallback (Some (\<lambda>c. TUserConnection 0 c))) u)"
  let ?w = "mod_server ?v (\<lambda>sv. sv\<lparr>sv_threadPool := (mkPool ?l name)\<lparr>tp_numThreads := int n\<rparr>\<rparr>) ?cbs"
  have "r_chans ?w = r_chans u" "r_loops ?w = r_loops u" "r_nextChan ?w = r_nextChan u" "r_tid ?w = r_tid u" by simp_all
  note S = same_reactor_server[OF this]
  have Lw: "laid ?l ?a ?w" by (rule laid_cong[OF N(1)]) simp_all
  have own: "{x. r_loopOfThread ?w x \<noteq> None} = {tid}" "?l < r_nextLoop ?w"
    using N(4,5) s1(6,7) by (auto simp: mod_server_def bootState_def)
  have w: "isInLoopThread ?l ?w" "chan_ok ?c ?w" "loop_interest ?l ?w ?fd = None" "?fd \<in> open_fds (r_trace ?w)"
    "r_chans ?w ?c = setReadCallback (\<lambda>_. TAcceptorRead ?a) (mkChannel ?l ?fd)"
    "n_acceptors ?w ?a = \<lparr>ac_loop = ?l, ac_cb = Some (\<lambda>fd peer. TNewConnection ?v fd peer), ac_sockfd = ?fd,
       ac_channel = ?c, ac_listening = False\<rparr>"
    "n_servers ?w ?v = \<lparr>sv_loop = ?l, sv_name = name, sv_addr = Inet 45670, sv_acceptor = ?a, sv_connections = [],
      sv_threadPool = (mkPool ?l name)\<lparr>tp_numThreads := int n\<rparr>, sv_started = 0,
      sv_connectionCallback = Some (\<lambda>c. TUserConnection 0 c), sv_messageCallback = Some (\<lambda>c now. TUserMessage 1 c now),
      sv_writeCompleteCallback = None, sv_highWaterCallback = None, sv_threadInitCallback = None\<rparr>"
    unfolding S using u(3-7) n1 N(2) by (simp_all add: u(8) svSetMessageCallback_def svSetConnectionCallback_def)
  have idx: "0 \<le> n_connectionIndex ?w" using L1(2) N(3) by (simp add: built_def bootState_def)
  from start_serves[where run = "run ?l" and feed = feed, OF K Lw w(1) own(2,1) w(2,4,3,5-7) idx run] obtain t where
    t: "start E (run ?l) ?v ?w = Inr t" "serving E feed ?v (\<lambda>_. []) t" by blast
  have "setThreadNum ?v (int n) ?cbs = Inr ?w"
    by (simp add: setThreadNum_def setThreadNums_def u(8) svSetMessageCallback_def svSetConnectionCallback_def)
  then have "serverSetup E run (int n) ?s = Inr (?l, ?v, t)"
    using s1(1) u(1) t(1) by (simp add: serverSetup_def Let_def)
  with t(2) show ?thesis by blast
qed

end
