(* ===== verification/Rounds.thy ===== *)
theory Rounds
  imports Turns Startup
begin

text \<open>
  One turn of a loop of the server program: the poll, the events it reports, and the batch of
  functors; and the properties of the whole program that follow.
\<close>

section \<open>Polling\<close>

text \<open>An event that is to be handled: of an auxiliary channel, or of a connection that is up.\<close>

definition act_ok :: "server_id \<Rightarrow> loop_id \<Rightarrow> chan_id \<Rightarrow> ('b, 'z) servs \<Rightarrow> bool" where
  "act_ok v k x s \<longleftrightarrow> aux_chan v k x s \<or> (\<exists>c < n_nextConn s. x = cn_channel (n_conns s c) \<and> k = cn_loop (n_conns s c) \<and>
     cn_state (n_conns s c) = KConnected \<and> ch_revents (r_chans s x) AND (POLLPRI OR POLLRDHUP) = 0)"

lemma poll_answered:
  assumes pa: "poll_answer (cs, p) n revs" and req: "poll_of E tr (pollRequest p) w = (n, revs)"
  defines "A \<equiv> active_of (channels p) (setRevents (pollfds p) revs)"
  shows "poll E w [] tr (cs, p) = Inr (now_of E (tr @ [SysPoll (pollRequest p) w n]), map fst A,
    (set_all_revents A cs, p\<lparr>pollfds := setRevents (pollfds p) revs\<rparr>),
    tr @ [SysPoll (pollRequest p) w n, SysNow (now_of E (tr @ [SysPoll (pollRequest p) w n]))])"
proof -
  have n: "n = int (length (filter (\<lambda>r. r \<noteq> 0) revs))" using pa by (simp add: poll_answer_def poll_reports_def)
  show ?thesis
  proof (cases "n = 0")
    case True
    have "length (filter (\<lambda>t. pfd_revents t \<noteq> 0) (setRevents (pollfds p) revs)) = 0"
      unfolding poll_answer_count[OF pa] using n True by simp
    then have "A = []" by (simp add: A_def active_of_def)
    then show ?thesis using req True by (simp add: poll_def Let_def set_all_revents_def)
  next
    case False
    then have "0 < n" using n by simp
    then show ?thesis using req fill_result[OF pa] by (simp add: poll_def Let_def A_def)
  qed
qed

lemma polled_chans:
  assumes pa: "poll_answer (cs, p) n revs"
  defines "A \<equiv> active_of (channels p) (setRevents (pollfds p) revs)"
  shows "chan_like (cs x) (set_all_revents A cs x)" "ch_index (set_all_revents A cs x) = ch_index (cs x)"
    and "(x, r) \<in> set A \<Longrightarrow> ch_revents (set_all_revents A cs x) = scast r"
  using set_all_revents_apply[OF active_distinct[OF pa], of cs x, folded A_def] active_distinct[OF pa, folded A_def]
  by (auto simp: set_revent_def chan_like_def split: option.splits)

text \<open>Sixteen bits sign-extended: the low bits are the same.\<close>

lemma scast_low_bits:
  fixes r :: "16 word"
  assumes "r AND 0x2002 = 0"
  shows "(scast r :: 32 word) AND (POLLPRI OR POLLRDHUP) = 0"
proof (rule bit_word_eqI)
  fix n :: nat assume "n < LENGTH(32)"
  have m: "(POLLPRI OR POLLRDHUP) = (2 ^ 1 OR 2 ^ 13 :: 32 word)" by (simp add: poll_bits)
  have z: "\<not> bit r 1 \<and> \<not> bit r 13"
    using arg_cong[OF assms, of "\<lambda>w. bit w 1"] arg_cong[OF assms, of "\<lambda>w. bit w 13"] by (simp add: bit_simps)
  have "bit (scast r :: 32 word) i = bit r i" if "i < 15" for i using that by (simp add: bit_simps)
  from this[of 1] this[of 13] z have s: "\<not> bit (scast r :: 32 word) 1" "\<not> bit (scast r :: 32 word) 13" by simp_all
  have "bit (POLLPRI OR POLLRDHUP) n \<Longrightarrow> n = 1 \<or> n = 13"
    unfolding m bit_or_iff bit_exp_iff by blast
  then show "bit ((scast r :: 32 word) AND (POLLPRI OR POLLRDHUP)) n = bit 0 n"
    unfolding bit_and_iff using s by auto
qed

lemma polled_entry:
  assumes pa: "poll_answer (loop_ps k s) n revs" and wf: "reactor_wf s"
    and x: "(x, r) \<in> set (active_of (channels (el_poller (r_loops s k))) (setRevents (pollfds (el_poller (r_loops s k))) revs))"
  shows "r \<in> set revs" "\<exists>f e. entry k s f = (Some x, Some (True, e))"
proof -
  let ?p = "el_poller (r_loops s k)"
  have pa': "poll_answer (r_chans s, ?p) n revs" using pa by (simp add: loop_ps_def)
  obtain i where i: "i < length (pollfds ?p)" "revs ! i = r" "r \<noteq> 0" "the (channels ?p (pfd_fd (pollfds ?p ! i))) = x"
    using x unfolding active_iff[OF pa'] by blast
  show "r \<in> set revs" using i(1,2) poll_answer_length[OF pa'] by (metis nth_mem)
  obtain c where "channels ?p (pfd_fd (pollfds ?p ! i)) = Some c" "ch_index (r_chans s c) = int i"
    using poll_answer_entry[OF pa' i(1)] i(2,3) by metis
  then have "entry k s (pfd_fd (pollfds ?p ! i)) = (Some x, Some (True, pfd_events (pollfds ?p ! i)))"
    using i poll_answer_watched[OF pa' i(1)] by (simp add: entry_def loop_interest_def loop_ps_def interest_def Let_def)
  then show "\<exists>f e. entry k s f = (Some x, Some (True, e))" by blast
qed

text \<open>What is registered and polled is auxiliary, or a connection that is up.\<close>

lemma watched_ok:
  assumes S: "serving E feed v bat s" and e: "entry k s f = (Some x, Some (True, e))"
  shows "aux_chan v k x s \<or> (\<exists>c < n_nextConn s. x = cn_channel (n_conns s c) \<and> k = cn_loop (n_conns s c) \<and>
    cn_state (n_conns s c) = KConnected)"
proof -
  have "fst (entry k s f) = Some x" by (simp add: e)
  from regD(2)[OF servingD(3)[OF S] this] show ?thesis
  proof
    assume "\<exists>c<n_nextConn s. x = cn_channel (n_conns s c) \<and> k = cn_loop (n_conns s c) \<and> f = cn_sockfd (n_conns s c)"
    then obtain c where c: "c < n_nextConn s" "x = cn_channel (n_conns s c)" "k = cn_loop (n_conns s c)" "f = cn_sockfd (n_conns s c)"
      by blast
    have "cn_state (n_conns s c) = KConnected"
      using servingD(8)[OF S c(1)] e[unfolded c(3,4)] by (cases "cn_state (n_conns s c)") (auto simp: phase_ok_def Let_def)
    with c show ?thesis by blast
  qed blast
qed

lemma loop_polled:
  assumes K: "kernel_ok E feed" and S: "serving E feed v bat s" and no: "el_activeChannels (r_loops s k) = []"
  shows "\<exists>now t. loopPoll E k s = Inr (now, t) \<and> serving E feed v bat t \<and> r_tid t = r_tid s \<and>
    (\<forall>l. el_threadId (r_loops t l) = el_threadId (r_loops s l)) \<and>
    distinct (el_activeChannels (r_loops t k)) \<and> (\<forall>x \<in> set (el_activeChannels (r_loops t k)). act_ok v k x t)"
proof -
  let ?p = "el_poller (r_loops s k)" and ?w = "el_maxWaitTimeM (r_loops s k)"
  have wf: "reactor_wf s" by (rule servingD(1)[OF S])
  obtain n revs where req: "poll_of E (r_trace s) (pollRequest ?p) ?w = (n, revs)" by (metis surj_pair)
  have rep: "poll_reports (pollRequest ?p) n revs" "\<And>r. r \<in> set revs \<Longrightarrow> r AND 0x2002 = 0"
    using kernelD(5)[OF K] req unfolding poll_ok_def by (metis fst_conv snd_conv)+
  have pa: "poll_answer (r_chans s, ?p) n revs" using rep(1) reactor_wfD(1)[OF wf] by (simp add: poll_answer_def)
  let ?A = "active_of (channels ?p) (setRevents (pollfds ?p) revs)"
  let ?cs = "set_all_revents ?A (r_chans s)" and ?q = "?p\<lparr>pollfds := setRevents (pollfds ?p) revs\<rparr>"
  define now where "now = now_of E (r_trace s @ [SysPoll (pollRequest ?p) ?w n])"
  define t where "t = mod_loop k (\<lambda>el. el\<lparr>el_activeChannels := map fst ?A\<rparr>)
      (set_ps k (?cs, ?q) s\<lparr>r_trace := r_trace s @ [SysPoll (pollRequest ?p) ?w n, SysNow now]\<rparr>)"
  note ch = polled_chans[OF pa]
  have run: "loopPoll E k s = Inr (now, t)"
    using poll_answered[OF pa req] no by (simp add: loopPoll_def Let_def loop_ps_def now_def t_def)
  have tr: "r_chans t = ?cs" "el_poller (r_loops t l) = (if l = k then ?q else el_poller (r_loops s l))"
    "el_activeChannels (r_loops t k) = map fst ?A" "r_nextChan t = r_nextChan s" for l by (simp_all add: t_def)
  have same: "n_conns t = n_conns s" "n_nextConn t = n_nextConn s" "n_servers t = n_servers s" "n_acceptors t = n_acceptors s"
    "n_connectionIndex t = n_connectionIndex s" "r_tid t = r_tid s" "el_timerQueue (r_loops t l) = el_timerQueue (r_loops s l)"
    "el_funcQueue (r_loops t l) = el_funcQueue (r_loops s l)" "el_threadId (r_loops t l) = el_threadId (r_loops s l)" for l
    by (simp_all add: t_def mod_loop_def set_ps_def)
  have nth: "pfd_fd (setRevents (pollfds ?p) revs ! i) = pfd_fd (pollfds ?p ! i)"
    "pfd_events (setRevents (pollfds ?p) revs ! i) = pfd_events (pollfds ?p ! i)" if "i < length (pollfds ?p)" for i
    using that poll_answer_length[OF pa] by (simp_all add: nth_setRevents)
  have en: "entry l t f = entry l s f" for l f
  proof (cases "l = k")
    case True
    then show ?thesis
      using poller_wf_chan(4)[OF reactor_wfD(1)[OF wf, of k], of f] ch(2) nth
      by (auto simp: entry_def loop_interest_def loop_ps_def interest_def Let_def tr split: option.splits)
  next
    case False
    then show ?thesis by (intro entry_cong) (simp_all add: tr ch(2))
  qed
  have wft: "reactor_wf t"
    unfolding reactor_wf_def
  proof (intro conjI allI impI)
    fix l
    have "poller_wf (?cs, el_poller (r_loops s l))"
      using reactor_wfD(1)[OF wf, of l] by (rule poller_wf_cong) (use ch in \<open>auto simp: chan_like_def\<close>)
    moreover have "poller_wf (?cs, ?q)"
      by (rule poller_wf_revents[OF reactor_wfD(1)[OF wf]]) (use ch nth in \<open>auto simp: chan_like_def\<close>)
    ultimately show "poller_wf (loop_ps l t)" by (simp add: loop_ps_def tr)
  next
    fix l f c assume "channels (el_poller (r_loops t l)) f = Some c"
    then have c: "channels (el_poller (r_loops s l)) f = Some c" by (simp add: tr split: if_splits)
    show "ch_ownerLoop (r_chans t c) = l" "c < r_nextChan t"
      using reactor_wfD(2,3)[OF wf c] ch(1)[of c] by (simp_all add: tr chan_like_def)
  qed
  have q: "quiet s t"
    using wft same en ch(1) unfolding quiet_def by (simp add: tr t_def)
  have St: "serving E feed v bat t" by (rule serving_quiet[OF S q quiet_pend[OF servingD(4)[OF S] q]]) (rule same)
  moreover have "act_ok v k x t" if "x \<in> set (map fst ?A)" for x
  proof -
    from that obtain r where r: "(x, r) \<in> set ?A" by auto
    have "poll_answer (loop_ps k s) n revs" using pa by (simp add: loop_ps_def)
    from polled_entry[OF this wf r] obtain f e where f: "r \<in> set revs" "entry k t f = (Some x, Some (True, e))" by (auto simp: en)
    have "ch_revents (r_chans t x) AND (POLLPRI OR POLLRDHUP) = 0"
      unfolding tr ch(3)[OF r] by (rule scast_low_bits[OF rep(2)[OF f(1)]])
    with watched_ok[OF St f(2)] show ?thesis unfolding act_ok_def by blast
  qed
  ultimately show ?thesis
    using run same(6,9) active_distinct[OF pa] by (intro exI[of _ now] exI[of _ t]) (simp add: tr(3))
qed

section \<open>The events of a turn\<close>

lemma act_keeps:
  assumes S: "serving E feed v bat s" and b: "beside x s t" and y: "y \<noteq> x" and a: "act_ok v k y s"
  shows "act_ok v k y t"
proof (cases "aux_chan v k y s")
  case True
  then have "r_chans t y = r_chans s y" "y < r_nextChan t" using b y by (auto simp: beside_def aux_chan_def)
  then have "aux_chan v k y t" using True b by (simp add: aux_chan_def Let_def beside_def)
  then show ?thesis by (simp add: act_ok_def)
next
  case False
  with a obtain c where c: "c < n_nextConn s" "y = cn_channel (n_conns s c)" "k = cn_loop (n_conns s c)"
    "cn_state (n_conns s c) = KConnected" "ch_revents (r_chans s y) AND (POLLPRI OR POLLRDHUP) = 0"
    unfolding act_ok_def by blast
  have "y < r_nextChan s" using wiredD(1)[OF servingD(7)[OF S c(1)]] c(2) by simp
  then have "r_chans t y = r_chans s y" "n_conns t c = n_conns s c" "c < n_nextConn t" using b y c(1,2) by (auto simp: beside_def)
  with c show ?thesis by (auto simp: act_ok_def)
qed

lemma event_runs:
  assumes K: "kernel_ok E feed" and S: "serving E feed v bat s" and a: "act_ok v k x s" and thr: "isInLoopThread k s"
  shows "\<exists>t. handleEvents (run_task E (echo_user E g) (Suc (Suc (Suc (Suc n))))) now x s = Inr t \<and>
    serving E feed v bat t \<and> beside x s t"
proof (cases "aux_chan v k x s")
  case True
  then show ?thesis by (rule handle_aux[OF K S _ thr])
next
  case False
  with a obtain c where c: "c < n_nextConn s" "x = cn_channel (n_conns s c)" "k = cn_loop (n_conns s c)"
    "cn_state (n_conns s c) = KConnected" "ch_revents (r_chans s x) AND (POLLPRI OR POLLRDHUP) = 0"
    unfolding act_ok_def by blast
  from handle_conn[OF K S c(1,4) thr[unfolded c(3)] c(5)[unfolded c(2)], of g "Suc n" now] show ?thesis unfolding c(2) .
qed

lemma events_run:
  assumes K: "kernel_ok E feed" and "serving E feed v bat s" and "isInLoopThread k s" and "distinct xs"
    and "\<forall>x \<in> set xs. act_ok v k x s"
  shows "\<exists>t. foldR (handleEvents (run_task E (echo_user E g) (Suc (Suc (Suc (Suc n))))) now) xs s = Inr t \<and>
    serving E feed v bat t \<and> isInLoopThread k t"
  using assms(2-5)
proof (induction xs arbitrary: s)
  case Nil
  then show ?case by simp
next
  case (Cons x xs)
  from event_runs[OF K Cons.prems(1) _ Cons.prems(2), of x g n now] Cons.prems(4) obtain u where
    u: "handleEvents (run_task E (echo_user E g) (Suc (Suc (Suc (Suc n))))) now x s = Inr u" "serving E feed v bat u" "beside x s u"
    by auto
  have "isInLoopThread k u" using beside_thread[OF u(3)] Cons.prems(2) by simp
  moreover have "act_ok v k y u" if "y \<in> set xs" for y
  proof (rule act_keeps[OF Cons.prems(1) u(3)])
    show "y \<noteq> x" "act_ok v k y s" using that Cons.prems(3,4) by auto
  qed
  ultimately obtain t where "foldR (handleEvents (run_task E (echo_user E g) (Suc (Suc (Suc (Suc n))))) now) xs u = Inr t"
    "serving E feed v bat t" "isInLoopThread k t"
    using Cons.IH[OF u(2)] Cons.prems(3) by (auto simp del: run_task.simps)
  with u(1) show ?case by (simp del: run_task.simps)
qed

section \<open>The batch of a turn\<close>

lemma quiet_mod_loop:
  assumes "reactor_wf s" and "\<And>el. el_poller (f el) = el_poller el \<and> el_timerQueue (f el) = el_timerQueue el"
  shows "quiet s (mod_loop k f s)"
proof -
  have "entry l (mod_loop k f s) fd = entry l s fd" for l fd by (rule entry_cong) (simp_all add: assms(2))
  then show ?thesis
    using assms reactor_wf_mod_loop[OF assms(1), of f k]
    unfolding quiet_def by (auto simp: mod_loop_def intro!: exI[of _ "[]"])
qed

lemma serving_mod_loop:
  assumes S: "serving E feed v bat s" and f: "\<And>el. el_poller (f el) = el_poller el \<and> el_timerQueue (f el) = el_timerQueue el"
    and q: "\<And>l. set (bat' l @ el_funcQueue (r_loops (mod_loop k f s) l)) = set (bat l @ el_funcQueue (r_loops s l)) \<and>
      distinct (bat' l @ el_funcQueue (r_loops (mod_loop k f s) l))"
  shows "serving E feed v bat' (mod_loop k f s)"
proof (rule serving_quiet[OF S])
  show Q: "quiet s (mod_loop k f s)" by (rule quiet_mod_loop[OF servingD(1)[OF S] f])
  show "pend_ok v bat' (mod_loop k f s)"
    using servingD(4)[OF S] q unfolding pend_ok_def quietD(13)[OF Q] by simp
qed

lemma batch_runs:
  assumes K: "kernel_ok E feed" and "serving E feed v bat s" and "isInLoopThread k s"
  shows "\<exists>t. foldR (run_task E (echo_user E g) (Suc (Suc n))) (bat k) s = Inr t \<and>
    serving E feed v (bat(k := [])) t \<and> isInLoopThread k t"
  using assms(2,3)
proof (induction "bat k" arbitrary: bat s)
  case Nil
  then have "bat(k := []) = bat" by auto
  then show ?case using Nil by (metis foldR.simps(1))
next
  case (Cons x xs)
  from step_functor[where g = g and n = n, OF K Cons.prems(1) Cons.hyps(2)[symmetric] Cons.prems(2)] obtain u where
    u: "run_task E (echo_user E g) (Suc (Suc n)) x s = Inr u" "serving E feed v (bat(k := xs)) u" "isInLoopThread k u" by blast
  from Cons.hyps(1)[OF _ u(2,3)] obtain t where
    "foldR (run_task E (echo_user E g) (Suc (Suc n))) xs u = Inr t" "serving E feed v (bat(k := [])) t" "isInLoopThread k t" by auto
  with u(1) show ?case unfolding Cons.hyps(2)[symmetric] by (simp del: run_task.simps)
qed

abbreviation idle :: "loop_id \<Rightarrow> task list" where
  "idle \<equiv> \<lambda>_. []"

lemma functors_run:
  assumes K: "kernel_ok E feed" and S: "serving E feed v idle s" and thr: "isInLoopThread k s"
  shows "\<exists>t. executeQueueFunctions (run_task E (echo_user E g) (Suc (Suc n))) k s = Inr t \<and> serving E feed v idle t"
proof -
  let ?s1 = "mod_loop k (\<lambda>el. el\<lparr>el_isExecuteQueueFunc := True\<rparr>) s"
  let ?tmp = "el_funcQueue (r_loops ?s1 k)"
  let ?s2 = "mod_loop k (\<lambda>el. el\<lparr>el_funcQueue := []\<rparr>) ?s1"
  have d: "distinct (el_funcQueue (r_loops s l))" for l using servingD(4)[OF S] by (simp add: pend_ok_def)
  have S1: "serving E feed v idle ?s1" by (rule serving_mod_loop[OF S]) (use d in \<open>simp_all\<close>)
  have S2: "serving E feed v (idle(k := ?tmp)) ?s2" by (rule serving_mod_loop[OF S1]) (use d in \<open>simp_all\<close>)
  have thr2: "isInLoopThread k ?s2" using thr by (simp add: isInLoopThread_def)
  from batch_runs[OF K S2 thr2, of g n] obtain t where
    t: "foldR (run_task E (echo_user E g) (Suc (Suc n))) ?tmp ?s2 = Inr t" "serving E feed v idle t"
    by (simp add: fun_upd_idem) blast
  have dt: "distinct (el_funcQueue (r_loops t l))" for l using servingD(4)[OF t(2)] by (simp add: pend_ok_def)
  have "serving E feed v idle (mod_loop k (\<lambda>el. el\<lparr>el_isExecuteQueueFunc := False\<rparr>) t)"
    by (rule serving_mod_loop[OF t(2)]) (use dt in \<open>simp_all\<close>)
  with t(1) show ?thesis by (simp add: executeQueueFunctions_def Let_def del: run_task.simps)
qed

section \<open>A turn\<close>

lemma turn_serves:
  assumes K: "kernel_ok E feed" and S: "serving E feed v idle s" and n: "4 \<le> n"
  shows "\<exists>t. loopIteration E (run_task E (echo_user E g) n) k (s\<lparr>r_tid := el_threadId (r_loops s k)\<rparr>) = Inr t \<and>
    serving E feed v idle t"
proof -
  obtain m where m: "n = Suc (Suc (Suc (Suc m)))" using n that[of "n - 4"] by linarith
  let ?s0 = "s\<lparr>r_tid := el_threadId (r_loops s k)\<rparr>"
  let ?s1 = "mod_loop k (\<lambda>el. el\<lparr>el_activeChannels := []\<rparr>) ?s0"
  have q: "quiet s ?s0"
    using servingD(1)[OF S] same_reactor[of ?s0 s]
    unfolding quiet_def by (auto simp: entry_def loop_interest_def loop_ps_def intro!: exI[of _ "[]"])
  have S0: "serving E feed v idle ?s0" by (rule serving_quiet[OF S q quiet_pend[OF servingD(4)[OF S] q]]) simp
  have d: "distinct (el_funcQueue (r_loops ?s0 l))" for l using servingD(4)[OF S] by (simp add: pend_ok_def)
  have S1: "serving E feed v idle ?s1" by (rule serving_mod_loop[OF S0]) (use d in \<open>simp_all\<close>)
  from loop_polled[OF K S1, of k] obtain now u where
    u: "loopPoll E k ?s1 = Inr (now, u)" "serving E feed v idle u" "r_tid u = r_tid ?s1"
      "el_threadId (r_loops u k) = el_threadId (r_loops ?s1 k)" "distinct (el_activeChannels (r_loops u k))"
      "\<forall>x \<in> set (el_activeChannels (r_loops u k)). act_ok v k x u" by auto
  have "isInLoopThread k u" using u(3,4) by (simp add: isInLoopThread_def)
  from events_run[OF K u(2) this u(5,6), of g m now] obtain w where
    w: "foldR (handleEvents (run_task E (echo_user E g) n) now) (el_activeChannels (r_loops u k)) u = Inr w"
      "serving E feed v idle w" "isInLoopThread k w" unfolding m by blast
  from functors_run[OF K w(2,3), of g "Suc (Suc m)"] obtain t where
    "executeQueueFunctions (run_task E (echo_user E g) n) k w = Inr t" "serving E feed v idle t" unfolding m by blast
  with u(1) w(1) show ?thesis by (simp add: loopIteration_def Let_def del: run_task.simps)
qed

text \<open>Turns of the loops, in any order: the interleaving of the threads, a turn at a time.\<close>

definition turns :: "'b env \<Rightarrow> ('b, 'z) serv_runner \<Rightarrow> loop_id list \<Rightarrow> ('b, 'z) servs \<Rightarrow> ('b, 'z) servs result" where
  "turns E run = foldR (\<lambda>k s. loopIteration E run k (s\<lparr>r_tid := el_threadId (r_loops s k)\<rparr>))"

lemma turns_serve:
  assumes "kernel_ok E feed" and "serving E feed v idle s" and "4 \<le> n"
  shows "\<exists>t. turns E (run_task E (echo_user E g) n) ks s = Inr t \<and> serving E feed v idle t"
  unfolding turns_def
  by (rule foldR_succeeds[where P = "serving E feed v idle"]) (use turn_serves[OF assms(1) _ assms(3)] assms(2) in blast)+

lemma serving_answers:
  assumes S: "serving E feed v bat s" and c: "c < n_nextConn s" and st: "cn_state (n_conns s c) \<noteq> KConnecting"
  shows "stream E c s = greeting @ concat (map reply (pieces feed (cn_sockfd (n_conns s c)) (r_trace s)))"
  using servingD(8)[OF S c] st
  by (cases "cn_state (n_conns s c)") (simp_all add: phase_ok_def Let_def answered_def)

section \<open>Properties\<close>


text \<open>
  A kernel: descriptors are handed out upwards, every polled descriptor is always readable, each
  read delivers \<open>hi\<close>, and a write takes at most three bytes.
\<close>

definition top_fd :: "trace \<Rightarrow> int" where
  "top_fd tr = fold (\<lambda>e m. case e of SysEventfd fd \<Rightarrow> max fd m | SysTimerfd fd \<Rightarrow> max fd m | SysSocket fd \<Rightarrow> max fd m
     | SysAccept l fd \<Rightarrow> max fd m | _ \<Rightarrow> m) tr 2"

definition busyEnv :: "string env" where
  "busyEnv = hiEnv\<lparr>timerfd_of := \<lambda>tr. top_fd tr + 1, eventfd_of := \<lambda>tr. top_fd tr + 1, socket_of := \<lambda>tr. top_fd tr + 1,
     accept_of := \<lambda>tr fd. (top_fd tr + 1, Inet 1), thread_of := \<lambda>tr. Suc (newestThread tr),
     poll_of := \<lambda>tr req w. (int (length (filter (\<lambda>q. 0 \<le> fst q) req)), map (\<lambda>q. if 0 \<le> fst q then 1 else 0) req)\<rparr>"

lemma open_below_top: "f \<in> open_fds tr \<Longrightarrow> f \<le> top_fd tr" and top_fd_ge: "2 \<le> top_fd tr"
proof (induction tr arbitrary: f rule: rev_induct)
  case Nil
  { case 1 then show ?case by (simp add: open_fds_def) }
  { case 2 show ?case by (simp add: top_fd_def) }
next
  case (snoc e tr)
  have t: "top_fd (tr @ [e]) = (case e of SysEventfd fd \<Rightarrow> max fd (top_fd tr) | SysTimerfd fd \<Rightarrow> max fd (top_fd tr)
     | SysSocket fd \<Rightarrow> max fd (top_fd tr) | SysAccept l fd \<Rightarrow> max fd (top_fd tr) | _ \<Rightarrow> top_fd tr)"
    by (cases e) (simp_all add: top_fd_def)
  { case 1
    then have "f \<in> open_after e (open_fds tr)" by (simp add: open_fds_append)
    then show ?case unfolding t using snoc.IH(1)[of f] by (cases e) auto }
  { case 2 show ?case unfolding t using snoc.IH(2) by (cases e) auto }
qed

lemma top_fd_fresh: "top_fd tr + 1 \<notin> open_fds tr" "0 \<le> top_fd tr + 1"
  using open_below_top[of "top_fd tr + 1" tr] top_fd_ge[of tr] by auto

lemma busy_laws: "kernel_ok busyEnv (\<lambda>_ _. Some ''hi'')" "boot_ok busyEnv 1"
proof -
  have "poll_reports req (int (length (filter (\<lambda>q. 0 \<le> fst q) req))) (map (\<lambda>q. if 0 \<le> fst q then 1 else 0) req)" for req
  proof -
    have "length (filter (\<lambda>r. r \<noteq> 0) (map (\<lambda>q. if 0 \<le> fst q then 1 else 0 :: 16 word) req)) = length (filter (\<lambda>q. 0 \<le> fst q) req)"
      by (induction req) simp_all
    then show ?thesis by (auto simp: poll_reports_def zip_map2 zip_same_conv_map word_sle_eq)
  qed
  moreover have "buffer_laws busyEnv" "write_law busyEnv fd" "read_ok busyEnv (\<lambda>_ _. Some ''hi'')" for fd
    by (auto simp: buffer_laws_def write_law_def read_ok_def busyEnv_def hiEnv_def slowEnv_def sampleEnv_def)
  ultimately show "kernel_ok busyEnv (\<lambda>_ _. Some ''hi'')"
    using top_fd_fresh by (auto simp: kernel_ok_def accept_ok_def poll_ok_def busyEnv_def)
  have "threads_fresh busyEnv {1}"
  proof -
    have "Suc (newestThread tr) \<noteq> 1 \<and> SysThread (Suc (newestThread tr)) \<notin> set tr" for tr
      using newestThread_max[of "Suc (newestThread tr)" tr] newestThread_ge[of tr] by auto
    then show ?thesis by (simp add: threads_fresh_def busyEnv_def)
  qed
  then show "boot_ok busyEnv 1"
    using top_fd_fresh by (simp add: boot_ok_def) (simp add: busyEnv_def hiEnv_def slowEnv_def sampleEnv_def)
qed


end
