(* ===== verification/Steady.thy ===== *)
theory Steady
  imports Rounds
begin

text \<open>
  Loops that go on until they are told to quit: what a loop needs of its callbacks so that no turn
  stops the process, and that a descriptor that stays readable is served in the end.  The contract
  is the locale \<open>steady_loop\<close>, which extends \<open>reactor_callbacks\<close>.
\<close>

section \<open>One poll\<close>

definition poll_law :: "'b env \<Rightarrow> bool" where
  "poll_law E \<longleftrightarrow> (\<forall>tr req w. poll_reports req (fst (poll_of E tr req w)) (snd (poll_of E tr req w)))"

lemma poll_trace:
  "poll E w act tr ps = Inr (now, act', ps', tr') \<Longrightarrow> \<exists>n. tr' = tr @ [SysPoll (pollRequest (snd ps)) w n, SysNow now]"
  by (auto simp: poll_def Let_def logFatal_def result_simps split: prod.splits if_splits)

text \<open>What a poll changes: the pending events, and the trace.\<close>

lemma loopPoll_shape:
  assumes wf: "reactor_wf s" and t: "loopPoll E k s = Inr (now, t)"
  obtains act cs revs n where
    "t = mod_loop k (\<lambda>el. el\<lparr>el_poller := (el_poller el)\<lparr>pollfds := setRevents (pollfds (el_poller el)) revs\<rparr>, el_activeChannels := act\<rparr>)
       (s\<lparr>r_chans := cs, r_trace := r_trace s @ [SysPoll (pollRequest (el_poller (r_loops s k))) (el_maxWaitTimeM (r_loops s k)) n, SysNow now]\<rparr>)"
    "\<And>x. \<exists>r. cs x = set_revent r (r_chans s x)" "reactor_wf t" "\<And>l f. entry l t f = entry l s f"
proof -
  let ?el = "r_loops s k" let ?p = "el_poller ?el"
  obtain act cs p tr where q: "poll E (el_maxWaitTimeM ?el) (el_activeChannels ?el) (r_trace s) (r_chans s, ?p) =
      Inr (now, act, (cs, p), tr)" "t = mod_loop k (\<lambda>el. el\<lparr>el_activeChannels := act\<rparr>) (set_ps k (cs, p) s\<lparr>r_trace := tr\<rparr>)"
    using t by (auto simp: loopPoll_def Let_def loop_ps_def result_simps)
  note kp = poll_keeps[OF q(1)]
  obtain n where n: "tr = r_trace s @ [SysPoll (pollRequest ?p) (el_maxWaitTimeM ?el) n, SysNow now]"
    using poll_trace[OF q(1)] by auto
  obtain revs where p: "p = ?p\<lparr>pollfds := setRevents (pollfds ?p) revs\<rparr>" using kp(2) by blast
  have same: "ch_fd (cs c) = ch_fd (r_chans s c) \<and> ch_index (cs c) = ch_index (r_chans s c) \<and>
      ch_ownerLoop (cs c) = ch_ownerLoop (r_chans s c)" for c
    using kp(1)[of c] by (auto simp: set_revent_def)
  have fds: "pfd_fd (setRevents ts revs ! i) = pfd_fd (ts ! i)" "pfd_events (setRevents ts revs ! i) = pfd_events (ts ! i)"
    if "i < length ts" for ts i
    using that by (induction ts revs arbitrary: i rule: setRevents.induct) (auto simp: nth_Cons split: nat.splits)
  have t': "t = mod_loop k (\<lambda>el. el\<lparr>el_poller := (el_poller el)\<lparr>pollfds := setRevents (pollfds (el_poller el)) revs\<rparr>, el_activeChannels := act\<rparr>)
       (s\<lparr>r_chans := cs, r_trace := r_trace s @ [SysPoll (pollRequest ?p) (el_maxWaitTimeM ?el) n, SysNow now]\<rparr>)"
    by (simp add: q(2) p n set_ps_def mod_loop_def)
  have "poller_wf (cs, p)" unfolding p
    by (rule poller_wf_revents[OF reactor_wfD(1)[OF wf]]) (use same fds in auto)
  then have "reactor_wf (set_ps k (cs, p) s)"
    by (rule reactor_wf_set_ps[OF wf]) (use same reactor_wfD(2,3)[OF wf] in \<open>auto simp: p\<close>)
  then have wft: "reactor_wf t"
    unfolding q(2) by (rule reactor_wf_cong) auto
  have en: "entry l t f = entry l s f" for l f
  proof (cases "l = k")
    case True
    then show ?thesis
      using poller_wf_chan(4)[OF reactor_wfD(1)[OF wf, of k], of f] same fds
      by (auto simp: t' entry_def loop_interest_def loop_ps_def interest_def Let_def split: option.splits)
  next
    case False
    then show ?thesis by (intro entry_cong) (simp_all add: t' same)
  qed
  show thesis by (rule that[OF t' kp(1) wft en])
qed

text \<open>A poll under the law goes through, and finds what is readable.\<close>

lemma loopPoll_goes:
  assumes wf: "reactor_wf s" and law: "poll_law E" and no: "el_activeChannels (r_loops s k) = []"
  shows "\<exists>now t. loopPoll E k s = Inr (now, t) \<and>
    (\<forall>f x e i. entry k s f = (Some x, Some (True, e)) \<longrightarrow> i = nat (ch_index (r_chans s x)) \<longrightarrow>
       i < length (pollRequest (el_poller (r_loops s k))) \<and> pollRequest (el_poller (r_loops s k)) ! i = (f, e) \<and>
       (bit (snd (poll_of E (r_trace s) (pollRequest (el_poller (r_loops s k))) (el_maxWaitTimeM (r_loops s k))) ! i) 0 \<longrightarrow>
          x \<in> set (el_activeChannels (r_loops t k)) \<and> bit (ch_revents (r_chans t x)) 0))"
proof -
  let ?p = "el_poller (r_loops s k)" and ?w = "el_maxWaitTimeM (r_loops s k)"
  obtain n revs where req: "poll_of E (r_trace s) (pollRequest ?p) ?w = (n, revs)" by (metis surj_pair)
  have "poll_reports (pollRequest ?p) n revs" using law req unfolding poll_law_def by (metis fst_conv snd_conv)
  then have pa: "poll_answer (r_chans s, ?p) n revs" using reactor_wfD(1)[OF wf] by (simp add: poll_answer_def)
  let ?A = "active_of (channels ?p) (setRevents (pollfds ?p) revs)"
  let ?cs = "set_all_revents ?A (r_chans s)" and ?q = "?p\<lparr>pollfds := setRevents (pollfds ?p) revs\<rparr>"
  define now where "now = now_of E (r_trace s @ [SysPoll (pollRequest ?p) ?w n])"
  define t where "t = mod_loop k (\<lambda>el. el\<lparr>el_activeChannels := map fst ?A\<rparr>)
      (set_ps k (?cs, ?q) s\<lparr>r_trace := r_trace s @ [SysPoll (pollRequest ?p) ?w n, SysNow now]\<rparr>)"
  have run: "loopPoll E k s = Inr (now, t)"
    using poll_answered[OF pa req] no by (simp add: loopPoll_def Let_def loop_ps_def now_def t_def)
  have "i < length (pollRequest ?p) \<and> pollRequest ?p ! i = (f, e) \<and>
       (bit (revs ! i) 0 \<longrightarrow> x \<in> set (map fst ?A) \<and> bit (ch_revents (?cs x)) 0)"
    if en: "entry k s f = (Some x, Some (True, e))" and i: "i = nat (ch_index (r_chans s x))" for f x e i
  proof -
    have c: "channels ?p f = Some x" "0 \<le> pfd_fd (pollfds ?p ! i)" "pfd_events (pollfds ?p ! i) = e"
      using en i by (auto simp: entry_def loop_interest_def loop_ps_def interest_def Let_def split: option.splits)
    note w = poller_wf_chan[OF reactor_wfD(1)[OF wf] c(1)]
    have f: "i < length (pollfds ?p)" "pfd_fd (pollfds ?p ! i) = f" using w(4,5) c(2) i by auto
    have "x \<in> set (map fst ?A) \<and> bit (ch_revents (?cs x)) 0" if b: "bit (revs ! i) 0"
    proof -
      have "revs ! i \<noteq> 0" using b by auto
      then have a: "(x, revs ! i) \<in> set ?A" unfolding active_iff[OF pa] using f c(1) by (intro exI[of _ i]) simp
      have "ch_revents (?cs x) = scast (revs ! i)" by (rule polled_chans(3)[OF pa a])
      then have "bit (ch_revents (?cs x)) 0" using b by (simp add: bit_simps)
      moreover have "x \<in> set (map fst ?A)" using a by force
      ultimately show ?thesis by blast
    qed
    then show ?thesis using f c(3) by (simp add: pollRequest_def)
  qed
  then show ?thesis using run req by (intro exI[of _ now] exI[of _ t]) (simp add: t_def)
qed

lemma iterations_add: "iterations E run l (n + m) s = bindR (iterations E run l n s) (iterations E run l m)"
proof (induction n arbitrary: s)
  case (Suc n)
  have "iterations E run l (n + m) = (\<lambda>s. bindR (iterations E run l n s) (iterations E run l m))"
    using Suc.IH by (rule ext)
  then show ?case by (simp add: bindR_assoc)
qed simp

section \<open>The contract\<close>

text \<open>
  Something is wanted of the loop (\<open>goal\<close>), and until it is there all calls are \<open>calm\<close>: they do not
  disturb what is waited for.
\<close>

definition grown ::
  "(sysev \<Rightarrow> bool) \<Rightarrow> ('z reactor_scheme \<Rightarrow> bool) \<Rightarrow> 'z reactor_scheme \<Rightarrow> 'z reactor_scheme \<Rightarrow> bool" where
  "grown calm goal s t \<longleftrightarrow> (goal s \<longrightarrow> goal t) \<and>
     (\<exists>ts. r_trace t = r_trace s @ ts \<and> (goal t \<or> (\<forall>e \<in> set ts. calm e)))"

lemma grown_same: "r_trace t = r_trace s \<Longrightarrow> (goal s \<longrightarrow> goal t) \<Longrightarrow> grown calm goal s t"
  by (simp add: grown_def)

lemma grown_refl [simp]: "grown calm goal s s"
  by (simp add: grown_same)

lemma grown_trans: "grown calm goal s t \<Longrightarrow> grown calm goal t u \<Longrightarrow> grown calm goal s u"
  unfolding grown_def by (metis (no_types, opaque_lifting) Un_iff append_assoc set_append)

text \<open>How often was polled, and that a poll now finds a descriptor readable.\<close>

definition polls :: "trace \<Rightarrow> nat" where
  "polls tr = length (filter (\<lambda>e. case e of SysPoll q w n \<Rightarrow> True | _ \<Rightarrow> False) tr)"

lemma polls_simps [simp]: "polls [] = 0" "polls (xs @ ys) = polls xs + polls ys" "polls (SysPoll q w n # xs) = Suc (polls xs)"
  by (simp_all add: polls_def)

definition readable_now :: "'b env \<Rightarrow> int \<Rightarrow> trace \<Rightarrow> bool" where
  "readable_now E fd tr \<longleftrightarrow> (\<forall>req w i. i < length req \<longrightarrow> fst (req ! i) = fd \<longrightarrow> bit (snd (req ! i)) 0 \<longrightarrow>
     bit (snd (poll_of E tr req w) ! i) 0)"

text \<open>No channel is handling an event.\<close>

definition idle_chans :: "'z reactor_scheme \<Rightarrow> bool" where
  "idle_chans s \<longleftrightarrow> (\<forall>d. \<not> ch_isHandling (r_chans s d))"

locale steady_loop = reactor_callbacks E run I ok
  for E :: "'b env" and run :: "'z runner" and I :: "'z reactor_scheme \<Rightarrow> bool" and ok :: "task \<Rightarrow> 'z reactor_scheme \<Rightarrow> bool" +
  fixes l :: loop_id and calm :: "sysev \<Rightarrow> bool" and goal :: "'z reactor_scheme \<Rightarrow> bool"
  assumes I_wf: "I s \<Longrightarrow> reactor_wf s"
    and I_law: "I s \<Longrightarrow> poll_law E"
    and run_goes: "I s \<Longrightarrow> ok t s \<Longrightarrow> \<exists>s'. run t s = Inr s'"
    and run_chans: "I s \<Longrightarrow> ok t s \<Longrightarrow> run t s = Inr s' \<Longrightarrow> r_chans s' = r_chans s \<and>
        el_funcQueue (r_loops s' l) = el_funcQueue (r_loops s l)"
    and run_grows: "I s \<Longrightarrow> ok t s \<Longrightarrow> run t s = Inr s' \<Longrightarrow> grown calm goal s s'"
    and calm_poll: "calm (SysPoll q w n)" "calm (SysNow now)"
    and goal_cong: "(\<And>k. el_quit (r_loops u k) = el_quit (r_loops s k) \<and>
        el_timerQueue (r_loops u k) = el_timerQueue (r_loops s k)) \<Longrightarrow> goal s \<Longrightarrow> goal u"
begin

lemma goes: "I s \<Longrightarrow> ok t s \<Longrightarrow> \<exists>s'. run t s = Inr s' \<and> I s' \<and> grown calm goal s s' \<and> r_chans s' = r_chans s \<and>
    el_funcQueue (r_loops s' l) = el_funcQueue (r_loops s l)"
  using run_goes run_keeps run_chans run_grows by metis

lemma stage_goes:
  assumes "I s" and "\<And>ch. set_option (cb ch) \<subseteq> callbacks_of ch now"
  shows "\<exists>t. dispatchStage run c cond cb s = Inr t \<and> I t \<and> grown calm goal s t \<and> r_chans t = r_chans s \<and>
    el_funcQueue (r_loops t l) = el_funcQueue (r_loops s l) \<and>
    (\<forall>k. cond (ch_revents (r_chans s c)) \<longrightarrow> cb (r_chans s c) = Some k \<longrightarrow> run k s = Inr t)"
proof (cases "cond (ch_revents (r_chans s c)) \<and> cb (r_chans s c) \<noteq> None")
  case True
  then obtain k where k: "cb (r_chans s c) = Some k" by auto
  then have "k \<in> callbacks_of (r_chans s c) now" using assms(2)[of "r_chans s c"] by auto
  from goes[OF assms(1) ok_callback[OF assms(1) this]] show ?thesis
    using True k by (auto simp: dispatchStage_def callOpt_def)
next
  case False
  then have "dispatchStage run c cond cb s = Inr s"
    by (auto simp: dispatchStage_def callOpt_def Let_def split: option.splits)
  then show ?thesis using assms(1) False by auto
qed

lemma event_goes:
  assumes "I s"
  shows "\<exists>t. handleEvents run now c s = Inr t \<and> I t \<and> grown calm goal s t \<and>
    (\<forall>d. same_dispatch (r_chans s d) (r_chans t d)) \<and> (idle_chans s \<longrightarrow> idle_chans t) \<and>
    el_funcQueue (r_loops t l) = el_funcQueue (r_loops s l) \<and>
    (\<forall>f. bit (ch_revents (r_chans s c)) 0 \<longrightarrow> ch_readCallback (r_chans s c) = Some f \<longrightarrow>
       (\<exists>u u'. I u \<and> grown calm goal s u \<and> run (f now) u = Inr u' \<and> grown calm goal u' t))"
proof -
  let ?s0 = "mod_chan c (\<lambda>ch. ch\<lparr>ch_isHandling := True\<rparr>) s"
  have cbs: "set_option (ch_errorCallback ch) \<subseteq> callbacks_of ch now" "set_option (ch_closeCallback ch) \<subseteq> callbacks_of ch now"
    "set_option (map_option (\<lambda>f. f now) (ch_readCallback ch)) \<subseteq> callbacks_of ch now"
    "set_option (ch_writeCallback ch) \<subseteq> callbacks_of ch now" for ch
    by (auto simp: callbacks_of_def)
  have i0: "I ?s0" by (rule I_handling[OF assms])
  have g0: "grown calm goal s ?s0" by (rule grown_same) (use goal_cong[of ?s0 s] in auto)
  obtain s1 where 1: "dispatchStage run c (\<lambda>r. r AND (POLLNVAL OR POLLERR) \<noteq> 0) ch_errorCallback ?s0 = Inr s1"
    "I s1" "grown calm goal ?s0 s1" "r_chans s1 = r_chans ?s0" "el_funcQueue (r_loops s1 l) = el_funcQueue (r_loops ?s0 l)"
    using stage_goes[OF i0 cbs(1)] by blast
  obtain s2 where 2: "dispatchStage run c (\<lambda>r. r AND POLLHUP \<noteq> 0 \<and> r AND POLLIN = 0) ch_closeCallback s1 = Inr s2"
    "I s2" "grown calm goal s1 s2" "r_chans s2 = r_chans s1" "el_funcQueue (r_loops s2 l) = el_funcQueue (r_loops s1 l)"
    using stage_goes[OF 1(2) cbs(2)] by blast
  obtain s3 where 3: "dispatchStage run c (\<lambda>r. r AND (POLLIN OR POLLPRI OR POLLRDHUP) \<noteq> 0)
       (\<lambda>ch. map_option (\<lambda>f. f now) (ch_readCallback ch)) s2 = Inr s3"
    "I s3" "grown calm goal s2 s3" "r_chans s3 = r_chans s2" "el_funcQueue (r_loops s3 l) = el_funcQueue (r_loops s2 l)"
    "\<forall>k. ch_revents (r_chans s2 c) AND (POLLIN OR POLLPRI OR POLLRDHUP) \<noteq> 0 \<longrightarrow>
       map_option (\<lambda>f. f now) (ch_readCallback (r_chans s2 c)) = Some k \<longrightarrow> run k s2 = Inr s3"
    using stage_goes[OF 2(2) cbs(3), where cond = "\<lambda>r. r AND (POLLIN OR POLLPRI OR POLLRDHUP) \<noteq> 0" and c = c]
    by (elim exE conjE) (rule that)
  obtain s4 where 4: "dispatchStage run c (\<lambda>r. r AND POLLOUT \<noteq> 0) ch_writeCallback s3 = Inr s4"
    "I s4" "grown calm goal s3 s4" "r_chans s4 = r_chans s3" "el_funcQueue (r_loops s4 l) = el_funcQueue (r_loops s3 l)"
    using stage_goes[OF 3(2) cbs(4)] by blast
  let ?t = "mod_chan c (\<lambda>ch. ch\<lparr>ch_isHandling := False\<rparr>) s4"
  have run: "handleEvents run now c s = Inr ?t" by (simp add: handleEvents_def 1 2 3 4)
  have g5: "grown calm goal s4 ?t" by (rule grown_same) (use goal_cong[of ?t s4] in auto)
  have "\<exists>u u'. I u \<and> grown calm goal s u \<and> run (f now) u = Inr u' \<and> grown calm goal u' ?t"
    if b: "bit (ch_revents (r_chans s c)) 0" and f: "ch_readCallback (r_chans s c) = Some f" for f
  proof -
    have "bit (ch_revents (r_chans s c) AND (POLLIN OR POLLPRI OR POLLRDHUP)) 0"
      using b by (simp add: bit_simps poll_bits)
    then have "ch_revents (r_chans s2 c) AND (POLLIN OR POLLPRI OR POLLRDHUP) \<noteq> 0" by (auto simp: 2(4) 1(4))
    then have "run (f now) s2 = Inr s3" using 3(6) f by (simp add: 2(4) 1(4))
    then show ?thesis using 2(2) grown_trans[OF g0 grown_trans[OF 1(3) 2(3)]] grown_trans[OF 4(3) g5] by blast
  qed
  moreover have "grown calm goal s ?t"
    using g0 1(3) 2(3) 3(3) 4(3) g5 grown_trans by blast
  ultimately show ?thesis using run I_handling[OF 4(2)] 1(4,5) 2(4,5) 3(4,5) 4(4,5)
    by (intro exI[of _ ?t]) (auto simp: same_dispatch_def idle_chans_def)
qed

lemma bookkeeping_grown:
  assumes "\<And>el. el_quit (f el) = el_quit el \<and> el_timerQueue (f el) = el_timerQueue el"
  shows "grown calm goal s (mod_loop k f s)"
  by (rule grown_same) (use goal_cong[of "mod_loop k f s" s] assms in auto)

text \<open>The events of a turn: each channel that is readable gets to its callback.\<close>

lemma events_go:
  "I s \<Longrightarrow> \<exists>t. foldR (handleEvents run now) xs s = Inr t \<and> I t \<and> grown calm goal s t \<and> (idle_chans s \<longrightarrow> idle_chans t) \<and>
    el_funcQueue (r_loops t l) = el_funcQueue (r_loops s l) \<and>
    (\<forall>x f. x \<in> set xs \<longrightarrow> bit (ch_revents (r_chans s x)) 0 \<longrightarrow> ch_readCallback (r_chans s x) = Some f \<longrightarrow>
       (\<exists>u u'. I u \<and> grown calm goal s u \<and> run (f now) u = Inr u' \<and> grown calm goal u' t))"
proof (induction xs arbitrary: s)
  case Nil
  then show ?case by simp
next
  case (Cons x xs)
  from event_goes[OF Cons.prems, of now x] obtain v where v: "handleEvents run now x s = Inr v" "I v" "grown calm goal s v"
    "\<And>d. same_dispatch (r_chans s d) (r_chans v d)" "idle_chans s \<longrightarrow> idle_chans v" "el_funcQueue (r_loops v l) = el_funcQueue (r_loops s l)"
    "\<And>f. bit (ch_revents (r_chans s x)) 0 \<Longrightarrow> ch_readCallback (r_chans s x) = Some f \<Longrightarrow>
       \<exists>u u'. I u \<and> grown calm goal s u \<and> run (f now) u = Inr u' \<and> grown calm goal u' v" by blast
  from Cons.IH[OF v(2)] obtain t where t: "foldR (handleEvents run now) xs v = Inr t" "I t" "grown calm goal v t" "idle_chans v \<longrightarrow> idle_chans t"
    "el_funcQueue (r_loops t l) = el_funcQueue (r_loops v l)"
    "\<And>y f. y \<in> set xs \<Longrightarrow> bit (ch_revents (r_chans v y)) 0 \<Longrightarrow> ch_readCallback (r_chans v y) = Some f \<Longrightarrow>
       \<exists>u u'. I u \<and> grown calm goal v u \<and> run (f now) u = Inr u' \<and> grown calm goal u' t" by blast
  have "\<exists>u u'. I u \<and> grown calm goal s u \<and> run (f now) u = Inr u' \<and> grown calm goal u' t"
    if y: "y \<in> set (x # xs)" and b: "bit (ch_revents (r_chans s y)) 0" and f: "ch_readCallback (r_chans s y) = Some f" for y f
  proof (cases "y = x")
    case True
    with v(7) b f show ?thesis using grown_trans[OF _ t(3)] by blast
  next
    case False
    with y have "y \<in> set xs" by simp
    moreover have "bit (ch_revents (r_chans v y)) 0" "ch_readCallback (r_chans v y) = Some f"
      using v(4)[of y] b f by (simp_all add: same_dispatch_def)
    ultimately show ?thesis using t(6) grown_trans[OF v(3)] by blast
  qed
  moreover have "foldR (handleEvents run now) (x # xs) s = Inr t" "el_funcQueue (r_loops t l) = el_funcQueue (r_loops s l)"
    using v(1,6) t(1,5) by simp_all
  ultimately show ?case using t(2,4) v(5) grown_trans[OF v(3) t(3)] by blast
qed

text \<open>The functors of a turn.\<close>

lemma batch_goes:
  "I s \<Longrightarrow> (\<And>q. q \<in> set qs \<Longrightarrow> ok q s) \<Longrightarrow> \<exists>t. foldR run qs s = Inr t \<and> I t \<and> grown calm goal s t \<and> r_chans t = r_chans s \<and>
    el_funcQueue (r_loops t l) = el_funcQueue (r_loops s l) \<and>
    (\<forall>q \<in> set qs. \<exists>u u'. I u \<and> grown calm goal s u \<and> ok q u \<and> run q u = Inr u' \<and> grown calm goal u' t)"
proof (induction qs arbitrary: s)
  case Nil
  then show ?case by simp
next
  case (Cons q qs)
  have q: "ok q s" using Cons.prems(2) by simp
  from goes[OF Cons.prems(1) q] obtain v where v: "run q s = Inr v" "I v" "grown calm goal s v"
    "r_chans v = r_chans s" "el_funcQueue (r_loops v l) = el_funcQueue (r_loops s l)" by blast
  have "\<And>r. r \<in> set qs \<Longrightarrow> ok r v" using run_keeps[OF Cons.prems(1) q v(1)] Cons.prems(2) by simp
  from Cons.IH[OF v(2) this] obtain t where t: "foldR run qs v = Inr t" "I t" "grown calm goal v t" "r_chans t = r_chans v"
    "el_funcQueue (r_loops t l) = el_funcQueue (r_loops v l)"
    "\<forall>q \<in> set qs. \<exists>u u'. I u \<and> grown calm goal v u \<and> ok q u \<and> run q u = Inr u' \<and> grown calm goal u' t" by blast
  have "\<exists>u u'. I u \<and> grown calm goal s u \<and> ok r u \<and> run r u = Inr u' \<and> grown calm goal u' t" if "r \<in> set (q # qs)" for r
  proof (cases "r = q")
    case True
    then show ?thesis using Cons.prems(1) q v(1) t(3) grown_refl by metis
  next
    case False
    then have "r \<in> set qs" using that by simp
    then show ?thesis using t(6) grown_trans[OF v(3)] by meson
  qed
  moreover have "foldR run (q # qs) s = Inr t" "r_chans t = r_chans s" "el_funcQueue (r_loops t l) = el_funcQueue (r_loops s l)"
    using v(1,4,5) t(1,4,5) by simp_all
  ultimately show ?case using t(2) grown_trans[OF v(3) t(3)] by blast
qed

lemma queue_goes:
  assumes "I s"
  shows "\<exists>t. executeQueueFunctions run l s = Inr t \<and> I t \<and> grown calm goal s t \<and> r_chans t = r_chans s \<and> el_funcQueue (r_loops t l) = [] \<and>
    (\<forall>q \<in> set (el_funcQueue (r_loops s l)). \<exists>u u'. I u \<and> grown calm goal s u \<and> ok q u \<and> run q u = Inr u' \<and> grown calm goal u' t)"
proof -
  let ?s1 = "mod_loop l (\<lambda>el. el\<lparr>el_isExecuteQueueFunc := True\<rparr>) s"
  let ?s2 = "mod_loop l (\<lambda>el. el\<lparr>el_funcQueue := []\<rparr>) ?s1"
  let ?q = "el_funcQueue (r_loops s l)"
  have i1: "I ?s1" by (rule I_bookkeeping[OF assms]) simp
  have i2: "I ?s2" by (rule I_bookkeeping[OF i1]) simp
  have "grown calm goal s ?s1" by (rule bookkeeping_grown) simp
  moreover have "grown calm goal ?s1 ?s2" by (rule bookkeeping_grown) simp
  ultimately have g2: "grown calm goal s ?s2" by (rule grown_trans)
  have "ok v ?s2" if "v \<in> set ?q" for v
    using ok_queue[OF assms that] by (simp only: ok_bookkeeping)
  from batch_goes[OF i2 this] obtain u where u: "foldR run ?q ?s2 = Inr u" "I u" "grown calm goal ?s2 u" "r_chans u = r_chans ?s2"
    "el_funcQueue (r_loops u l) = el_funcQueue (r_loops ?s2 l)"
    "\<forall>q \<in> set ?q. \<exists>w w'. I w \<and> grown calm goal ?s2 w \<and> ok q w \<and> run q w = Inr w' \<and> grown calm goal w' u" by blast
  let ?t = "mod_loop l (\<lambda>el. el\<lparr>el_isExecuteQueueFunc := False\<rparr>) u"
  have gt: "grown calm goal u ?t" by (rule bookkeeping_grown) simp
  have "I ?t" by (rule I_bookkeeping[OF u(2)]) simp
  moreover have "executeQueueFunctions run l s = Inr ?t" using u(1) by (simp add: executeQueueFunctions_def Let_def)
  moreover have "\<forall>q \<in> set ?q. \<exists>w w'. I w \<and> grown calm goal s w \<and> ok q w \<and> run q w = Inr w' \<and> grown calm goal w' ?t"
    using u(6) grown_trans[OF g2] grown_trans[OF _ gt] by meson
  moreover have "r_chans ?t = r_chans s" "el_funcQueue (r_loops ?t l) = []" using u(4,5) by simp_all
  ultimately show ?thesis using grown_trans[OF g2 grown_trans[OF u(3) gt]] by blast
qed

lemma poll_goes:
  assumes "I s" and no: "el_activeChannels (r_loops s l) = []"
  shows "\<exists>now t. loopPoll E l s = Inr (now, t) \<and> I t \<and> grown calm goal s t \<and> polls (r_trace s) < polls (r_trace t) \<and> (idle_chans s \<longrightarrow> idle_chans t) \<and>
    el_funcQueue (r_loops t l) = el_funcQueue (r_loops s l) \<and>
    (\<forall>f x e g. entry l s f = (Some x, Some (True, e)) \<longrightarrow> bit e 0 \<longrightarrow> readable_now E f (r_trace s) \<longrightarrow>
       ch_readCallback (r_chans s x) = Some g \<longrightarrow>
       x \<in> set (el_activeChannels (r_loops t l)) \<and> bit (ch_revents (r_chans t x)) 0 \<and> ch_readCallback (r_chans t x) = Some g)"
proof -
  let ?p = "el_poller (r_loops s l)"
  note wf = I_wf[OF assms(1)]
  from loopPoll_goes[OF wf I_law[OF assms(1)] no] obtain now t where t: "loopPoll E l s = Inr (now, t)"
    and r: "\<And>f x e i. entry l s f = (Some x, Some (True, e)) \<Longrightarrow> i = nat (ch_index (r_chans s x)) \<Longrightarrow>
      i < length (pollRequest ?p) \<and> pollRequest ?p ! i = (f, e) \<and>
      (bit (snd (poll_of E (r_trace s) (pollRequest ?p) (el_maxWaitTimeM (r_loops s l))) ! i) 0 \<longrightarrow>
        x \<in> set (el_activeChannels (r_loops t l)) \<and> bit (ch_revents (r_chans t x)) 0)" by blast
  obtain act cs revs n where sh:
    "t = mod_loop l (\<lambda>el. el\<lparr>el_poller := (el_poller el)\<lparr>pollfds := setRevents (pollfds (el_poller el)) revs\<rparr>, el_activeChannels := act\<rparr>)
       (s\<lparr>r_chans := cs, r_trace := r_trace s @ [SysPoll (pollRequest ?p) (el_maxWaitTimeM (r_loops s l)) n, SysNow now]\<rparr>)"
    "\<And>x. \<exists>r. cs x = set_revent r (r_chans s x)"
    by (rule loopPoll_shape[OF wf t]) (rule that)
  have tr: "r_trace t = r_trace s @ [SysPoll (pollRequest ?p) (el_maxWaitTimeM (r_loops s l)) n, SysNow now]" by (simp add: sh(1))
  have "goal s \<longrightarrow> goal t" using goal_cong[of t s] by (auto simp: sh(1))
  then have "grown calm goal s t" using calm_poll by (simp add: grown_def tr)
  moreover have "ch_readCallback (r_chans t x) = ch_readCallback (r_chans s x)" for x
    using sh(2)[of x] by (auto simp: sh(1) set_revent_def)
  moreover have "ch_isHandling (r_chans t x) = ch_isHandling (r_chans s x)" for x
    using sh(2)[of x] by (auto simp: sh(1) set_revent_def)
  moreover have "x \<in> set (el_activeChannels (r_loops t l)) \<and> bit (ch_revents (r_chans t x)) 0"
    if "entry l s f = (Some x, Some (True, e))" "bit e 0" "readable_now E f (r_trace s)" for f x e
    using r[OF that(1) refl] that(2,3) unfolding readable_now_def by (metis fst_conv snd_conv)
  ultimately show ?thesis using t I_poll[OF assms(1) t]
    by (intro exI[of _ now] exI[of _ t]) (simp add: tr idle_chans_def, simp add: sh(1))
qed

text \<open>A turn.\<close>

lemma turn_goes:
  assumes "I s"
  shows "\<exists>t. loopIteration E run l s = Inr t \<and> I t \<and> grown calm goal s t \<and> polls (r_trace s) < polls (r_trace t) \<and> (idle_chans s \<longrightarrow> idle_chans t) \<and>
    el_funcQueue (r_loops t l) = [] \<and>
    (\<forall>q \<in> set (el_funcQueue (r_loops s l)). \<exists>u u'. I u \<and> grown calm goal s u \<and> ok q u \<and> run q u = Inr u' \<and> grown calm goal u' t) \<and>
    (\<forall>f x e g. entry l s f = (Some x, Some (True, e)) \<longrightarrow> bit e 0 \<longrightarrow> readable_now E f (r_trace s) \<longrightarrow>
       ch_readCallback (r_chans s x) = Some g \<longrightarrow>
       (\<exists>now u u'. I u \<and> grown calm goal s u \<and> run (g now) u = Inr u' \<and> grown calm goal u' t))"
proof -
  let ?s0 = "mod_loop l (\<lambda>el. el\<lparr>el_activeChannels := []\<rparr>) s"
  have i0: "I ?s0" by (rule I_bookkeeping[OF assms]) simp
  have g0: "grown calm goal s ?s0" by (rule bookkeeping_grown) simp
  have en: "entry l ?s0 f = entry l s f" for f by (rule entry_cong) simp_all
  from poll_goes[OF i0] obtain now v where v: "loopPoll E l ?s0 = Inr (now, v)" "I v" "grown calm goal ?s0 v"
    "polls (r_trace s) < polls (r_trace v)" "idle_chans ?s0 \<longrightarrow> idle_chans v" "el_funcQueue (r_loops v l) = el_funcQueue (r_loops s l)"
    "\<And>f x e g. entry l s f = (Some x, Some (True, e)) \<Longrightarrow> bit e 0 \<Longrightarrow> readable_now E f (r_trace s) \<Longrightarrow>
       ch_readCallback (r_chans s x) = Some g \<Longrightarrow>
       x \<in> set (el_activeChannels (r_loops v l)) \<and> bit (ch_revents (r_chans v x)) 0 \<and> ch_readCallback (r_chans v x) = Some g"
    unfolding en by auto
  from events_go[OF v(2), of now "el_activeChannels (r_loops v l)"] obtain w where
    w: "foldR (handleEvents run now) (el_activeChannels (r_loops v l)) v = Inr w" "I w" "grown calm goal v w" "idle_chans v \<longrightarrow> idle_chans w"
    "el_funcQueue (r_loops w l) = el_funcQueue (r_loops v l)"
    "\<And>x f. x \<in> set (el_activeChannels (r_loops v l)) \<Longrightarrow> bit (ch_revents (r_chans v x)) 0 \<Longrightarrow> ch_readCallback (r_chans v x) = Some f \<Longrightarrow>
       \<exists>u u'. I u \<and> grown calm goal v u \<and> run (f now) u = Inr u' \<and> grown calm goal u' w" by blast
  from queue_goes[OF w(2)] obtain t where t: "executeQueueFunctions run l w = Inr t" "I t" "grown calm goal w t" "r_chans t = r_chans w"
    "el_funcQueue (r_loops t l) = []" "\<forall>q \<in> set (el_funcQueue (r_loops s l)). \<exists>u u'. I u \<and> grown calm goal w u \<and> ok q u \<and> run q u = Inr u' \<and> grown calm goal u' t"
    unfolding w(5) v(6) by blast
  have gv: "grown calm goal s v" by (rule grown_trans[OF g0 v(3)])
  have gw: "grown calm goal s w" by (rule grown_trans[OF gv w(3)])
  have run: "loopIteration E run l s = Inr t" using v(1) w(1) t(1) by (simp add: loopIteration_def Let_def)
  have "polls (r_trace v) \<le> polls (r_trace t)"
    using grown_trans[OF w(3) t(3)] by (auto simp: grown_def)
  then have p: "polls (r_trace s) < polls (r_trace t)" using v(4) by simp
  have q: "\<forall>q \<in> set (el_funcQueue (r_loops s l)). \<exists>u u'. I u \<and> grown calm goal s u \<and> ok q u \<and> run q u = Inr u' \<and> grown calm goal u' t"
    using t(6) grown_trans[OF gw] by meson
  have "\<exists>now u u'. I u \<and> grown calm goal s u \<and> run (g now) u = Inr u' \<and> grown calm goal u' t"
    if "entry l s f = (Some x, Some (True, e))" "bit e 0" "readable_now E f (r_trace s)" "ch_readCallback (r_chans s x) = Some g" for f x e g
    using v(7)[OF that] w(6) grown_trans[OF gv] grown_trans[OF _ t(3)] by meson
  moreover have "idle_chans s \<longrightarrow> idle_chans t" using v(5) w(4) by (simp add: idle_chans_def t(4))
  ultimately show ?thesis using run t(2,5) grown_trans[OF gw t(3)] p q by blast
qed

lemma turns_go:
  "I s \<Longrightarrow> \<exists>t. iterations E run l n s = Inr t \<and> I t \<and> grown calm goal s t \<and> n + polls (r_trace s) \<le> polls (r_trace t) \<and>
    (idle_chans s \<longrightarrow> idle_chans t) \<and> (0 < n \<longrightarrow> el_funcQueue (r_loops t l) = [])"
proof (induction n arbitrary: s)
  case 0
  then show ?case by simp
next
  case (Suc n)
  from turn_goes[OF Suc.prems] obtain u where u: "loopIteration E run l s = Inr u" "I u" "grown calm goal s u"
    "polls (r_trace s) < polls (r_trace u)" "idle_chans s \<longrightarrow> idle_chans u" "el_funcQueue (r_loops u l) = []" by blast
  from Suc.IH[OF u(2)] obtain t where t: "iterations E run l n u = Inr t" "I t" "grown calm goal u t"
    "n + polls (r_trace u) \<le> polls (r_trace t)" "idle_chans u \<longrightarrow> idle_chans t"
    "0 < n \<longrightarrow> el_funcQueue (r_loops t l) = []" by blast
  have "Suc n + polls (r_trace s) \<le> polls (r_trace t)" using u(4) t(4) by simp
  moreover have "el_funcQueue (r_loops t l) = []" using t(1,6) u(6) by (cases n) auto
  ultimately show ?case using u(1,5) t(1,2,5) grown_trans[OF u(3) t(3)] by auto
qed

text \<open>
  A functor that reaches the goal does so in the next turn; a descriptor that is found readable
  after enough polls, as long as nothing disturbs it, reaches the goal when its callback does.
\<close>

lemma queued_reaches:
  assumes "I s" and "q \<in> set (el_funcQueue (r_loops s l))" and "loopIteration E run l s = Inr t"
    and "\<And>u u'. I u \<Longrightarrow> ok q u \<Longrightarrow> run q u = Inr u' \<Longrightarrow> goal u'"
  shows "goal t"
  using turn_goes[OF assms(1)] assms(2-4) unfolding grown_def by fastforce

lemma readable_reaches:
  assumes "I s" and reg: "\<And>t. I t \<Longrightarrow> \<exists>x e. entry l t f = (Some x, Some (True, e)) \<and> bit e 0 \<and> ch_readCallback (r_chans t x) = Some g"
    and ready: "\<And>ts. \<forall>e \<in> set ts. calm e \<Longrightarrow> K \<le> polls ts \<Longrightarrow> readable_now E f (r_trace s @ ts)"
    and run: "\<And>now u u'. I u \<Longrightarrow> run (g now) u = Inr u' \<Longrightarrow> goal u'"
  shows "\<exists>t. iterations E run l (Suc K) s = Inr t \<and> I t \<and> goal t \<and> (idle_chans s \<longrightarrow> idle_chans t)"
proof -
  from turns_go[OF assms(1), of K] obtain u where u: "iterations E run l K s = Inr u" "I u" "grown calm goal s u"
    "K + polls (r_trace s) \<le> polls (r_trace u)" "idle_chans s \<longrightarrow> idle_chans u" by blast
  from turn_goes[OF u(2)] obtain t where t: "loopIteration E run l u = Inr t" "I t" "grown calm goal u t" "idle_chans u \<longrightarrow> idle_chans t"
    "\<And>f x e g. entry l u f = (Some x, Some (True, e)) \<Longrightarrow> bit e 0 \<Longrightarrow> readable_now E f (r_trace u) \<Longrightarrow>
       ch_readCallback (r_chans u x) = Some g \<Longrightarrow>
       \<exists>now v v'. I v \<and> grown calm goal u v \<and> run (g now) v = Inr v' \<and> grown calm goal v' t" by blast
  have "goal t"
  proof (cases "goal u")
    case True
    then show ?thesis using t(3) by (simp add: grown_def)
  next
    case False
    then obtain ts where ts: "r_trace u = r_trace s @ ts" "\<forall>e \<in> set ts. calm e" using u(3) by (auto simp: grown_def)
    then have "readable_now E f (r_trace u)" using ready[of ts] u(4) by simp
    with reg[OF u(2)] t(5) obtain now v v' where "I v" "run (g now) v = Inr v'" "grown calm goal v' t" by meson
    then show ?thesis using run by (auto simp: grown_def)
  qed
  moreover have "iterations E run l (Suc K) s = Inr t" using u(1) t(1) iterations_add[of E run l K 1 s] by simp
  ultimately show ?thesis using t(2,4) u(5) by blast
qed

end

end
