(* ===== verification/Demos.thy ===== *)
theory Demos
  imports Steady
begin

text \<open>
  The small programs of the library: \<open>Reactor/main_version0.cc\<close> (a timer descriptor of its own on a
  channel), \<open>Reactor/main_timer.cc\<close> (a timer that another thread asks for) and
  \<open>Server/main_Acceptor.cc\<close> (two acceptors whose callback greets each client).  The first two end,
  the third serves forever.  What is printed is not modelled.
\<close>

section \<open>The programs\<close>

text \<open>
  The closures of all three: \<open>TUser 0\<close> to \<open>2\<close> are those of \<open>main_version0.cc\<close>, \<open>TUser 3\<close> is that of
  \<open>main_timer.cc\<close>, \<open>TUserAccept 0\<close> that of \<open>main_Acceptor.cc\<close>.  \<open>g_loop\<close> is an argument.
\<close>

definition timeoutFunc :: "'b env \<Rightarrow> loop_id \<Rightarrow> 'z reactor_scheme \<Rightarrow> 'z reactor_scheme" where
  "timeoutFunc E g_loop s = quit E g_loop s"

definition errorFunc :: "'b env \<Rightarrow> loop_id \<Rightarrow> 'z reactor_scheme \<Rightarrow> 'z reactor_scheme" where
  "errorFunc E g_loop s = quit E g_loop s"

definition writeFunc :: "'b env \<Rightarrow> loop_id \<Rightarrow> 'z reactor_scheme \<Rightarrow> 'z reactor_scheme" where
  "writeFunc E g_loop s = quit E g_loop s"

definition timeOutFunc :: "'b env \<Rightarrow> loop_id \<Rightarrow> 'z reactor_scheme \<Rightarrow> 'z reactor_scheme" where
  "timeOutFunc E g_loop s = quit E g_loop s"

text \<open>\<open>sizeof msg\<close> counts the zero at the end of the string.\<close>

definition hello :: string where
  "hello = ''Hello, I can hear you calling me'' @ [CHR 0x0A, CHR 0x00]"

definition callbackFunc :: "'b env \<Rightarrow> int \<Rightarrow> inet \<Rightarrow> 'z reactor_scheme \<Rightarrow> 'z reactor_scheme" where
  "callbackFunc E connfd addr s = emit (SysWrite connfd hello (write_of E (r_trace s) connfd hello)) s"

definition demo_user :: "'b env \<Rightarrow> loop_id \<Rightarrow> ('b, 'z) serv_runner \<Rightarrow> ('b, 'z) serv_runner" where
  "demo_user E g_loop run t s =
     (case t of
        TUser n \<Rightarrow> Inr (if n = 0 then timeoutFunc E g_loop s else if n = 1 then errorFunc E g_loop s
                       else if n = 2 then writeFunc E g_loop s else timeOutFunc E g_loop s)
      | TUserAccept n connfd addr \<Rightarrow> Inr (callbackFunc E connfd addr s)
      | _ \<Rightarrow> Inr s)"

text \<open>\<open>main_version0.cc\<close>: \<open>main\<close> up to \<open>loop.loop()\<close>, and as a whole with the destructors.\<close>

definition version0Setup ::
  "'b env \<Rightarrow> ('b, 'z) servs \<Rightarrow> (loop_id \<times> chan_id \<times> int \<times> ('b, 'z) servs) result" where
  "version0Setup E s =
     bindR (newEventLoop E s) (\<lambda>(l, s).
     let tfd = timerfd_of E (r_trace s);
         (ch, s) = newChannel l tfd (emit (SysTimerfd tfd) s);
         s = mod_chan ch (setReadCallback (\<lambda>_. TUser 0)) s;
         s = mod_chan ch (setErrorCallback (TUser 1)) s;
         s = mod_chan ch (setWriteCallback (TUser 2)) s in
     bindR (enableRead ch s) (\<lambda>s. Inr (l, ch, tfd, emit (SysSettime tfd 5 0) s)))"

definition version0Main :: "'b env \<Rightarrow> nat \<Rightarrow> ('b, 'z) servs \<Rightarrow> ('b, 'z) servs result option" where
  "version0Main E fuel s =
     (case version0Setup E s of
        Inl e \<Rightarrow> Some (Inl e)
      | Inr (l, ch, tfd, s) \<Rightarrow>
          map_option (\<lambda>r. bindR r (\<lambda>s.
              let s = sysClose E tfd s in bindR (dtorChannel (r_chans s ch)) (\<lambda>_. dtorEventLoop E l s)))
            (loop E (run_task E (demo_user E l) 2) fuel l s))"

text \<open>
  \<open>main_timer.cc\<close>.  The other thread calls \<open>runAfter\<close> once, at some moment after it was started:
  here after \<open>before\<close> turns of the loop.
\<close>

definition threadFunc15 :: "'b env \<Rightarrow> ('b, 'z) serv_runner \<Rightarrow> loop_id \<Rightarrow> ('b, 'z) servs \<Rightarrow> ('b, 'z) servs result" where
  "threadFunc15 E run g_loop s = bindR (runAfter E run g_loop 15 (TUser 3) s) (\<lambda>(_, s). Inr s)"

definition inOtherThread :: "'b env \<Rightarrow> ('z reactor_scheme \<Rightarrow> 'z reactor_scheme result) \<Rightarrow> 'z reactor_scheme \<Rightarrow> 'z reactor_scheme result" where
  "inOtherThread E f s =
     (let tid = thread_of E (r_trace s) in
      bindR (f ((emit (SysThread tid) s)\<lparr>r_tid := tid\<rparr>)) (\<lambda>t. Inr (t\<lparr>r_tid := r_tid s\<rparr>)))"

definition loopMeanwhile ::
  "'b env \<Rightarrow> 'z runner \<Rightarrow> nat \<Rightarrow> ('z reactor_scheme \<Rightarrow> 'z reactor_scheme result) \<Rightarrow> nat \<Rightarrow> loop_id
   \<Rightarrow> 'z reactor_scheme \<Rightarrow> 'z reactor_scheme result option" where
  "loopMeanwhile E run before other fuel l s =
     (case bindR (bindR (assertR ''!isLoopping_'' (\<not> el_isLoopping (r_loops s l)) s) (assertInLoopThread l)) (\<lambda>s.
             bindR (iterations E run l before (mod_loop l (\<lambda>el. el\<lparr>el_isLoopping := True, el_quit := False\<rparr>) s)) other) of
        Inl e \<Rightarrow> Some (Inl e)
      | Inr s \<Rightarrow>
          map_option (\<lambda>r. bindR r (\<lambda>s. Inr (mod_loop l (\<lambda>el. el\<lparr>el_isLoopping := False\<rparr>) s))) (loopWhile E run l fuel s))"

definition timerMain :: "'b env \<Rightarrow> nat \<Rightarrow> nat \<Rightarrow> ('b, 'z) servs \<Rightarrow> ('b, 'z) servs result option" where
  "timerMain E before fuel s =
     (case newEventLoop E s of
        Inl e \<Rightarrow> Some (Inl e)
      | Inr (l, s) \<Rightarrow>
          (let run = run_task E (demo_user E l) 2 in
           map_option (\<lambda>r. bindR r (dtorEventLoop E l))
             (loopMeanwhile E run before (inOtherThread E (threadFunc15 E run l)) fuel l s)))"

text \<open>\<open>main_Acceptor.cc\<close>, likewise; the acceptors are destroyed in reverse order, then the loop.\<close>

definition acceptorSetup ::
  "'b env \<Rightarrow> ('b, 'z) servs \<Rightarrow> (loop_id \<times> acceptor_id \<times> acceptor_id \<times> ('b, 'z) servs) result" where
  "acceptorSetup E s =
     bindR (newEventLoop E s) (\<lambda>(l, s).
     bindR (newAcceptor E l (Inet 2333) s) (\<lambda>(acceptor, s).
     bindR (newAcceptor E l (Inet 3332) s) (\<lambda>(acceptor2, s).
     let s = setNewConnectionCallback acceptor (\<lambda>fd addr. TUserAccept 0 fd addr) s;
         s = setNewConnectionCallback acceptor2 (\<lambda>fd addr. TUserAccept 0 fd addr) s in
     bindR (acceptorListen E acceptor s) (\<lambda>s.
     bindR (acceptorListen E acceptor2 s) (\<lambda>s. Inr (l, acceptor, acceptor2, s))))))"

definition acceptorMain :: "'b env \<Rightarrow> nat \<Rightarrow> ('b, 'z) servs \<Rightarrow> ('b, 'z) servs result option" where
  "acceptorMain E fuel s =
     (case acceptorSetup E s of
        Inl e \<Rightarrow> Some (Inl e)
      | Inr (l, acceptor, acceptor2, s) \<Rightarrow>
          map_option (\<lambda>r. bindR r (\<lambda>s. bindR (dtorAcceptor E acceptor2 s) (\<lambda>s. bindR (dtorAcceptor E acceptor s) (dtorEventLoop E l))))
            (loop E (run_task E (demo_user E l) 2) fuel l s))"

section \<open>The invariant\<close>

text \<open>A timer of the programs, for the time \<open>w\<close>: it fires once and quits the loop.\<close>

definition user_timer :: "timestamp \<Rightarrow> timer \<Rightarrow> bool" where
  "user_timer w x \<longleftrightarrow> tm_expiration x = w \<and> \<not> tm_repeat x \<and> (\<exists>n. tm_callback x = TUser n)"

text \<open>
  What a program is about: timers may still be asked for, up to a time (\<open>Asking\<close>), the timers there
  are end it (\<open>Waiting\<close>), or nothing does (\<open>Serving\<close>).
\<close>

datatype phase = Asking timestamp | Waiting | Serving

text \<open>A closure that may be stored.\<close>

definition demo_task :: "'b env \<Rightarrow> phase \<Rightarrow> loop_id \<Rightarrow> task \<Rightarrow> ('b, 'z) servs \<Rightarrow> bool" where
  "demo_task E b l t s \<longleftrightarrow> (case t of
     TUser n \<Rightarrow> b \<noteq> Serving
   | TWakeupRead k \<Rightarrow> k = l
   | TTimerRead k \<Rightarrow> k = l
   | TAddTimer k p \<Rightarrow> k = l \<and> p < UINTPTR_MAX \<and>
       (\<exists>T x. b = Asking T \<and> r_timers s p = Some x \<and> user_timer (tm_expiration x) x \<and> tm_expiration x \<le> T)
   | TAcceptorRead a \<Rightarrow> (\<forall>tr fd. 0 \<le> fst (accept_of E tr fd)) \<and>
       ac_cb (n_acceptors s a) = Some (\<lambda>fd addr. TUserAccept 0 fd addr)
   | _ \<Rightarrow> False)"

text \<open>Each client is greeted right after it was accepted, and nothing is closed.\<close>

fun greeted :: "trace \<Rightarrow> bool" where
  "greeted [] \<longleftrightarrow> True"
| "greeted (SysAccept l fd # tr) \<longleftrightarrow> (\<exists>r tr'. tr = SysWrite fd hello r # tr') \<and> greeted tr"
| "greeted (SysClose fd r # tr) \<longleftrightarrow> False"
| "greeted (e # tr) \<longleftrightarrow> greeted tr"

text \<open>
  A descriptor that the loop polls, for the given events, and the callback for reading it; where
  that is an acceptor or the queue of timers, the descriptor is its own.
\<close>

definition watching :: "loop_id \<Rightarrow> int \<times> chan_id \<times> 16 word \<times> (timestamp \<Rightarrow> task) \<Rightarrow> ('b, 'z) servs \<Rightarrow> bool" where
  "watching l w s \<longleftrightarrow> (case w of (f, x, e, g) \<Rightarrow>
     entry l s f = (Some x, Some (True, e)) \<and> ch_readCallback (r_chans s x) = Some g \<and>
     (\<forall>a now. g now = TAcceptorRead a \<longrightarrow> ac_sockfd (n_acceptors s a) = f) \<and>
     (\<forall>k now. g now = TTimerRead k \<longrightarrow> timerfd_in k s = f))"

text \<open>The timers are due, and stay so.\<close>

definition all_due :: "'b env \<Rightarrow> loop_id \<Rightarrow> 'z reactor_scheme \<Rightarrow> bool" where
  "all_due E l s \<longleftrightarrow> timers_of l s \<noteq> [] \<and>
     (\<forall>e \<in> set (timers_of l s). \<forall>ts. entry_time e \<le> now_of E (r_trace s @ ts))"

text \<open>Calls that leave a timer descriptor as it is.\<close>

fun leaves_fd :: "int \<Rightarrow> sysev \<Rightarrow> bool" where
  "leaves_fd fd (SysSettime f sec nsec) \<longleftrightarrow> f \<noteq> fd"
| "leaves_fd fd (SysReadI64 f r) \<longleftrightarrow> f \<noteq> fd"
| "leaves_fd fd (SysClose f r) \<longleftrightarrow> f \<noteq> fd"
| "leaves_fd fd e \<longleftrightarrow> True"

text \<open>A descriptor that was set, and left as it is since.\<close>

definition armed :: "'b env \<Rightarrow> int \<Rightarrow> trace \<Rightarrow> bool" where
  "armed E fd tr \<longleftrightarrow> (\<exists>a w now ts. tr = a @ SysSettime fd (fst (getTimeDiffFromNow E w now)) (snd (getTimeDiffFromNow E w now)) # ts \<and>
     (\<forall>e \<in> set ts. leaves_fd fd e))"

definition demo_phase :: "'b env \<Rightarrow> phase \<Rightarrow> loop_id \<Rightarrow> int \<Rightarrow> 'z reactor_scheme \<Rightarrow> bool" where
  "demo_phase E b l fd s \<longleftrightarrow> (case b of
     Asking T \<Rightarrow> timerfd_in l s \<noteq> fd \<and> (\<forall>e \<in> set (timers_of l s). entry_time e \<le> T)
   | Waiting \<Rightarrow> el_quit (r_loops s l) \<or> all_due E l s
   | Serving \<Rightarrow> timerfd_in l s \<noteq> fd \<and> \<not> el_quit (r_loops s l) \<and> timers_of l s = [])"

text \<open>
  The invariant of a program in its loop, while the descriptor \<open>fd\<close> is waited for and the
  descriptors \<open>W\<close> are watched.
\<close>

definition demo_inv ::
  "'b env \<Rightarrow> phase \<Rightarrow> loop_id \<Rightarrow> int \<Rightarrow> (int \<times> chan_id \<times> 16 word \<times> (timestamp \<Rightarrow> task)) set \<Rightarrow> ('b, 'z) servs \<Rightarrow> bool" where
  "demo_inv E b l fd W s \<longleftrightarrow> poll_law E \<and> reactor_wf s \<and> isInLoopThread l s \<and> (\<forall>tr. thread_of E tr \<noteq> r_tid s) \<and>
     (\<forall>c now. \<forall>t \<in> callbacks_of (r_chans s c) now. demo_task E b l t s \<and> (\<forall>k p. t \<noteq> TAddTimer k p)) \<and>
     (\<forall>k. \<forall>t \<in> set (el_funcQueue (r_loops s k)). demo_task E b l t s) \<and> (\<forall>k. k \<noteq> l \<longrightarrow> el_funcQueue (r_loops s k) = []) \<and>
     timers_wf (timers_of l s) \<and>
     (\<forall>e \<in> set (timers_of l s). \<exists>x. r_timers s (entry_timer e) = Some x \<and> user_timer (entry_time e) x) \<and>
     el_wakeupFd (r_loops s l) \<noteq> fd \<and> el_wakeupFd (r_loops s l) \<noteq> timerfd_in l s \<and>
     (timers_of l s \<noteq> [] \<longrightarrow> armed E (timerfd_in l s) (r_trace s)) \<and>
     demo_phase E b l fd s \<and>
     (\<forall>w \<in> W. watching l w s) \<and> greeted (r_trace s)"

text \<open>What is waited for.\<close>

definition demo_goal :: "bool \<Rightarrow> loop_id \<Rightarrow> 'z reactor_scheme \<Rightarrow> bool" where
  "demo_goal g l s \<longleftrightarrow> el_quit (r_loops s l) \<or> g \<and> timers_of l s \<noteq> []"

section \<open>Facts\<close>

lemma greeted_append: "greeted tr \<Longrightarrow> greeted ts \<Longrightarrow> greeted (tr @ ts)"
  by (induction tr rule: greeted.induct) auto

lemma demo_invD:
  assumes "demo_inv E b l fd W s"
  shows "poll_law E" "reactor_wf s" "isInLoopThread l s" "t \<in> callbacks_of (r_chans s c) now \<Longrightarrow> demo_task E b l t s"
    "t \<in> set (el_funcQueue (r_loops s k)) \<Longrightarrow> demo_task E b l t s" "timers_wf (timers_of l s)"
    "e \<in> set (timers_of l s) \<Longrightarrow> \<exists>x. r_timers s (entry_timer e) = Some x \<and> user_timer (entry_time e) x"
    "el_wakeupFd (r_loops s l) \<noteq> fd" "b \<noteq> Waiting \<Longrightarrow> timerfd_in l s \<noteq> fd" "demo_phase E b l fd s"
    "w \<in> W \<Longrightarrow> watching l w s" "greeted (r_trace s)" "el_wakeupFd (r_loops s l) \<noteq> timerfd_in l s"
    "timers_of l s \<noteq> [] \<Longrightarrow> armed E (timerfd_in l s) (r_trace s)" "t \<in> callbacks_of (r_chans s c) now \<Longrightarrow> t \<noteq> TAddTimer k' p"
    "k \<noteq> l \<Longrightarrow> el_funcQueue (r_loops s k) = []" "thread_of E tr \<noteq> r_tid s"
  using assms unfolding demo_inv_def by (simp_all) (cases b; simp add: demo_phase_def)

lemma demo_task_cong:
  "r_timers t = r_timers s \<Longrightarrow> n_acceptors t = n_acceptors s \<Longrightarrow> demo_task E b l q t = demo_task E b l q s"
  by (simp add: demo_task_def split: task.splits)

lemma armed_set:
  "armed E fd (tr @ [SysNow x, SysSettime fd (fst (getTimeDiffFromNow E w now)) (snd (getTimeDiffFromNow E w now))])"
  unfolding armed_def by (intro exI[of _ "tr @ [SysNow x]"] exI[of _ w] exI[of _ now] exI[of _ "[]"]) simp

lemma armed_later: "armed E fd tr \<Longrightarrow> \<forall>e \<in> set ts. leaves_fd fd e \<Longrightarrow> armed E fd (tr @ ts)"
  by (fastforce simp: armed_def)

text \<open>A change that leaves the objects, and adds calls at the end of the trace.\<close>

lemma demo_inv_change:
  assumes I: "demo_inv E b l fd W s" and wf: "reactor_wf t" and same: "r_tid t = r_tid s" "r_timers t = r_timers s" "n_acceptors t = n_acceptors s"
    and ch: "\<And>c. ch_errorCallback (r_chans t c) = ch_errorCallback (r_chans s c) \<and> ch_closeCallback (r_chans t c) = ch_closeCallback (r_chans s c) \<and>
      ch_readCallback (r_chans t c) = ch_readCallback (r_chans s c) \<and> ch_writeCallback (r_chans t c) = ch_writeCallback (r_chans s c)"
    and en: "\<And>f. entry l t f = entry l s f"
    and lp: "\<And>k. set (el_funcQueue (r_loops t k)) \<subseteq> set (el_funcQueue (r_loops s k))"
      "el_threadId (r_loops t l) = el_threadId (r_loops s l)" "el_wakeupFd (r_loops t l) = el_wakeupFd (r_loops s l)"
    and tm: "timers_wf (timers_of l t)" "\<And>e. e \<in> set (timers_of l t) \<Longrightarrow> \<exists>x. r_timers s (entry_timer e) = Some x \<and> user_timer (entry_time e) x"
      "demo_phase E b l fd t" "timers_of l t \<noteq> [] \<Longrightarrow> armed E (timerfd_in l t) (r_trace t)" "\<And>k. timerfd_in k t = timerfd_in k s"
    and tr: "r_trace t = r_trace s @ ts" "greeted ts"
  shows "demo_inv E b l fd W t"
proof -
  note D = demo_invD[OF I]
  have task: "demo_task E b l q t = demo_task E b l q s" for q by (rule demo_task_cong[OF same(2,3)])
  have "demo_task E b l q t \<and> (\<forall>k p. q \<noteq> TAddTimer k p)" if "q \<in> callbacks_of (r_chans t c) now" for c now q
    using that D(4,15) ch[of c] unfolding task by (simp add: callbacks_of_def)
  moreover have "el_funcQueue (r_loops t k) = []" if "k \<noteq> l" for k using D(16)[OF that] lp(1)[of k] by simp
  moreover have "demo_task E b l q t" if "q \<in> set (el_funcQueue (r_loops t k))" for k q
    using that D(5) lp(1) unfolding task by blast
  moreover have "watching l w t" if "w \<in> W" for w using D(11)[OF that] ch en by (auto simp: watching_def same(3) tm(5))
  moreover have "greeted (r_trace t)" unfolding tr(1) by (rule greeted_append[OF D(12) tr(2)])
  moreover have "isInLoopThread l t" using D(3) by (simp add: isInLoopThread_def lp(2) same(1))
  ultimately show ?thesis using D(1,8,13,17) wf tm(1-4) unfolding demo_inv_def same(1,2) lp(3) tm(5) by blast
qed

lemma all_due_later: "all_due E l s \<Longrightarrow> timers_of l t = timers_of l s \<Longrightarrow> r_trace t = r_trace s @ ts \<Longrightarrow> all_due E l t"
  by (auto simp: all_due_def)

lemma demo_inv_cong:
  assumes I: "demo_inv E b l fd W s" and "reactor_wf t" "r_tid t = r_tid s" "r_timers t = r_timers s" "n_acceptors t = n_acceptors s"
    and "\<And>c. ch_errorCallback (r_chans t c) = ch_errorCallback (r_chans s c) \<and> ch_closeCallback (r_chans t c) = ch_closeCallback (r_chans s c) \<and>
      ch_readCallback (r_chans t c) = ch_readCallback (r_chans s c) \<and> ch_writeCallback (r_chans t c) = ch_writeCallback (r_chans s c)"
    and "\<And>f. entry l t f = entry l s f"
    and lp: "\<And>k. set (el_funcQueue (r_loops t k)) \<subseteq> set (el_funcQueue (r_loops s k)) \<and>
       el_timerQueue (r_loops t k) = el_timerQueue (r_loops s k) \<and> el_threadId (r_loops t k) = el_threadId (r_loops s k) \<and>
       el_wakeupFd (r_loops t k) = el_wakeupFd (r_loops s k) \<and> (el_quit (r_loops s k) \<longrightarrow> el_quit (r_loops t k)) \<and>
       (el_quit (r_loops t k) \<longrightarrow> el_quit (r_loops s k) \<or> b \<noteq> Serving)"
    and tr: "r_trace t = r_trace s @ ts" "greeted ts" and ts: "\<forall>e \<in> set ts. leaves_fd (timerfd_in l s) e"
  shows "demo_inv E b l fd W t"
proof (rule demo_inv_change[OF assms(1-7) _ _ _ _ _ _ _ _ tr])
  note D = demo_invD[OF I]
  have tm: "timers_of l t = timers_of l s" using lp by (simp add: timers_of_def)
  show "timers_wf (timers_of l t)" using D(6) by (simp add: tm)
  show "\<exists>x. r_timers s (entry_timer e) = Some x \<and> user_timer (entry_time e) x" if "e \<in> set (timers_of l t)" for e
    using D(7) that by (simp add: tm)
  show tq: "timerfd_in k t = timerfd_in k s" for k using lp by (simp add: timerfd_in_def)
  show "armed E (timerfd_in l t) (r_trace t)" if "timers_of l t \<noteq> []"
    using armed_later[OF D(14) ts] that by (simp add: tm tq tr(1))
  show "demo_phase E b l fd t" using D(10) all_due_later[OF _ tm tr(1)] lp[of l] by (cases b) (auto simp: demo_phase_def tm tq)
qed (use lp in blast)+

section \<open>The closures keep it\<close>

lemma quit_here: "isInLoopThread l s \<Longrightarrow> quit E l s = mod_loop l (\<lambda>el. el\<lparr>el_quit := True\<rparr>) s"
  by (simp add: quit_def isInLoopThread_def)

lemma demo_quits:
  "isInLoopThread l s \<Longrightarrow> run_task E (demo_user E l) (Suc n) (TUser k) s = Inr (mod_loop l (\<lambda>el. el\<lparr>el_quit := True\<rparr>) s)"
  by (simp add: demo_user_def timeoutFunc_def errorFunc_def writeFunc_def timeOutFunc_def quit_here)

text \<open>The timers that fired all quit the loop, and none comes back.\<close>

lemma fire_quits:
  assumes "isInLoopThread l s" and "\<And>e. e \<in> set es \<Longrightarrow> \<exists>x. r_timers s (entry_timer e) = Some x \<and> user_timer (entry_time e) x"
  shows "foldR (\<lambda>e. runTimer (run_task E (demo_user E l) (Suc n)) (entry_timer e)) es s =
    Inr (if es = [] then s else mod_loop l (\<lambda>el. el\<lparr>el_quit := True\<rparr>) s)"
  using assms
proof (induction es arbitrary: s)
  case Nil
  then show ?case by simp
next
  case (Cons e es)
  let ?s = "mod_loop l (\<lambda>el. el\<lparr>el_quit := True\<rparr>) s"
  obtain x k where x: "r_timers s (entry_timer e) = Some x" "tm_callback x = TUser k"
    using Cons.prems(2)[of e] by (auto simp: user_timer_def)
  have "isInLoopThread l ?s" using Cons.prems(1) by (simp add: isInLoopThread_def)
  from Cons.IH[OF this] Cons.prems(2) have "foldR (\<lambda>e. runTimer (run_task E (demo_user E l) (Suc n)) (entry_timer e)) es ?s =
    Inr (if es = [] then ?s else mod_loop l (\<lambda>el. el\<lparr>el_quit := True\<rparr>) ?s)" by (simp del: run_task.simps)
  moreover have "mod_loop l (\<lambda>el. el\<lparr>el_quit := True\<rparr>) ?s = ?s" by (simp add: mod_loop_def)
  moreover have "runTimer (run_task E (demo_user E l) (Suc n)) (entry_timer e) s = Inr ?s"
    using x demo_quits[OF Cons.prems(1), of E n k] by (simp add: runTimer_def del: run_task.simps)
  ultimately show ?case by (simp del: run_task.simps)
qed

lemma reset_once:
  assumes "\<And>e. e \<in> set es \<Longrightarrow> \<exists>x. r_timers s (entry_timer e) = Some x \<and> user_timer (entry_time e) x"
  shows "foldR (resetOne E l now) es s = Inr s"
  using assms
proof (induction es)
  case (Cons e es)
  then obtain x where "r_timers s (entry_timer e) = Some x" "\<not> tm_repeat x" by (auto simp: user_timer_def)
  with Cons show ?case by (simp add: resetOne_def)
qed simp

text \<open>\<open>TimerQueue::handleRead\<close>: what is due is gone and quits the loop; what is left sets the descriptor again.\<close>

lemma demo_timerRead:
  fixes E :: "'b env" and s :: "('b, 'z) servs"
  assumes thr: "isInLoopThread l s" and wf: "timers_wf (timers_of l s)"
    and live: "\<And>e. e \<in> set (timers_of l s) \<Longrightarrow> \<exists>x. r_timers s (entry_timer e) = Some x \<and> user_timer (entry_time e) x"
  defines "now \<equiv> now_of E (r_trace s)"
  defines "due \<equiv> filter (\<lambda>e. entry_time e \<le> now) (timers_of l s)" and "later \<equiv> filter (\<lambda>e. now < entry_time e) (timers_of l s)"
  obtains q ts where "timerRead E (run_task E (demo_user E l) (Suc n)) l s =
      Inr (mod_loop l (\<lambda>el. el\<lparr>el_timerQueue := (el_timerQueue el)\<lparr>tq_timers := later\<rparr>, el_quit := q\<rparr>) (s\<lparr>r_trace := r_trace s @ ts\<rparr>))"
    "q \<longleftrightarrow> el_quit (r_loops s l) \<or> due \<noteq> []" "ts = [SysNow now] \<or> (\<exists>w z. ts = [SysNow now, SysNow z, SysSettime (timerfd_in l s) (fst (getTimeDiffFromNow E w z)) (snd (getTimeDiffFromNow E w z))])"
proof -
  let ?s1 = "set_timers l later (emit (SysNow now) s)"
  let ?s2 = "if due = [] then ?s1 else mod_loop l (\<lambda>el. el\<lparr>el_quit := True\<rparr>) ?s1"
  have "foldR (\<lambda>e. runTimer (run_task E (demo_user E l) (Suc n)) (entry_timer e)) due ?s1 = Inr ?s2"
    by (rule fire_quits) (use thr live in \<open>auto simp: isInLoopThread_def due_def\<close>)
  moreover have "foldR (resetOne E l now) due ?s2 = Inr ?s2"
    by (rule reset_once) (use live in \<open>auto simp: due_def\<close>)
  ultimately have run: "timerRead E (run_task E (demo_user E l) (Suc n)) l s =
      Inr (let when = (case timers_of l ?s2 of e # _ \<Rightarrow> entry_time e | [] \<Rightarrow> stamp_invalid E)
        in if stamp_valid E when then resetTimerfd E l when ?s2 else ?s2)"
    using thr getExpired_eq[OF wf, of now]
    by (simp add: timerRead_def assertInLoopThread_def readNow_eq timerReset_def Let_def now_def[symmetric] due_def[symmetric] later_def[symmetric]
        del: run_task.simps)
  let ?q = "el_quit (r_loops s l) \<or> due \<noteq> []"
  have s2: "?s2 = mod_loop l (\<lambda>el. el\<lparr>el_timerQueue := (el_timerQueue el)\<lparr>tq_timers := later\<rparr>, el_quit := ?q\<rparr>) (s\<lparr>r_trace := r_trace s @ [SysNow now]\<rparr>)"
    by (simp add: set_timers_def mod_loop_def emit_def)
  define wn where "wn = (case timers_of l ?s2 of e # _ \<Rightarrow> entry_time e | [] \<Rightarrow> stamp_invalid E)"
  have run': "timerRead E (run_task E (demo_user E l) (Suc n)) l s = Inr (if stamp_valid E wn then resetTimerfd E l wn ?s2 else ?s2)"
    using run unfolding wn_def Let_def .
  define z where "z = now_of E (r_trace s @ [SysNow now])"
  let ?res = "\<lambda>ts. mod_loop l (\<lambda>el. el\<lparr>el_timerQueue := (el_timerQueue el)\<lparr>tq_timers := later\<rparr>, el_quit := ?q\<rparr>) (s\<lparr>r_trace := r_trace s @ ts\<rparr>)"
  let ?ts = "[SysNow now, SysNow z, SysSettime (timerfd_in l s) (fst (getTimeDiffFromNow E wn z)) (snd (getTimeDiffFromNow E wn z))]"
  show thesis
  proof (cases "stamp_valid E wn")
    case True
    have "resetTimerfd E l wn ?s2 = ?res ?ts"
      unfolding s2 by (simp add: resetTimerfd_eq Let_def mod_loop_def emit_def timerfd_in_def z_def)
    then have "timerRead E (run_task E (demo_user E l) (Suc n)) l s = Inr (?res ?ts)" unfolding run' using True by simp
    then show thesis by (rule that) (blast | simp)+
  next
    case False
    then have "timerRead E (run_task E (demo_user E l) (Suc n)) l s = Inr (?res [SysNow now])"
      unfolding run' s2 by simp
    then show thesis by (rule that) simp_all
  qed
qed

lemma demo_timer_wf: "demo_inv E b l fd W s \<Longrightarrow> demo_task E b l (TAddTimer k p) s \<Longrightarrow>
    timers_wf (insort_insert (Entry x p) (timers_of l s))"
  using timers_wf_insert[of "timers_of l s" p x] by (simp add: demo_task_def insertTimer_snd demo_invD(6))

definition demo_step ::
  "'b env \<Rightarrow> phase \<Rightarrow> loop_id \<Rightarrow> int \<Rightarrow> (int \<times> chan_id \<times> 16 word \<times> (timestamp \<Rightarrow> task)) set \<Rightarrow> bool \<Rightarrow> ('b, 'z) servs \<Rightarrow> ('b, 'z) servs \<Rightarrow> bool" where
  "demo_step E b l fd W g s s' \<longleftrightarrow> demo_inv E b l fd W s' \<and> grown (leaves_fd fd) (demo_goal g l) s s' \<and> r_chans s' = r_chans s \<and>
     el_funcQueue (r_loops s' l) = el_funcQueue (r_loops s l) \<and> r_timers s' = r_timers s \<and> n_acceptors s' = n_acceptors s"

lemma step_user:
  assumes I: "demo_inv E b l fd W s" and "b \<noteq> Serving"
  shows "demo_step E b l fd W g s (mod_loop l (\<lambda>el. el\<lparr>el_quit := True\<rparr>) s)"
proof -
  let ?t = "mod_loop l (\<lambda>el. el\<lparr>el_quit := True\<rparr>) s"
  have wf: "reactor_wf ?t" by (rule reactor_wf_mod_loop[OF demo_invD(2)[OF I]]) simp
  have "entry l ?t f = entry l s f" for f by (rule entry_cong) simp_all
  then have "demo_inv E b l fd W ?t"
    using assms(2) by (intro demo_inv_cong[OF I wf, where ts = "[]"]) (auto simp: mod_loop_def)
  then show ?thesis by (simp add: demo_step_def grown_def demo_goal_def)
qed

lemma step_emit:
  assumes I: "demo_inv E b l fd W s" and ts: "greeted ts" "\<forall>e \<in> set ts. leaves_fd fd e" "\<forall>e \<in> set ts. leaves_fd (timerfd_in l s) e"
  shows "demo_step E b l fd W g s (s\<lparr>r_trace := r_trace s @ ts\<rparr>)"
proof -
  let ?t = "s\<lparr>r_trace := r_trace s @ ts\<rparr>"
  have wf: "reactor_wf ?t" using demo_invD(2)[OF I] by (rule reactor_wf_cong) simp_all
  have "entry l ?t f = entry l s f" for f by (rule entry_cong) simp_all
  then have "demo_inv E b l fd W ?t"
    using ts(3) by (intro demo_inv_cong[OF I wf _ _ _ _ _ _ _ ts(1)]) simp_all
  then show ?thesis using ts(2) by (simp add: demo_step_def grown_def demo_goal_def timers_of_def)
qed

lemma step_timerRead:
  assumes I: "demo_inv E b l fd W s"
  shows "\<exists>s'. timerRead E (run_task E (demo_user E l) (Suc n)) l s = Inr s' \<and> demo_step E b l fd W g s s' \<and>
    (b = Waiting \<longrightarrow> el_quit (r_loops s' l))"
proof -
  note D = demo_invD[OF I]
  let ?now = "now_of E (r_trace s)"
  let ?due = "filter (\<lambda>e. entry_time e \<le> ?now) (timers_of l s)" and ?later = "filter (\<lambda>e. ?now < entry_time e) (timers_of l s)"
  obtain q ts where run: "timerRead E (run_task E (demo_user E l) (Suc n)) l s =
      Inr (mod_loop l (\<lambda>el. el\<lparr>el_timerQueue := (el_timerQueue el)\<lparr>tq_timers := ?later\<rparr>, el_quit := q\<rparr>) (s\<lparr>r_trace := r_trace s @ ts\<rparr>))"
    "q \<longleftrightarrow> el_quit (r_loops s l) \<or> ?due \<noteq> []"
    "ts = [SysNow ?now] \<or> (\<exists>w z. ts = [SysNow ?now, SysNow z, SysSettime (timerfd_in l s) (fst (getTimeDiffFromNow E w z)) (snd (getTimeDiffFromNow E w z))])"
    by (rule demo_timerRead[OF D(3,6,7), where n = n]) (assumption | rule that)+
  let ?t = "mod_loop l (\<lambda>el. el\<lparr>el_timerQueue := (el_timerQueue el)\<lparr>tq_timers := ?later\<rparr>, el_quit := q\<rparr>) (s\<lparr>r_trace := r_trace s @ ts\<rparr>)"
  have wf: "reactor_wf ?t" using D(2) by (rule reactor_wf_cong) auto
  have en: "entry l ?t f = entry l s f" for f by (rule entry_cong) simp_all
  have tq: "timers_of l ?t = ?later" "timerfd_in l ?t = timerfd_in l s" by (simp_all add: timers_of_def timerfd_in_def)
  have gr: "greeted ts" using run(3) by auto
  have ar: "armed E (timerfd_in l ?t) (r_trace ?t)" if "timers_of l ?t \<noteq> []"
  proof -
    have "timers_of l s \<noteq> []" using that by (auto simp: tq(1))
    then have a: "armed E (timerfd_in l s) (r_trace s)" by (rule D(14))
    have "armed E (timerfd_in l s) (r_trace s @ ts)" using run(3)
    proof
      assume "ts = [SysNow ?now]"
      then show ?thesis using armed_later[OF a, of ts] by simp
    next
      assume "\<exists>w z. ts = [SysNow ?now, SysNow z, SysSettime (timerfd_in l s) (fst (getTimeDiffFromNow E w z)) (snd (getTimeDiffFromNow E w z))]"
      then obtain w z where ts: "ts = [SysNow ?now, SysNow z, SysSettime (timerfd_in l s) (fst (getTimeDiffFromNow E w z)) (snd (getTimeDiffFromNow E w z))]" by blast
      show ?thesis using armed_set[of E "timerfd_in l s" "r_trace s @ [SysNow ?now]" z w z] unfolding ts by simp
    qed
    then show ?thesis by (simp add: tq(2))
  qed
  have tqa: "timerfd_in k ?t = timerfd_in k s" for k by (simp add: timerfd_in_def)
  have wft: "timers_wf ?later" by (rule timers_wf_filter[OF D(6)])
  have "?due \<noteq> []" if "all_due E l s"
  proof -
    have "timers_of l s \<noteq> []" "\<forall>e \<in> set (timers_of l s). entry_time e \<le> ?now"
      using that unfolding all_due_def by (metis append_Nil2)+
    then show ?thesis by (simp add: filter_id_conv[THEN iffD2])
  qed
  then have quits: "b = Waiting \<Longrightarrow> q" using D(10) run(2) by (auto simp: demo_phase_def)
  have ph: "demo_phase E b l fd ?t" using D(10) quits run(2) by (cases b) (auto simp: demo_phase_def timerfd_in_def timers_of_def)
  have "demo_inv E b l fd W ?t"
    by (rule demo_inv_change[OF I wf _ _ _ _ en _ _ _ _ _ ph ar tqa _ gr])
      (use D(7) wft in \<open>auto simp: tq(1)\<close>)
  moreover have "demo_goal g l s \<longrightarrow> demo_goal g l ?t"
  proof
    assume "demo_goal g l s"
    then show "demo_goal g l ?t"
    proof (cases "?due = []")
      case True
      then have "?later = timers_of l s" by (auto simp: filter_id_conv filter_empty_conv)
      with \<open>demo_goal g l s\<close> show ?thesis unfolding demo_goal_def tq(1) using run(2) by auto
    qed (use run(2) in \<open>simp add: demo_goal_def\<close>)
  qed
  moreover have "demo_goal g l ?t \<or> (\<forall>e \<in> set ts. leaves_fd fd e)"
    using quits D(9) run(3) by (cases "b = Waiting") (auto simp: demo_goal_def)
  ultimately show ?thesis using run(1) quits by (simp add: demo_step_def grown_def)
qed

lemma step_addTimer:
  assumes I: "demo_inv E b l fd W s" and ok: "demo_task E b l (TAddTimer k p) s"
  shows "\<exists>s'. addTimerInLoop E k p s = Inr s' \<and> demo_step E b l fd W g s s' \<and> timers_of l s' \<noteq> []"
proof -
  note D = demo_invD[OF I]
  obtain x T where b: "b = Asking T" "k = l" "r_timers s p = Some x" "user_timer (tm_expiration x) x" "tm_expiration x \<le> T" using ok by (auto simp: demo_task_def)
  let ?ts = "insort_insert (Entry (tm_expiration x) p) (timers_of l s)"
  let ?r = "\<lambda>u. mod_loop l (\<lambda>el. el\<lparr>el_timerQueue := (el_timerQueue el)\<lparr>tq_timers := ?ts\<rparr>\<rparr>) (s\<lparr>r_trace := r_trace s @ u\<rparr>)"
  let ?z = "now_of E (r_trace s)"
  let ?d = "getTimeDiffFromNow E (tm_expiration x) ?z"
  define u where "u = (if fst (insertTimer (tm_expiration x) p (timers_of l s))
    then [SysNow ?z, SysSettime (timerfd_in l s) (fst ?d) (snd ?d)] else [])"
  have run: "addTimerInLoop E k p s = Inr (?r u)"
    using D(3) b by (auto simp: addTimerInLoop_def assertInLoopThread_def queueInsert_def insertTimer_def resetTimerfd_eq Let_def
        set_timers_def mod_loop_def emit_def timerfd_in_def u_def)
  have wf: "reactor_wf (?r u)" using D(2) by (rule reactor_wf_cong) auto
  have en: "entry l (?r u) f = entry l s f" for f by (rule entry_cong) simp_all
  have tq: "timers_of l (?r u) = ?ts" "timerfd_in l (?r u) = timerfd_in l s" by (simp_all add: timers_of_def timerfd_in_def)
  have wft: "timers_wf ?ts" by (rule demo_timer_wf[OF I ok])
  have gr: "greeted u" "\<forall>e \<in> set u. leaves_fd fd e" using D(9) b(1) by (auto simp: u_def)
  have mem: "e \<in> set ?ts \<Longrightarrow> \<exists>x. r_timers s (entry_timer e) = Some x \<and> user_timer (entry_time e) x" for e
    using D(7) b(3,4) by (auto simp: set_insort_insert)
  have ph: "demo_phase E b l fd (?r u)" using D(10) b(1,5) by (auto simp: demo_phase_def tq set_insort_insert)
  have ar: "armed E (timerfd_in l (?r u)) (r_trace (?r u))"
  proof (cases "fst (insertTimer (tm_expiration x) p (timers_of l s))")
    case True
    then show ?thesis using armed_set[of E "timerfd_in l s" "r_trace s" ?z "tm_expiration x" ?z] unfolding tq(2) by (simp add: u_def)
  next
    case False
    then have "timers_of l s \<noteq> []" by (auto simp: insertTimer_def)
    then show ?thesis using D(14) False unfolding tq(2) by (simp add: u_def)
  qed
  have tqa: "timerfd_in k (?r u) = timerfd_in k s" for k by (simp add: timerfd_in_def)
  have "demo_inv E b l fd W (?r u)"
    by (rule demo_inv_change[OF I wf _ _ _ _ en _ _ _ _ _ ph ar tqa _ gr(1)]) (use mem wft in \<open>auto simp: tq(1)\<close>)
  moreover have "?ts \<noteq> []" using set_insort_insert[of "Entry (tm_expiration x) p" "timers_of l s"] by auto
  moreover have "demo_goal g l s \<longrightarrow> demo_goal g l (?r u)" using \<open>?ts \<noteq> []\<close> unfolding demo_goal_def tq(1) by auto
  ultimately show ?thesis using run gr(2) by (simp add: demo_step_def grown_def tq(1))
qed

text \<open>\<open>Acceptor::handleRead\<close> accepts one client, and greets it.\<close>

lemma accept_greets:
  fixes E :: "'b env" and s :: "('b, 'z) servs"
  assumes "demo_task E b l (TAcceptorRead a) s"
  shows "\<exists>c r. acceptorRead E (run_task E (demo_user E l) (Suc n)) a s =
    Inr (s\<lparr>r_trace := r_trace s @ [SysAccept (ac_sockfd (n_acceptors s a)) c, SysWrite c hello r]\<rparr>)"
proof -
  let ?fd = "ac_sockfd (n_acceptors s a)"
  obtain c peer where c: "accept_of E (r_trace s) ?fd = (c, peer)" by force
  then have "0 \<le> c" using assms by (auto simp: demo_task_def) (metis fst_conv)
  then show ?thesis
    using assms c by (intro exI[of _ c] exI[of _ "write_of E (r_trace s @ [SysAccept ?fd c]) c hello"])
      (simp add: acceptorRead_def socketAccept_def acceptSocket_def demo_task_def demo_user_def callbackFunc_def Let_def emit_def)
qed

lemma step_greet:
  assumes I: "demo_inv E b l fd W s" and ok: "demo_task E b l (TAcceptorRead a) s"
  shows "\<exists>s'. acceptorRead E (run_task E (demo_user E l) (Suc n)) a s = Inr s' \<and> demo_step E b l fd W g s s'"
  using accept_greets[OF ok, of n] step_emit[OF I, of "[SysAccept _ _, SysWrite _ hello _]"] by fastforce

lemma demo_run:
  assumes I: "demo_inv E b l fd W s" and ok: "demo_task E b l t s"
  shows "\<exists>s'. run_task E (demo_user E l) (Suc (Suc n)) t s = Inr s' \<and> demo_step E b l fd W g s s'"
proof (cases t)
  case (TUser k)
  then show ?thesis
    using demo_quits[OF demo_invD(3)[OF I], of E "Suc n" k] step_user[OF I] ok by (simp add: demo_task_def del: run_task.simps)
next
  case (TWakeupRead k)
  then have k: "k = l" using ok by (simp add: demo_task_def)
  let ?e = "SysReadI64 (el_wakeupFd (r_loops s l)) (readi64_of E (r_trace s) (el_wakeupFd (r_loops s l)))"
  have "demo_step E b l fd W g s (s\<lparr>r_trace := r_trace s @ [?e]\<rparr>)"
    by (rule step_emit[OF I]) (use demo_invD(8,13)[OF I] in simp_all)
  then show ?thesis by (simp add: TWakeupRead k wakeupRead_def Let_def emit_def)
next
  case (TTimerRead k)
  then show ?thesis using step_timerRead[OF I, of n g] ok by (auto simp: demo_task_def)
next
  case (TAddTimer k p)
  then show ?thesis using step_addTimer[OF I, of k p g] ok by auto
next
  case (TAcceptorRead a)
  then show ?thesis using step_greet[OF I, of a n g] ok by simp
qed (use ok in \<open>simp_all add: demo_task_def\<close>)

section \<open>The contract of the loop\<close>

lemma demo_handling: "demo_inv E b l fd W s \<Longrightarrow> demo_inv E b l fd W (mod_chan c (\<lambda>ch. ch\<lparr>ch_isHandling := x\<rparr>) s)"
proof -
  assume I: "demo_inv E b l fd W s"
  let ?t = "mod_chan c (\<lambda>ch. ch\<lparr>ch_isHandling := x\<rparr>) s"
  have wf: "reactor_wf ?t" by (rule reactor_wf_mod_chan[OF demo_invD(2)[OF I]]) simp_all
  have "entry l ?t f = entry l s f" for f by (rule entry_cong) simp_all
  then show ?thesis by (intro demo_inv_cong[OF I wf, where ts = "[]"]) (auto simp: mod_chan_def)
qed

lemma demo_bookkeeping:
  assumes I: "demo_inv E b l fd W s" and f: "\<And>el. el_poller (f el) = el_poller el \<and> el_threadId (f el) = el_threadId el
        \<and> el_timerQueue (f el) = el_timerQueue el \<and> el_wakeupChannel (f el) = el_wakeupChannel el
        \<and> el_wakeupFd (f el) = el_wakeupFd el \<and> el_quit (f el) = el_quit el
        \<and> set (el_funcQueue (f el)) \<subseteq> set (el_funcQueue el)"
  shows "demo_inv E b l fd W (mod_loop k f s)"
proof -
  have wf: "reactor_wf (mod_loop k f s)" by (rule reactor_wf_mod_loop[OF demo_invD(2)[OF I]]) (simp add: f)
  have en: "entry l (mod_loop k f s) fd = entry l s fd" for fd by (rule entry_cong) (simp_all add: f)
  show ?thesis
    by (rule demo_inv_cong[OF I wf _ _ _ _ en, where ts = "[]"]) (simp_all add: f)
qed

lemma demo_poll:
  assumes I: "demo_inv E b l fd W s" and t: "loopPoll E k s = Inr (now, t)"
  shows "demo_inv E b l fd W t"
proof -
  obtain act revs n cs where t:
    "t = mod_loop k (\<lambda>el. el\<lparr>el_poller := (el_poller el)\<lparr>pollfds := setRevents (pollfds (el_poller el)) revs\<rparr>, el_activeChannels := act\<rparr>)
       (s\<lparr>r_chans := cs, r_trace := r_trace s @ [SysPoll (pollRequest (el_poller (r_loops s k))) (el_maxWaitTimeM (r_loops s k)) n, SysNow now]\<rparr>)"
    and cs: "\<And>x. \<exists>r. cs x = set_revent r (r_chans s x)" and wf: "reactor_wf t" and en: "\<And>l f. entry l t f = entry l s f"
    by (rule loopPoll_shape[OF demo_invD(2)[OF I] t]) (rule that)
  have cb: "ch_errorCallback (cs c) = ch_errorCallback (r_chans s c) \<and> ch_closeCallback (cs c) = ch_closeCallback (r_chans s c) \<and>
      ch_readCallback (cs c) = ch_readCallback (r_chans s c) \<and> ch_writeCallback (cs c) = ch_writeCallback (r_chans s c)" for c
    using cs[of c] by (auto simp: set_revent_def)
  show ?thesis
    by (rule demo_inv_cong[OF I wf _ _ _ _ en, where ts =
          "[SysPoll (pollRequest (el_poller (r_loops s k))) (el_maxWaitTimeM (r_loops s k)) n, SysNow now]"])
      (use cb in \<open>simp_all add: t\<close>)
qed

interpretation demo: steady_loop E "run_task E (demo_user E l) (Suc (Suc n))" "demo_inv E b l fd W" "demo_task E b l"
  l "leaves_fd fd" "demo_goal g l" for E l n b fd W g
proof (unfold_locales, goal_cases)
  case (1 s t s')
  from demo_run[OF 1(1,2), of n g] 1(3) have "demo_step E b l fd W g s s'" by (simp del: run_task.simps)
  then show ?case using demo_task_cong[of s' s E b l] by (simp add: demo_step_def)
next
  case (2 s t c now) then show ?case using demo_invD(4) by blast
next
  case (3 s t k) then show ?case using demo_invD(5) by blast
next
  case (4 s c x) then show ?case by (rule demo_handling)
next
  case (5 s f k) then show ?case by (rule demo_bookkeeping)
next
  case (6 t k f s) then show ?case by (rule demo_task_cong) simp_all
next
  case (7 s k now s') then show ?case by (rule demo_poll)
next
  case (8 s) then show ?case by (rule demo_invD(2))
next
  case (9 s) then show ?case by (rule demo_invD(1))
next
  case (10 s t) then show ?case using demo_run by blast
next
  case (11 s t s')
  from demo_run[OF 11(1,2), of n g] 11(3) show ?case by (auto simp: demo_step_def simp del: run_task.simps)
next
  case (12 s t s')
  from demo_run[OF 12(1,2), of n g] 12(3) show ?case by (auto simp: demo_step_def simp del: run_task.simps)
next
  case (15 u s)
  then show ?case by (simp add: demo_goal_def timers_of_def)
qed simp_all

end
