(* ===== verification/DemoRuns.thy ===== *)
theory DemoRuns
  imports Demos
begin

text \<open>
  The small programs from the start of the process: each comes up in a state of its invariant; the
  two with timers end, and the one with acceptors greets its clients forever.
\<close>

section \<open>A loop comes up\<close>

text \<open>A new channel, enabled for reading; the other descriptors stay as they are.\<close>

lemma entry_None: "entry l s f = (None, z) \<Longrightarrow> loop_interest l s f = None"
  by (auto simp: entry_def loop_interest_def loop_ps_def interest_def)

lemma enable_reader:
  assumes wf: "reactor_wf s" and c: "c < r_nextChan s" "r_chans s c = ch" and fd: "0 \<le> fd" "entry l s fd = (None, None)"
    and ch: "ch_ownerLoop ch = l" "ch_fd ch = fd" "ch_events ch = 0" "ch_index ch = - 1"
  shows "\<exists>t i p. enableRead c s = Inr t \<and> reactor_wf t \<and> entry l t fd = (Some c, Some (True, 3)) \<and>
    (\<forall>k h. (k, h) \<noteq> (l, fd) \<longrightarrow> entry k t h = entry k s h) \<and>
    t = set_ps l ((r_chans s)(c := ch\<lparr>ch_events := 3, ch_index := i\<rparr>), p) s"
proof -
  have ok: "chan_ok c s"
    using c fd ch by (auto simp: chan_ok_def chan_known_def loop_ps_def entry_def)
  obtain t where t: "updateWith addReadEvent c s = Inr t"
    using updateWith_contract(1)[OF wf ok keeps_identity_ops(1)] by blast
  note k = updateWith_contract(2)[OF wf ok keeps_identity_ops(1) t, unfolded Let_def c(2) ch(1,2)]
  have ev: "addReadEvent ch = ch\<lparr>ch_events := 3\<rparr>" by (simp add: addReadEvent_def ch event_masks poll_bits)
  obtain i p where p: "t = set_ps l ((r_chans s)(c := set_index i (addReadEvent ch)), p) s" using k by blast
  have "entry l t fd = (Some c, Some (True, 3))"
    using k entry_None[OF fd(2)] unfolding ev by (simp add: entry_def watch_after_def)
  moreover have "entry k t h = entry k s h" if "(k, h) \<noteq> (l, fd)" for k h
    by (rule updateWith_entry[OF wf ok keeps_identity_ops(1) t]) (use that c(2) ch in simp)
  moreover have "t = set_ps l ((r_chans s)(c := ch\<lparr>ch_events := 3, ch_index := i\<rparr>), p) s"
    unfolding p ev by (simp add: set_index_def)
  ultimately show ?thesis using t k unfolding enable_ops by blast
qed

lemma new_reader:
  assumes wf: "reactor_wf s" and new: "newChannel l fd s = (c, s1)" and fd: "0 \<le> fd" "entry l s fd = (None, None)"
    and f: "\<And>el. el_poller (f el) = el_poller el"
    and gi: "keeps_identity g" and ge: "\<And>ch. ch_events (g ch) = ch_events ch"
  shows "\<exists>t i p. enableRead c (mod_chan c g (mod_loop l f s1)) = Inr t \<and> reactor_wf t \<and> entry l t fd = (Some c, Some (True, 3)) \<and>
    (\<forall>k h. (k, h) \<noteq> (l, fd) \<longrightarrow> entry k t h = entry k s h) \<and> c = r_nextChan s \<and>
    t = set_ps l ((r_chans s)(c := (g (mkChannel l fd))\<lparr>ch_events := 3, ch_index := i\<rparr>), p) (mod_loop l f (s\<lparr>r_nextChan := Suc c\<rparr>))"
proof -
  note n = newChannel_contract[OF wf new]
  let ?u = "mod_loop l f s1" let ?v = "mod_chan c g ?u"
  have s1: "s1 = s\<lparr>r_chans := (r_chans s)(c := mkChannel l fd), r_nextChan := Suc c\<rparr>"
    using new by (auto simp: newChannel_def Let_def)
  have wfu: "reactor_wf ?u" using n(1) by (rule reactor_wf_mod_loop) (rule f)
  have wfv: "reactor_wf ?v" using wfu by (simp add: mod_chan_identity[OF gi])
  have en: "entry k ?v h = entry k s h" for k h
  proof -
    have "entry k ?v h = entry k ?u h" by (rule entry_cong) (use gi in \<open>auto simp: keeps_identity_def\<close>)
    also have "\<dots> = entry k s1 h" by (rule entry_cong) (simp_all add: f)
    also have "\<dots> = entry k s h" by (rule entry_cong) (use reactor_wfD(3)[OF wf] n(2) in \<open>auto simp: s1\<close>)
    finally show ?thesis .
  qed
  let ?ch = "g (mkChannel l fd)"
  have ch: "r_chans ?v c = ?ch" "c < r_nextChan ?v" by (simp_all add: s1)
  have id: "ch_ownerLoop ?ch = l" "ch_fd ?ch = fd" "ch_events ?ch = 0" "ch_index ?ch = - 1"
    using gi by (simp_all add: keeps_identity_def mkChannel_def ge event_masks)
  obtain t i p where t: "enableRead c ?v = Inr t" "reactor_wf t" "entry l t fd = (Some c, Some (True, 3))"
    "\<forall>k h. (k, h) \<noteq> (l, fd) \<longrightarrow> entry k t h = entry k ?v h" "t = set_ps l ((r_chans ?v)(c := ?ch\<lparr>ch_events := 3, ch_index := i\<rparr>), p) ?v"
    using enable_reader[OF wfv ch(2,1) fd(1) fd(2)[folded en] id] by (elim exE conjE) (rule that)
  have "t = set_ps l ((r_chans s)(c := ?ch\<lparr>ch_events := 3, ch_index := i\<rparr>), p) (mod_loop l f (s\<lparr>r_nextChan := Suc c\<rparr>))"
    unfolding t(5) by (simp add: s1 set_ps_def mod_loop_def mod_chan_def)
  with t(1-4) n(2) show ?thesis unfolding en by blast
qed

text \<open>What \<open>EventLoop::EventLoop\<close> makes.\<close>

lemma newEventLoop_made:
  fixes s :: "('b, 'z) servs"
  defines "l \<equiv> r_nextLoop s" and "a \<equiv> r_nextChan s"
  assumes wf: "reactor_wf s" and t: "timerfd_of E (r_trace s) = tfd" "0 \<le> tfd"
    and e: "eventfd_of E (r_trace s @ [SysTimerfd tfd]) = efd" "0 \<le> efd" "tfd \<noteq> efd"
    and own: "r_loopOfThread s (r_tid s) = None"
  shows "\<exists>t p cs. newEventLoop E s = Inr (l, t) \<and> reactor_wf t \<and>
    t = s\<lparr>r_loopOfThread := (r_loopOfThread s)(r_tid s \<mapsto> l), r_chans := cs, r_nextChan := Suc (Suc a),
      r_loops := (r_loops s)(l := (rawLoop (r_tid s))\<lparr>el_timerQueue := \<lparr>tq_timerfd = tfd, tq_timers = [], tq_channel = a\<rparr>,
        el_wakeupFd := efd, el_wakeupChannel := Suc a, el_poller := p\<rparr>),
      r_nextLoop := Suc l, r_trace := r_trace s @ [SysTimerfd tfd, SysEventfd efd]\<rparr> \<and>
    entry l t tfd = (Some a, Some (True, 3)) \<and> entry l t efd = (Some (Suc a), Some (True, 3)) \<and>
    (\<forall>h. h \<noteq> tfd \<longrightarrow> h \<noteq> efd \<longrightarrow> entry l t h = (None, None)) \<and>
    (\<exists>i j. cs = (r_chans s)(a := (mkChannel l tfd)\<lparr>ch_readCallback := Some (\<lambda>_. TTimerRead l), ch_events := 3, ch_index := i\<rparr>,
       Suc a := (mkChannel l efd)\<lparr>ch_readCallback := Some (\<lambda>_. TWakeupRead l), ch_events := 3, ch_index := j\<rparr>))"
proof -
  let ?s0 = "mod_loop l (\<lambda>_. rawLoop (r_tid s)) (s\<lparr>r_nextLoop := Suc l\<rparr>)"
  let ?s1 = "emit (SysTimerfd tfd) ?s0"
  have wf1: "reactor_wf ?s1"
    using wf by (auto simp: reactor_wf_def loop_ps_def rawLoop_def poller_wf_mk mkPoller_def poller_wf_def)
  have en1: "entry l ?s1 h = (None, None)" for h
    by (simp add: entry_def loop_interest_def loop_ps_def rawLoop_def mkPoller_def interest_def)
  obtain c1 u1 where n1: "newChannel l tfd ?s1 = (c1, u1)" by (cases "newChannel l tfd ?s1")
  let ?f1 = "\<lambda>el. el\<lparr>el_timerQueue := \<lparr>tq_timerfd = tfd, tq_timers = [], tq_channel = c1\<rparr>\<rparr>"
  have ge: "ch_events (setReadCallback rc ch) = ch_events ch" for rc ch by (simp add: setReadCallback_def)
  have f1: "el_poller (?f1 el) = el_poller el" for el by simp
  obtain t1 i p1 where t1: "enableRead c1 (mod_chan c1 (setReadCallback (\<lambda>_. TTimerRead l)) (mod_loop l ?f1 u1)) = Inr t1"
    "reactor_wf t1" "entry l t1 tfd = (Some c1, Some (True, 3))" "\<forall>k h. (k, h) \<noteq> (l, tfd) \<longrightarrow> entry k t1 h = entry k ?s1 h" "c1 = r_nextChan ?s1"
    "t1 = set_ps l ((r_chans ?s1)(c1 := (setReadCallback (\<lambda>_. TTimerRead l) (mkChannel l tfd))\<lparr>ch_events := 3, ch_index := i\<rparr>), p1)
      (mod_loop l ?f1 (?s1\<lparr>r_nextChan := Suc c1\<rparr>))"
    using new_reader[OF wf1 n1 t(2) en1 f1 keeps_identity_ops(5)[of "\<lambda>_. TTimerRead l"] ge]
    by (elim exE conjE) (rule that)
  have q: "newTimerQueue E l ?s0 = Inr t1"
    using t1(1) n1 t(1) by (simp add: newTimerQueue_def Let_def)
  have c1: "c1 = a" using t1(5) by (simp add: a_def)
  have T1: "t1 = s\<lparr>r_chans := (r_chans s)(a := (mkChannel l tfd)\<lparr>ch_readCallback := Some (\<lambda>_. TTimerRead l), ch_events := 3, ch_index := i\<rparr>),
      r_nextChan := Suc a, r_loops := (r_loops s)(l := (rawLoop (r_tid s))\<lparr>el_timerQueue := \<lparr>tq_timerfd = tfd, tq_timers = [], tq_channel = a\<rparr>,
        el_poller := p1\<rparr>), r_nextLoop := Suc l, r_trace := r_trace s @ [SysTimerfd tfd]\<rparr>"
    unfolding t1(6) c1 by (simp add: set_ps_def mod_loop_def emit_def setReadCallback_def)
  let ?s2 = "(emit (SysEventfd efd) t1)\<lparr>r_loopOfThread := (r_loopOfThread s)(r_tid s \<mapsto> l)\<rparr>"
  have wf2: "reactor_wf ?s2" using t1(2) by (rule reactor_wf_cong) simp_all
  have en2: "entry l ?s2 h = entry l t1 h" for h by (rule entry_cong) simp_all
  have none2: "entry l ?s2 efd = (None, None)" using t1(4) e(3) en1 unfolding en2 by auto
  obtain c2 u2 where n2: "newChannel l efd ?s2 = (c2, u2)" by (cases "newChannel l efd ?s2")
  let ?f2 = "\<lambda>el. el\<lparr>el_wakeupFd := efd, el_wakeupChannel := c2\<rparr>"
  have f2: "el_poller (?f2 el) = el_poller el" for el by simp
  obtain t2 j p2 where t2: "enableRead c2 (mod_chan c2 (setReadCallback (\<lambda>_. TWakeupRead l)) (mod_loop l ?f2 u2)) = Inr t2"
    "reactor_wf t2" "entry l t2 efd = (Some c2, Some (True, 3))" "\<forall>k h. (k, h) \<noteq> (l, efd) \<longrightarrow> entry k t2 h = entry k ?s2 h" "c2 = r_nextChan ?s2"
    "t2 = set_ps l ((r_chans ?s2)(c2 := (setReadCallback (\<lambda>_. TWakeupRead l) (mkChannel l efd))\<lparr>ch_events := 3, ch_index := j\<rparr>), p2)
      (mod_loop l ?f2 (?s2\<lparr>r_nextChan := Suc c2\<rparr>))"
    using new_reader[OF wf2 n2 e(2) none2 f2 keeps_identity_ops(5)[of "\<lambda>_. TWakeupRead l"] ge]
    by (elim exE conjE) (rule that)
  have c2: "c2 = Suc a" using t2(5) by (simp add: T1)
  have T2: "t2 = s\<lparr>r_loopOfThread := (r_loopOfThread s)(r_tid s \<mapsto> l),
      r_chans := (r_chans s)(a := (mkChannel l tfd)\<lparr>ch_readCallback := Some (\<lambda>_. TTimerRead l), ch_events := 3, ch_index := i\<rparr>,
        Suc a := (mkChannel l efd)\<lparr>ch_readCallback := Some (\<lambda>_. TWakeupRead l), ch_events := 3, ch_index := j\<rparr>),
      r_nextChan := Suc (Suc a),
      r_loops := (r_loops s)(l := (rawLoop (r_tid s))\<lparr>el_timerQueue := \<lparr>tq_timerfd = tfd, tq_timers = [], tq_channel = a\<rparr>,
        el_wakeupFd := efd, el_wakeupChannel := Suc a, el_poller := p2\<rparr>),
      r_nextLoop := Suc l, r_trace := r_trace s @ [SysTimerfd tfd, SysEventfd efd]\<rparr>"
    unfolding t2(6) c2 by (simp add: set_ps_def mod_loop_def emit_def setReadCallback_def T1)
  have u2: "newChannel l efd (emit (SysEventfd efd) t1) = (c2, u2\<lparr>r_loopOfThread := r_loopOfThread s\<rparr>)"
    "(mod_loop l ?f2 (u2\<lparr>r_loopOfThread := r_loopOfThread s\<rparr>))\<lparr>r_loopOfThread := (r_loopOfThread s)(r_tid s \<mapsto> l)\<rparr> = mod_loop l ?f2 u2"
    "r_tid u2 = r_tid s"
    using n2 by (auto simp: newChannel_def Let_def mod_loop_def emit_def T1)
  have tr: "r_trace t1 = r_trace s @ [SysTimerfd tfd]" by (simp add: T1)
  have "newEventLoop E s = Inr (l, t2)"
    using q own e(1) t2(1) by (simp add: newEventLoop_def Let_def l_def[symmetric] tr u2)
  moreover have "entry l t2 tfd = (Some a, Some (True, 3))" "h \<noteq> tfd \<Longrightarrow> h \<noteq> efd \<Longrightarrow> entry l t2 h = (None, None)" for h
    using t2(4) e(3) t1(3,4) en1 unfolding c1 by (auto simp: en2)
  ultimately show ?thesis using t2(2,3) T2 unfolding c2 by blast
qed

text \<open>Steps of a setup: objects are added, the loop's own members stay.\<close>

lemma demo_inv_setup:
  assumes I: "demo_inv E b l fd W s" and wf: "reactor_wf t" and same: "r_tid t = r_tid s" "r_timers t = r_timers s"
    and task: "\<And>q. demo_task E b l q s \<Longrightarrow> demo_task E b l q t"
    and ch: "\<And>c now q. q \<in> callbacks_of (r_chans t c) now \<Longrightarrow> demo_task E b l q t \<and> (\<forall>k p. q \<noteq> TAddTimer k p)"
    and lp: "\<And>k. el_funcQueue (r_loops t k) = el_funcQueue (r_loops s k) \<and> el_threadId (r_loops t k) = el_threadId (r_loops s k) \<and>
       el_wakeupFd (r_loops t k) = el_wakeupFd (r_loops s k) \<and> el_quit (r_loops t k) = el_quit (r_loops s k) \<and>
       el_timerQueue (r_loops t k) = el_timerQueue (r_loops s k)"
    and W: "\<And>w. w \<in> W' \<Longrightarrow> watching l w t" and tr: "r_trace t = r_trace s @ ts" "greeted ts"
    and none: "timers_of l s = []"
  shows "demo_inv E b l fd W' t"
proof -
  note D = demo_invD[OF I]
  have tq: "timers_of l t = timers_of l s" "timerfd_in l t = timerfd_in l s" using lp by (simp_all add: timers_of_def timerfd_in_def)
  have "demo_phase E b l fd t" using D(10) all_due_later[OF _ tq(1) tr(1)] lp[of l] by (cases b) (auto simp: demo_phase_def tq)
  moreover have "isInLoopThread l t" using D(3) lp same(1) by (simp add: isInLoopThread_def)
  moreover have "greeted (r_trace t)" unfolding tr(1) by (rule greeted_append[OF D(12) tr(2)])
  moreover have "\<forall>k. \<forall>q \<in> set (el_funcQueue (r_loops t k)). demo_task E b l q t" using D(5) lp task by auto
  moreover have "el_wakeupFd (r_loops t l) \<noteq> fd" using D(8) lp by simp
  moreover have "el_wakeupFd (r_loops t l) \<noteq> timerfd_in l s" using D(13) lp by simp
  moreover have "el_funcQueue (r_loops t k) = []" if "k \<noteq> l" for k using D(16)[OF that] lp by simp
  ultimately show ?thesis
    using D(1,6,7,17) wf ch W none unfolding demo_inv_def tq same by blast
qed

text \<open>\<open>loop()\<close> marks the loop as running.\<close>

lemma demo_enters:
  assumes I: "demo_inv E b l fd W s" and "\<not> el_quit (r_loops s l)"
  shows "demo_inv E b l fd W (mod_loop l (\<lambda>el. el\<lparr>el_isLoopping := True, el_quit := False\<rparr>) s)" (is "demo_inv E b l fd W ?z")
proof (rule demo_inv_cong[OF I])
  show "reactor_wf ?z" by (rule reactor_wf_mod_loop[OF demo_invD(2)[OF I]]) simp
  show "entry l ?z f = entry l s f" for f by (rule entry_cong) simp_all
qed (use assms(2) in \<open>auto simp: mod_loop_def\<close>)

text \<open>The state after the loop was made.\<close>

lemma demo_loop:
  fixes E :: "'b env"
  assumes K: "boot_ok E tid" and law: "poll_law E"
  defines "tfd \<equiv> timerfd_of E []" and "efd \<equiv> eventfd_of E [SysTimerfd (timerfd_of E [])]"
  obtains t :: "'b serverstate" where "newEventLoop E (bootState E tid) = Inr (0, t)"
    "\<And>b fd. b \<noteq> Waiting \<Longrightarrow> fd \<noteq> tfd \<Longrightarrow> fd \<noteq> efd \<Longrightarrow> demo_inv E b 0 fd {(tfd, 1, 3, \<lambda>_. TTimerRead 0)} t"
    "\<And>h. h \<noteq> tfd \<Longrightarrow> h \<noteq> efd \<Longrightarrow> entry 0 t h = (None, None)" "tfd \<noteq> efd" "0 \<le> tfd" "0 \<le> efd"
    "t = (bootState E tid)\<lparr>r_loopOfThread := [tid \<mapsto> 0], r_chans := r_chans t, r_nextChan := 3, r_loops := r_loops t,
      r_nextLoop := 1, r_trace := [SysTimerfd tfd, SysEventfd efd]\<rparr>"
    "idle_chans t"
    "\<exists>p. r_loops t 0 = (rawLoop tid)\<lparr>el_timerQueue := \<lparr>tq_timerfd = tfd, tq_timers = [], tq_channel = 1\<rparr>,
        el_wakeupFd := efd, el_wakeupChannel := 2, el_poller := p\<rparr>"
proof -
  let ?s = "bootState E tid"
  have b: "r_nextLoop ?s = 0" "r_nextChan ?s = 1" "r_tid ?s = tid" "r_loopOfThread ?s = Map.empty" "r_trace ?s = []"
    by (simp_all add: bootState_def)
  have ne: "tfd \<noteq> efd" using boot_okD(8)[OF K] unfolding fds_fresh_def tfd_def efd_def by (metis append_Nil)
  have nn: "0 \<le> tfd" "0 \<le> efd" by (simp_all add: tfd_def efd_def boot_okD(1,2)[OF K])
  have fd: "timerfd_of E (r_trace ?s) = tfd" "eventfd_of E (r_trace ?s @ [SysTimerfd tfd]) = efd"
    by (simp_all add: b tfd_def efd_def)
  have n: "Suc 0 = 1" "Suc 1 = 2" "Suc 2 = 3" by simp_all
  note M = newEventLoop_made[OF bootState_wf(1) fd(1) nn(1) fd(2) nn(2) ne bootState_wf(2), unfolded b n append_Nil]
  from M obtain t p cs where
    t: "newEventLoop E ?s = Inr (0, t)" "reactor_wf t"
    "t = ?s\<lparr>r_loopOfThread := [tid \<mapsto> 0], r_chans := cs, r_nextChan := 3,
      r_loops := (r_loops ?s)(0 := (rawLoop tid)\<lparr>el_timerQueue := \<lparr>tq_timerfd = tfd, tq_timers = [], tq_channel = 1\<rparr>,
        el_wakeupFd := efd, el_wakeupChannel := 2, el_poller := p\<rparr>), r_nextLoop := 1, r_trace := [SysTimerfd tfd, SysEventfd efd]\<rparr>"
    "entry 0 t tfd = (Some 1, Some (True, 3))" "\<forall>h. h \<noteq> tfd \<longrightarrow> h \<noteq> efd \<longrightarrow> entry 0 t h = (None, None)"
    "\<exists>i j. cs = (r_chans ?s)(1 := (mkChannel 0 tfd)\<lparr>ch_readCallback := Some (\<lambda>_. TTimerRead 0), ch_events := 3, ch_index := i\<rparr>,
       2 := (mkChannel 0 efd)\<lparr>ch_readCallback := Some (\<lambda>_. TWakeupRead 0), ch_events := 3, ch_index := j\<rparr>)"
    by (elim exE conjE) (rule that, (assumption | blast)+)
  have ch: "r_chans ?s = (\<lambda>_. mkChannel 0 0)" and lp: "r_loops ?s = (\<lambda>_. rawLoop tid)" by (simp_all add: bootState_def)
  have cb: "q = TTimerRead 0 \<or> q = TWakeupRead 0" if "q \<in> callbacks_of (cs c) now" for q c now
    using t(6) that by (auto simp: ch callbacks_of_def mkChannel_def split: if_splits)
  have "demo_inv E b 0 fd {(tfd, 1, 3, \<lambda>_. TTimerRead 0)} t" if "b \<noteq> Waiting" "fd \<noteq> tfd" "fd \<noteq> efd" for b fd
    unfolding demo_inv_def
  proof (intro conjI)
    have "demo_task E b 0 (TTimerRead 0) t" "demo_task E b 0 (TWakeupRead 0) t" by (simp_all add: demo_task_def)
    moreover have "r_chans t = cs" by (simp add: t(3))
    ultimately show "\<forall>c now. \<forall>q \<in> callbacks_of (r_chans t c) now. demo_task E b 0 q t \<and> (\<forall>k p. q \<noteq> TAddTimer k p)"
      using cb by (metis task.distinct)
    show "demo_phase E b 0 fd t" using that
      by (cases b) (simp_all add: demo_phase_def t(3) timerfd_in_def timers_of_def rawLoop_def)
    show "\<forall>w \<in> {(tfd, 1, 3, \<lambda>_. TTimerRead 0)}. watching 0 w t"
      using t(4,6) by (auto simp: watching_def) (auto simp: t(3) timerfd_in_def)
    show "\<forall>tr. thread_of E tr \<noteq> r_tid t" using boot_okD(5)[OF K] by (simp add: t(3) threads_fresh_def bootState_def)
  qed (use that law t(2) ne in \<open>simp_all add: t(3) lp isInLoopThread_def rawLoop_def timers_of_def timers_wf_def timerfd_in_def bootState_def\<close>)
  moreover have "idle_chans t"
  proof -
    obtain i j where cs: "cs = (r_chans ?s)(1 := (mkChannel 0 tfd)\<lparr>ch_readCallback := Some (\<lambda>_. TTimerRead 0), ch_events := 3, ch_index := i\<rparr>,
       2 := (mkChannel 0 efd)\<lparr>ch_readCallback := Some (\<lambda>_. TWakeupRead 0), ch_events := 3, ch_index := j\<rparr>)" using t(6) by blast
    have "r_chans t = cs" by (simp add: t(3))
    then show ?thesis by (simp add: idle_chans_def cs ch mkChannel_def)
  qed
  ultimately show thesis using t(1,5) ne nn by (intro that[of t]) (simp_all add: t(3), blast)
qed


section \<open>A loop that quits\<close>

lemma runs_until_quit:
  "iterations E run l n s = Inr t \<Longrightarrow> el_quit (r_loops t l) \<Longrightarrow>
   \<exists>m u. m \<le> n \<and> iterations E run l m s = Inr u \<and> el_quit (r_loops u l) \<and> loopWhile E run l n s = Some (Inr u)"
proof (induction n arbitrary: s)
  case (Suc n)
  show ?case
  proof (cases "el_quit (r_loops s l)")
    case True
    then show ?thesis by (intro exI[of _ 0]) simp
  next
    case False
    from Suc.prems(1) obtain v where v: "loopIteration E run l s = Inr v" "iterations E run l n v = Inr t"
      by (auto simp: result_simps)
    from Suc.IH[OF v(2) Suc.prems(2)] obtain m u where "m \<le> n" "iterations E run l m v = Inr u" "el_quit (r_loops u l)"
      "loopWhile E run l n v = Some (Inr u)" by blast
    then show ?thesis using v(1) False by (intro exI[of _ "Suc m"] exI[of _ u]) simp
  qed
next
  case 0
  then show ?case by (intro exI[of _ 0] exI[of _ s]) simp
qed

lemma deletes_all:
  assumes "distinct (map entry_timer es)" and "\<And>e. e \<in> set es \<Longrightarrow> \<exists>x. r_timers s (entry_timer e) = Some x"
  shows "\<exists>ts. foldR (\<lambda>e. deleteTimer (entry_timer e)) es s = Inr (s\<lparr>r_timers := ts\<rparr>)"
  using assms
proof (induction es arbitrary: s)
  case Nil
  show ?case by (intro exI[of _ "r_timers s"]) simp
next
  case (Cons e es)
  from Cons.prems(2)[of e] obtain x where x: "r_timers s (entry_timer e) = Some x" by auto
  let ?s = "set_timer (entry_timer e) None s"
  have s: "?s = s\<lparr>r_timers := (r_timers s)(entry_timer e := None)\<rparr>" by (simp add: set_timer_def)
  have "\<exists>y. r_timers ?s (entry_timer h) = Some y" if "h \<in> set es" for h
    using Cons.prems that by (auto simp: image_iff)
  then obtain ts where "foldR (\<lambda>e. deleteTimer (entry_timer e)) es ?s = Inr (?s\<lparr>r_timers := ts\<rparr>)"
    using Cons.IH[of ?s] Cons.prems(1) by auto
  moreover have "?s\<lparr>r_timers := ts\<rparr> = s\<lparr>r_timers := ts\<rparr>" by (simp add: s)
  moreover have "deleteTimer (entry_timer e) s = Inr ?s" using x by (simp add: deleteTimer_def)
  ultimately show ?case by auto
qed

text \<open>The destructor of the loop goes through, and leaves the thread without a loop.\<close>

lemma loop_destroyed:
  assumes wf: "timers_wf (timers_of l s)" and idle: "idle_chans s"
    and live: "\<And>e. e \<in> set (timers_of l s) \<Longrightarrow> \<exists>x. r_timers s (entry_timer e) = Some x \<and> user_timer (entry_time e) x"
  shows "\<exists>t a b. dtorEventLoop E l s = Inr t \<and> r_loopOfThread t (r_tid t) = None \<and> r_tid t = r_tid s \<and>
    r_trace t = r_trace s @ [SysClose (el_wakeupFd (r_loops s l)) a, SysClose (timerfd_in l s) b]"
proof -
  let ?a = "sysClose E (el_wakeupFd (r_loops s l)) (s\<lparr>r_loopOfThread := (r_loopOfThread s)(r_tid s := None)\<rparr>)"
  let ?b = "sysClose E (timerfd_in l ?a) ?a"
  have tm: "timers_of l ?a = timers_of l s" "timerfd_in l ?a = timerfd_in l s" "r_timers ?b = r_timers s"
    by (simp_all add: sysClose_def timers_of_def timerfd_in_def)
  have "distinct (timers_of l s)" using wf by (simp add: timers_wf_def strict_sorted_iff)
  moreover have "inj_on entry_timer (set (timers_of l s))"
  proof (rule inj_onI)
    fix d e assume "d \<in> set (timers_of l s)" "e \<in> set (timers_of l s)" "entry_timer d = entry_timer e"
    then show "d = e" using live[of d] live[of e] by (cases d; cases e) (auto simp: user_timer_def)
  qed
  ultimately have "distinct (map entry_timer (timers_of l s))" by (simp add: distinct_map)
  then obtain ts where ts: "foldR (\<lambda>e. deleteTimer (entry_timer e)) (timers_of l s) ?b = Inr (?b\<lparr>r_timers := ts\<rparr>)"
    using deletes_all[of "timers_of l s" ?b] live by (fastforce simp only: tm(3))
  have "\<not> ch_isHandling (r_chans s c)" for c using idle by (simp add: idle_chans_def)
  then have "dtorEventLoop E l s = Inr (?b\<lparr>r_timers := ts\<rparr>)"
    using ts by (simp add: dtorEventLoop_def dtorTimerQueue_def tm Let_def) (simp add: dtorChannel_def sysClose_def)
  then show ?thesis unfolding tm(2) by (auto simp: sysClose_def)
qed

text \<open>From a state of the invariant that reaches its goal the loop is left.\<close>

lemma demo_leaves:
  assumes I: "demo_inv E b l fd W s" and idle: "idle_chans s"
    and t: "iterations E (run_task E (demo_user E l) 2) l n s = Inr t" "el_quit (r_loops t l)"
  shows "\<exists>u. loopWhile E (run_task E (demo_user E l) 2) l n s = Some (Inr u) \<and> el_quit (r_loops u l) \<and> demo_inv E b l fd W u \<and> idle_chans u"
proof -
  have 2: "Suc (Suc 0) = 2" by simp
  obtain m u where m: "iterations E (run_task E (demo_user E l) 2) l m s = Inr u" "el_quit (r_loops u l)"
    "loopWhile E (run_task E (demo_user E l) 2) l n s = Some (Inr u)"
    using runs_until_quit[OF t] by blast
  from demo.turns_go[OF I, where na = 0 and n = m, unfolded 2] m(1) idle have "demo_inv E b l fd W u" "idle_chans u"
    by (auto simp del: run_task.simps)
  with m show ?thesis by blast
qed


section \<open>The kernel\<close>

text \<open>
  What the programs with a timer need of \<open>timerfd_settime(2)\<close>: the descriptor is readable after
  some time, until it is read, set again or closed.  Each poll takes some time, so that time is a
  number of polls.
\<close>

definition timer_law :: "'b env \<Rightarrow> bool" where
  "timer_law E \<longleftrightarrow> (\<forall>tr fd sec nsec. 0 \<le> fd \<longrightarrow> 0 < sec \<or> 0 < nsec \<longrightarrow>
     (\<exists>K. \<forall>ts. (\<forall>e \<in> set ts. leaves_fd fd e) \<longrightarrow> K \<le> polls ts \<longrightarrow> readable_now E fd (tr @ SysSettime fd sec nsec # ts)))"

section \<open>\<open>main_version0.cc\<close>\<close>

lemma version0_up:
  fixes E :: "'b env"
  assumes K: "boot_ok E tid" and law: "poll_law E"
  defines "tfd \<equiv> timerfd_of E [SysTimerfd (timerfd_of E []), SysEventfd (eventfd_of E [SysTimerfd (timerfd_of E [])])]"
  obtains z :: "'b serverstate" where "version0Setup E (bootState E tid) = Inr (0, 3, tfd, z)" "0 \<le> tfd"
    "demo_inv E (Asking 0) 0 tfd {(tfd, 3, 3, \<lambda>_. TUser 0)} z" "idle_chans z" "\<not> el_isLoopping (r_loops z 0)"
    "\<exists>tr. r_trace z = tr @ [SysSettime tfd 5 0]" "\<not> el_quit (r_loops z 0)" "r_tid z = tid"
proof -
  let ?q0 = "timerfd_of E []" let ?q1 = "eventfd_of E [SysTimerfd ?q0]"
  let ?g = "\<lambda>ch. setWriteCallback (TUser 2) (setErrorCallback (TUser 1) (setReadCallback (\<lambda>_. TUser 0) ch))"
  obtain t :: "'b serverstate" where t: "newEventLoop E (bootState E tid) = Inr (0, t)"
    "\<And>b fd. b \<noteq> Waiting \<Longrightarrow> fd \<noteq> ?q0 \<Longrightarrow> fd \<noteq> ?q1 \<Longrightarrow> demo_inv E b 0 fd {(?q0, 1, 3, \<lambda>_. TTimerRead 0)} t"
    "\<And>h. h \<noteq> ?q0 \<Longrightarrow> h \<noteq> ?q1 \<Longrightarrow> entry 0 t h = (None, None)" "?q0 \<noteq> ?q1" "0 \<le> ?q0" "0 \<le> ?q1"
    "t = (bootState E tid)\<lparr>r_loopOfThread := [tid \<mapsto> 0], r_chans := r_chans t, r_nextChan := 3, r_loops := r_loops t,
      r_nextLoop := 1, r_trace := [SysTimerfd ?q0, SysEventfd ?q1]\<rparr>"
    "idle_chans t"
    "\<exists>p. r_loops t 0 = (rawLoop tid)\<lparr>el_timerQueue := \<lparr>tq_timerfd = ?q0, tq_timers = [], tq_channel = 1\<rparr>,
        el_wakeupFd := ?q1, el_wakeupChannel := 2, el_poller := p\<rparr>"
    by (rule demo_loop[OF K law]) (rule that)
  have tr: "r_trace t = [SysTimerfd ?q0, SysEventfd ?q1]" "r_nextChan t = 3" by (subst t(7), simp)+
  have "tfd \<notin> open_fds [SysTimerfd ?q0, SysEventfd ?q1]" and fd: "0 \<le> tfd" using K unfolding boot_ok_def tfd_def by blast+
  then have ne: "tfd \<noteq> ?q0" "tfd \<noteq> ?q1" by (auto simp: open_fds_def)
  let ?s = "emit (SysTimerfd tfd) t"
  note I = t(2)[OF _ ne, of "Asking 0", simplified]
  have wf: "reactor_wf ?s" using demo_invD(2)[OF I] by (rule reactor_wf_cong) simp_all
  have en: "entry 0 ?s h = entry 0 t h" for h by (rule entry_cong) simp_all
  obtain c s1 where n: "newChannel 0 tfd ?s = (c, s1)" by (cases "newChannel 0 tfd ?s")
  have gi: "keeps_identity ?g" by (simp add: keeps_identity_def setReadCallback_def setErrorCallback_def setWriteCallback_def)
  have ge: "ch_events (?g ch) = ch_events ch" for ch by (simp add: setReadCallback_def setErrorCallback_def setWriteCallback_def)
  obtain u i p where u: "enableRead c (mod_chan c ?g (mod_loop 0 (\<lambda>el. el) s1)) = Inr u" "reactor_wf u"
    "entry 0 u tfd = (Some c, Some (True, 3))" "\<forall>k h. (k, h) \<noteq> (0, tfd) \<longrightarrow> entry k u h = entry k ?s h" "c = r_nextChan ?s"
    "u = set_ps 0 ((r_chans ?s)(c := (?g (mkChannel 0 tfd))\<lparr>ch_events := 3, ch_index := i\<rparr>), p) (mod_loop 0 (\<lambda>el. el) (?s\<lparr>r_nextChan := Suc c\<rparr>))"
    using new_reader[OF wf n fd en[of tfd, unfolded t(3)[OF ne]] refl[of "el_poller _"] gi ge]
    by (elim exE conjE) (rule that)
  have c: "c = 3" using u(5) by (simp add: tr)
  have id: "mod_loop 0 (\<lambda>el. el) x = x" for x :: "'b serverstate" by (simp add: mod_loop_def)
  have fuse: "mod_chan c (setWriteCallback (TUser 2)) (mod_chan c (setErrorCallback (TUser 1)) (mod_chan c (setReadCallback (\<lambda>_. TUser 0)) x)) = mod_chan c ?g x"
    for x :: "'b serverstate" by (simp add: mod_chan_def)
  let ?z = "emit (SysSettime tfd 5 0) u"
  have U: "u = ?s\<lparr>r_chans := (r_chans t)(3 := (?g (mkChannel 0 tfd))\<lparr>ch_events := 3, ch_index := i\<rparr>),
      r_loops := (r_loops t)(0 := (r_loops t 0)\<lparr>el_poller := p\<rparr>), r_nextChan := 4\<rparr>"
    unfolding u(6) c by (simp add: set_ps_def mod_loop_def emit_def)
  have run: "version0Setup E (bootState E tid) = Inr (0, 3, tfd, ?z)"
    using t(1) u(1) n by (simp add: version0Setup_def tr fuse[unfolded c] id Let_def c tfd_def[symmetric] del: One_nat_def)
  have "demo_inv E (Asking 0) 0 tfd {(tfd, 3, 3, \<lambda>_. TUser 0)} ?z"
  proof (rule demo_inv_setup[OF I])
    show "reactor_wf ?z" using u(2) by (rule reactor_wf_cong) simp_all
    show "r_tid ?z = r_tid t" "r_timers ?z = r_timers t" by (simp_all add: U)
    show task: "demo_task E (Asking 0) 0 q ?z" if "demo_task E (Asking 0) 0 q t" for q
      using that demo_task_cong[of ?z t E "Asking 0" 0 q] by (simp add: U)
    show "demo_task E (Asking 0) 0 q ?z \<and> (\<forall>k p. q \<noteq> TAddTimer k p)" if "q \<in> callbacks_of (r_chans ?z x) now" for x now q
    proof (cases "x = 3")
      case True
      then show ?thesis using that
        by (auto simp: U callbacks_of_def setReadCallback_def setErrorCallback_def setWriteCallback_def mkChannel_def demo_task_def split: if_splits)
    next
      case False
      then have "r_chans ?z x = r_chans t x" by (simp add: U)
      then show ?thesis using that demo_invD(4,15)[OF I] task by metis
    qed
    show "watching 0 w ?z" if "w \<in> {(tfd, 3, 3, \<lambda>_. TUser 0)}" for w
    proof -
      have "entry 0 ?z tfd = entry 0 u tfd" by (rule entry_cong) simp_all
      then show ?thesis using that u(3)
        by (simp add: watching_def c) (simp add: U setReadCallback_def setErrorCallback_def setWriteCallback_def)
    qed
    show "r_trace ?z = r_trace t @ [SysTimerfd tfd, SysSettime tfd 5 0]" by (simp add: U)
    show "timers_of 0 t = []" using t(9) by (auto simp: timers_of_def)
  qed (simp_all add: U)
  moreover have "idle_chans ?z" using t(8)
    by (simp add: idle_chans_def U setReadCallback_def setErrorCallback_def setWriteCallback_def mkChannel_def)
  moreover have "\<not> el_isLoopping (r_loops ?z 0)" "\<not> el_quit (r_loops ?z 0)" using t(9) by (auto simp: U rawLoop_def)
  moreover have "r_tid ?z = tid" by (simp add: U) (subst t(7), simp add: bootState_def)
  moreover have "r_trace ?z = (r_trace t @ [SysTimerfd tfd]) @ [SysSettime tfd 5 0]" by (simp add: U)
  ultimately show thesis using run fd by (intro that[of ?z] exI) assumption
qed


text \<open>A loop that waits for a descriptor of a timer, whose callback quits it, ends.\<close>

lemma awaited_quits:
  fixes s :: "('b, 'z) servs"
  assumes I: "demo_inv E b l fd W s" and set: "r_trace s = tr @ SysSettime fd sec nsec # ts0" "\<forall>e \<in> set ts0. leaves_fd fd e"
    and law: "timer_law E" and pos: "0 \<le> fd" "0 < sec \<or> 0 < nsec" and w: "(fd, x, 3, g) \<in> W"
    and quits: "\<And>now (u :: ('b, 'z) servs) u'. demo_inv E b l fd W u \<Longrightarrow> run_task E (demo_user E l) 2 (g now) u = Inr u' \<Longrightarrow> el_quit (r_loops u' l)"
  shows "\<exists>n t. iterations E (run_task E (demo_user E l) 2) l n s = Inr t \<and> el_quit (r_loops t l)"
proof -
  obtain K where K: "\<And>ts. \<forall>e \<in> set ts. leaves_fd fd e \<Longrightarrow> K \<le> polls ts \<Longrightarrow> readable_now E fd (tr @ SysSettime fd sec nsec # ts)"
    using law pos unfolding timer_law_def by blast
  have 2: "Suc (Suc 0) = 2" by simp
  have reg: "\<exists>x e. entry l t fd = (Some x, Some (True, e)) \<and> bit e 0 \<and> ch_readCallback (r_chans t x) = Some g"
    if "demo_inv E b l fd W t" for t :: "('b, 'z) servs"
    using demo_invD(11)[OF that w] by (auto simp: watching_def intro!: exI[of _ x] exI[of _ 3])
  have ready: "readable_now E fd (r_trace s @ ts)" if "\<forall>e \<in> set ts. leaves_fd fd e" "K \<le> polls ts" for ts
    using K[of "ts0 @ ts"] that set(2) by (simp add: set(1)) (metis Un_iff)
  have goal: "demo_goal False l u'" if "demo_inv E b l fd W u" "run_task E (demo_user E l) 2 (g now) u = Inr u'" for now and u u' :: "('b, 'z) servs"
    using quits[OF that] by (simp add: demo_goal_def)
  have "\<exists>t. iterations E (run_task E (demo_user E l) 2) l (Suc K) s = Inr t \<and> demo_inv E b l fd W t \<and> demo_goal False l t \<and>
      (idle_chans s \<longrightarrow> idle_chans t)"
    by (rule demo.readable_reaches[where n = 0 and g = g and f = fd, unfolded 2, OF I]) (assumption | rule reg ready goal)+
  moreover have "demo_goal False l t \<longleftrightarrow> el_quit (r_loops t l)" for t :: "('b, 'z) servs" by (simp add: demo_goal_def)
  ultimately show ?thesis by blast
qed


text \<open>The law of timers holds where every descriptor is always readable.\<close>

lemma busy_timers: "timer_law busyEnv" "poll_law busyEnv"
proof -
  have "readable_now busyEnv fd tr" if "0 \<le> fd" for fd tr using that by (simp add: readable_now_def) (simp add: busyEnv_def)
  then show "timer_law busyEnv" by (simp add: timer_law_def)
  show "poll_law busyEnv" using busy_laws(1) by (simp add: kernel_ok_def poll_ok_def poll_law_def)
qed


end
