(* ===== verification/Greeting.thy ===== *)
theory Greeting
  imports DemoRuns
begin

text \<open>
  \<open>Server/main_Acceptor.cc\<close> from the start of the process: both acceptors come up, no turn of the
  loop stops the program, and whoever connects is greeted.
\<close>

section \<open>An acceptor comes up\<close>

lemma newAcceptor_made:
  assumes "socket_of E (r_trace s) = fd" "0 \<le> fd" and "\<And>tr. 0 \<le> bind_of E tr fd addr"
  shows "\<exists>x y. newAcceptor E l addr s = Inr (n_nextAcceptor s, s\<lparr>n_nextAcceptor := Suc (n_nextAcceptor s),
      r_nextChan := Suc (r_nextChan s),
      n_acceptors := (n_acceptors s)(n_nextAcceptor s := \<lparr>ac_loop = l, ac_cb = None, ac_sockfd = fd, ac_channel = r_nextChan s, ac_listening = False\<rparr>),
      r_trace := r_trace s @ [SysSocket fd, SysSetsockopt fd SOL_SOCKET SO_REUSEADDR True x, SysBind fd addr y],
      r_chans := (r_chans s)(r_nextChan s := (mkChannel l fd)\<lparr>ch_readCallback := Some (\<lambda>_. TAcceptorRead (n_nextAcceptor s))\<rparr>)\<rparr>)"
proof -
  let ?x = "setsockopt_of E (r_trace s @ [SysSocket fd]) fd SOL_SOCKET SO_REUSEADDR True"
  let ?y = "bind_of E (r_trace s @ [SysSocket fd, SysSetsockopt fd SOL_SOCKET SO_REUSEADDR True ?x]) fd addr"
  have nl: "bind_of E tr fd addr < 0 \<longleftrightarrow> False" for tr using assms(3)[of tr] by simp
  show ?thesis
    using assms(1,2) by (intro exI[of _ ?x] exI[of _ ?y]) (auto simp: newAcceptor_def createNonblockingOrDie_def bindAddress_def bindOrDie_def Let_def nl newChannel_def
        setReuseAddr_def sysSetsockopt_def mod_chan_def mod_acceptor_def emit_def setReadCallback_def)
qed

lemma newAcceptor_wf:
  assumes "reactor_wf s" and "socket_of E (r_trace s) = fd" "0 \<le> fd" and "entry l s fd = (None, None)"
    and "\<And>tr. 0 \<le> bind_of E tr fd addr" and "newAcceptor E l addr s = Inr (a, u)"
  shows "reactor_wf u"
  using newAcceptor_contract[of s E fd l addr] assms entry_None[OF assms(4)] by auto

lemma acceptorListen_made:
  assumes wf: "reactor_wf s" and ac: "n_acceptors s a = \<lparr>ac_loop = l, ac_cb = cb, ac_sockfd = fd, ac_channel = c, ac_listening = w\<rparr>"
    and thr: "isInLoopThread l s" and c: "c < r_nextChan s" "r_chans s c = (mkChannel l fd)\<lparr>ch_readCallback := rc\<rparr>"
    and fd: "0 \<le> fd" "entry l s fd = (None, None)" and lis: "\<And>tr. 0 \<le> listen_of E tr fd"
  shows "\<exists>t i p z. acceptorListen E a s = Inr t \<and> reactor_wf t \<and> entry l t fd = (Some c, Some (True, 3)) \<and>
    (\<forall>k h. (k, h) \<noteq> (l, fd) \<longrightarrow> entry k t h = entry k s h) \<and>
    t = set_ps l ((r_chans s)(c := (mkChannel l fd)\<lparr>ch_readCallback := rc, ch_events := 3, ch_index := i\<rparr>), p)
      (emit (SysListen fd z) (mod_acceptor a (\<lambda>ac. ac\<lparr>ac_listening := True\<rparr>) s))"
proof -
  let ?v = "emit (SysListen fd (listen_of E (r_trace s) fd)) (mod_acceptor a (\<lambda>ac. ac\<lparr>ac_listening := True\<rparr>) s)"
  have nl: "listen_of E tr fd < 0 \<longleftrightarrow> False" for tr using lis[of tr] by simp
  have run: "acceptorListen E a s = enableRead c ?v"
    using thr ac by (simp add: acceptorListen_def assertInLoopThread_def Let_def socketListen_def listenOrDie_def nl)
  have en: "entry k ?v h = entry k s h" for k h by (rule entry_cong) simp_all
  have v: "reactor_wf ?v" "c < r_nextChan ?v" "r_chans ?v c = (mkChannel l fd)\<lparr>ch_readCallback := rc\<rparr>" "entry l ?v fd = (None, None)"
    using same_reactor[of ?v s] wf c fd(2) by (simp_all add: en)
  obtain t i p where "enableRead c ?v = Inr t" "reactor_wf t" "entry l t fd = (Some c, Some (True, 3))"
    "\<forall>k h. (k, h) \<noteq> (l, fd) \<longrightarrow> entry k t h = entry k ?v h"
    "t = set_ps l ((r_chans ?v)(c := (mkChannel l fd)\<lparr>ch_readCallback := rc, ch_events := 3, ch_index := i\<rparr>), p) ?v"
    using enable_reader[OF v(1-3) fd(1) v(4)] by (simp add: mkChannel_def event_masks) blast
  then show ?thesis unfolding run en by auto
qed

section \<open>The program comes up\<close>

definition accepts_well :: "'b env \<Rightarrow> bool" where
  "accepts_well E \<longleftrightarrow> (\<forall>tr fd. 0 \<le> fst (accept_of E tr fd))"

lemma acceptor_up:
  fixes E :: "'b env"
  assumes K: "boot_ok E tid" and law: "poll_law E" and acc: "accepts_well E"
  obtains q1 q2 and z :: "'b serverstate" where "acceptorSetup E (bootState E tid) = Inr (0, 0, 1, z)" "q1 \<noteq> q2"
    "demo_inv E Serving 0 (- 2) {(q1, 3, 3, \<lambda>_. TAcceptorRead 0), (q2, 4, 3, \<lambda>_. TAcceptorRead 1)} z"
    "idle_chans z" "\<not> el_isLoopping (r_loops z 0)" "\<not> el_quit (r_loops z 0)"
proof -
  let ?q0 = "timerfd_of E []" let ?qe = "eventfd_of E [SysTimerfd ?q0]"
  obtain t :: "'b serverstate" where t: "newEventLoop E (bootState E tid) = Inr (0, t)"
    "\<And>b fd. b \<noteq> Waiting \<Longrightarrow> fd \<noteq> ?q0 \<Longrightarrow> fd \<noteq> ?qe \<Longrightarrow> demo_inv E b 0 fd {(?q0, 1, 3, \<lambda>_. TTimerRead 0)} t"
    "\<And>h. h \<noteq> ?q0 \<Longrightarrow> h \<noteq> ?qe \<Longrightarrow> entry 0 t h = (None, None)" "?q0 \<noteq> ?qe" "0 \<le> ?q0" "0 \<le> ?qe"
    "t = (bootState E tid)\<lparr>r_loopOfThread := [tid \<mapsto> 0], r_chans := r_chans t, r_nextChan := 3, r_loops := r_loops t,
      r_nextLoop := 1, r_trace := [SysTimerfd ?q0, SysEventfd ?qe]\<rparr>"
    "idle_chans t"
    "\<exists>p. r_loops t 0 = (rawLoop tid)\<lparr>el_timerQueue := \<lparr>tq_timerfd = ?q0, tq_timers = [], tq_channel = 1\<rparr>,
        el_wakeupFd := ?qe, el_wakeupChannel := 2, el_poller := p\<rparr>"
    by (rule demo_loop[OF K law]) (rule that)
  have t0: "r_trace t = [SysTimerfd ?q0, SysEventfd ?qe]" "r_nextChan t = 3" "n_nextAcceptor t = 0"
    by (subst t(7), simp add: bootState_def)+
  have I: "demo_inv E Serving 0 (- 2) {(?q0, 1, 3, \<lambda>_. TTimerRead 0)} t" using t(5,6) by (intro t(2)) auto
  note D = demo_invD[OF I]
  have bnd: "0 \<le> bind_of E tr fd addr" and lis: "0 \<le> listen_of E tr fd" for tr fd addr using boot_okD[OF K] by blast+
  define q1 where "q1 = socket_of E (r_trace t)"
  have q1: "0 \<le> q1" "q1 \<noteq> ?q0" "q1 \<noteq> ?qe"
    using boot_okD(3,4)[OF K, of "r_trace t"] by (auto simp: q1_def t0 open_fds_def)
  obtain u x1 y1 where u: "newAcceptor E 0 (Inet 2333) t = Inr (0, u)" "u = t\<lparr>n_nextAcceptor := 1, r_nextChan := 4,
      n_acceptors := (n_acceptors t)(0 := \<lparr>ac_loop = 0, ac_cb = None, ac_sockfd = q1, ac_channel = 3, ac_listening = False\<rparr>),
      r_trace := r_trace t @ [SysSocket q1, SysSetsockopt q1 SOL_SOCKET SO_REUSEADDR True x1, SysBind q1 (Inet 2333) y1],
      r_chans := (r_chans t)(3 := (mkChannel 0 q1)\<lparr>ch_readCallback := Some (\<lambda>_. TAcceptorRead 0)\<rparr>)\<rparr>"
    using newAcceptor_made[where addr = "Inet 2333" and l = 0, OF q1_def[symmetric] q1(1) bnd] by (auto simp: t0)
  define q2 where "q2 = socket_of E (r_trace u)"
  have q2: "0 \<le> q2" "q2 \<noteq> ?q0" "q2 \<noteq> ?qe" "q2 \<noteq> q1"
    using boot_okD(3,4)[OF K, of "r_trace u"] by (auto simp: q2_def u(2) t0 open_fds_def)
  have u0: "n_nextAcceptor u = 1" "r_nextChan u = 4" "Suc 1 = 2" "Suc 4 = 5" by (simp_all add: u(2))
  obtain v x2 y2 where v: "newAcceptor E 0 (Inet 3332) u = Inr (1, v)" "v = u\<lparr>n_nextAcceptor := 2, r_nextChan := 5,
      n_acceptors := (n_acceptors u)(1 := \<lparr>ac_loop = 0, ac_cb = None, ac_sockfd = q2, ac_channel = 4, ac_listening = False\<rparr>),
      r_trace := r_trace u @ [SysSocket q2, SysSetsockopt q2 SOL_SOCKET SO_REUSEADDR True x2, SysBind q2 (Inet 3332) y2],
      r_chans := (r_chans u)(4 := (mkChannel 0 q2)\<lparr>ch_readCallback := Some (\<lambda>_. TAcceptorRead 1)\<rparr>)\<rparr>"
    using newAcceptor_made[where addr = "Inet 3332" and l = 0, OF q2_def[symmetric] q2(1) bnd] unfolding u0 by blast
  let ?cb = "\<lambda>fd addr. TUserAccept 0 fd addr"
  let ?w = "setNewConnectionCallback 1 ?cb (setNewConnectionCallback 0 ?cb v)"
  have old: "c \<noteq> 3 \<and> c \<noteq> 4" if "channels (el_poller (r_loops t k)) h = Some c" for k h c
    using reactor_wfD(3)[OF D(2) that] by (simp add: t0)
  have en: "entry k ?w h = entry k t h" for k h
    by (rule entry_cong) (use old in \<open>auto simp: setNewConnectionCallback_def v(2) u(2)\<close>)
  have wfu: "reactor_wf u" by (rule newAcceptor_wf[OF D(2) q1_def[symmetric] q1(1) t(3)[OF q1(2,3)] bnd u(1)])
  have "entry 0 u q2 = entry 0 t q2" by (rule entry_cong) (use old in \<open>auto simp: u(2)\<close>)
  then have "entry 0 u q2 = (None, None)" by (simp only: t(3)[OF q2(2,3)])
  then have "reactor_wf v" by (rule newAcceptor_wf[OF wfu q2_def[symmetric] q2(1) _ bnd v(1)])
  then have wf: "reactor_wf ?w" using same_reactor[of ?w v] by (simp add: setNewConnectionCallback_def)
  have thr: "isInLoopThread 0 ?w" using D(3) by (simp add: isInLoopThread_def setNewConnectionCallback_def v(2) u(2))
  have W: "n_acceptors ?w 0 = \<lparr>ac_loop = 0, ac_cb = Some ?cb, ac_sockfd = q1, ac_channel = 3, ac_listening = False\<rparr>"
    "n_acceptors ?w 1 = \<lparr>ac_loop = 0, ac_cb = Some ?cb, ac_sockfd = q2, ac_channel = 4, ac_listening = False\<rparr>"
    "3 < r_nextChan ?w" "r_chans ?w 3 = (mkChannel 0 q1)\<lparr>ch_readCallback := Some (\<lambda>_. TAcceptorRead 0)\<rparr>"
    "entry 0 ?w q1 = (None, None)" using t(3)[OF q1(2,3)] unfolding en by (simp_all add: setNewConnectionCallback_def v(2) u(2))
  obtain x i p z1 where x: "acceptorListen E 0 ?w = Inr x" "reactor_wf x" "entry 0 x q1 = (Some 3, Some (True, 3))"
    "\<forall>k h. (k, h) \<noteq> (0, q1) \<longrightarrow> entry k x h = entry k ?w h"
    "x = set_ps 0 ((r_chans ?w)(3 := (mkChannel 0 q1)\<lparr>ch_readCallback := Some (\<lambda>_. TAcceptorRead 0), ch_events := 3, ch_index := i\<rparr>), p)
      (emit (SysListen q1 z1) (mod_acceptor 0 (\<lambda>ac. ac\<lparr>ac_listening := True\<rparr>) ?w))"
    using acceptorListen_made[OF wf W(1) thr W(3,4) q1(1) W(5) lis] by (elim exE conjE) (rule that)
  have thrx: "isInLoopThread 0 x" using thr by (simp add: isInLoopThread_def x(5) set_ps_def)
  have X: "n_acceptors x 1 = \<lparr>ac_loop = 0, ac_cb = Some ?cb, ac_sockfd = q2, ac_channel = 4, ac_listening = False\<rparr>"
    "4 < r_nextChan x" "r_chans x 4 = (mkChannel 0 q2)\<lparr>ch_readCallback := Some (\<lambda>_. TAcceptorRead 1)\<rparr>"
    using W(2) by (simp_all add: x(5) set_ps_def) (simp_all add: setNewConnectionCallback_def v(2))
  have X4: "entry 0 x q2 = (None, None)" using x(4)[rule_format, of 0 q2] q2(4) en[of 0 q2] t(3)[OF q2(2,3)] by (simp del: One_nat_def)
  obtain y j p' z2 where y: "acceptorListen E 1 x = Inr y" "reactor_wf y" "entry 0 y q2 = (Some 4, Some (True, 3))"
    "\<forall>k h. (k, h) \<noteq> (0, q2) \<longrightarrow> entry k y h = entry k x h"
    "y = set_ps 0 ((r_chans x)(4 := (mkChannel 0 q2)\<lparr>ch_readCallback := Some (\<lambda>_. TAcceptorRead 1), ch_events := 3, ch_index := j\<rparr>), p')
      (emit (SysListen q2 z2) (mod_acceptor 1 (\<lambda>ac. ac\<lparr>ac_listening := True\<rparr>) x))"
    using acceptorListen_made[OF x(2) X(1) thrx X(2,3) q2(1) X4 lis] by (elim exE conjE) (rule that)
  have run: "acceptorSetup E (bootState E tid) = Inr (0, 0, 1, y)"
    using t(1) u(1) v(1) x(1) y(1) by (simp add: acceptorSetup_def Let_def)
  have ch: "r_chans y = (r_chans t)(3 := (mkChannel 0 q1)\<lparr>ch_readCallback := Some (\<lambda>_. TAcceptorRead 0), ch_events := 3, ch_index := i\<rparr>,
      4 := (mkChannel 0 q2)\<lparr>ch_readCallback := Some (\<lambda>_. TAcceptorRead 1), ch_events := 3, ch_index := j\<rparr>)"
    by (simp add: y(5) x(5)) (simp add: setNewConnectionCallback_def v(2) u(2))
  have lp: "el_funcQueue (r_loops y k) = el_funcQueue (r_loops t k) \<and> el_threadId (r_loops y k) = el_threadId (r_loops t k) \<and>
      el_wakeupFd (r_loops y k) = el_wakeupFd (r_loops t k) \<and> el_quit (r_loops y k) = el_quit (r_loops t k) \<and>
      el_timerQueue (r_loops y k) = el_timerQueue (r_loops t k) \<and> el_isLoopping (r_loops y k) = el_isLoopping (r_loops t k)" for k
    by (simp add: y(5) x(5) set_ps_def) (simp add: setNewConnectionCallback_def v(2) u(2))
  have acs [unfolded One_nat_def]: "ac_cb (n_acceptors y 0) = Some ?cb" "ac_cb (n_acceptors y 1) = Some ?cb" "ac_sockfd (n_acceptors y 0) = q1" "ac_sockfd (n_acceptors y 1) = q2"
    using W(1,2) by (simp_all add: y(5) x(5) set_ps_def)
  have st: "r_tid y = r_tid t" "r_timers y = r_timers t" by (simp_all add: y(5) x(5) setNewConnectionCallback_def v(2) u(2))
  have none: "ac_cb (n_acceptors t a) = None" for a by (subst t(7)) (simp add: bootState_def)
  have task: "demo_task E Serving 0 q y" if "demo_task E Serving 0 q t" for q
    using that none by (auto simp: demo_task_def st split: task.splits)
  have acc': "demo_task E Serving 0 (TAcceptorRead 0) y" "demo_task E Serving 0 (TAcceptorRead 1) y"
    using acc acs by (simp_all add: demo_task_def accepts_well_def)
  have "demo_inv E Serving 0 (- 2) {(q1, 3, 3, \<lambda>_. TAcceptorRead 0), (q2, 4, 3, \<lambda>_. TAcceptorRead 1)} y"
  proof (rule demo_inv_setup[OF I y(2) st task])
    show "demo_task E Serving 0 q y \<and> (\<forall>k p. q \<noteq> TAddTimer k p)" if "q \<in> callbacks_of (r_chans y c) now" for c now q
    proof (cases "c = 3 \<or> c = 4")
      case True
      then show ?thesis using that acc' by (auto simp: ch callbacks_of_def mkChannel_def)
    next
      case False
      then have "r_chans y c = r_chans t c" by (simp add: ch)
      then show ?thesis using that D(4,15) task by metis
    qed
    show "watching 0 w y" if "w \<in> {(q1, 3, 3, \<lambda>_. TAcceptorRead 0), (q2, 4, 3, \<lambda>_. TAcceptorRead 1)}" for w
      using that y(3,4) x(3) q2(4) by (auto simp: watching_def acs) (simp_all add: ch)
    show "r_trace y = r_trace t @ [SysSocket q1, SysSetsockopt q1 SOL_SOCKET SO_REUSEADDR True x1, SysBind q1 (Inet 2333) y1,
        SysSocket q2, SysSetsockopt q2 SOL_SOCKET SO_REUSEADDR True x2, SysBind q2 (Inet 3332) y2, SysListen q1 z1, SysListen q2 z2]"
      by (simp add: y(5) x(5)) (simp add: setNewConnectionCallback_def v(2) u(2))
    show "timers_of 0 t = []" using t(9) by (auto simp: timers_of_def)
  qed (use lp in simp_all)
  moreover have "idle_chans y" using t(8) by (simp add: idle_chans_def ch mkChannel_def)
  moreover have "\<not> el_isLoopping (r_loops y 0)" "\<not> el_quit (r_loops y 0)" using t(9) lp by (auto simp: rawLoop_def)
  ultimately show thesis using run q2(4) by (intro that) auto
qed

section \<open>Whoever connects is greeted\<close>

lemma turn_greets:
  assumes I: "demo_inv E b l fd W s" and w: "(q, x, 3, \<lambda>_. TAcceptorRead a) \<in> W" and r: "readable_now E q (r_trace s)"
    and u: "loopIteration E (run_task E (demo_user E l) 2) l s = Inr u"
  shows "\<exists>ts c. r_trace u = r_trace s @ ts \<and> SysAccept q c \<in> set ts"
proof -
  have 2: "Suc (Suc 0) = 2" "Suc 1 = 2" by simp_all
  let ?run = "run_task E (demo_user E l) 2"
  have "entry l s q = (Some x, Some (True, 3))" "ch_readCallback (r_chans s x) = Some (\<lambda>_. TAcceptorRead a)"
    using demo_invD(11)[OF I w] by (simp_all add: watching_def)
  moreover from demo.turn_goes[where n = 0 and g = False, unfolded 2(1), OF I] obtain u' where
    u': "loopIteration E ?run l s = Inr u'" "\<forall>f x e g. entry l s f = (Some x, Some (True, e)) \<longrightarrow> bit e 0 \<longrightarrow> readable_now E f (r_trace s) \<longrightarrow>
      ch_readCallback (r_chans s x) = Some g \<longrightarrow> (\<exists>now v v'. demo_inv E b l fd W v \<and> grown (leaves_fd fd) (demo_goal False l) s v \<and>
        ?run (g now) v = Inr v' \<and> grown (leaves_fd fd) (demo_goal False l) v' u')" by blast
  moreover have "u' = u" using u u'(1) by simp
  moreover have "bit (3 :: 16 word) 0" by simp
  ultimately obtain v v' where v: "demo_inv E b l fd W v" "grown (leaves_fd fd) (demo_goal False l) s v"
    "?run (TAcceptorRead a) v = Inr v'" "grown (leaves_fd fd) (demo_goal False l) v' u"
    using r by metis
  have "ch_readCallback (r_chans v x) = Some (\<lambda>_. TAcceptorRead a)" "ac_sockfd (n_acceptors v a) = q"
    using demo_invD(11)[OF v(1) w] by (simp_all add: watching_def)
  then have "demo_task E b l (TAcceptorRead a) v" using demo_invD(4)[OF v(1), of "TAcceptorRead a" x] by (auto simp: callbacks_of_def)
  from accept_greets[OF this, of 0] obtain c z where "v' = v\<lparr>r_trace := r_trace v @ [SysAccept q c, SysWrite c hello z]\<rparr>"
    using v(3) \<open>ac_sockfd _ = q\<close> by (auto simp: numeral_2_eq_2)
  then show ?thesis using v(2,4) by (auto simp: grown_def)
qed

lemma loopWhile_never:
  "(\<And>n. \<exists>t. iterations E run l n s = Inr t \<and> \<not> el_quit (r_loops t l)) \<Longrightarrow> loopWhile E run l fuel s = None"
proof (induction fuel arbitrary: s)
  case 0
  from 0[of 0] show ?case by simp
next
  case (Suc fuel)
  from Suc.prems[of 0] have q: "\<not> el_quit (r_loops s l)" by simp
  from Suc.prems[of 1] obtain u where u: "loopIteration E run l s = Inr u" by (auto simp: result_simps)
  have "\<exists>t. iterations E run l n u = Inr t \<and> \<not> el_quit (r_loops t l)" for n using Suc.prems[of "Suc n"] u by simp
  from Suc.IH[OF this] show ?case using q u by simp
qed

text \<open>
  C25: \<open>main_Acceptor.cc\<close> serves forever: from the start of a process in which descriptors, poll and
  \<open>accept\<close> work, both acceptors come up on sockets of their own, and the program does not return.  No
  turn of its loop fails, after each of them both sockets are still watched, a turn in which a
  socket is readable accepts a client there, and every client was sent the greeting as soon as it
  was accepted.  Nothing is ever closed, though: the descriptors of the clients are lost.
\<close>

theorem everyone_is_greeted:
  assumes "boot_ok E tid" and "poll_law E" and "accepts_well E"
  shows "(\<forall>fuel. acceptorMain E fuel (bootState E tid) = None) \<and>
    (\<exists>q1 q2 s. acceptorSetup E (bootState E tid) = Inr (0, 0, 1, s) \<and> q1 \<noteq> q2 \<and>
    (\<forall>n. \<exists>t. iterations E (run_task E (demo_user E 0) 2) 0 n s = Inr t \<and> greeted (r_trace t) \<and>
       (\<forall>(q, x) \<in> {(q1, 3), (q2, 4)}. entry 0 t q = (Some x, Some (True, 3)) \<and>
          (readable_now E q (r_trace t) \<longrightarrow> (\<exists>u ts c. loopIteration E (run_task E (demo_user E 0) 2) 0 t = Inr u \<and>
             r_trace u = r_trace t @ ts \<and> SysAccept q c \<in> set ts)))))"
proof -
  let ?run = "run_task E (demo_user E 0) 2"
  obtain q1 q2 and z :: "'a serverstate" where z: "acceptorSetup E (bootState E tid) = Inr (0, 0, 1, z)" "q1 \<noteq> q2"
    "demo_inv E Serving 0 (- 2) {(q1, 3, 3, \<lambda>_. TAcceptorRead 0), (q2, 4, 3, \<lambda>_. TAcceptorRead 1)} z"
    "idle_chans z" "\<not> el_isLoopping (r_loops z 0)" "\<not> el_quit (r_loops z 0)"
    by (rule acceptor_up[OF assms]) (rule that)
  let ?W = "{(q1, 3, 3, \<lambda>_. TAcceptorRead 0), (q2, 4, 3, \<lambda>_. TAcceptorRead 1)}"
  let ?z = "mod_loop 0 (\<lambda>el. el\<lparr>el_isLoopping := True, el_quit := False\<rparr>) z"
  have 2: "Suc (Suc 0) = 2" by simp
  have I: "demo_inv E Serving 0 (- 2) ?W ?z" by (rule demo_enters[OF z(3,6)])
  have go: "\<exists>t. iterations E ?run 0 n s = Inr t \<and> demo_inv E Serving 0 (- 2) ?W t" if "demo_inv E Serving 0 (- 2) ?W s" for n s
    using demo.turns_go[where na = 0 and n = n, unfolded 2, OF that] by blast
  have "loopWhile E ?run 0 fuel ?z = None" for fuel
    by (rule loopWhile_never) (use go[OF I] demo_invD(10) in \<open>fastforce simp: demo_phase_def simp del: run_task.simps\<close>)
  then have "acceptorMain E fuel (bootState E tid) = None" for fuel
    using z(1,5) demo_invD(3)[OF z(3)] by (simp add: acceptorMain_def loop_def assertInLoopThread_def del: run_task.simps)
  moreover have "\<exists>t. iterations E ?run 0 n z = Inr t \<and> greeted (r_trace t) \<and>
       (\<forall>(q, x) \<in> {(q1, 3), (q2, 4)}. entry 0 t q = (Some x, Some (True, 3)) \<and>
          (readable_now E q (r_trace t) \<longrightarrow> (\<exists>u ts c. loopIteration E ?run 0 t = Inr u \<and>
             r_trace u = r_trace t @ ts \<and> SysAccept q c \<in> set ts)))" for n
  proof -
    obtain t where t: "iterations E ?run 0 n z = Inr t" "demo_inv E Serving 0 (- 2) ?W t" using go[OF z(3)] by blast
    obtain u where u: "loopIteration E ?run 0 t = Inr u" using go[OF t(2), of 1] by (auto simp: result_simps simp del: run_task.simps)
    have w: "entry 0 t q = (Some x, Some (True, 3)) \<and>
        (readable_now E q (r_trace t) \<longrightarrow> (\<exists>ts c. r_trace u = r_trace t @ ts \<and> SysAccept q c \<in> set ts))"
      if "(q, x, a) \<in> {(q1, 3, 0), (q2, 4, 1)}" for q x and a :: acceptor_id
    proof -
      have m: "(q, x, 3, \<lambda>_. TAcceptorRead a) \<in> ?W" using that by auto
      show ?thesis using demo_invD(11)[OF t(2) m] turn_greets[OF t(2) m _ u] by (simp add: watching_def)
    qed
    show ?thesis using t(1) u demo_invD(12)[OF t(2)] w[of q1 3 0] w[of q2 4 1] by (intro exI[of _ t]) (simp del: run_task.simps)
  qed
  ultimately show ?thesis using z(1,2) by blast
qed

theorem everyone_is_greeted_witness:
  "\<exists>s. acceptorSetup busyEnv (bootState busyEnv 1) = Inr (0, 0, 1, s) \<and> acceptorMain busyEnv 9 (bootState busyEnv 1) = None"
proof -
  have "accepts_well busyEnv" using busy_laws(1) by (auto simp: accepts_well_def kernel_ok_def accept_ok_def)
  from everyone_is_greeted[OF busy_laws(2) busy_timers(2) this] show ?thesis by blast
qed

end
