(* ===== verification/TimerRun.thy ===== *)
theory TimerRun
  imports DemoRuns
begin

text \<open>
  \<open>Reactor/main_timer.cc\<close> from the start of the process: another thread asks for a timer, at any
  moment, and the program ends.
\<close>

section \<open>Time\<close>

text \<open>
  What the program needs of the clock and of the allocator: polling takes time, so every moment is
  reached after some number of polls, and pointers are below the greatest one.
\<close>

definition time_passes :: "'b env \<Rightarrow> bool" where
  "time_passes E \<longleftrightarrow> (\<forall>T. \<exists>K. \<forall>tr. K \<le> polls tr \<longrightarrow> T \<le> now_of E tr) \<and> stamp_kMicroSecondsPerSecond E = 1000000 \<and>
     (\<forall>tr. alloc_of E tr < UINTPTR_MAX)"

lemma diff_positive:
  assumes "stamp_kMicroSecondsPerSecond E = 1000000"
  shows "0 < fst (getTimeDiffFromNow E w now) \<or> 0 < snd (getTimeDiffFromNow E w now)"
proof -
  obtain sec nsec where d: "getTimeDiffFromNow E w now = (sec, nsec)" by fastforce
  then have "0 \<le> sec" "0 \<le> nsec" "sec * 1000000000 + nsec = 1000 * max 100 (w - now)"
    using getTimeDiffFromNow_exact[OF assms, of w now] by simp_all
  moreover have "0 < 1000 * max 100 (w - now)" by simp
  ultimately have "0 < sec \<or> 0 < nsec" by (metis add_0 mult_zero_left order_le_less)
  then show ?thesis by (simp add: d)
qed

section \<open>The other thread\<close>

text \<open>A program that serves may be asked for a timer.\<close>

lemma serving_task: "demo_task E Serving l q s \<Longrightarrow> n_acceptors t = n_acceptors s \<Longrightarrow> demo_task E b l q t"
  by (auto simp: demo_task_def split: task.splits)

lemma other_thread_asks:
  fixes s :: "('b, 'z) servs"
  assumes I: "demo_inv E Serving l fd W s" and E: "time_passes E" and idle: "idle_chans s"
  shows "\<exists>T p t. inOtherThread E (threadFunc15 E run l) s = Inr t \<and> demo_inv E (Asking T) l fd W t \<and>
    TAddTimer l p \<in> set (el_funcQueue (r_loops t l)) \<and> idle_chans t"
proof -
  note D = demo_invD[OF I]
  let ?o = "thread_of E (r_trace s)"
  let ?t1 = "r_trace s @ [SysThread ?o]" let ?now = "now_of E ?t1"
  let ?p = "alloc_of E (?t1 @ [SysNow ?now])" let ?w = "stamp_addTime E ?now 15"
  let ?x = "mkTimer (TUser 3) ?w 0 (r_seqGen s)"
  let ?ef = "el_wakeupFd (r_loops s l)"
  let ?t2 = "?t1 @ [SysNow ?now, SysAlloc ?p]"
  let ?ts = "[SysThread ?o, SysNow ?now, SysAlloc ?p, SysWriteI64 ?ef 0 (writei64_of E ?t2 ?ef 0)]"
  let ?t = "mod_loop l (\<lambda>el. el\<lparr>el_funcQueue := el_funcQueue el @ [TAddTimer l ?p]\<rparr>)
    (s\<lparr>r_timers := (r_timers s)(?p \<mapsto> ?x), r_seqGen := r_seqGen s + 1, r_trace := r_trace s @ ?ts\<rparr>)"
  have "el_threadId (r_loops s l) \<noteq> ?o" using D(3,17) by (metis isInLoopThread_def)
  then have run: "inOtherThread E (threadFunc15 E run l) s = Inr ?t"
    by (simp add: inOtherThread_def threadFunc15_def runAfter_def readNow_def runAt_def addTimer_def newTimer_def Let_def runInLoop_def
        isInLoopThread_def queueInLoop_def wakeup_def deref_def set_timer_def mod_loop_def emit_def)
  have none: "timers_of l s = []" "\<not> el_quit (r_loops s l)" "timerfd_in l s \<noteq> fd" using D(10) by (simp_all add: demo_phase_def)
  have wf: "reactor_wf ?t" using D(2) by (rule reactor_wf_cong) simp_all
  have en: "entry l ?t f = entry l s f" for f by (rule entry_cong) simp_all
  have tq: "timers_of l ?t = []" "timerfd_in k ?t = timerfd_in k s" for k using none(1) by (simp_all add: timers_of_def timerfd_in_def)
  have task: "demo_task E (Asking ?w) l q ?t" if "demo_task E Serving l q s" for q by (rule serving_task[OF that]) simp
  have ask: "demo_task E (Asking ?w) l (TAddTimer l ?p) ?t"
    using E by (simp add: demo_task_def time_passes_def user_timer_def mkTimer_def)
  have "demo_inv E (Asking ?w) l fd W ?t"
    unfolding demo_inv_def tq
  proof (intro conjI)
    show "demo_phase E (Asking ?w) l fd ?t" unfolding demo_phase_def tq using none(3) by simp
    show "\<forall>w \<in> W. watching l w ?t" using D(11) unfolding watching_def en tq by auto
    show "greeted (r_trace ?t)" using greeted_append[OF D(12), of ?ts] by simp
    show "\<forall>c now. \<forall>q \<in> callbacks_of (r_chans ?t c) now. demo_task E (Asking ?w) l q ?t \<and> (\<forall>k p. q \<noteq> TAddTimer k p)"
      using D(4,15) task by auto
    show "\<forall>k. \<forall>q \<in> set (el_funcQueue (r_loops ?t k)). demo_task E (Asking ?w) l q ?t" using D(5) task ask by auto
    show "\<forall>k. k \<noteq> l \<longrightarrow> el_funcQueue (r_loops ?t k) = []" using D(16) by simp
  qed (use D(1,3,8,13,17) wf in \<open>simp_all add: isInLoopThread_def timers_wf_def\<close>)
  moreover have "idle_chans ?t" using idle by (simp add: idle_chans_def)
  moreover have "TAddTimer l ?p \<in> set (el_funcQueue (r_loops ?t l))" by simp
  ultimately show ?thesis using run by blast
qed

section \<open>The timer ends the loop\<close>

text \<open>Once the timer is there, and its time has come, the loop only waits for its descriptor.\<close>

lemma demo_waits:
  assumes I: "demo_inv E (Asking T) l fd W s" and q: "el_funcQueue (r_loops s l) = []" and "timers_of l s \<noteq> []"
    and due: "\<And>ts. T \<le> now_of E (r_trace s @ ts)"
  shows "demo_inv E Waiting l (timerfd_in l s) W s"
proof -
  note D = demo_invD[OF I]
  have task: "demo_task E Waiting l q s" if "demo_task E (Asking T) l q s" "\<forall>k p. q \<noteq> TAddTimer k p" for q
    using that by (auto simp: demo_task_def split: task.splits)
  have "entry_time e \<le> now_of E (r_trace s @ ts)" if "e \<in> set (timers_of l s)" for e ts
    using D(10) that order_trans[OF _ due[of ts]] by (auto simp: demo_phase_def)
  then have "demo_phase E Waiting l (timerfd_in l s) s" using assms(3) by (simp add: demo_phase_def all_due_def)
  moreover have "\<forall>k. \<forall>t \<in> set (el_funcQueue (r_loops s k)). demo_task E Waiting l t s" using q D(16) by (metis empty_iff empty_set)
  moreover have "\<forall>c now. \<forall>t \<in> callbacks_of (r_chans s c) now. demo_task E Waiting l t s \<and> (\<forall>k p. t \<noteq> TAddTimer k p)"
    using D(4,15) task by blast
  ultimately show ?thesis using I unfolding demo_inv_def by blast
qed

text \<open>A loop that was asked for a timer is told to quit, after some number of turns.\<close>

lemma asked_quits:
  fixes s :: "('b, 'z) servs"
  assumes I: "demo_inv E (Asking T) l fd {(tfd, x, 3, \<lambda>_. TTimerRead l)} s" and q: "TAddTimer l p \<in> set (el_funcQueue (r_loops s l))"
    and E: "time_passes E" "timer_law E" and tfd: "0 \<le> tfd"
  shows "\<exists>n t. iterations E (run_task E (demo_user E l) 2) l n s = Inr t \<and> el_quit (r_loops t l)"
proof -
  let ?run = "run_task E (demo_user E l) 2" let ?W = "{(tfd, x, 3, \<lambda>_. TTimerRead l)}"
  have 2: "Suc (Suc 0) = 2" "Suc 1 = 2" by simp_all
  obtain u where u: "loopIteration E ?run l s = Inr u" "demo_inv E (Asking T) l fd ?W u"
    using demo.turn_goes[where n = 0, unfolded 2, OF I] by blast
  have gu: "demo_goal True l u"
  proof (rule demo.queued_reaches[where n = 0, unfolded 2, OF I q u(1)])
    fix v v' :: "('b, 'z) servs"
    assume v: "demo_inv E (Asking T) l fd ?W v" "demo_task E (Asking T) l (TAddTimer l p) v" "?run (TAddTimer l p) v = Inr v'"
    then show "demo_goal True l v'" using step_addTimer[OF v(1,2), of False] v(3) by (auto simp: demo_goal_def numeral_2_eq_2)
  qed
  obtain K where K: "\<And>tr. K \<le> polls tr \<Longrightarrow> T \<le> now_of E tr" using E(1) unfolding time_passes_def by blast
  obtain v where v: "iterations E ?run l (Suc K) u = Inr v" "demo_inv E (Asking T) l fd ?W v" "demo_goal True l v"
    "K \<le> polls (r_trace v)" "el_funcQueue (r_loops v l) = []"
    using demo.turns_go[where na = 0 and n = "Suc K" and g = True, unfolded 2, OF u(2)] gu by (auto simp: grown_def simp del: iterations.simps run_task.simps)
  show ?thesis
  proof (cases "el_quit (r_loops v l)")
    case True
    have "iterations E ?run l (Suc (Suc K)) s = Inr v" using u(1) v(1) by simp
    then show ?thesis using True by blast
  next
    case False
    then have t: "timers_of l v \<noteq> []" using v(3) by (simp add: demo_goal_def)
    have fd: "timerfd_in l v = tfd" using demo_invD(11)[OF v(2), of "(tfd, x, 3, \<lambda>_. TTimerRead l)"] by (simp add: watching_def)
    have "demo_inv E Waiting l (timerfd_in l v) ?W v" by (rule demo_waits[OF v(2,5) t]) (use K v(4) in simp)
    then have I': "demo_inv E Waiting l tfd ?W v" by (simp only: fd)
    from demo_invD(14)[OF v(2) t, unfolded fd armed_def] obtain a w now ts where
      ar: "r_trace v = a @ SysSettime tfd (fst (getTimeDiffFromNow E w now)) (snd (getTimeDiffFromNow E w now)) # ts" "\<forall>e \<in> set ts. leaves_fd tfd e" by blast
    have quits: "el_quit (r_loops z' l)" if "demo_inv E Waiting l tfd ?W z" "?run (TTimerRead l) z = Inr z'" for z z' :: "('b, 'z) servs"
      using step_timerRead[OF that(1), of 0 False] that(2) by (auto simp: numeral_2_eq_2 simp del: run_task.simps) (auto simp: numeral_2_eq_2)
    have pos: "0 < fst (getTimeDiffFromNow E w now) \<or> 0 < snd (getTimeDiffFromNow E w now)"
      using E(1) by (intro diff_positive) (simp add: time_passes_def)
    obtain n z where z: "iterations E ?run l n v = Inr z" "el_quit (r_loops z l)"
      using awaited_quits[OF I' ar E(2) tfd pos, of x "\<lambda>_. TTimerRead l"] quits by blast
    have "iterations E ?run l (Suc (Suc K)) s = Inr v" using u(1) v(1) by simp
    then have "iterations E ?run l (Suc (Suc K) + n) s = Inr z" unfolding iterations_add using z(1) by simp
    then show ?thesis using z(2) by blast
  qed
qed

section \<open>The program\<close>


text \<open>An environment whose clock goes on.\<close>

definition tickingEnv :: "string env" where
  "tickingEnv = busyEnv\<lparr>now_of := \<lambda>tr. int (length tr), alloc_of := \<lambda>_. 1, stamp_kMicroSecondsPerSecond := 1000000\<rparr>"

lemma ticking_laws: "boot_ok tickingEnv 1" "poll_law tickingEnv" "timer_law tickingEnv" "time_passes tickingEnv"
proof -
  have r: "poll_of tickingEnv = poll_of busyEnv" "timerfd_of tickingEnv = timerfd_of busyEnv" "eventfd_of tickingEnv = eventfd_of busyEnv"
    "socket_of tickingEnv = socket_of busyEnv" "thread_of tickingEnv = thread_of busyEnv" "bind_of tickingEnv = bind_of busyEnv"
    "listen_of tickingEnv = listen_of busyEnv" by (simp_all add: tickingEnv_def)
  show "boot_ok tickingEnv 1" using busy_laws(2) by (simp add: boot_ok_def threads_fresh_def r)
  show "poll_law tickingEnv" using busy_timers(2) by (simp add: poll_law_def r)
  show "timer_law tickingEnv" using busy_timers(1) by (simp add: timer_law_def readable_now_def r)
  have "polls tr \<le> length tr" for tr by (simp add: polls_def)
  then have "T \<le> int (length tr)" if "nat T \<le> polls tr" for T tr using that order_trans[OF that, of "length tr"] by (simp add: nat_le_iff)
  then show "time_passes tickingEnv"
    by (auto simp: time_passes_def tickingEnv_def UINTPTR_MAX_def intro!: exI[of _ "nat _"])
qed


end
