(* ===== verification/Codec.thy ===== *)
theory Codec
  imports Callbacks
begin

text \<open>
  \<open>src/testCase/asio/LengthHeaderCodec.h\<close>: messages on a byte stream, each after its length as a
  32-bit number in network byte order.  The buffer is muduo's, with \<open>peekInt32\<close> and
  \<open>prependInt32\<close> as parameters too; \<open>codec_laws\<close> says what muduo documents of them.
\<close>

section \<open>The codec\<close>

definition nHeader :: nat where
  "nHeader = 4"

record 'b int32ops =
  io_peekInt32 :: "'b \<Rightarrow> 32 word"
  io_prependInt32 :: "'b \<Rightarrow> 32 word \<Rightarrow> 'b"

text \<open>
  The loop of \<open>onMessage\<close>.  \<open>cb\<close> is the message callback, \<open>shut\<close> is \<open>conn->shutdown()\<close>, both on a
  state of the user's.  The fuel bounds the rounds; \<open>None\<close> means it ran out.
\<close>

fun onMessage ::
  "'b env \<Rightarrow> 'b int32ops \<Rightarrow> (string \<Rightarrow> 's \<Rightarrow> 's result) \<Rightarrow> ('s \<Rightarrow> 's result) \<Rightarrow> nat \<Rightarrow> 'b \<times> 's \<Rightarrow> ('b \<times> 's) result option" where
  "onMessage E ops cb shut 0 bs = None"
| "onMessage E ops cb shut (Suc n) (buf, s) =
     (if buf_readableBytes E buf \<ge> nHeader then
        let len = sint (io_peekInt32 ops buf) in
        if len < 0 \<or> len > 65536 then Some (bindR (shut s) (\<lambda>s. Inr (buf, s)))
        else if int (buf_readableBytes E buf) < int nHeader + len then Some (Inr (buf, s))
        else
          (case bindR (buf_retrieve E buf nHeader) (\<lambda>buf.
                let message = take (nat len) (buf_peek E buf) in
                bindR (cb message s) (\<lambda>s.
                bindR (buf_retrieve E buf (nat len)) (\<lambda>buf. Inr (buf, s)))) of
             Inl e \<Rightarrow> Some (Inl e)
           | Inr bs \<Rightarrow> onMessage E ops cb shut n bs)
      else Some (Inr (buf, s)))"

text \<open>\<open>send\<close> hands the connection the bytes of a buffer that has the length and the data.\<close>

definition codecSend :: "'b env \<Rightarrow> 'b int32ops \<Rightarrow> string \<Rightarrow> string" where
  "codecSend E ops data =
     (let buf = buf_append E (buf_empty E) data;
          len = (of_nat (length data) :: 32 word)
      in buf_peek E (io_prependInt32 ops buf len))"

section \<open>What the buffer promises\<close>

text \<open>Network byte order.\<close>

definition byte :: "32 word \<Rightarrow> nat \<Rightarrow> char" where
  "byte w i = char_of (unat (drop_bit (8 * i) w) mod 256)"

definition be32 :: "32 word \<Rightarrow> string" where
  "be32 w = [byte w 3, byte w 2, byte w 1, byte w 0]"

definition codec_laws :: "'b env \<Rightarrow> 'b int32ops \<Rightarrow> bool" where
  "codec_laws E ops \<longleftrightarrow>
     buf_peek E (buf_empty E) = [] \<and>
     (\<forall>b x. buf_peek E (buf_append E b x) = buf_peek E b @ x) \<and>
     (\<forall>b. buf_readableBytes E b = length (buf_peek E b)) \<and>
     (\<forall>b n. n \<le> length (buf_peek E b) \<longrightarrow>
        (\<exists>b'. buf_retrieve E b n = Inr b' \<and> buf_peek E b' = drop n (buf_peek E b))) \<and>
     (\<forall>b w. buf_peek E (io_prependInt32 ops b w) = be32 w @ buf_peek E b) \<and>
     (\<forall>b w. take 4 (buf_peek E b) = be32 w \<longrightarrow> io_peekInt32 ops b = w)"

lemma codec_lawsD:
  assumes "codec_laws E ops"
  shows "buf_peek E (buf_empty E) = []" "buf_peek E (buf_append E b x) = buf_peek E b @ x"
    "buf_readableBytes E b = length (buf_peek E b)"
    "n \<le> length (buf_peek E b) \<Longrightarrow> \<exists>b'. buf_retrieve E b n = Inr b' \<and> buf_peek E b' = drop n (buf_peek E b)"
    "buf_peek E (io_prependInt32 ops b w) = be32 w @ buf_peek E b"
    "take 4 (buf_peek E b) = be32 w \<Longrightarrow> io_peekInt32 ops b = w"
  using assms by (simp_all add: codec_laws_def)

lemma length_be32 [simp]: "length (be32 w) = 4"
  by (simp add: be32_def)

section \<open>Frames\<close>

definition frame :: "string \<Rightarrow> string" where
  "frame m = be32 (of_nat (length m)) @ m"

definition fits :: "string \<Rightarrow> bool" where
  "fits m \<longleftrightarrow> length m \<le> 65536"

lemma codecSend_frame: "codec_laws E ops \<Longrightarrow> codecSend E ops m = frame m"
  by (simp add: codecSend_def Let_def codec_lawsD frame_def)

lemma length_frame [simp]: "length (frame m) = 4 + length m"
  by (simp add: frame_def)

lemma sint_length: "fits m \<Longrightarrow> sint (of_nat (length m) :: 32 word) = int (length m)"
  by (simp add: fits_def signed_of_nat signed_take_bit_int_eq_self)

text \<open>
  The bytes received so far, cut at the messages: the whole messages, and a proper prefix of the
  frame of the next one.
\<close>

definition partial :: "string \<Rightarrow> string list \<Rightarrow> bool" where
  "partial r ms \<longleftrightarrow> (case ms of [] \<Rightarrow> r = [] | m # _ \<Rightarrow> (\<exists>t. t \<noteq> [] \<and> frame m = r @ t))"

text \<open>A round on a buffer that starts with a whole frame.\<close>

lemma onMessage_whole:
  assumes L: "codec_laws E ops" and m: "fits m" and b: "buf_peek E buf = frame m @ rest"
    and cb: "cb m s = Inr s'"
  shows "\<exists>buf'. onMessage E ops cb shut (Suc n) (buf, s) = onMessage E ops cb shut n (buf', s') \<and> buf_peek E buf' = rest"
proof -
  have len: "io_peekInt32 ops buf = of_nat (length m)"
    using codec_lawsD(6)[OF L, of buf] by (simp add: b frame_def)
  obtain b1 where b1: "buf_retrieve E buf 4 = Inr b1" "buf_peek E b1 = m @ rest"
    using codec_lawsD(4)[OF L, of 4 buf] by (auto simp: b frame_def)
  obtain b2 where b2: "buf_retrieve E b1 (length m) = Inr b2" "buf_peek E b2 = rest"
    using codec_lawsD(4)[OF L, of "length m" b1] by (auto simp: b1(2))
  have "int (length m) \<le> 65536" using m by (simp add: fits_def)
  then have "onMessage E ops cb shut (Suc n) (buf, s) = onMessage E ops cb shut n (b2, s')"
    using b1 b2 cb by (simp add: Let_def codec_lawsD(3)[OF L] nHeader_def len sint_length[OF m] b)
  with b2(2) show ?thesis by blast
qed

text \<open>A round on a buffer with less than a frame.\<close>

lemma onMessage_part:
  assumes L: "codec_laws E ops" and m: "fits m" and b: "frame m = buf_peek E buf @ t" "t \<noteq> []"
  shows "onMessage E ops cb shut (Suc n) (buf, s) = Some (Inr (buf, s))"
proof (cases "4 \<le> length (buf_peek E buf)")
  case False
  then show ?thesis by (simp add: codec_lawsD(3)[OF L] nHeader_def)
next
  case True
  have "take 4 (buf_peek E buf) = take 4 (frame m)" using True by (simp add: b(1))
  then have len: "io_peekInt32 ops buf = of_nat (length m)"
    using codec_lawsD(6)[OF L, of buf] by (simp add: frame_def)
  have "4 + length m = length (buf_peek E buf) + length t" using arg_cong[OF b(1), of length] by simp
  then have "int (length (buf_peek E buf)) < 4 + int (length m)" using b(2) by (cases t) auto
  moreover have "int (length m) \<le> 65536" using m by (simp add: fits_def)
  ultimately show ?thesis by (simp add: Let_def codec_lawsD(3)[OF L] nHeader_def len sint_length[OF m])
qed

section \<open>The stream\<close>

text \<open>\<open>onMessage\<close> is called after each piece the connection reads, with all that is buffered then.\<close>

fun receive ::
  "'b env \<Rightarrow> 'b int32ops \<Rightarrow> (string \<Rightarrow> 's \<Rightarrow> 's result) \<Rightarrow> ('s \<Rightarrow> 's result) \<Rightarrow> nat \<Rightarrow> string list \<Rightarrow> 'b \<times> 's
   \<Rightarrow> ('b \<times> 's) result option" where
  "receive E ops cb shut fuel [] bs = Some (Inr bs)"
| "receive E ops cb shut fuel (c # cs) (buf, s) =
     (case onMessage E ops cb shut fuel (buf_append E buf c, s) of
        Some (Inr bs) \<Rightarrow> receive E ops cb shut fuel cs bs
      | r \<Rightarrow> r)"

text \<open>
  A callback that always returns takes the messages that are whole, in order; there are at most as
  many rounds as messages, or as bytes, and one more.
\<close>

lemma onMessage_drains:
  assumes L: "codec_laws E ops" and cb: "\<And>m s. cb m s = Inr (f m s)" and "\<forall>m \<in> set ms. fits m"
    and "buf_peek E buf @ rest = concat (map frame ms)" and "length ms < fuel \<or> length (buf_peek E buf) < fuel"
  shows "\<exists>k buf'. onMessage E ops cb shut fuel (buf, s) = Some (Inr (buf', fold f (take k ms) s)) \<and>
    buf_peek E buf' @ rest = concat (map frame (drop k ms)) \<and> partial (buf_peek E buf') (drop k ms)"
  using assms(3-5)
proof (induction ms arbitrary: buf s fuel)
  case Nil
  then obtain n where "fuel = Suc n" by (cases fuel) auto
  with Nil show ?case
    by (intro exI[of _ 0] exI[of _ buf]) (simp add: codec_lawsD(3)[OF L] nHeader_def partial_def)
next
  case (Cons m ms)
  then obtain n where n: "fuel = Suc n" by (cases fuel) auto
  have m: "fits m" and ms: "\<forall>m \<in> set ms. fits m" using Cons.prems(1) by auto
  let ?p = "buf_peek E buf"
  have e: "?p @ rest = frame m @ concat (map frame ms)" using Cons.prems(2) by simp
  show ?case
  proof (cases "length (frame m) \<le> length ?p")
    case True
    define r where "r = drop (length (frame m)) ?p"
    have "take (length (frame m)) ?p = frame m" using True arg_cong[OF e, of "take (length (frame m))"] by simp
    then have r: "?p = frame m @ r" unfolding r_def by (metis append_take_drop_id)
    with e have r2: "r @ rest = concat (map frame ms)" by simp
    obtain b where b: "onMessage E ops cb shut (Suc n) (buf, s) = onMessage E ops cb shut n (b, f m s)" "buf_peek E b = r"
      using onMessage_whole[where cb = cb, OF L m r cb, where shut = shut and n = n] by blast
    obtain k b' where k: "onMessage E ops cb shut n (b, f m s) = Some (Inr (b', fold f (take k ms) (f m s)))"
      "buf_peek E b' @ rest = concat (map frame (drop k ms))" "partial (buf_peek E b') (drop k ms)"
      using Cons.IH[OF ms, of b n "f m s"] r2 b(2) Cons.prems(3) n r by auto
    show ?thesis by (intro exI[of _ "Suc k"] exI[of _ b']) (use b k n in simp)
  next
    case False
    obtain us where "?p = frame m @ us \<or> frame m = ?p @ us" using e by (metis append_eq_append_conv2)
    with False have t: "frame m = ?p @ us" by auto
    with False have "us \<noteq> []" by (metis append_Nil2 order_refl)
    note t = t this
    show ?thesis
      by (intro exI[of _ 0] exI[of _ buf])
        (use onMessage_part[OF L m t, of cb shut n s] t Cons.prems(2) n in \<open>auto simp: partial_def\<close>)
  qed
qed

lemma partial_all: "partial (concat (map frame ms)) ms \<Longrightarrow> ms = []"
proof (cases ms)
  case (Cons m ms')
  assume "partial (concat (map frame ms)) ms"
  then obtain t where "t \<noteq> []" "frame m = (frame m @ concat (map frame ms')) @ t" by (auto simp: partial_def Cons)
  then have "length (frame m) = length (frame m) + length (concat (map frame ms')) + length t" by (metis length_append)
  with \<open>t \<noteq> []\<close> show ?thesis by simp
qed

lemma receive_drains:
  assumes L: "codec_laws E ops" and cb: "\<And>m s. cb m s = Inr (f m s)" and "\<forall>m \<in> set ms. fits m" and "length ms < fuel"
    and "buf_peek E buf @ concat chunks = concat (map frame ms)" and "partial (buf_peek E buf) ms"
  shows "\<exists>buf'. receive E ops cb shut fuel chunks (buf, s) = Some (Inr (buf', fold f ms s)) \<and> buf_peek E buf' = []"
  using assms(3-6)
proof (induction chunks arbitrary: buf s ms)
  case Nil
  then have "ms = []" using partial_all by simp
  with Nil show ?case by (simp add: partial_def)
next
  case (Cons c cs)
  have "buf_peek E (buf_append E buf c) @ concat cs = concat (map frame ms)"
    using Cons.prems(3) by (simp add: codec_lawsD(2)[OF L])
  from onMessage_drains[where cb = cb and f = f, OF L cb Cons.prems(1) this disjI1[OF Cons.prems(2)], where shut = shut and s = s] obtain k b where
    k: "onMessage E ops cb shut fuel (buf_append E buf c, s) = Some (Inr (b, fold f (take k ms) s))"
      "buf_peek E b @ concat cs = concat (map frame (drop k ms))" "partial (buf_peek E b) (drop k ms)" by blast
  have "\<forall>m \<in> set (drop k ms). fits m" using Cons.prems(1) by (meson in_set_dropD)
  from Cons.IH[OF this _ k(2,3), of "fold f (take k ms) s"] Cons.prems(2) k(1) show ?case
    by (simp flip: fold_append[unfolded comp_def, THEN fun_cong])
qed

lemma codec_contract:
  assumes "codec_laws E ops" and "\<And>m s. cb m s = Inr (f m s)" and "\<forall>m \<in> set ms. length m \<le> 65536"
    and "concat chunks = concat (map (codecSend E ops) ms)" and "length ms < fuel"
  shows "\<exists>buf. receive E ops cb shut fuel chunks (buf_empty E, s) = Some (Inr (buf, fold f ms s)) \<and> buf_peek E buf = []"
proof -
  have "codecSend E ops = frame" by (rule ext) (rule codecSend_frame[OF assms(1)])
  then have "concat chunks = concat (map frame ms)" using assms(4) by simp
  moreover have "partial [] ms" by (cases ms) (auto simp: partial_def frame_def be32_def)
  ultimately show ?thesis
    using receive_drains[of E ops cb f ms fuel "buf_empty E" chunks shut s] assms
    by (simp add: fits_def codec_lawsD(1)[OF assms(1)])
qed

text \<open>A callback that keeps what it gets.\<close>

definition keep :: "string \<Rightarrow> string list \<Rightarrow> string list result" where
  "keep m got = Inr (got @ [m])"

lemma fold_keep: "fold (\<lambda>m got. got @ [m]) ms got = got @ ms"
  by (induction ms arbitrary: got) auto

section \<open>Properties\<close>

text \<open>
  C30: what one side sends with the codec the other side receives: for any messages of at most
  65536 bytes, however the bytes of their frames are cut into the pieces that \<open>read\<close> returns, the
  callback gets exactly the messages, in order, the buffer is empty at the end, and the connection
  is never shut down; the loop of \<open>onMessage\<close> ends within as many rounds as there are messages,
  and one more.
\<close>

theorem codec_roundtrip:
  assumes "codec_laws E ops" and "\<forall>m \<in> set ms. length m \<le> 65536"
    and "concat chunks = concat (map (codecSend E ops) ms)" and "length ms < fuel"
  shows "\<exists>buf. receive E ops keep shut fuel chunks (buf_empty E, []) = Some (Inr (buf, ms)) \<and> buf_peek E buf = []"
  using codec_contract[OF assms(1) _ assms(2-4), of keep "\<lambda>m got. got @ [m]" shut "[]"]
  by (simp add: keep_def fold_keep)

text \<open>The library's buffer as strings.\<close>

definition readInt32 :: "string \<Rightarrow> 32 word" where
  "readInt32 b = (case b of
     a # c # d # e # _ \<Rightarrow> of_nat (((of_char a * 256 + of_char c) * 256 + of_char d) * 256 + of_char e) | _ \<Rightarrow> 0)"

definition sampleOps :: "string int32ops" where
  "sampleOps = \<lparr>io_peekInt32 = readInt32, io_prependInt32 = (\<lambda>b w. be32 w @ b)\<rparr>"

lemma of_char_byte: "of_char (byte w i) = unat (w :: 32 word) div 256 ^ i mod 256"
proof -
  have "unat (drop_bit (8 * i) w) = unat w div 256 ^ i"
    by (subst unat_drop_bit_eq) (simp add: drop_bit_eq_div power_mult)
  then show ?thesis by (simp add: byte_def)
qed

lemma readInt32_be32: "readInt32 (be32 w @ x) = w"
proof -
  define n1 n2 n3 where "n1 = unat w div 256" and "n2 = n1 div 256" and "n3 = n2 div 256"
  have "unat w < 2 ^ 32" using unsigned_less[of w] by simp
  then have "n3 < 256" by (simp add: n1_def n2_def n3_def less_mult_imp_div_less)
  have "unat w div 256 ^ 3 = n3" "unat w div 256 ^ 2 = n2" "unat w div 256 ^ 1 = n1" "unat w div 256 ^ 0 = unat w"
    by (simp_all only: n1_def n2_def n3_def numeral_3_eq_3 numeral_2_eq_2 One_nat_def power.simps mult_1_right
        div_mult2_eq) simp_all
  moreover have "n3 mod 256 = n3" "n3 * 256 + n2 mod 256 = n2" "n2 * 256 + n1 mod 256 = n1" "n1 * 256 + unat w mod 256 = unat w"
    using \<open>n3 < 256\<close> by (simp_all add: n1_def n2_def n3_def)
  ultimately show ?thesis
    by (simp only: readInt32_def be32_def of_char_byte list.case append.simps of_nat_unat ucast_id)
qed

lemma sample_codec_laws: "codec_laws sampleEnv sampleOps"
proof -
  have "readInt32 b = w" if "take 4 b = be32 w" for b w
    using readInt32_be32[of w "drop 4 b"] append_take_drop_id[of 4 b] that by simp
  then show ?thesis by (simp add: codec_laws_def sampleOps_def sampleEnv_def)
qed

theorem codec_roundtrip_witness:
  "\<exists>buf. receive sampleEnv sampleOps keep (\<lambda>s. Inr s) 3
      [take 3 (codecSend sampleEnv sampleOps ''ab''), drop 3 (codecSend sampleEnv sampleOps ''ab'') @ codecSend sampleEnv sampleOps []]
      ([], []) = Some (Inr (buf, [''ab'', []])) \<and> buf = []"
  using codec_roundtrip[OF sample_codec_laws, of "[''ab'', []]"
      "[take 3 (codecSend sampleEnv sampleOps ''ab''), drop 3 (codecSend sampleEnv sampleOps ''ab'') @ codecSend sampleEnv sampleOps []]"
      3 "\<lambda>s. Inr s"]
  by (simp add: sampleEnv_def)

text \<open>
  The codec's two sides do not agree on long messages: \<open>send\<close> frames a message of any size, but
  the receiver refuses one of more than 65536 bytes: it shuts the connection down, delivers
  nothing, and keeps the bytes in the buffer, so that no later message gets through either.
\<close>

theorem codec_refuses_long:
  assumes "codec_laws E ops" and "65536 < length m" and "length m < 2 ^ 32"
    and "buf_peek E buf = codecSend E ops m @ rest"
  shows "onMessage E ops cb shut (Suc n) (buf, s) = Some (bindR (shut s) (\<lambda>s. Inr (buf, s)))"
proof -
  have b: "buf_peek E buf = frame m @ rest" using assms(1,4) by (simp add: codecSend_frame)
  have len: "io_peekInt32 ops buf = of_nat (length m)"
    using codec_lawsD(6)[OF assms(1), of buf] by (simp add: b frame_def)
  have "sint (of_nat (length m) :: 32 word) < 0 \<or> 65536 < sint (of_nat (length m) :: 32 word)"
  proof (cases "length m < 2 ^ 31")
    case True
    then have "sint (of_nat (length m) :: 32 word) = int (length m)"
      by (simp add: signed_of_nat signed_take_bit_int_eq_self)
    then show ?thesis using assms(2) by simp
  next
    case False
    have "length m div 2 ^ 31 = 1" using False assms(3) by simp
    then have "int (length m) div 2 ^ 31 = 1" by (metis of_nat_1 of_nat_numeral of_nat_power zdiv_int)
    then have "sint (of_nat (length m) :: 32 word) < 0"
      by (simp add: signed_of_nat signed_take_bit_negative_iff bit_iff_odd)
    then show ?thesis by blast
  qed
  then show ?thesis by (auto simp: Let_def codec_lawsD(3)[OF assms(1)] nHeader_def len b)
qed

theorem codec_refuses_long_witness:
  "\<exists>buf. onMessage sampleEnv sampleOps keep (\<lambda>s. Inr (s @ [[]])) (Suc 0) (buf, []) = Some (Inr (buf, [[]]))"
proof -
  define buf where "buf = codecSend sampleEnv sampleOps (replicate 70000 CHR ''a'')"
  have "buf_peek sampleEnv buf = codecSend sampleEnv sampleOps (replicate 70000 CHR ''a'') @ []"
    by (simp add: sampleEnv_def buf_def)
  from codec_refuses_long[OF sample_codec_laws _ _ this, of keep "\<lambda>s. Inr (s @ [[]])" 0 "[]"]
  show ?thesis by (auto simp del: onMessage.simps)
qed

end
