(* ===== verification/Chat.thy ===== *)
theory Chat
  imports Codec
begin

text \<open>
  The chat of \<open>src/testCase/asio\<close>: \<open>chat_server_myself.cc\<close> sends every message it receives to all
  clients that are connected, \<open>chat_client_myself.cc\<close> shows what it receives.  Both use the codec.
\<close>

section \<open>The server\<close>

text \<open>The connections are in a \<open>std::set\<close>, which is iterated in order; what is sent on each is logged.\<close>

record chat =
  ct_conns :: "conn_id set"
  ct_out :: "conn_id \<Rightarrow> string"

definition chatOnConnection :: "conn_id \<Rightarrow> bool \<Rightarrow> chat \<Rightarrow> chat" where
  "chatOnConnection c up s = (if up then s\<lparr>ct_conns := insert c (ct_conns s)\<rparr> else s\<lparr>ct_conns := ct_conns s - {c}\<rparr>)"

definition chatSend :: "string \<Rightarrow> conn_id \<Rightarrow> chat \<Rightarrow> chat" where
  "chatSend bytes c s = s\<lparr>ct_out := (ct_out s)(c := ct_out s c @ bytes)\<rparr>"

definition chatOnStringMessage :: "'b env \<Rightarrow> 'b int32ops \<Rightarrow> string \<Rightarrow> chat \<Rightarrow> chat" where
  "chatOnStringMessage E ops message s =
     fold (\<lambda>c. chatSend (codecSend E ops message) c) (sorted_list_of_set (ct_conns s)) s"

section \<open>The client\<close>

record client =
  cl_conn :: "conn_id option"
  cl_shown :: "string list"
  cl_out :: "conn_id \<Rightarrow> string"   \<comment> \<open>what is sent on each connection\<close>

definition clientOnConnection :: "conn_id \<Rightarrow> bool \<Rightarrow> client \<Rightarrow> client" where
  "clientOnConnection c up s = s\<lparr>cl_conn := (if up then Some c else None)\<rparr>"

text \<open>\<open>printf\<close> shows a message up to its first zero byte.\<close>

definition c_str :: "string \<Rightarrow> string" where
  "c_str m = takeWhile (\<lambda>c. c \<noteq> CHR 0x00) m"

definition clientOnStringMessage :: "string \<Rightarrow> client \<Rightarrow> client" where
  "clientOnStringMessage message s = s\<lparr>cl_shown := cl_shown s @ [c_str message]\<rparr>"

definition clientWrite :: "'b env \<Rightarrow> 'b int32ops \<Rightarrow> string \<Rightarrow> client \<Rightarrow> client" where
  "clientWrite E ops message s =
     (case cl_conn s of
        Some c \<Rightarrow> s\<lparr>cl_out := (cl_out s)(c := cl_out s c @ codecSend E ops message)\<rparr>
      | None \<Rightarrow> s)"

section \<open>Facts\<close>

lemma chatSend_fold:
  "distinct cs \<Longrightarrow> fold (chatSend bytes) cs s =
     s\<lparr>ct_out := (\<lambda>d. if d \<in> set cs then ct_out s d @ bytes else ct_out s d)\<rparr>"
  by (induction cs arbitrary: s) (auto simp: chatSend_def fun_eq_iff)

lemma chatOnStringMessage_eq:
  "finite (ct_conns s) \<Longrightarrow> chatOnStringMessage E ops m s =
     s\<lparr>ct_out := (\<lambda>d. if d \<in> ct_conns s then ct_out s d @ codecSend E ops m else ct_out s d)\<rparr>"
  by (simp add: chatOnStringMessage_def chatSend_fold)

lemma broadcast:
  "finite (ct_conns s) \<Longrightarrow> fold (chatOnStringMessage E ops) ms s =
     s\<lparr>ct_out := (\<lambda>d. if d \<in> ct_conns s then ct_out s d @ concat (map (codecSend E ops) ms) else ct_out s d)\<rparr>"
  by (induction ms arbitrary: s) (auto simp: chatOnStringMessage_eq fun_eq_iff)

lemma shown: "fold clientOnStringMessage ms s = s\<lparr>cl_shown := cl_shown s @ map c_str ms\<rparr>"
  by (induction ms arbitrary: s) (simp_all add: clientOnStringMessage_def)

lemma written:
  "cl_conn s = Some c \<Longrightarrow> fold (clientWrite E ops) ms s =
     s\<lparr>cl_out := (cl_out s)(c := cl_out s c @ concat (map (codecSend E ops) ms))\<rparr>"
  by (induction ms arbitrary: s) (simp_all add: clientWrite_def)

section \<open>Properties\<close>

text \<open>
  A chat reaches everyone: when a connected client writes messages of at most 65536 bytes and
  its bytes arrive at the server in whatever pieces, the server sends each of its connected clients
  the same bytes and the others nothing, and each client shows, in whatever pieces the bytes arrive
  there, exactly these messages, in the order they were written (each up to its first zero byte).
\<close>

theorem chat_reaches_everyone:
  assumes "codec_laws E ops" and "\<forall>m \<in> set ms. length m \<le> 65536" and "length ms < fuel"
    and "cl_conn writer = Some c" and "cl_out writer c = []"
    and "concat chunks = cl_out (fold (clientWrite E ops) ms writer) c" and "finite (ct_conns s)"
  shows "\<exists>buf s'. receive E ops (\<lambda>m s. Inr (chatOnStringMessage E ops m s)) shut fuel chunks (buf_empty E, s) = Some (Inr (buf, s')) \<and>
    (\<forall>d. ct_out s' d = ct_out s d @ (if d \<in> ct_conns s then concat chunks else [])) \<and>
    (\<forall>pieces reader. concat pieces = concat chunks \<longrightarrow>
       (\<exists>b r. receive E ops (\<lambda>m s. Inr (clientOnStringMessage m s)) shut' fuel pieces (buf_empty E, reader) = Some (Inr (b, r)) \<and>
          cl_shown r = cl_shown reader @ map c_str ms))"
proof -
  have e: "concat chunks = concat (map (codecSend E ops) ms)"
    using assms(4-6) by (simp add: written[OF assms(4)])
  obtain buf where "receive E ops (\<lambda>m s. Inr (chatOnStringMessage E ops m s)) shut fuel chunks (buf_empty E, s) =
      Some (Inr (buf, fold (chatOnStringMessage E ops) ms s))"
    using codec_contract[OF assms(1) _ assms(2) e assms(3), of "\<lambda>m s. Inr (chatOnStringMessage E ops m s)"] by blast
  moreover have "\<exists>b r. receive E ops (\<lambda>m s. Inr (clientOnStringMessage m s)) shut' fuel pieces (buf_empty E, reader) = Some (Inr (b, r)) \<and>
      cl_shown r = cl_shown reader @ map c_str ms" if "concat pieces = concat chunks" for pieces reader
  proof -
    have "concat pieces = concat (map (codecSend E ops) ms)" using that e by simp
    from codec_contract[OF assms(1) _ assms(2) this assms(3), of "\<lambda>m s. Inr (clientOnStringMessage m s)" clientOnStringMessage shut' reader]
    show ?thesis by (auto simp: shown)
  qed
  ultimately show ?thesis by (auto simp: broadcast[OF assms(7)] e)
qed

theorem chat_reaches_everyone_witness:
  "\<exists>chunks buf s'. receive sampleEnv sampleOps (\<lambda>m s. Inr (chatOnStringMessage sampleEnv sampleOps m s)) Inr 3 chunks
      ([], \<lparr>ct_conns = {1, 2}, ct_out = (\<lambda>_. [])\<rparr>) = Some (Inr (buf, s')) \<and> ct_out s' 2 = concat chunks \<and> ct_out s' 3 = []"
proof -
  let ?w = "\<lparr>cl_conn = Some 1, cl_shown = [], cl_out = (\<lambda>_. [])\<rparr>"
  let ?c = "[cl_out (fold (clientWrite sampleEnv sampleOps) [''hi'', ''there''] ?w) 1]"
  have "buf_empty sampleEnv = []" by (simp add: sampleEnv_def)
  with chat_reaches_everyone[OF sample_codec_laws, of "[''hi'', ''there'']" 3 ?w 1 ?c "\<lparr>ct_conns = {1, 2}, ct_out = (\<lambda>_. [])\<rparr>" Inr Inr]
  show ?thesis by (intro exI[of _ ?c]) (force simp del: receive.simps)
qed

end
