(* ===== verification/Chatting.thy ===== *)
theory Chatting
  imports Chat Decimal "HOL-Library.Sublist"
begin

text \<open>
  The two chat programs of \<open>src/testCase/asio\<close> as they are started from a command line, and a
  conversation: one \<open>chat_server_myself\<close>, any number of \<open>chat_client_myself\<close>s, and the byte
  streams between them.  muduo's \<open>TcpServer\<close> and \<open>TcpClient\<close> are the callbacks they were given and
  the calls made on them; the order in which connections come up and go down, bytes arrive and the
  clients' main threads run is arbitrary.
\<close>

section \<open>The command line\<close>

text \<open>
  \<open>atoi\<close>: white space, a sign, digits; what follows is ignored.  The sources make a
  \<open>uint16_t\<close> of it.
\<close>

definition isspace :: "char \<Rightarrow> bool" where
  "isspace c \<longleftrightarrow> c = CHR '' '' \<or> (9 \<le> (of_char c :: nat) \<and> (of_char c :: nat) \<le> 13)"

definition isdigit :: "char \<Rightarrow> bool" where
  "isdigit c \<longleftrightarrow> 48 \<le> (of_char c :: nat) \<and> (of_char c :: nat) \<le> 57"

definition atoi :: "string \<Rightarrow> int" where
  "atoi s =
     (let t = dropWhile isspace s; number = (\<lambda>u. int (undigits (takeWhile isdigit u)))
      in if t = [] then 0
         else if hd t = CHR ''-'' then - number (tl t)
         else if hd t = CHR ''+'' then number (tl t)
         else number t)"

definition port_of :: "string \<Rightarrow> 16 word" where
  "port_of s = of_int (atoi s)"

text \<open>\<open>std::getline\<close> until it fails: a last line without a newline counts, an empty one does not.\<close>

function getlines :: "string \<Rightarrow> string list" where
  "getlines s =
     (if s = [] then []
      else takeWhile (\<lambda>c. c \<noteq> CHR 0x0A) s # getlines (tl (dropWhile (\<lambda>c. c \<noteq> CHR 0x0A) s)))"
  by pat_completeness auto
termination
proof (relation "measure length")
  fix s :: string assume "s \<noteq> []"
  then have "length (tl (dropWhile (\<lambda>c. c \<noteq> CHR 0x0A) s)) < length s"
    using length_dropWhile_le[of "\<lambda>c. c \<noteq> CHR 0x0A" s] by (simp only: length_tl flip: length_greater_0_conv)
  then show "(tl (dropWhile (\<lambda>c. c \<noteq> CHR 0x0A) s), s) \<in> measure length" by (simp only: in_measure)
qed (rule wf_measure)

declare getlines.simps [simp del]

section \<open>The server\<close>

record chatserver =
  cv_port :: "16 word"
  cv_name :: string
  cv_onConnection :: "conn_id \<Rightarrow> bool \<Rightarrow> chat \<Rightarrow> chat"
  cv_onString :: "string \<Rightarrow> chat \<Rightarrow> chat"      \<comment> \<open>the callback of the codec, which gets the bytes\<close>
  cv_started :: bool

definition newChatServer :: "'b env \<Rightarrow> 'b int32ops \<Rightarrow> 16 word \<Rightarrow> chatserver" where
  "newChatServer E ops addr =
     \<lparr>cv_port = addr, cv_name = ''CHAT_SERVER_MYSELF'', cv_onConnection = chatOnConnection,
      cv_onString = chatOnStringMessage E ops, cv_started = False\<rparr>"

definition chatStart :: "chatserver \<Rightarrow> chatserver" where
  "chatStart sv = sv\<lparr>cv_started := True\<rparr>"

text \<open>The server that is started when \<open>main\<close> enters the loop, or what \<open>main\<close> prints instead.\<close>

definition chatServerMain :: "'b env \<Rightarrow> 'b int32ops \<Rightarrow> string list \<Rightarrow> string + chatserver" where
  "chatServerMain E ops argv =
     (if length argv > 1 then
        let port = port_of (argv ! 1);
            server = newChatServer E ops port
        in Inr (chatStart server)
      else Inl (''Usage: '' @ argv ! 0 @ '' <port>'' @ [CHR 0x0A]))"

section \<open>The client\<close>

datatype client_call = CConnect | CDisconnect

record chatclient =
  cc_addr :: "string \<times> 16 word"
  cc_name :: string
  cc_onConnection :: "conn_id \<Rightarrow> bool \<Rightarrow> client \<Rightarrow> client"
  cc_onString :: "string \<Rightarrow> client \<Rightarrow> client"   \<comment> \<open>the callback of the codec, which gets the bytes\<close>
  cc_retry :: bool
  cc_calls :: "client_call list"                        \<comment> \<open>the calls on the \<open>TcpClient\<close>\<close>

definition newChatClient :: "string \<times> 16 word \<Rightarrow> chatclient" where
  "newChatClient addr =
     \<lparr>cc_addr = addr, cc_name = ''CHAT_CLIENT_MYSELF'', cc_onConnection = clientOnConnection,
      cc_onString = clientOnStringMessage, cc_retry = True, cc_calls = []\<rparr>"

definition clientConnect :: "chatclient \<Rightarrow> chatclient" where
  "clientConnect k = k\<lparr>cc_calls := cc_calls k @ [CConnect]\<rparr>"

definition clientDisconnect :: "chatclient \<Rightarrow> chatclient" where
  "clientDisconnect k = k\<lparr>cc_calls := cc_calls k @ [CDisconnect]\<rparr>"

text \<open>
  The calls \<open>main\<close> makes on the client when its input is \<open>input\<close>, in order, in the main thread; the
  callbacks run in the thread of the loop.
\<close>

datatype client_action = AConnect | AWrite string | ADisconnect

definition chatClientMain :: "string list \<Rightarrow> string \<Rightarrow> string + chatclient \<times> client_action list" where
  "chatClientMain argv input =
     (if length argv > 2 then
        let port = port_of (argv ! 2);
            client = newChatClient (argv ! 1, port)
        in Inr (client, AConnect # map AWrite (getlines input) @ [ADisconnect])
      else Inl (''Usage: '' @ argv ! 0 @ '' <host-IP> <port>'' @ [CHR 0x0A]))"

text \<open>
  A connection between a client and the server: the server of a \<open>main\<close> that did not print its usage
  is there, and the client called \<open>connect()\<close> with its port.
\<close>

type_synonym client_id = nat

record 'b chatnet =
  cn_server :: "string + chatserver"
  cn_room :: chat
  cn_program :: "client_id \<Rightarrow> string + chatclient"
  cn_client :: "client_id \<Rightarrow> client"
  cn_todo :: "client_id \<Rightarrow> client_action list"   \<comment> \<open>what the main threads have left to do\<close>
  cn_srvIn :: "conn_id \<Rightarrow> 'b"                    \<comment> \<open>the input buffers\<close>
  cn_cliIn :: "conn_id \<Rightarrow> 'b"
  cn_srvGot :: "conn_id \<Rightarrow> nat"                  \<comment> \<open>how many of the bytes sent have arrived\<close>
  cn_cliGot :: "conn_id \<Rightarrow> nat"
  cn_up :: "conn_id set"                             \<comment> \<open>the connections that are up at the server\<close>
  cn_shut :: "conn_id list"                            \<comment> \<open>the calls of \<open>shutdown()\<close> by the codecs\<close>
  cn_wrote :: "(conn_id \<times> string) list"            \<comment> \<open>the lines given to the codec\<close>
  cn_heard :: "(conn_id \<times> string \<times> conn_id set) list"   \<comment> \<open>calls of the server's callback, and what was up\<close>
  cn_told :: "(conn_id \<times> string) list"             \<comment> \<open>calls of the clients' callback\<close>

definition linked :: "'b chatnet \<Rightarrow> client_id \<Rightarrow> bool" where
  "linked net i \<longleftrightarrow>
     (case (cn_server net, cn_program net i) of
        (Inr sv, Inr k) \<Rightarrow> cv_started sv \<and> CConnect \<in> set (cc_calls k) \<and> snd (cc_addr k) = cv_port sv
      | _ \<Rightarrow> False)"

text \<open>
  The programs when they are started: \<open>argv\<close> for the server, \<open>args i\<close> and \<open>input i\<close> for client \<open>i\<close>.
\<close>

definition chatPrograms ::
  "'b env \<Rightarrow> 'b int32ops \<Rightarrow> string list \<Rightarrow> (client_id \<Rightarrow> string list) \<Rightarrow> (client_id \<Rightarrow> string) \<Rightarrow> 'b chatnet" where
  "chatPrograms E ops argv args input =
     \<lparr>cn_server = chatServerMain E ops argv, cn_room = \<lparr>ct_conns = {}, ct_out = (\<lambda>_. [])\<rparr>,
      cn_program = (\<lambda>i. map_sum id fst (chatClientMain (args i) (input i))),
      cn_client = (\<lambda>_. \<lparr>cl_conn = None, cl_shown = [], cl_out = (\<lambda>_. [])\<rparr>),
      cn_todo = (\<lambda>i. case chatClientMain (args i) (input i) of Inl usage \<Rightarrow> [] | Inr (k, todo) \<Rightarrow> todo),
      cn_srvIn = (\<lambda>_. buf_empty E), cn_cliIn = (\<lambda>_. buf_empty E), cn_srvGot = (\<lambda>_. 0), cn_cliGot = (\<lambda>_. 0),
      cn_up = {}, cn_shut = [], cn_wrote = [], cn_heard = [], cn_told = []\<rparr>"

text \<open>
  \<open>who c\<close> is the client whose connection \<open>c\<close> is.  A connection callback runs, a main thread goes a
  step, or up to \<open>k\<close> of the bytes on the way arrive and the message callback runs.
\<close>

datatype chat_event =
    ServerUp conn_id | ServerDown conn_id | ClientUp conn_id | ClientDown conn_id
  | MainStep client_id | ToServer conn_id nat | ToClient conn_id nat

definition clientDo :: "'b env \<Rightarrow> 'b int32ops \<Rightarrow> client_id \<Rightarrow> client_action \<Rightarrow> 'b chatnet \<Rightarrow> 'b chatnet" where
  "clientDo E ops i a net =
     (case a of
        AConnect \<Rightarrow> net\<lparr>cn_program := (cn_program net)(i := map_sum id clientConnect (cn_program net i))\<rparr>
      | ADisconnect \<Rightarrow> net\<lparr>cn_program := (cn_program net)(i := map_sum id clientDisconnect (cn_program net i))\<rparr>
      | AWrite m \<Rightarrow>
          net\<lparr>cn_client := (cn_client net)(i := clientWrite E ops m (cn_client net i)),
              cn_wrote := cn_wrote net @ (case cl_conn (cn_client net i) of None \<Rightarrow> [] | Some c \<Rightarrow> [(c, m)])\<rparr>)"

text \<open>The codec on the bytes that arrived; the number of rounds is bounded by the bytes it looks at.\<close>

definition arrive ::
  "'b env \<Rightarrow> 'b int32ops \<Rightarrow> (string \<Rightarrow> 's \<Rightarrow> 's) \<Rightarrow> ('s \<Rightarrow> 's) \<Rightarrow> string \<Rightarrow> 'b \<Rightarrow> 's \<Rightarrow> ('b \<times> 's) result option" where
  "arrive E ops cb shut bs buf s =
     (let buf = buf_append E buf bs
      in onMessage E ops (\<lambda>m s. Inr (cb m s)) (\<lambda>s. Inr (shut s)) (Suc (buf_readableBytes E buf)) (buf, s))"

definition serverHears :: "chatserver \<Rightarrow> conn_id \<Rightarrow> string \<Rightarrow> 'b chatnet \<Rightarrow> 'b chatnet" where
  "serverHears sv c m net =
     net\<lparr>cn_room := cv_onString sv m (cn_room net), cn_heard := cn_heard net @ [(c, m, cn_up net)]\<rparr>"

definition clientHears :: "chatclient \<Rightarrow> client_id \<Rightarrow> conn_id \<Rightarrow> string \<Rightarrow> 'b chatnet \<Rightarrow> 'b chatnet" where
  "clientHears k i c m net =
     net\<lparr>cn_client := (cn_client net)(i := cc_onString k m (cn_client net i)), cn_told := cn_told net @ [(c, m)]\<rparr>"

definition shuts :: "conn_id \<Rightarrow> 'b chatnet \<Rightarrow> 'b chatnet" where
  "shuts c net = net\<lparr>cn_shut := cn_shut net @ [c]\<rparr>"

fun chatStep :: "'b env \<Rightarrow> 'b int32ops \<Rightarrow> (conn_id \<Rightarrow> client_id) \<Rightarrow> chat_event \<Rightarrow> 'b chatnet \<Rightarrow> 'b chatnet result option" where
  "chatStep E ops who (ServerUp c) net = Some (Inr
     (case cn_server net of
        Inr sv \<Rightarrow> if linked net (who c)
          then net\<lparr>cn_room := cv_onConnection sv c True (cn_room net), cn_up := insert c (cn_up net)\<rparr> else net
      | Inl _ \<Rightarrow> net))"
| "chatStep E ops who (ServerDown c) net = Some (Inr
     (case cn_server net of
        Inr sv \<Rightarrow> net\<lparr>cn_room := cv_onConnection sv c False (cn_room net), cn_up := cn_up net - {c}\<rparr>
      | Inl _ \<Rightarrow> net))"
| "chatStep E ops who (ClientUp c) net = Some (Inr
     (case cn_program net (who c) of
        Inr k \<Rightarrow>
          if linked net (who c)
          then net\<lparr>cn_client := (cn_client net)(who c := cc_onConnection k c True (cn_client net (who c)))\<rparr> else net
      | Inl _ \<Rightarrow> net))"
| "chatStep E ops who (ClientDown c) net = Some (Inr
     (case cn_program net (who c) of
        Inr k \<Rightarrow> net\<lparr>cn_client := (cn_client net)(who c := cc_onConnection k c False (cn_client net (who c)))\<rparr>
      | Inl _ \<Rightarrow> net))"
| "chatStep E ops who (MainStep i) net = Some (Inr
     (case cn_todo net i of
        [] \<Rightarrow> net
      | a # todo \<Rightarrow> clientDo E ops i a (net\<lparr>cn_todo := (cn_todo net)(i := todo)\<rparr>)))"
| "chatStep E ops who (ToServer c k) net =
     (case cn_server net of
        Inr sv \<Rightarrow>
          let bs = take k (drop (cn_srvGot net c) (cl_out (cn_client net (who c)) c)) in
          map_option (\<lambda>r. bindR r (\<lambda>(buf, net).
              Inr (net\<lparr>cn_srvIn := (cn_srvIn net)(c := buf), cn_srvGot := (cn_srvGot net)(c := cn_srvGot net c + length bs)\<rparr>)))
            (arrive E ops (serverHears sv c) (shuts c) bs (cn_srvIn net c) net)
      | Inl _ \<Rightarrow> Some (Inr net))"
| "chatStep E ops who (ToClient c k) net =
     (case cn_program net (who c) of
        Inr kl \<Rightarrow>
          let bs = take k (drop (cn_cliGot net c) (ct_out (cn_room net) c)) in
          map_option (\<lambda>r. bindR r (\<lambda>(buf, net).
              Inr (net\<lparr>cn_cliIn := (cn_cliIn net)(c := buf), cn_cliGot := (cn_cliGot net)(c := cn_cliGot net c + length bs)\<rparr>)))
            (arrive E ops (clientHears kl (who c) c) (shuts c) bs (cn_cliIn net c) net)
      | Inl _ \<Rightarrow> Some (Inr net))"

fun chatRun :: "'b env \<Rightarrow> 'b int32ops \<Rightarrow> (conn_id \<Rightarrow> client_id) \<Rightarrow> chat_event list \<Rightarrow> 'b chatnet \<Rightarrow> 'b chatnet result option" where
  "chatRun E ops who [] net = Some (Inr net)"
| "chatRun E ops who (e # es) net =
     (case chatStep E ops who e net of
        Some (Inr net) \<Rightarrow> chatRun E ops who es net
      | r \<Rightarrow> r)"

section \<open>What was said\<close>

text \<open>The messages of a log that are on a connection, and of a client, and those the server sent on one.\<close>

definition on_conn :: "conn_id \<Rightarrow> (conn_id \<times> string) list \<Rightarrow> string list" where
  "on_conn c xs = map snd (filter (\<lambda>p. fst p = c) xs)"

definition of_client :: "(conn_id \<Rightarrow> client_id) \<Rightarrow> client_id \<Rightarrow> (conn_id \<times> string) list \<Rightarrow> string list" where
  "of_client who i xs = map snd (filter (\<lambda>p. who (fst p) = i) xs)"

definition said_on :: "conn_id \<Rightarrow> (conn_id \<times> string \<times> conn_id set) list \<Rightarrow> string list" where
  "said_on c xs = map (fst \<circ> snd) (filter (\<lambda>p. fst p = c) xs)"

definition sent_to :: "conn_id \<Rightarrow> (conn_id \<times> string \<times> conn_id set) list \<Rightarrow> string list" where
  "sent_to c xs = map (fst \<circ> snd) (filter (\<lambda>p. c \<in> snd (snd p)) xs)"

text \<open>
  The lines a client's main thread writes while it is connected: \<open>can\<close> tells whether the command
  lines name the same port, \<open>called\<close> whether it called \<open>connect()\<close>, \<open>up\<close> whether its last
  connection callback was that a connection is up.
\<close>

fun entered ::
  "(conn_id \<Rightarrow> client_id) \<Rightarrow> client_id \<Rightarrow> bool \<Rightarrow> bool \<Rightarrow> bool \<Rightarrow> client_action list \<Rightarrow> chat_event list \<Rightarrow> string list" where
  "entered who i can called up todo [] = []"
| "entered who i can called up todo (e # es) =
     (case e of
        ClientUp c \<Rightarrow> entered who i can called (if who c = i \<and> can \<and> called then True else up) todo es
      | ClientDown c \<Rightarrow> entered who i can called (if who c = i then False else up) todo es
      | MainStep j \<Rightarrow>
          if j \<noteq> i then entered who i can called up todo es
          else (case todo of
              [] \<Rightarrow> entered who i can called up [] es
            | AConnect # todo \<Rightarrow> entered who i can True up todo es
            | ADisconnect # todo \<Rightarrow> entered who i can called up todo es
            | AWrite m # todo \<Rightarrow> (if up then [m] else []) @ entered who i can called up todo es)
      | _ \<Rightarrow> entered who i can called up todo es)"

definition same_port :: "string list \<Rightarrow> string list \<Rightarrow> bool" where
  "same_port argv args \<longleftrightarrow> 1 < length argv \<and> 2 < length args \<and> port_of (args ! 2) = port_of (argv ! 1)"

section \<open>A byte stream that carries messages\<close>

text \<open>
  \<open>msgs\<close> were framed into \<open>out\<close>, of which \<open>n\<close> bytes have arrived; \<open>hs\<close> were delivered and the rest
  of what arrived is buffered.
\<close>

definition carries :: "'b env \<Rightarrow> string list \<Rightarrow> string \<Rightarrow> 'b \<Rightarrow> nat \<Rightarrow> string list \<Rightarrow> bool" where
  "carries E msgs out buf n hs \<longleftrightarrow>
     out = concat (map frame msgs) \<and> n \<le> length out \<and> (\<forall>m \<in> set msgs. fits m) \<and>
     (\<exists>rest. msgs = hs @ rest \<and> buf_peek E buf @ drop n out = concat (map frame rest) \<and> partial (buf_peek E buf) rest)"

lemma carries_nothing: "buf_peek E buf = [] \<Longrightarrow> carries E [] [] buf 0 []"
  by (simp add: carries_def partial_def)

lemma codecSend_is_frame: "codec_laws E ops \<Longrightarrow> codecSend E ops = frame"
  by (rule ext) (rule codecSend_frame)

lemma frame_nonempty: "frame m \<noteq> []"
  by (simp add: frame_def be32_def)

lemma partial_more: "partial r ms \<Longrightarrow> partial r (ms @ [m])"
  using frame_nonempty by (cases ms) (auto simp: partial_def)

lemma carries_send:
  assumes "carries E msgs out buf n hs" and "fits m"
  shows "carries E (msgs @ [m]) (out @ frame m) buf n hs"
proof -
  obtain rest where "msgs = hs @ rest" "buf_peek E buf @ drop n out = concat (map frame rest)" "partial (buf_peek E buf) rest"
    using assms(1) by (auto simp: carries_def)
  then show ?thesis
    using assms by (auto simp: carries_def partial_more simp flip: append_assoc intro!: exI[of _ "rest @ [m]"])
qed

lemma carries_deliver:
  assumes L: "codec_laws E ops" and l: "carries E msgs out buf n hs"
  shows "\<exists>js buf'. arrive E ops cb shut (take k (drop n out)) buf s = Some (Inr (buf', fold cb js s)) \<and>
    carries E msgs out buf' (n + length (take k (drop n out))) (hs @ js)"
proof -
  obtain rest where rest: "msgs = hs @ rest" "buf_peek E buf @ drop n out = concat (map frame rest)"
    and l': "out = concat (map frame msgs)" "n \<le> length out" "\<forall>m \<in> set msgs. fits m"
    using l by (auto simp: carries_def)
  define bs b where "bs = take k (drop n out)" and "b = buf_append E buf bs"
  have n: "drop (n + length bs) out = drop k (drop n out)" by (simp add: bs_def add.commute min_def)
  have "buf_peek E b = buf_peek E buf @ bs" by (simp add: b_def codec_lawsD(2)[OF L])
  then have b: "buf_peek E b @ drop k (drop n out) = concat (map frame rest)"
    using rest(2) by (simp only: bs_def append_assoc append_take_drop_id)
  have "\<forall>m \<in> set rest. fits m" using l' rest(1) by simp
  moreover have "length rest < Suc (buf_readableBytes E b) \<or> length (buf_peek E b) < Suc (buf_readableBytes E b)"
    by (simp add: codec_lawsD(3)[OF L])
  ultimately obtain j buf' where
    "onMessage E ops (\<lambda>m s. Inr (cb m s)) (\<lambda>s. Inr (shut s)) (Suc (buf_readableBytes E b)) (b, s) =
       Some (Inr (buf', fold cb (take j rest) s))"
    "buf_peek E buf' @ drop k (drop n out) = concat (map frame (drop j rest))" "partial (buf_peek E buf') (drop j rest)"
    using onMessage_drains[where cb = "\<lambda>m s. Inr (cb m s)" and f = cb, OF L refl _ b] by blast
  note j = this
  have "n + length bs \<le> length out" using l'(2) by (simp add: bs_def)
  moreover have "msgs = (hs @ take j rest) @ drop j rest" using rest(1) by simp
  ultimately have "carries E msgs out buf' (n + length bs) (hs @ take j rest)"
    unfolding carries_def n using l'(1,3) j(2,3) by blast
  with j(1) show ?thesis by (auto simp: arrive_def Let_def simp flip: bs_def b_def)
qed

lemma carries_prefix: "carries E msgs out buf n hs \<Longrightarrow> prefix hs msgs"
  by (auto simp: carries_def)

lemma carries_all: "carries E msgs out buf n hs \<Longrightarrow> n = length out \<Longrightarrow> hs = msgs"
  using partial_all by (auto simp: carries_def)

lemma carries_sends:
  assumes "carries E msgs out buf n hs" and "\<forall>m \<in> set ms. fits m"
  shows "carries E (msgs @ ms) (out @ concat (map frame ms)) buf n hs"
  using assms
proof (induction ms arbitrary: msgs out)
  case (Cons m ms)
  have "fits m" using Cons.prems(2) by simp
  from Cons.IH[OF carries_send[OF Cons.prems(1) this]] Cons.prems(2) show ?case by simp
qed simp

section \<open>What holds all the time\<close>

definition chat_inv :: "'b env \<Rightarrow> 'b int32ops \<Rightarrow> (conn_id \<Rightarrow> client_id) \<Rightarrow> 'b chatnet \<Rightarrow> bool" where
  "chat_inv E ops who net \<longleftrightarrow>
     (\<forall>sv. cn_server net = Inr sv \<longrightarrow> cv_onConnection sv = chatOnConnection \<and> cv_onString sv = chatOnStringMessage E ops) \<and>
     (\<forall>i k. cn_program net i = Inr k \<longrightarrow> cc_onConnection k = clientOnConnection \<and> cc_onString k = clientOnStringMessage) \<and>
     finite (cn_up net) \<and> ct_conns (cn_room net) = cn_up net \<and>
     (\<forall>i c. cl_conn (cn_client net i) = Some c \<longrightarrow> who c = i) \<and>
     (\<forall>i m. AWrite m \<in> set (cn_todo net i) \<longrightarrow> fits m) \<and>
     cn_shut net = [] \<and>
     (\<forall>c. carries E (on_conn c (cn_wrote net)) (cl_out (cn_client net (who c)) c) (cn_srvIn net c) (cn_srvGot net c)
        (said_on c (cn_heard net))) \<and>
     (\<forall>c. carries E (sent_to c (cn_heard net)) (ct_out (cn_room net) c) (cn_cliIn net c) (cn_cliGot net c)
        (on_conn c (cn_told net))) \<and>
     (\<forall>i. cl_shown (cn_client net i) = map c_str (of_client who i (cn_told net)))"

lemma logs [simp]:
  "on_conn c [] = []" "on_conn c (xs @ ys) = on_conn c xs @ on_conn c ys"
  "on_conn c (map (Pair d) ms) = (if d = c then ms else [])" "on_conn c [(d, m)] = (if d = c then [m] else [])"
  "of_client who i [] = []" "of_client who i (xs @ ys) = of_client who i xs @ of_client who i ys"
  "of_client who i (map (Pair d) ms) = (if who d = i then ms else [])"
  "of_client who i [(d, m)] = (if who d = i then [m] else [])"
  "said_on c [] = []" "said_on c (vs @ ws) = said_on c vs @ said_on c ws"
  "said_on c (map (\<lambda>m. (d, m, r)) ms) = (if d = c then ms else [])"
  "sent_to c [] = []" "sent_to c (vs @ ws) = sent_to c vs @ sent_to c ws"
  "sent_to c (map (\<lambda>m. (d, m, r)) ms) = (if c \<in> r then ms else [])"
  by (simp_all add: on_conn_def of_client_def said_on_def sent_to_def filter_map comp_def)

lemma chat_invD:
  assumes "chat_inv E ops who net"
  shows "cn_server net = Inr sv \<Longrightarrow> cv_onConnection sv = chatOnConnection \<and> cv_onString sv = chatOnStringMessage E ops"
    "cn_program net i = Inr k \<Longrightarrow> cc_onConnection k = clientOnConnection \<and> cc_onString k = clientOnStringMessage"
    "finite (ct_conns (cn_room net))" "ct_conns (cn_room net) = cn_up net" "cl_conn (cn_client net i) = Some c \<Longrightarrow> who c = i"
    "AWrite m \<in> set (cn_todo net i) \<Longrightarrow> fits m" "cn_shut net = []"
    "carries E (on_conn c (cn_wrote net)) (cl_out (cn_client net (who c)) c) (cn_srvIn net c) (cn_srvGot net c)
        (said_on c (cn_heard net))"
    "carries E (sent_to c (cn_heard net)) (ct_out (cn_room net) c) (cn_cliIn net c) (cn_cliGot net c)
        (on_conn c (cn_told net))"
    "cl_shown (cn_client net i) = map c_str (of_client who i (cn_told net))"
  using assms by (simp_all add: chat_inv_def)

lemma chat_inv_start:
  assumes "codec_laws E ops" and "\<forall>i. \<forall>l \<in> set (getlines (input i)). fits l"
  shows "chat_inv E ops who (chatPrograms E ops argv args input)"
  using assms
  by (auto simp: chat_inv_def chatPrograms_def chatServerMain_def chatClientMain_def newChatServer_def newChatClient_def
      chatStart_def carries_nothing codec_lawsD(1) Let_def split: sum.splits if_splits)

section \<open>The steps keep it\<close>

lemma serverHears_fold:
  assumes "cv_onString sv = chatOnStringMessage E ops" and "finite (ct_conns (cn_room net))"
  shows "fold (serverHears sv c) ms net =
    net\<lparr>cn_room := fold (chatOnStringMessage E ops) ms (cn_room net),
        cn_heard := cn_heard net @ map (\<lambda>m. (c, m, cn_up net)) ms\<rparr>"
  using assms(2)
  by (induction ms arbitrary: net) (simp_all add: serverHears_def assms(1) chatOnStringMessage_eq)

lemma clientHears_fold:
  assumes "cc_onString k = clientOnStringMessage"
  shows "fold (clientHears k i c) ms net =
    net\<lparr>cn_client := (cn_client net)(i := fold clientOnStringMessage ms (cn_client net i)),
        cn_told := cn_told net @ map (Pair c) ms\<rparr>"
  by (induction ms arbitrary: net) (simp_all add: clientHears_def assms)

text \<open>The arrival of bytes changes nothing a main thread sees.\<close>

definition same_mains :: "'b chatnet \<Rightarrow> 'b chatnet \<Rightarrow> bool" where
  "same_mains net net' \<longleftrightarrow>
     cn_server net' = cn_server net \<and> cn_program net' = cn_program net \<and> cn_todo net' = cn_todo net \<and>
     cn_wrote net' = cn_wrote net \<and> (\<forall>i. cl_conn (cn_client net' i) = cl_conn (cn_client net i))"

lemma toServer_keeps:
  assumes L: "codec_laws E ops" and I: "chat_inv E ops who net"
  shows "\<exists>net'. chatStep E ops who (ToServer c k) net = Some (Inr net') \<and> chat_inv E ops who net' \<and> same_mains net net'"
proof (cases "cn_server net")
  case (Inr sv)
  let ?out = "cl_out (cn_client net (who c)) c" and ?R = "ct_conns (cn_room net)"
  let ?bs = "take k (drop (cn_srvGot net c) ?out)"
  obtain js buf' where
    a: "arrive E ops (serverHears sv c) (shuts c) ?bs (cn_srvIn net c) net = Some (Inr (buf', fold (serverHears sv c) js net))"
    and b: "carries E (on_conn c (cn_wrote net)) ?out buf' (cn_srvGot net c + length ?bs) (said_on c (cn_heard net) @ js)"
    using carries_deliver[OF L chat_invD(8)[OF I, of c], where cb = "serverHears sv c" and shut = "shuts c" and k = k and s = net]
    by (elim exE conjE) (rule that)
  define net' where "net' = fold (serverHears sv c) js net"
  have e: "net' = net\<lparr>cn_room := (cn_room net)\<lparr>ct_out := (\<lambda>d. if d \<in> ?R then ct_out (cn_room net) d @ concat (map frame js)
      else ct_out (cn_room net) d)\<rparr>, cn_heard := cn_heard net @ map (\<lambda>m. (c, m, cn_up net)) js\<rparr>"
    using serverHears_fold[of sv E ops net c js] chat_invD(1)[OF I Inr] chat_invD(3)[OF I]
      broadcast[OF chat_invD(3)[OF I], of E ops js]
    by (simp add: net'_def codecSend_is_frame[OF L] cong: if_cong)
  have "\<forall>m \<in> set js. fits m" using b by (auto simp: carries_def)
  then have s: "carries E (sent_to d (cn_heard net'))
      (ct_out (cn_room net') d) (cn_cliIn net d) (cn_cliGot net d) (on_conn d (cn_told net))" for d
    using chat_invD(9)[OF I, of d] chat_invD(4)[OF I] by (simp add: e carries_sends)
  have "chat_inv E ops who (net'\<lparr>cn_srvIn := (cn_srvIn net)(c := buf'),
      cn_srvGot := (cn_srvGot net)(c := cn_srvGot net c + length ?bs)\<rparr>)"
    unfolding chat_inv_def using s b I by (simp add: e chat_inv_def)
  moreover have "chatStep E ops who (ToServer c k) net = Some (Inr (net'\<lparr>cn_srvIn := (cn_srvIn net)(c := buf'),
      cn_srvGot := (cn_srvGot net)(c := cn_srvGot net c + length ?bs)\<rparr>))"
    using a by (simp add: Inr Let_def e flip: net'_def)
  moreover have "same_mains net (net'\<lparr>cn_srvIn := (cn_srvIn net)(c := buf'),
      cn_srvGot := (cn_srvGot net)(c := cn_srvGot net c + length ?bs)\<rparr>)"
    by (simp add: same_mains_def e)
  ultimately show ?thesis by blast
qed (use I in \<open>simp add: same_mains_def\<close>)

lemma out_of:
  "chat_inv E ops who net \<Longrightarrow> who c = i \<Longrightarrow>
     carries E (on_conn c (cn_wrote net)) (cl_out (cn_client net i) c) (cn_srvIn net c) (cn_srvGot net c) (said_on c (cn_heard net))"
  using chat_invD(8) by blast

lemma toClient_keeps:
  assumes L: "codec_laws E ops" and I: "chat_inv E ops who net"
  shows "\<exists>net'. chatStep E ops who (ToClient c k) net = Some (Inr net') \<and> chat_inv E ops who net' \<and> same_mains net net'"
proof (cases "cn_program net (who c)")
  case (Inr kl)
  let ?out = "ct_out (cn_room net) c"
  let ?bs = "take k (drop (cn_cliGot net c) ?out)"
  obtain js buf' where
    a: "arrive E ops (clientHears kl (who c) c) (shuts c) ?bs (cn_cliIn net c) net =
          Some (Inr (buf', fold (clientHears kl (who c) c) js net))"
    and b: "carries E (sent_to c (cn_heard net)) ?out buf' (cn_cliGot net c + length ?bs) (on_conn c (cn_told net) @ js)"
    using carries_deliver[OF L chat_invD(9)[OF I, of c], where cb = "clientHears kl (who c) c" and shut = "shuts c"
        and k = k and s = net]
    by (elim exE conjE) (rule that)
  define net' where "net' = fold (clientHears kl (who c) c) js net"
  have e: "net' = net\<lparr>cn_client := (cn_client net)(who c := (cn_client net (who c))\<lparr>cl_shown :=
      cl_shown (cn_client net (who c)) @ map c_str js\<rparr>), cn_told := cn_told net @ map (Pair c) js\<rparr>"
    using clientHears_fold[of kl "who c" c js net] chat_invD(2)[OF I Inr] by (simp add: net'_def shown)
  have "chat_inv E ops who (net'\<lparr>cn_cliIn := (cn_cliIn net)(c := buf'),
      cn_cliGot := (cn_cliGot net)(c := cn_cliGot net c + length ?bs)\<rparr>)"
    unfolding chat_inv_def using b I out_of[OF I, where i = "who c"] by (simp add: e chat_inv_def)
  moreover have "chatStep E ops who (ToClient c k) net = Some (Inr (net'\<lparr>cn_cliIn := (cn_cliIn net)(c := buf'),
      cn_cliGot := (cn_cliGot net)(c := cn_cliGot net c + length ?bs)\<rparr>))"
    using a by (simp add: Inr Let_def e flip: net'_def)
  moreover have "same_mains net (net'\<lparr>cn_cliIn := (cn_cliIn net)(c := buf'),
      cn_cliGot := (cn_cliGot net)(c := cn_cliGot net c + length ?bs)\<rparr>)"
    by (simp add: same_mains_def e)
  ultimately show ?thesis by blast
qed (use I in \<open>simp add: same_mains_def\<close>)

lemma clientDo_keeps:
  assumes L: "codec_laws E ops" and I: "chat_inv E ops who net" and a: "\<And>m. a = AWrite m \<Longrightarrow> fits m"
  shows "chat_inv E ops who (clientDo E ops i a net)"
proof (cases a)
  case (AWrite m)
  show ?thesis
  proof (cases "cl_conn (cn_client net i)")
    case (Some c)
    have i: "who c = i" using chat_invD(5)[OF I Some] .
    have "carries E (on_conn d (cn_wrote net @ [(c, m)]))
        (cl_out (clientWrite E ops m (cn_client net i)) d) (cn_srvIn net d) (cn_srvGot net d) (said_on d (cn_heard net))"
      if "who d = i" for d
      using chat_invD(8)[OF I, of d] carries_send[OF _ a[OF AWrite]] that
      by (auto simp: clientWrite_def Some codecSend_is_frame[OF L])
    with I i show ?thesis by (auto simp: chat_inv_def clientDo_def AWrite Some clientWrite_def)
  qed (use I in \<open>simp add: chat_inv_def clientDo_def AWrite clientWrite_def\<close>)
qed (use I in \<open>auto simp: chat_inv_def clientDo_def clientConnect_def clientDisconnect_def map_sum_def split: sum.splits if_splits\<close>)

lemma chatStep_keeps:
  assumes L: "codec_laws E ops" and I: "chat_inv E ops who net"
  shows "\<exists>net'. chatStep E ops who e net = Some (Inr net') \<and> chat_inv E ops who net'"
proof (cases e)
  case (ServerUp c)
  then show ?thesis using I by (auto simp: chat_inv_def chatOnConnection_def split: sum.splits)
next
  case (ServerDown c)
  then show ?thesis using I by (auto simp: chat_inv_def chatOnConnection_def split: sum.splits)
next
  case (ClientUp c)
  then show ?thesis using I out_of[OF I, where i = "who c"] by (auto simp: chat_inv_def clientOnConnection_def split: sum.splits)
next
  case (ClientDown c)
  then show ?thesis using I out_of[OF I, where i = "who c"] by (auto simp: chat_inv_def clientOnConnection_def split: sum.splits)
next
  case (MainStep i)
  show ?thesis
  proof (cases "cn_todo net i")
    case (Cons a todo)
    have "chat_inv E ops who (net\<lparr>cn_todo := (cn_todo net)(i := todo)\<rparr>)"
      using I by (auto simp: chat_inv_def) (metis Cons list.set_intros(2))
    moreover have "fits m" if "a = AWrite m" for m using chat_invD(6)[OF I, of m i] by (simp add: Cons that)
    ultimately show ?thesis using clientDo_keeps[OF L] by (simp add: MainStep Cons)
  qed (use MainStep I in simp)
qed (use toServer_keeps[OF assms] toClient_keeps[OF assms] in blast)+

lemma chatRun_keeps:
  assumes L: "codec_laws E ops" and "chat_inv E ops who net"
  shows "\<exists>net'. chatRun E ops who evs net = Some (Inr net') \<and> chat_inv E ops who net'"
  using assms(2)
proof (induction evs arbitrary: net)
  case (Cons e evs)
  obtain net1 where "chatStep E ops who e net = Some (Inr net1)" "chat_inv E ops who net1"
    using chatStep_keeps[OF L Cons.prems] by blast
  with Cons.IH show ?case by (simp del: chatStep.simps)
qed simp

section \<open>What the main threads write\<close>

definition able :: "'b chatnet \<Rightarrow> client_id \<Rightarrow> bool" where
  "able net i \<longleftrightarrow>
     (case (cn_server net, cn_program net i) of
        (Inr sv, Inr k) \<Rightarrow> cv_started sv \<and> snd (cc_addr k) = cv_port sv | _ \<Rightarrow> False)"

text \<open>The arguments of \<open>entered\<close> are what they stand for.\<close>

definition main_at :: "'b chatnet \<Rightarrow> client_id \<Rightarrow> bool \<Rightarrow> bool \<Rightarrow> bool \<Rightarrow> client_action list \<Rightarrow> bool" where
  "main_at net i can cd up todo \<longleftrightarrow>
     able net i = can \<and> (can \<longrightarrow> linked net i = cd) \<and> (cl_conn (cn_client net i) \<noteq> None) = up \<and>
     (\<forall>u. cn_program net i = Inl u \<longrightarrow> \<not> up) \<and> cn_todo net i = todo"

lemma linked_able: "linked net i \<Longrightarrow> able net i"
  by (auto simp: linked_def able_def split: sum.splits)

lemma main_at_same: "same_mains net net' \<Longrightarrow> main_at net' i = main_at net i"
  by (simp add: fun_eq_iff same_mains_def main_at_def able_def linked_def)

text \<open>A step leads from one call of \<open>entered\<close> to the next.\<close>

definition goes_on :: "(conn_id \<Rightarrow> client_id) \<Rightarrow> client_id \<Rightarrow> bool \<Rightarrow> bool \<Rightarrow> bool \<Rightarrow> client_action list \<Rightarrow> chat_event
    \<Rightarrow> 'b chatnet \<Rightarrow> 'b chatnet \<Rightarrow> bool" where
  "goes_on who i can cd up todo e net net' \<longleftrightarrow>
     (\<exists>ms cd' up' todo'. main_at net' i can cd' up' todo' \<and>
        of_client who i (cn_wrote net') = of_client who i (cn_wrote net) @ ms \<and>
        (\<forall>es. entered who i can cd up todo (e # es) = ms @ entered who i can cd' up' todo' es))"

lemma goes_onI:
  assumes "main_at net' i can cd' up' todo'" and "of_client who i (cn_wrote net') = of_client who i (cn_wrote net) @ ms"
    and "\<And>es. entered who i can cd up todo (e # es) = ms @ entered who i can cd' up' todo' es"
  shows "goes_on who i can cd up todo e net net'"
  using assms unfolding goes_on_def by blast

lemma main_step_goes_on:
  assumes I: "chat_inv E ops who net" and m: "main_at net i can cd up todo"
    and s: "chatStep E ops who (MainStep j) net = Some (Inr net')"
  shows "goes_on who i can cd up todo (MainStep j) net net'"
proof (cases "cn_todo net j")
  case Nil
  then show ?thesis using m s by (intro goes_onI[of _ _ _ cd up todo _ _ "[]"]) (auto simp: main_at_def)
next
  case (Cons a rest)
  let ?net = "net\<lparr>cn_todo := (cn_todo net)(j := rest)\<rparr>"
  have e: "net' = clientDo E ops j a ?net" using s by (simp add: Cons)
  show ?thesis
  proof (cases "j = i")
    case False
    have "of_client who i (cn_wrote net') = of_client who i (cn_wrote net)"
      using False chat_invD(5)[OF I, of j] by (auto simp: e clientDo_def split: client_action.splits option.splits)
    moreover have "main_at net' i can cd up todo"
      using m False by (cases a) (simp_all add: e clientDo_def main_at_def able_def linked_def)
    ultimately show ?thesis using False by (intro goes_onI[of _ _ _ cd up todo _ _ "[]"]) simp_all
  next
    case True
    have t: "todo = a # rest" using m Cons True by (simp add: main_at_def)
    show ?thesis
    proof (cases a)
      case AConnect
      have "main_at net' i can True up rest"
        using m by (auto simp: e True AConnect clientDo_def main_at_def able_def linked_def clientConnect_def map_sum_def
            split: sum.splits)
      then show ?thesis
        by (rule goes_onI[where ms = "[]"]) (simp_all add: e clientDo_def t AConnect True)
    next
      case ADisconnect
      have "main_at net' i can cd up rest"
        using m by (auto simp: e True ADisconnect clientDo_def main_at_def able_def linked_def clientDisconnect_def map_sum_def
            split: sum.splits)
      then show ?thesis
        by (rule goes_onI[where ms = "[]"]) (simp_all add: e clientDo_def t ADisconnect True)
    next
      case (AWrite l)
      have "main_at net' i can cd up rest"
        using m by (auto simp: e True AWrite clientDo_def main_at_def able_def linked_def clientWrite_def split: option.splits)
      then show ?thesis
        using m chat_invD(5)[OF I, of j] True
        by (rule_tac goes_onI[where ms = "if up then [l] else []"])
          (auto simp: e clientDo_def t AWrite main_at_def split: option.splits)
    qed
  qed
qed

lemma step_goes_on:
  assumes L: "codec_laws E ops" and I: "chat_inv E ops who net" and m: "main_at net i can cd up todo"
    and s: "chatStep E ops who e net = Some (Inr net')"
  shows "goes_on who i can cd up todo e net net'"
proof (cases e)
  case (MainStep j)
  then show ?thesis using main_step_goes_on[OF I m] s by blast
next
  case (ToServer c k)
  then have "same_mains net net'" using toServer_keeps[OF L I, of c k] s by auto
  then show ?thesis
    using m main_at_same[of net net'] by (intro goes_onI[of _ _ _ cd up todo _ _ "[]"]) (simp_all add: ToServer same_mains_def)
next
  case (ToClient c k)
  then have "same_mains net net'" using toClient_keeps[OF L I, of c k] s by auto
  then show ?thesis
    using m main_at_same[of net net'] by (intro goes_onI[of _ _ _ cd up todo _ _ "[]"]) (simp_all add: ToClient same_mains_def)
next
  case (ServerUp c)
  then have "same_mains net net'" using s by (auto simp: same_mains_def split: sum.splits if_splits)
  then show ?thesis
    using m main_at_same[of net net'] by (intro goes_onI[of _ _ _ cd up todo _ _ "[]"]) (simp_all add: ServerUp same_mains_def)
next
  case (ServerDown c)
  then have "same_mains net net'" using s by (auto simp: same_mains_def split: sum.splits)
  then show ?thesis
    using m main_at_same[of net net'] by (intro goes_onI[of _ _ _ cd up todo _ _ "[]"]) (simp_all add: ServerDown same_mains_def)
next
  case (ClientUp c)
  have "cn_wrote net' = cn_wrote net" using s by (auto simp: ClientUp split: sum.splits if_splits)
  moreover have "main_at net' i can cd (if who c = i \<and> can \<and> cd then True else up) todo"
    using m s linked_able[of net "who c"] chat_invD(2)[OF I, of "who c"]
    by (auto simp: ClientUp main_at_def able_def linked_def clientOnConnection_def split: sum.splits if_splits)
  ultimately show ?thesis by (intro goes_onI[where ms = "[]"]) (simp_all add: ClientUp)
next
  case (ClientDown c)
  have "cn_wrote net' = cn_wrote net" using s by (auto simp: ClientDown split: sum.splits if_splits)
  moreover have "main_at net' i can cd (if who c = i then False else up) todo"
    using m s chat_invD(2)[OF I, of "who c"]
    by (auto simp: ClientDown main_at_def able_def linked_def clientOnConnection_def split: sum.splits if_splits)
  ultimately show ?thesis by (intro goes_onI[where ms = "[]"]) (simp_all add: ClientDown)
qed

lemma chatRun_entered:
  assumes L: "codec_laws E ops" and "chat_inv E ops who net" and "main_at net i can cd up todo"
    and "chatRun E ops who evs net = Some (Inr net')"
  shows "of_client who i (cn_wrote net') = of_client who i (cn_wrote net) @ entered who i can cd up todo evs"
  using assms(2-4)
proof (induction evs arbitrary: net cd up todo)
  case (Cons e es)
  obtain net1 where s: "chatStep E ops who e net = Some (Inr net1)" "chat_inv E ops who net1"
    using chatStep_keeps[OF L Cons.prems(1)] by blast
  obtain ms cd' up' todo' where g: "main_at net1 i can cd' up' todo'"
    "of_client who i (cn_wrote net1) = of_client who i (cn_wrote net) @ ms"
    "entered who i can cd up todo (e # es) = ms @ entered who i can cd' up' todo' es"
    using step_goes_on[OF L Cons.prems(1,2) s(1)] unfolding goes_on_def by blast
  have "chatRun E ops who es net1 = Some (Inr net')" using Cons.prems(3) s(1) by (simp del: chatStep.simps)
  from Cons.IH[OF s(2) g(1) this] g(2,3) show ?case by simp
qed simp

lemma entered_unable: "entered who i False cd False todo evs = []"
  by (induction evs arbitrary: cd todo) (auto split: chat_event.splits list.splits client_action.splits)

definition lines_of :: "client_action list \<Rightarrow> string list" where
  "lines_of todo = concat (map (\<lambda>a. case a of AWrite m \<Rightarrow> [m] | _ \<Rightarrow> []) todo)"

lemma lines_of_simps [simp]:
  "lines_of [] = []" "lines_of (a # todo) = (case a of AWrite m \<Rightarrow> m # lines_of todo | _ \<Rightarrow> lines_of todo)"
  "lines_of (xs @ ys) = lines_of xs @ lines_of ys" "lines_of (map AWrite ms) = ms"
  by (auto simp: lines_of_def comp_def split: client_action.splits)

lemma entered_done: "entered who i can cd up [] evs = []"
  by (induction evs arbitrary: cd up) (auto split: chat_event.splits)

lemma entered_subseq: "subseq (entered who i can cd up todo evs) (lines_of todo)"
  by (induction evs arbitrary: cd up todo) (auto simp: entered_done split: chat_event.splits list.splits client_action.splits)

text \<open>What \<open>main\<close> does after its arguments were checked.\<close>

definition session :: "string \<Rightarrow> client_action list" where
  "session input = AConnect # map AWrite (getlines input) @ [ADisconnect]"

lemma entered_start:
  assumes "codec_laws E ops" and "\<forall>i. \<forall>l \<in> set (getlines (input i)). fits l"
    and "chatRun E ops who evs (chatPrograms E ops argv args input) = Some (Inr net)"
  shows "of_client who i (cn_wrote net) = entered who i (same_port argv (args i)) False False (session (input i)) evs"
proof -
  let ?start = "chatPrograms E ops argv args input"
  have "main_at ?start i (same_port argv (args i)) False False (cn_todo ?start i)"
    by (auto simp: main_at_def chatPrograms_def able_def linked_def same_port_def chatServerMain_def chatClientMain_def
        newChatServer_def newChatClient_def chatStart_def Let_def)
  from chatRun_entered[OF assms(1) chat_inv_start[OF assms(1,2)] this assms(3)]
  have e: "of_client who i (cn_wrote net) = entered who i (same_port argv (args i)) False False (cn_todo ?start i) evs"
    by (simp add: chatPrograms_def)
  show ?thesis
  proof (cases "2 < length (args i)")
    case True
    then have "cn_todo ?start i = session (input i)" by (simp add: chatPrograms_def chatClientMain_def Let_def session_def)
    with e show ?thesis by simp
  next
    case False
    then have "\<not> same_port argv (args i)" by (simp add: same_port_def)
    with e show ?thesis by (simp add: entered_unable)
  qed
qed

section \<open>Properties\<close>

text \<open>
  C33: the chat programs hold one conversation.  The server is started with the command line \<open>argv\<close>
  and client \<open>i\<close> with \<open>args i\<close> and \<open>input i\<close>, whose lines have at most 65536 bytes; connections come
  up and go down, main threads run, and bytes arrive in pieces of any size, all in any order.  Then no
  call fails or runs out of rounds and no connection is shut down for a bad length; a client writes
  exactly the lines its main thread gets to while it is connected, in order; the server's callback
  hears, for each connection, the lines written on it, in order and none twice, and all of them once
  their bytes have arrived; each client's callback is told exactly the messages that were heard while
  its connection was up at the server, in the order the server heard them, all of them once their
  bytes have arrived; and a client shows what it is told, each message up to its first zero byte.
\<close>

theorem chat_is_one_conversation:
  assumes "codec_laws E ops" and "\<forall>i. \<forall>l \<in> set (getlines (input i)). length l \<le> 65536"
  shows "\<exists>net. chatRun E ops who evs (chatPrograms E ops argv args input) = Some (Inr net) \<and> cn_shut net = [] \<and>
    (\<forall>i. of_client who i (cn_wrote net) = entered who i (same_port argv (args i)) False False (session (input i)) evs \<and>
       subseq (of_client who i (cn_wrote net)) (getlines (input i)) \<and>
       cl_shown (cn_client net i) = map c_str (of_client who i (cn_told net))) \<and>
    (\<forall>c. prefix (said_on c (cn_heard net)) (on_conn c (cn_wrote net)) \<and>
       (cn_srvGot net c = length (cl_out (cn_client net (who c)) c) \<longrightarrow> said_on c (cn_heard net) = on_conn c (cn_wrote net))) \<and>
    (\<forall>c. prefix (on_conn c (cn_told net)) (sent_to c (cn_heard net)) \<and>
       (cn_cliGot net c = length (ct_out (cn_room net) c) \<longrightarrow> on_conn c (cn_told net) = sent_to c (cn_heard net)))"
proof -
  have fit: "\<forall>i. \<forall>l \<in> set (getlines (input i)). fits l" using assms(2) by (simp add: fits_def)
  obtain net where r: "chatRun E ops who evs (chatPrograms E ops argv args input) = Some (Inr net)"
    and I: "chat_inv E ops who net"
    using chatRun_keeps[OF assms(1) chat_inv_start[OF assms(1) fit]] by blast
  have w: "of_client who i (cn_wrote net) = entered who i (same_port argv (args i)) False False (session (input i)) evs" for i
    by (rule entered_start[OF assms(1) fit r])
  then have "subseq (of_client who i (cn_wrote net)) (getlines (input i))" for i
    using entered_subseq[of who i "same_port argv (args i)" False False "session (input i)" evs] by (simp add: session_def)
  then show ?thesis
    using r w chat_invD(7,10)[OF I] carries_prefix[OF chat_invD(8)[OF I]] carries_all[OF chat_invD(8)[OF I]]
      carries_prefix[OF chat_invD(9)[OF I]] carries_all[OF chat_invD(9)[OF I]]
    by (intro exI[of _ net]) (simp del: chatRun.simps)
qed

text \<open>Two clients that are connected before they write.\<close>

definition sampleEvents :: "chat_event list" where
  "sampleEvents = [MainStep 0, MainStep 1, ServerUp 0, ClientUp 0, ServerUp 1, ClientUp 1, MainStep 0, ToServer 0 3, ToServer 0 9,
     ToClient 1 2, ToClient 1 9, MainStep 1, MainStep 0, ClientDown 0, MainStep 0]"

definition sampleArgs :: "client_id \<Rightarrow> string list" where
  "sampleArgs i = [''client'', ''127.0.0.1'', ''2333'']"

definition sampleInput :: "client_id \<Rightarrow> string" where
  "sampleInput i = (if i = 0 then ''hi'' @ [CHR 0x0A] @ ''there'' else [])"

lemma sample_lines: "getlines (sampleInput i) = (if i = 0 then [''hi'', ''there''] else [])"
  by (simp add: sampleInput_def getlines.simps)

theorem chat_is_one_conversation_witness:
  "\<exists>net. chatRun sampleEnv sampleOps id sampleEvents (chatPrograms sampleEnv sampleOps [''server'', ''2333''] sampleArgs sampleInput) =
      Some (Inr net) \<and> of_client id 0 (cn_wrote net) = [''hi'', ''there''] \<and> cn_shut net = []"
proof -
  have "\<forall>i. \<forall>l \<in> set (getlines (sampleInput i)). length l \<le> 65536" by (simp add: sample_lines)
  from chat_is_one_conversation[OF sample_codec_laws this, of id sampleEvents "[''server'', ''2333'']" sampleArgs]
  obtain net where n: "chatRun sampleEnv sampleOps id sampleEvents
      (chatPrograms sampleEnv sampleOps [''server'', ''2333''] sampleArgs sampleInput) = Some (Inr net)" "cn_shut net = []"
    "of_client id 0 (cn_wrote net) =
       entered id 0 (same_port [''server'', ''2333''] (sampleArgs 0)) False False (session (sampleInput 0)) sampleEvents"
    by blast
  have "same_port [''server'', ''2333''] (sampleArgs 0)" by (simp add: same_port_def sampleArgs_def)
  with n show ?thesis by (simp add: sampleEvents_def session_def sample_lines del: chatRun.simps)
qed

text \<open>
  A port written as a number is that number modulo \<open>2 ^ 16\<close>; nothing tells the user that it was cut.
\<close>

lemma digits_isdigit: "list_all isdigit (digits n)"
proof (induction n rule: digits.induct)
  case (1 n)
  then show ?case by (auto simp: digits.simps[of n] isdigit_def digit_def)
qed

theorem port_of_numeral: "port_of (to_string n) = of_int n"
proof -
  have t: "takeWhile isdigit (digits k) = digits k" for k
    using digits_isdigit[of k] by (simp add: takeWhile_eq_all_conv list_all_iff)
  have h: "isdigit (hd (digits k)) \<and> digits k \<noteq> []" for k
    using digits_isdigit[of k] digits_not_minus[of k] by (cases "digits k") auto
  have d: "\<not> isspace c \<and> c \<noteq> CHR ''-'' \<and> c \<noteq> CHR ''+''" if "isdigit c" for c
    using that by (auto simp: isdigit_def isspace_def)
  have "dropWhile isspace (digits k) = digits k" for k
    using h[of k] d by (cases "digits k") auto
  note w = this
  have "atoi (digits k) = int k" for k
    using h[of k] d[of "hd (digits k)"] by (simp add: atoi_def w t)
  moreover have "atoi (CHR ''-'' # digits k) = - int k" for k
    by (simp add: atoi_def isspace_def t)
  ultimately have "atoi (to_string n) = n" by (simp add: to_string_def)
  then show ?thesis by (simp add: port_of_def)
qed

end
