(* ===== verification/TimeWheel.thy ===== *)
theory TimeWheel
  imports Callbacks
begin

text \<open>
  \<open>src/testCase/time_wheel/echo_server.cc\<close>: an echo server that shuts idle connections down with a
  wheel of buckets.  A bucket holds counted pointers to entries; the entry of a connection is
  destroyed, and shuts the connection down, when the last bucket that holds it is dropped.

  \<open>boost::circular_buffer\<close> is a parameter; \<open>ring_laws\<close> is what its documentation says of the
  operations used.  A \<open>shared_ptr<Entry>\<close> is the entry's number, or \<open>None\<close> when it is null; an entry
  lives as long as some bucket holds it.  The calls of \<open>shutdown\<close> and \<open>send\<close> on muduo's connections
  are logged.
\<close>

section \<open>The server\<close>

type_synonym entry_id = nat
type_synonym bucket = "entry_id option set"

record 'r ringops =
  rb_make :: "nat \<Rightarrow> 'r"
  rb_push_back :: "'r \<Rightarrow> bucket \<Rightarrow> 'r"
  rb_setBack :: "'r \<Rightarrow> bucket \<Rightarrow> 'r"      \<comment> \<open>an assignment to \<open>back()\<close>\<close>
  rb_elems :: "'r \<Rightarrow> bucket list"          \<comment> \<open>from \<open>begin()\<close> to \<open>end()\<close>\<close>

record 'r wheel =
  wh_buckets :: 'r
  wh_next :: entry_id                        \<comment> \<open>the next entry to be allocated\<close>
  wh_ptr :: "entry_id \<Rightarrow> conn_id"           \<comment> \<open>\<open>Entry::ptr_\<close>\<close>
  wh_context :: "conn_id \<Rightarrow> entry_id option" \<comment> \<open>the connections' contexts\<close>
  wh_alive :: "conn_id \<Rightarrow> bool"             \<comment> \<open>whether a connection can be locked\<close>
  wh_shut :: "conn_id set list"              \<comment> \<open>the connections shut down, a set for each tick\<close>
  wh_sent :: "(conn_id \<times> string) list"

definition newWheel :: "'r ringops \<Rightarrow> nat \<Rightarrow> 'r wheel" where
  "newWheel R num_buckets =
     \<lparr>wh_buckets = rb_make R num_buckets, wh_next = 0, wh_ptr = (\<lambda>_. 0), wh_context = Map.empty,
      wh_alive = (\<lambda>_. False), wh_shut = [], wh_sent = []\<rparr>"

text \<open>The entries that the buckets keep alive.\<close>

definition held :: "bucket list \<Rightarrow> entry_id set" where
  "held bs = Option.these (\<Union>(set bs))"

text \<open>\<open>~Entry\<close>, for each of the entries destroyed at once.\<close>

definition dtorEntries :: "entry_id set \<Rightarrow> 'r wheel \<Rightarrow> 'r wheel" where
  "dtorEntries es w = w\<lparr>wh_shut := wh_shut w @ [Set.filter (wh_alive w) (wh_ptr w ` es)]\<rparr>"

definition wheelOnTime :: "'r ringops \<Rightarrow> 'r wheel \<Rightarrow> 'r wheel" where
  "wheelOnTime R w =
     (let before = rb_elems R (wh_buckets w);
          bs = rb_push_back R (wh_buckets w) {}
      in dtorEntries (held before - held (rb_elems R bs)) (w\<lparr>wh_buckets := bs\<rparr>))"

text \<open>\<open>buckets_.back().insert(p)\<close>\<close>

definition insertBack :: "'r ringops \<Rightarrow> entry_id option \<Rightarrow> 'r wheel \<Rightarrow> 'r wheel result" where
  "insertBack R p w =
     (if rb_elems R (wh_buckets w) = [] then Inl (OutOfBounds ''buckets_.back()'')
      else Inr (w\<lparr>wh_buckets := rb_setBack R (wh_buckets w) (insert p (last (rb_elems R (wh_buckets w))))\<rparr>))"

definition wheelOnConnection :: "'r ringops \<Rightarrow> conn_id \<Rightarrow> bool \<Rightarrow> 'r wheel \<Rightarrow> 'r wheel result" where
  "wheelOnConnection R c up w =
     (if up then
        let e = wh_next w; w = w\<lparr>wh_next := Suc e, wh_ptr := (wh_ptr w)(e := c)\<rparr> in
        bindR (insertBack R (Some e) w) (\<lambda>w.
        Inr (w\<lparr>wh_context := (wh_context w)(c \<mapsto> e)\<rparr>))
      else Inr w)"

text \<open>\<open>msg\<close> is what \<open>retrieveAllAsString\<close> returned.\<close>

definition wheelOnMessage :: "'r ringops \<Rightarrow> conn_id \<Rightarrow> string \<Rightarrow> 'r wheel \<Rightarrow> 'r wheel result" where
  "wheelOnMessage R c msg w =
     (case wh_context w c of
        None \<Rightarrow> Inl (External ''bad_any_cast'')
      | Some e \<Rightarrow>
          bindR (insertBack R (if e \<in> held (rb_elems R (wh_buckets w)) then Some e else None) w) (\<lambda>w.
          Inr (w\<lparr>wh_sent := wh_sent w @ [(c, msg)]\<rparr>)))"

text \<open>
  What happens to the server: a second passes, a connection comes up, sends something, goes down;
  and the last reference to it goes away.
\<close>

datatype wevent = Tick | Up conn_id | Msg conn_id string | Down conn_id | Gone conn_id

fun wheelStep :: "'r ringops \<Rightarrow> wevent \<Rightarrow> 'r wheel \<Rightarrow> 'r wheel result" where
  "wheelStep R Tick w = Inr (wheelOnTime R w)"
| "wheelStep R (Up c) w = wheelOnConnection R c True (w\<lparr>wh_alive := (wh_alive w)(c := True)\<rparr>)"
| "wheelStep R (Msg c m) w = wheelOnMessage R c m w"
| "wheelStep R (Down c) w = wheelOnConnection R c False w"
| "wheelStep R (Gone c) w = Inr (w\<lparr>wh_alive := (wh_alive w)(c := False)\<rparr>)"

definition wheelRun :: "'r ringops \<Rightarrow> wevent list \<Rightarrow> 'r wheel \<Rightarrow> 'r wheel result" where
  "wheelRun R = foldR (wheelStep R)"

text \<open>A connection comes up once, and before its messages.\<close>

fun orderly :: "conn_id set \<Rightarrow> wevent list \<Rightarrow> bool" where
  "orderly seen [] = True"
| "orderly seen (Up c # evs) = (c \<notin> seen \<and> orderly (insert c seen) evs)"
| "orderly seen (Msg c m # evs) = (c \<in> seen \<and> orderly seen evs)"
| "orderly seen (_ # evs) = orderly seen evs"

text \<open>
  The constructor gives muduo's server and loop the callbacks, \<open>start_\<close> starts the server, and \<open>main\<close>
  makes a server of ten buckets.
\<close>

record 'r wheelserver =
  ws_addr :: inet
  ws_name :: string
  ws_onConnection :: "conn_id \<Rightarrow> bool \<Rightarrow> 'r wheel \<Rightarrow> 'r wheel result"
  ws_onMessage :: "conn_id \<Rightarrow> string \<Rightarrow> 'r wheel \<Rightarrow> 'r wheel result"
  ws_every :: "(seconds \<times> ('r wheel \<Rightarrow> 'r wheel)) list"   \<comment> \<open>the timers given to the loop\<close>
  ws_wheel :: "'r wheel"
  ws_started :: bool

definition newWheelServer :: "'r ringops \<Rightarrow> inet \<Rightarrow> nat \<Rightarrow> 'r wheelserver" where
  "newWheelServer R addr num_buckets =
     \<lparr>ws_addr = addr, ws_name = ''ECHO SERVER'', ws_onConnection = wheelOnConnection R, ws_onMessage = wheelOnMessage R,
      ws_every = [(1, wheelOnTime R)], ws_wheel = newWheel R num_buckets, ws_started = False\<rparr>"

definition wheelStart :: "'r wheelserver \<Rightarrow> 'r wheelserver" where
  "wheelStart sv = sv\<lparr>ws_started := True\<rparr>"

definition wheelMain :: "'r ringops \<Rightarrow> 'r wheelserver" where
  "wheelMain R = (let addr = Inet 2333; server = newWheelServer R addr 10 in wheelStart server)"

text \<open>A tick is a second; a server that was not started has no connections.\<close>

fun serveStep :: "'r wheelserver \<Rightarrow> wevent \<Rightarrow> 'r wheel \<Rightarrow> 'r wheel result" where
  "serveStep sv Tick w = Inr (fold (\<lambda>(s, f). if s = 1 then f else id) (ws_every sv) w)"
| "serveStep sv (Up c) w =
     (if ws_started sv then ws_onConnection sv c True (w\<lparr>wh_alive := (wh_alive w)(c := True)\<rparr>) else Inr w)"
| "serveStep sv (Msg c m) w = ws_onMessage sv c m w"
| "serveStep sv (Down c) w = ws_onConnection sv c False w"
| "serveStep sv (Gone c) w = Inr (w\<lparr>wh_alive := (wh_alive w)(c := False)\<rparr>)"

definition serveRun :: "'r wheelserver \<Rightarrow> wevent list \<Rightarrow> 'r wheel result" where
  "serveRun sv evs = foldR (serveStep sv) evs (ws_wheel sv)"

lemma serveRun_started: "serveRun (wheelStart (newWheelServer R addr n)) evs = wheelRun R evs (newWheel R n)"
proof -
  have "serveStep (wheelStart (newWheelServer R addr n)) ev w = wheelStep R ev w" for ev w
    by (cases ev) (simp_all add: wheelStart_def newWheelServer_def)
  then have "serveStep (wheelStart (newWheelServer R addr n)) = wheelStep R" by blast
  then show ?thesis by (simp add: serveRun_def wheelRun_def) (simp add: wheelStart_def newWheelServer_def)
qed

section \<open>What the wheel is for\<close>

text \<open>
  The specification counts, for each connection, the seconds since it was last active, and shuts
  it down when they are \<open>n\<close>.
\<close>

record idlespec =
  sp_idle :: "conn_id \<Rightarrow> nat option"
  sp_alive :: "conn_id \<Rightarrow> bool"
  sp_shut :: "conn_id set list"
  sp_sent :: "(conn_id \<times> string) list"

definition newSpec :: idlespec where
  "newSpec = \<lparr>sp_idle = Map.empty, sp_alive = (\<lambda>_. False), sp_shut = [], sp_sent = []\<rparr>"

definition older :: "nat \<Rightarrow> nat option \<Rightarrow> nat option" where
  "older n i = (case i of None \<Rightarrow> None | Some k \<Rightarrow> if Suc k = n then None else Some (Suc k))"

definition due :: "nat \<Rightarrow> idlespec \<Rightarrow> conn_id set" where
  "due n a = {c. sp_alive a c \<and> map_option Suc (sp_idle a c) = Some n}"

fun specStep :: "nat \<Rightarrow> wevent \<Rightarrow> idlespec \<Rightarrow> idlespec" where
  "specStep n Tick a = a\<lparr>sp_idle := (\<lambda>c. older n (sp_idle a c)), sp_shut := sp_shut a @ [due n a]\<rparr>"
| "specStep n (Up c) a = a\<lparr>sp_idle := (sp_idle a)(c \<mapsto> 0), sp_alive := (sp_alive a)(c := True)\<rparr>"
| "specStep n (Msg c m) a =
     a\<lparr>sp_idle := (if sp_idle a c = None then sp_idle a else (sp_idle a)(c \<mapsto> 0)), sp_sent := sp_sent a @ [(c, m)]\<rparr>"
| "specStep n (Down c) a = a"
| "specStep n (Gone c) a = a\<lparr>sp_alive := (sp_alive a)(c := False)\<rparr>"

definition specRun :: "nat \<Rightarrow> wevent list \<Rightarrow> idlespec \<Rightarrow> idlespec" where
  "specRun n = fold (specStep n)"

section \<open>The ring\<close>

text \<open>
  A full ring drops its first element when one is added at its end; one of no capacity stays empty.
\<close>

definition ring_laws :: "'r ringops \<Rightarrow> nat \<Rightarrow> ('r \<Rightarrow> bool) \<Rightarrow> bool" where
  "ring_laws R n ok \<longleftrightarrow>
     ok (rb_make R n) \<and> rb_elems R (rb_make R n) = [] \<and>
     (\<forall>r b. ok r \<longrightarrow> ok (rb_push_back R r b) \<and>
        rb_elems R (rb_push_back R r b) =
          (if n = 0 then [] else if length (rb_elems R r) = n then tl (rb_elems R r) @ [b] else rb_elems R r @ [b])) \<and>
     (\<forall>r b. ok r \<longrightarrow> rb_elems R r \<noteq> [] \<longrightarrow>
        ok (rb_setBack R r b) \<and> rb_elems R (rb_setBack R r b) = butlast (rb_elems R r) @ [b])"

lemma ring_lawsD:
  assumes "ring_laws R n ok"
  shows "ok (rb_make R n)" "rb_elems R (rb_make R n) = []"
    "ok r \<Longrightarrow> ok (rb_push_back R r b)"
    "ok r \<Longrightarrow> 0 < n \<Longrightarrow> rb_elems R (rb_push_back R r b) =
       (if length (rb_elems R r) = n then tl (rb_elems R r) @ [b] else rb_elems R r @ [b])"
    "ok r \<Longrightarrow> rb_elems R r \<noteq> [] \<Longrightarrow> ok (rb_setBack R r b)"
    "ok r \<Longrightarrow> rb_elems R r \<noteq> [] \<Longrightarrow> rb_elems R (rb_setBack R r b) = butlast (rb_elems R r) @ [b]"
  using assms by (simp_all add: ring_laws_def)

section \<open>The age of an entry\<close>

fun posn :: "'a \<Rightarrow> 'a set list \<Rightarrow> nat option" where
  "posn x [] = None"
| "posn x (b # bs) = (if x \<in> b then Some 0 else map_option Suc (posn x bs))"

text \<open>How many buckets ago the newest bucket with the entry was the last one.\<close>

definition age :: "'a \<Rightarrow> 'a set list \<Rightarrow> nat option" where
  "age x bs = posn x (rev bs)"

lemma posn_None: "posn x bs = None \<longleftrightarrow> x \<notin> \<Union>(set bs)"
  by (induction bs) auto

lemma posn_snoc:
  "posn x (bs @ [b]) = (case posn x bs of Some k \<Rightarrow> Some k | None \<Rightarrow> if x \<in> b then Some (length bs) else None)"
  by (induction bs) (auto split: option.splits)

lemma posn_less: "posn x bs = Some k \<Longrightarrow> k < length bs"
proof (induction bs arbitrary: k)
  case Nil
  then show ?case by simp
next
  case (Cons b bs)
  then show ?case by (auto split: if_splits)
qed

lemma age_Nil [simp]: "age x [] = None"
  by (simp add: age_def)

lemma age_snoc: "age x (bs @ [b]) = (if x \<in> b then Some 0 else map_option Suc (age x bs))"
  by (simp add: age_def)

lemma age_less: "age x bs = Some k \<Longrightarrow> k < length bs"
  using posn_less[of x "rev bs" k] by (simp add: age_def)

lemma held_age: "e \<in> held bs \<longleftrightarrow> age (Some e) bs \<noteq> None"
  by (auto simp: held_def age_def posn_None in_these_eq)

lemma age_push:
  assumes "length bs \<le> n" and "0 < n"
  shows "age x ((if length bs = n then tl bs else bs) @ [{}]) = older n (age x bs)"
proof (cases "length bs = n")
  case True
  with assms(2) obtain b bs' where bs: "bs = b # bs'" by (cases bs) auto
  have "age x bs = (case age x bs' of Some k \<Rightarrow> Some k | None \<Rightarrow> if x \<in> b then Some (length bs') else None)"
    using posn_snoc[of x "rev bs'" b] by (simp add: bs age_def split: option.split)
  then show ?thesis using True age_less[of x bs'] by (auto simp: bs age_snoc older_def split: option.splits)
next
  case False
  then show ?thesis using age_less[of x bs] assms(1) by (auto simp: age_snoc older_def split: option.splits)
qed

lemma age_setBack:
  assumes "bs \<noteq> []"
  shows "age x (butlast bs @ [insert p (last bs)]) = (if x = p then Some 0 else age x bs)"
  using age_snoc[of x "butlast bs" "last bs"] assms by (simp add: age_snoc)

section \<open>The wheel implements the specification\<close>

definition ring_inv :: "'r ringops \<Rightarrow> nat \<Rightarrow> ('r \<Rightarrow> bool) \<Rightarrow> 'r wheel \<Rightarrow> bool" where
  "ring_inv R n ok w \<longleftrightarrow>
     ok (wh_buckets w) \<and> length (rb_elems R (wh_buckets w)) \<le> n \<and>
     (\<forall>e. e \<in> held (rb_elems R (wh_buckets w)) \<longrightarrow> e < wh_next w)"

text \<open>The contexts and the entries point to each other.\<close>

definition context_inv :: "'r wheel \<Rightarrow> bool" where
  "context_inv w \<longleftrightarrow> (\<forall>c e. wh_context w c = Some e \<longleftrightarrow> e < wh_next w \<and> wh_ptr w e = c)"

definition wheelAbs :: "'r ringops \<Rightarrow> 'r wheel \<Rightarrow> idlespec" where
  "wheelAbs R w =
     \<lparr>sp_idle = (\<lambda>c. case wh_context w c of None \<Rightarrow> None | Some e \<Rightarrow> age (Some e) (rb_elems R (wh_buckets w))),
      sp_alive = wh_alive w, sp_shut = wh_shut w, sp_sent = wh_sent w\<rparr>"

definition turning :: "'r ringops \<Rightarrow> nat \<Rightarrow> ('r \<Rightarrow> bool) \<Rightarrow> 'r wheel \<Rightarrow> bool" where
  "turning R n ok w \<longleftrightarrow> ring_inv R n ok w \<and> rb_elems R (wh_buckets w) \<noteq> []"

lemma tick_step:
  assumes L: "ring_laws R n ok" and n: "0 < n" and I: "ring_inv R n ok w" and C: "context_inv w"
  shows "turning R n ok (wheelOnTime R w)" (is ?T) and "context_inv (wheelOnTime R w)" (is ?C)
    and "wheelAbs R (wheelOnTime R w) = specStep n Tick (wheelAbs R w)" (is ?A)
proof -
  let ?bs = "rb_elems R (wh_buckets w)" and ?r = "rb_push_back R (wh_buckets w) {}"
  let ?cs = "rb_elems R ?r"
  have ok: "ok (wh_buckets w)" and le: "length ?bs \<le> n" and lt: "\<And>e. e \<in> held ?bs \<Longrightarrow> e < wh_next w"
    and ctx: "\<And>c e. wh_context w c = Some e \<longleftrightarrow> e < wh_next w \<and> wh_ptr w e = c"
    using I C unfolding ring_inv_def context_inv_def by blast+
  have cs: "?cs = (if length ?bs = n then tl ?bs else ?bs) @ [{}]"
    using ring_lawsD(4)[OF L ok n] by simp
  have age: "age x ?cs = older n (age x ?bs)" for x
    unfolding cs by (rule age_push[OF le n])
  have held: "held ?cs \<subseteq> held ?bs" by (auto simp: held_age age older_def split: option.splits)
  show ?T
    using ring_lawsD(3)[OF L ok, of "{}"] le n held lt
    by (auto simp: turning_def ring_inv_def wheelOnTime_def dtorEntries_def Let_def cs)
  show ?C using C by (simp add: context_inv_def wheelOnTime_def dtorEntries_def Let_def)
  have gone: "e \<in> held ?bs - held ?cs \<longleftrightarrow> map_option Suc (age (Some e) ?bs) = Some n" for e
    by (auto simp: held_age age older_def split: option.splits if_splits)
  have "Set.filter (wh_alive w) (wh_ptr w ` (held ?bs - held ?cs)) = due n (wheelAbs R w)"
  proof (rule set_eqI)
    fix c
    have "c \<in> wh_ptr w ` (held ?bs - held ?cs) \<longleftrightarrow> (\<exists>e. wh_context w c = Some e \<and> e \<in> held ?bs - held ?cs)"
    proof
      assume "c \<in> wh_ptr w ` (held ?bs - held ?cs)"
      then obtain e where "e \<in> held ?bs - held ?cs" "wh_ptr w e = c" by blast
      then show "\<exists>e. wh_context w c = Some e \<and> e \<in> held ?bs - held ?cs"
        using ctx[of c e] lt[of e] by (intro exI[of _ e]) simp
    next
      assume "\<exists>e. wh_context w c = Some e \<and> e \<in> held ?bs - held ?cs"
      then obtain e where e: "wh_context w c = Some e" "e \<in> held ?bs - held ?cs" by blast
      then have "wh_ptr w e = c" using ctx[of c e] by simp
      with e(2) show "c \<in> wh_ptr w ` (held ?bs - held ?cs)" by blast
    qed
    then show "c \<in> Set.filter (wh_alive w) (wh_ptr w ` (held ?bs - held ?cs)) \<longleftrightarrow> c \<in> due n (wheelAbs R w)"
      unfolding gone by (auto simp: due_def wheelAbs_def split: option.splits)
  qed
  then show ?A
    by (auto simp: wheelAbs_def wheelOnTime_def dtorEntries_def Let_def age older_def split: option.splits)
qed

lemma insertBack_turning:
  assumes L: "ring_laws R n ok" and T: "turning R n ok w" and p: "\<And>e. p = Some e \<Longrightarrow> e < wh_next w"
  shows "\<exists>r. insertBack R p w = Inr (w\<lparr>wh_buckets := r\<rparr>) \<and> turning R n ok (w\<lparr>wh_buckets := r\<rparr>) \<and>
    (\<forall>x. age x (rb_elems R r) = (if x = p then Some 0 else age x (rb_elems R (wh_buckets w))))"
proof -
  let ?bs = "rb_elems R (wh_buckets w)" and ?b = "insert p (last (rb_elems R (wh_buckets w)))"
  have ne: "?bs \<noteq> []" and I: "ring_inv R n ok w" using T by (simp_all add: turning_def)
  then have ok: "ok (wh_buckets w)" by (simp add: ring_inv_def)
  note r = ring_lawsD(5,6)[OF L ok ne, of ?b]
  have age: "age x (butlast ?bs @ [?b]) = (if x = p then Some 0 else age x ?bs)" for x
    by (rule age_setBack[OF ne])
  have "turning R n ok (w\<lparr>wh_buckets := rb_setBack R (wh_buckets w) ?b\<rparr>)"
    using I r ne p by (auto simp: turning_def ring_inv_def held_age age split: if_splits)
  then show ?thesis using ne r(2) age by (auto simp: insertBack_def)
qed

text \<open>What an event needs, and what each does.\<close>

fun expected :: "wevent \<Rightarrow> conn_id set \<Rightarrow> bool" where
  "expected (Up c) seen = (c \<notin> seen)"
| "expected (Msg c m) seen = (c \<in> seen)"
| "expected _ seen = True"

fun sees :: "wevent \<Rightarrow> conn_id set \<Rightarrow> conn_id set" where
  "sees (Up c) seen = insert c seen"
| "sees _ seen = seen"

lemma orderly_Cons: "orderly seen (ev # evs) \<longleftrightarrow> expected ev seen \<and> orderly (sees ev seen) evs"
  by (cases ev) auto

lemma orderly_append: "orderly seen (xs @ ys) \<longleftrightarrow> orderly seen xs \<and> orderly (fold sees xs seen) ys"
  by (induction xs arbitrary: seen) (auto simp: orderly_Cons)

lemma up_step:
  assumes L: "ring_laws R n ok" and T: "turning R n ok w" and C: "context_inv w" and ev: "wh_context w c = None"
  shows "\<exists>w'. wheelStep R (Up c) w = Inr w' \<and> turning R n ok w' \<and> context_inv w' \<and>
    dom (wh_context w') = sees (Up c) (dom (wh_context w)) \<and> wheelAbs R w' = specStep n (Up c) (wheelAbs R w)"
proof -
  define w1 where "w1 = w\<lparr>wh_alive := (wh_alive w)(c := True), wh_next := Suc (wh_next w), wh_ptr := (wh_ptr w)(wh_next w := c)\<rparr>"
  have "turning R n ok w1" using T by (auto simp: turning_def ring_inv_def w1_def less_Suc_eq)
  from insertBack_turning[OF L this, of "Some (wh_next w)"] obtain r where
    r: "insertBack R (Some (wh_next w)) w1 = Inr (w1\<lparr>wh_buckets := r\<rparr>)" "turning R n ok (w1\<lparr>wh_buckets := r\<rparr>)"
      "\<And>x. age x (rb_elems R r) = (if x = Some (wh_next w) then Some 0 else age x (rb_elems R (wh_buckets w)))"
    by (auto simp: w1_def)
  define w2 where "w2 = w1\<lparr>wh_buckets := r, wh_context := (wh_context w)(c \<mapsto> wh_next w)\<rparr>"
  have step: "wheelStep R (Up c) w = Inr w2"
    using r(1) by (simp add: wheelOnConnection_def Let_def w1_def w2_def)
  have "turning R n ok w2" using r(2) by (simp add: turning_def ring_inv_def w2_def)
  moreover have fresh: "\<And>e. e < wh_next w \<Longrightarrow> wh_ptr w e \<noteq> c"
    using ev C unfolding context_inv_def by (metis option.distinct(1))
  have lt: "\<And>d e. wh_context w d = Some e \<Longrightarrow> e \<noteq> wh_next w" using C by (auto simp: context_inv_def)
  have "context_inv w2" using C fresh by (auto simp: context_inv_def w1_def w2_def less_Suc_eq)
  moreover have "sp_idle (wheelAbs R w2) d = ((sp_idle (wheelAbs R w))(c \<mapsto> 0)) d" for d
    using lt by (auto simp: wheelAbs_def w1_def w2_def r(3) split: option.split)
  then have "wheelAbs R w2 = specStep n (Up c) (wheelAbs R w)"
    by (simp add: wheelAbs_def w1_def w2_def fun_eq_iff)
  moreover have "dom (wh_context w2) = sees (Up c) (dom (wh_context w))" by (simp add: w2_def)
  ultimately show ?thesis using step by blast
qed

lemma message_step:
  assumes L: "ring_laws R n ok" and T: "turning R n ok w" and C: "context_inv w" and ev: "wh_context w c \<noteq> None"
  shows "\<exists>w'. wheelStep R (Msg c m) w = Inr w' \<and> turning R n ok w' \<and> context_inv w' \<and>
    dom (wh_context w') = sees (Msg c m) (dom (wh_context w)) \<and> wheelAbs R w' = specStep n (Msg c m) (wheelAbs R w)"
proof -
  obtain e where e: "wh_context w c = Some e" using ev by auto
  let ?p = "if e \<in> held (rb_elems R (wh_buckets w)) then Some e else None"
  have ctx: "\<And>c e. wh_context w c = Some e \<longleftrightarrow> e < wh_next w \<and> wh_ptr w e = c" using C by (simp add: context_inv_def)
  have "e < wh_next w" using e ctx by simp
  then have "x < wh_next w" if "?p = Some x" for x using that by (simp split: if_splits)
  from insertBack_turning[OF L T this] obtain r where
    r: "insertBack R ?p w = Inr (w\<lparr>wh_buckets := r\<rparr>)" "turning R n ok (w\<lparr>wh_buckets := r\<rparr>)"
      "\<And>x. age x (rb_elems R r) = (if x = ?p then Some 0 else age x (rb_elems R (wh_buckets w)))"
    by blast
  define w2 where "w2 = w\<lparr>wh_buckets := r, wh_sent := wh_sent w @ [(c, m)]\<rparr>"
  have step: "wheelStep R (Msg c m) w = Inr w2"
    using r(1) e by (simp add: wheelOnMessage_def w2_def)
  have "turning R n ok w2" "context_inv w2"
    using r(2) C by (simp_all add: turning_def ring_inv_def context_inv_def w2_def)
  moreover have inj: "d = c" if "wh_context w d = Some e" for d using that e ctx by simp
  have "sp_idle (wheelAbs R w2) d =
    (if sp_idle (wheelAbs R w) c = None then sp_idle (wheelAbs R w) else (sp_idle (wheelAbs R w))(c \<mapsto> 0)) d" for d
  proof (cases "d = c")
    case True
    then show ?thesis using e by (simp add: wheelAbs_def w2_def r(3) held_age)
  next
    case False
    then have "wh_context w d \<noteq> Some e" using inj by blast
    with False show ?thesis by (cases "wh_context w d") (simp_all add: wheelAbs_def w2_def r(3) held_age)
  qed
  then have "wheelAbs R w2 = specStep n (Msg c m) (wheelAbs R w)"
    by (simp add: wheelAbs_def w2_def fun_eq_iff)
  moreover have "dom (wh_context w2) = sees (Msg c m) (dom (wh_context w))" by (simp add: w2_def)
  ultimately show ?thesis using step by blast
qed

lemma wheel_step:
  assumes L: "ring_laws R n ok" and n: "0 < n" and T: "turning R n ok w" and C: "context_inv w"
    and ev: "expected ev (dom (wh_context w))"
  shows "\<exists>w'. wheelStep R ev w = Inr w' \<and> turning R n ok w' \<and> context_inv w' \<and>
    dom (wh_context w') = sees ev (dom (wh_context w)) \<and> wheelAbs R w' = specStep n ev (wheelAbs R w)"
proof (cases ev)
  case Tick
  have "ring_inv R n ok w" using T by (simp add: turning_def)
  from tick_step[OF L n this C] show ?thesis
    by (simp add: Tick) (simp add: wheelOnTime_def dtorEntries_def Let_def)
next
  case (Up c)
  then show ?thesis using up_step[OF L T C, of c] ev by auto
next
  case (Msg c m)
  then show ?thesis using message_step[OF L T C, of c m] ev by auto
next
  case (Down c)
  then show ?thesis using T C by (auto simp: wheelOnConnection_def)
next
  case (Gone c)
  then show ?thesis using T C by (auto simp: wheelAbs_def turning_def ring_inv_def context_inv_def cong: option.case_cong)
qed

lemma wheel_run:
  assumes L: "ring_laws R n ok" and n: "0 < n" and "turning R n ok w" and "context_inv w"
    and "orderly (dom (wh_context w)) evs"
  shows "\<exists>w'. wheelRun R evs w = Inr w' \<and> turning R n ok w' \<and> context_inv w' \<and> wheelAbs R w' = specRun n evs (wheelAbs R w)"
  using assms(3-5)
proof (induction evs arbitrary: w)
  case Nil
  then show ?case by (simp add: wheelRun_def specRun_def)
next
  case (Cons ev evs)
  from Cons.prems(3) have ev: "expected ev (dom (wh_context w))" and evs: "orderly (sees ev (dom (wh_context w))) evs"
    by (simp_all add: orderly_Cons)
  from wheel_step[OF L n Cons.prems(1,2) ev] obtain w1 where
    w1: "wheelStep R ev w = Inr w1" "turning R n ok w1" "context_inv w1"
      "dom (wh_context w1) = sees ev (dom (wh_context w))" "wheelAbs R w1 = specStep n ev (wheelAbs R w)" by blast
  from Cons.IH[OF w1(2,3)] evs w1(4) obtain w2 where
    "wheelRun R evs w1 = Inr w2" "turning R n ok w2" "context_inv w2" "wheelAbs R w2 = specRun n evs (wheelAbs R w1)"
    by auto
  then show ?case using w1 by (simp add: wheelRun_def specRun_def)
qed

text \<open>The first second has passed.\<close>

lemma wheel_contract:
  assumes L: "ring_laws R n ok" and n: "0 < n" and evs: "orderly {} evs"
  shows "\<exists>w. wheelRun R (Tick # evs) (newWheel R n) = Inr w \<and> turning R n ok w \<and> context_inv w \<and>
    wheelAbs R w = specRun n (Tick # evs) newSpec"
proof -
  let ?w = "newWheel R n"
  have "ring_inv R n ok ?w" "context_inv ?w" and a: "wheelAbs R ?w = newSpec"
    using ring_lawsD(1,2)[OF L] by (auto simp: ring_inv_def context_inv_def newWheel_def held_def newSpec_def wheelAbs_def)
  note t = tick_step[OF L n this(1,2)]
  have "wh_context (wheelOnTime R ?w) = Map.empty" by (simp add: wheelOnTime_def dtorEntries_def newWheel_def Let_def)
  then have "orderly (dom (wh_context (wheelOnTime R ?w))) evs" using evs by simp
  from wheel_run[OF L n t(1,2) this] show ?thesis using t(3) a by (simp add: wheelRun_def specRun_def)
qed

section \<open>Time\<close>

definition ticks :: "wevent list \<Rightarrow> nat" where
  "ticks evs = length (filter ((=) Tick) evs)"

definition quiet :: "conn_id \<Rightarrow> wevent list \<Rightarrow> bool" where
  "quiet c evs \<longleftrightarrow> Up c \<notin> set evs \<and> Gone c \<notin> set evs \<and> (\<forall>m. Msg c m \<notin> set evs)"

lemma spec_quiet:
  assumes "quiet c evs" and "sp_idle a c = (if k < n then Some k else None)" and "sp_alive a c"
  shows "sp_idle (specRun n evs a) c = (if k + ticks evs < n then Some (k + ticks evs) else None) \<and> sp_alive (specRun n evs a) c"
  using assms
proof (induction evs arbitrary: a k)
  case Nil
  then show ?case by (simp add: specRun_def ticks_def)
next
  case (Cons ev evs)
  let ?a = "specStep n ev a" and ?k = "if ev = Tick then Suc k else k"
  have "sp_idle ?a c = (if ?k < n then Some ?k else None)" "sp_alive ?a c"
    using Cons.prems by (cases ev; auto simp: quiet_def older_def)+
  from Cons.IH[OF _ this] Cons.prems(1) show ?case by (auto simp: specRun_def quiet_def ticks_def)
qed

text \<open>A connection that is alive and was not shut down is counted.\<close>

lemma spec_counted:
  assumes "sp_alive (specRun n evs newSpec) c" and "c \<notin> \<Union>(set (sp_shut (specRun n evs newSpec)))" and "0 < n"
  shows "\<exists>k < n. sp_idle (specRun n evs newSpec) c = Some k"
  using assms(1,2)
proof (induction evs rule: rev_induct)
  case Nil
  then show ?case by (simp add: specRun_def newSpec_def)
next
  case (snoc ev evs)
  then show ?case using assms(3)
    by (cases ev) (auto simp: specRun_def older_def due_def split: option.splits if_splits)
qed

section \<open>Properties\<close>

text \<open>
  C31: the time wheel does what it is for: once the server is made and started, from the first tick on,
  whatever connections come, send, stay silent and go, no operation fails, and the wheel of \<open>n\<close> buckets of counted pointers
  behaves as a clock per connection that every message resets and that shuts the connection down
  at \<open>n\<close> ticks (\<open>specRun\<close>): the connections shut down at each tick and the messages echoed are the
  same.
\<close>

theorem wheel_refines_idle_clocks:
  assumes "ring_laws R n ok" and "0 < n" and "orderly {} evs"
  shows "\<exists>w. serveRun (wheelStart (newWheelServer R addr n)) (Tick # evs) = Inr w \<and>
    wheelAbs R w = specRun n (Tick # evs) newSpec \<and>
    wh_shut w = sp_shut (specRun n (Tick # evs) newSpec) \<and> wh_sent w = sp_sent (specRun n (Tick # evs) newSpec)"
proof -
  from wheel_contract[OF assms] obtain w where
    w: "wheelRun R (Tick # evs) (newWheel R n) = Inr w" "wheelAbs R w = specRun n (Tick # evs) newSpec" by blast
  then show ?thesis unfolding serveRun_started by (metis (no_types, lifting) wheelAbs_def idlespec.select_convs(3,4))
qed

text \<open>
  C32: a connection is shut down in time: after it came up or sent a message, and as long as it was
  not shut down before, it is shut down at the tick that ends its \<open>n\<close>th second of silence and at no
  other tick before, whatever the other connections do.
\<close>

theorem silent_connection_shut_in_time:
  assumes "ring_laws R n ok" and "0 < n" and "orderly {} (pre @ a # mid)" and "a = Up c \<or> a = Msg c m"
    and "quiet c mid" and "wheelRun R (Tick # pre @ [a]) (newWheel R n) = Inr w"
    and "wh_alive w c" and "c \<notin> \<Union>(set (wh_shut w))"
  shows "\<exists>w'. wheelRun R (mid @ [Tick]) w = Inr w' \<and> (c \<in> last (wh_shut w') \<longleftrightarrow> Suc (ticks mid) = n)"
proof -
  let ?a0 = "specRun n (Tick # pre) newSpec" and ?a1 = "specRun n (Tick # pre @ [a]) newSpec"
  have o: "orderly {} (pre @ [a])" "orderly {} ((pre @ [a]) @ mid @ [Tick])"
    using assms(3) by (simp_all add: orderly_append orderly_Cons)
  from wheel_contract[OF assms(1,2) o(1)] assms(6) have w: "wheelAbs R w = ?a1" by auto
  from wheel_contract[OF assms(1,2) o(2)] obtain w' where
    w': "wheelRun R (Tick # (pre @ [a]) @ mid @ [Tick]) (newWheel R n) = Inr w'"
      "wheelAbs R w' = specRun n (Tick # (pre @ [a]) @ mid @ [Tick]) newSpec" by blast
  have "wheelRun R ((Tick # pre @ [a]) @ mid @ [Tick]) (newWheel R n) = wheelRun R (mid @ [Tick]) w"
    using assms(6) unfolding wheelRun_def foldR_append[of _ "Tick # pre @ [a]"] by simp
  with w'(1) have r: "wheelRun R (mid @ [Tick]) w = Inr w'" by simp
  have alive: "sp_alive ?a1 c" and shut: "c \<notin> \<Union>(set (sp_shut ?a1))"
    using assms(7,8) unfolding w[symmetric] by (simp_all add: wheelAbs_def)
  from spec_counted[OF this assms(2)] obtain k where k: "sp_idle ?a1 c = Some k" by blast
  have a1: "?a1 = specStep n a ?a0" by (simp add: specRun_def)
  have "sp_idle ?a1 c = (if 0 < n then Some 0 else None)"
    using assms(2,4) k unfolding a1 by (auto split: if_splits)
  from spec_quiet[OF assms(5) this alive] have q: "sp_alive (specRun n mid ?a1) c"
    "sp_idle (specRun n mid ?a1) c = (if ticks mid < n then Some (ticks mid) else None)" by simp_all
  have "specRun n (Tick # (pre @ [a]) @ mid @ [Tick]) newSpec = specStep n Tick (specRun n mid ?a1)"
    by (simp add: specRun_def)
  with w'(2) have "wh_shut w' = sp_shut (specStep n Tick (specRun n mid ?a1))"
    by (metis (no_types, lifting) wheelAbs_def idlespec.select_convs(3))
  then have "c \<in> last (wh_shut w') \<longleftrightarrow> Suc (ticks mid) = n" using q by (auto simp: due_def)
  with r show ?thesis by blast
qed

section \<open>A ring\<close>

definition sampleRing :: "(bucket list \<times> nat) ringops" where
  "sampleRing = \<lparr>rb_make = (\<lambda>n. ([], n)),
     rb_push_back = (\<lambda>(bs, n) b. (if n = 0 then [] else if length bs = n then tl bs @ [b] else bs @ [b], n)),
     rb_setBack = (\<lambda>(bs, n) b. (butlast bs @ [b], n)), rb_elems = fst\<rparr>"

lemma sample_ring_laws: "ring_laws sampleRing n (\<lambda>r. snd r = n)"
  by (auto simp: ring_laws_def sampleRing_def)

theorem wheel_refines_idle_clocks_witness:
  "\<exists>w. serveRun (wheelMain sampleRing) [Tick, Up 7, Tick, Msg 7 ''x'', Tick, Tick] = Inr w \<and>
    wh_sent w = [(7, ''x'')]"
proof -
  have "orderly {} [Up 7, Tick, Msg 7 ''x'', Tick, Tick]" by simp
  from wheel_refines_idle_clocks[OF sample_ring_laws _ this, of 10 "Inet 2333"] obtain w where
    "serveRun (wheelMain sampleRing) [Tick, Up 7, Tick, Msg 7 ''x'', Tick, Tick] = Inr w"
    "wh_sent w = sp_sent (specRun 10 [Tick, Up 7, Tick, Msg 7 ''x'', Tick, Tick] newSpec)" by (auto simp: wheelMain_def)
  then show ?thesis by (simp add: specRun_def newSpec_def)
qed

theorem silent_connection_shut_in_time_witness:
  "\<exists>w w'. wheelRun sampleRing [Tick, Up 7] (newWheel sampleRing 2) = Inr w \<and>
    wheelRun sampleRing [Tick, Tick] w = Inr w' \<and> 7 \<in> last (wh_shut w')"
proof -
  have "orderly {} [Up 7]" by simp
  from wheel_contract[OF sample_ring_laws _ this, of 2] obtain w where
    w: "wheelRun sampleRing [Tick, Up 7] (newWheel sampleRing 2) = Inr w"
      "wheelAbs sampleRing w = specRun 2 [Tick, Up 7] newSpec" by auto
  have s: "sp_alive (specRun 2 [Tick, Up 7] newSpec) 7" "sp_shut (specRun 2 [Tick, Up 7] newSpec) = [{}]"
    by (simp_all add: specRun_def newSpec_def due_def)
  have "wh_alive w 7" "7 \<notin> \<Union>(set (wh_shut w))" using s unfolding w(2)[symmetric] by (simp_all add: wheelAbs_def)
  moreover have "orderly {} ([] @ Up 7 # [Tick])" "quiet 7 [Tick]" "Suc (ticks [Tick]) = 2"
    by (simp_all add: quiet_def ticks_def)
  ultimately show ?thesis
    using silent_connection_shut_in_time[OF sample_ring_laws _ _ _ _ _, of 2 "[]" "Up 7" "[Tick]" 7 _ w] w(1) by auto
qed

text \<open>
  The ring is made with a capacity but no bucket: in the first second, before the first tick, a
  connection that comes up makes \<open>onConnection\<close> use the last bucket of an empty ring.
\<close>

lemma first_second_undefined:
  assumes "ring_laws R n ok"
  shows "wheelRun R [Up c] (newWheel R n) = Inl (OutOfBounds ''buckets_.back()'')"
  using ring_lawsD(2)[OF assms]
  by (simp add: wheelRun_def wheelOnConnection_def insertBack_def newWheel_def Let_def)

end
