(* ===== verification/FileServers.thy ===== *)
theory FileServers
  imports Callbacks
begin

text \<open>
  The file servers of \<open>src/testCase\<close>: \<open>download.cc\<close> and \<open>download_myself.cpp\<close> send a file at once,
  \<open>download2.cc\<close>, \<open>download2_myself.cc\<close> and \<open>download3_myself.cc\<close> in pieces of 64 KB, each when muduo
  reports that the one before was written.  Here is one connection of each; muduo's connection is
  the log of the calls made on it.
\<close>

section \<open>Streams\<close>

text \<open>
  \<open>fopen\<close>, \<open>fread\<close> and \<open>fclose\<close>: an open stream is what is left to be read of it; a \<open>FILE *\<close> is a
  number, or \<open>None\<close> when it is null.  Reading a regular file gives what was asked for, up to the end;
  errors of the disk are not modelled.
\<close>

type_synonym file_ptr = "nat option"

record stdio =
  fs_files :: "string \<Rightarrow> string option"
  fs_streams :: "nat \<Rightarrow> string option"
  fs_next :: nat

definition fopen :: "string \<Rightarrow> stdio \<Rightarrow> file_ptr \<times> stdio" where
  "fopen name io =
     (case fs_files io name of
        None \<Rightarrow> (None, io)
      | Some content \<Rightarrow> (Some (fs_next io), io\<lparr>fs_streams := (fs_streams io)(fs_next io \<mapsto> content), fs_next := Suc (fs_next io)\<rparr>))"

definition stream :: "file_ptr \<Rightarrow> stdio \<Rightarrow> string option" where
  "stream fp io = Option.bind fp (fs_streams io)"

definition fread :: "nat \<Rightarrow> file_ptr \<Rightarrow> stdio \<Rightarrow> (string \<times> stdio) result" where
  "fread n fp io =
     (case stream fp io of
        None \<Rightarrow> Inl (Dangling ''fread'')
      | Some r \<Rightarrow> Inr (take n r, io\<lparr>fs_streams := (fs_streams io)(the fp \<mapsto> drop n r)\<rparr>))"

definition fclose :: "file_ptr \<Rightarrow> stdio \<Rightarrow> stdio result" where
  "fclose fp io =
     (case stream fp io of
        None \<Rightarrow> Inl (Dangling ''fclose'')
      | Some r \<Rightarrow> Inr (io\<lparr>fs_streams := (fs_streams io)(the fp := None)\<rparr>))"

section \<open>A connection\<close>

text \<open>The context is a \<open>boost::any\<close>: nothing, or a pointer to a file (plain or counted).\<close>

datatype conn_call = Send string | Shutdown

record fileconn =
  fc_io :: stdio
  fc_context :: "file_ptr option"
  fc_calls :: "conn_call list"

definition newFileconn :: "stdio \<Rightarrow> fileconn" where
  "newFileconn io = \<lparr>fc_io = io, fc_context = None, fc_calls = []\<rparr>"

definition called :: "conn_call \<Rightarrow> fileconn \<Rightarrow> fileconn" where
  "called x c = c\<lparr>fc_calls := fc_calls c @ [x]\<rparr>"

definition onStream :: "stdio result \<Rightarrow> fileconn \<Rightarrow> fileconn result" where
  "onStream r c = bindR r (\<lambda>io. Inr (c\<lparr>fc_io := io\<rparr>))"

text \<open>\<open>fread\<close> into a buffer of \<open>n\<close> bytes; \<open>f\<close> is what is done with the bytes read.\<close>

definition reading :: "nat \<Rightarrow> file_ptr \<Rightarrow> fileconn \<Rightarrow> (string \<Rightarrow> fileconn \<Rightarrow> fileconn result) \<Rightarrow> fileconn result" where
  "reading n fp c f = bindR (fread n fp (fc_io c)) (\<lambda>(bs, io). f bs (c\<lparr>fc_io := io\<rparr>))"

definition any_cast :: "fileconn \<Rightarrow> file_ptr result" where
  "any_cast c = (case fc_context c of None \<Rightarrow> Inl (External ''bad_any_cast'') | Some fp \<Rightarrow> Inr fp)"

section \<open>The whole file at once\<close>

text \<open>The loop of \<open>readFile\<close>, by the length of what is left.\<close>

function readLoop :: "nat \<Rightarrow> file_ptr \<Rightarrow> string \<Rightarrow> stdio \<Rightarrow> (string \<times> stdio) result" where
  "readLoop n fp content io =
     (case fread n fp io of
        Inl e \<Rightarrow> Inl e
      | Inr (bs, io') \<Rightarrow> if bs = [] then Inr (content, io') else readLoop n fp (content @ bs) io')"
  by pat_completeness auto

lemma stream_fread: "fread n fp io = Inr (bs, io') \<Longrightarrow> stream fp io = Some r \<Longrightarrow> bs = take n r \<and> stream fp io' = Some (drop n r)"
  by (cases fp) (auto simp: fread_def stream_def)

lemma fread_stream: "fread n fp io = Inr (bs, io') \<Longrightarrow> \<exists>r. stream fp io = Some r"
  by (auto simp: fread_def split: option.splits)

termination readLoop
proof (relation "measure (\<lambda>(n, fp, content, io). length (the (stream fp io)))", goal_cases)
  case 1
  then show ?case by simp
next
  case (2 n fp content io p bs io')
  then obtain r where r: "stream fp io = Some r" using fread_stream by blast
  with 2 stream_fread[of n fp io bs io' r] show ?case by (cases n; cases r) auto
qed

definition kMega :: nat where
  "kMega = 1024 * 1024"

text \<open>\<open>download.cc\<close>\<close>

definition readFile :: "string \<Rightarrow> stdio \<Rightarrow> (string \<times> stdio) result" where
  "readFile filename io =
     (let (fp, io) = fopen filename io in
      if fp \<noteq> None then
        bindR (readLoop kMega fp [] io) (\<lambda>(content, io).
        bindR (fclose fp io) (\<lambda>io. Inr (content, io)))
      else Inr ([], io))"

definition dlOnConnection :: "string \<Rightarrow> bool \<Rightarrow> fileconn \<Rightarrow> fileconn result" where
  "dlOnConnection g_file up c =
     (if up then
        bindR (readFile g_file (fc_io c)) (\<lambda>(fileContent, io).
        Inr (called Shutdown (called (Send fileContent) (c\<lparr>fc_io := io\<rparr>))))
      else Inr c)"

text \<open>\<open>download_myself.cpp\<close>, which does not close the file.\<close>

definition reaf_file :: "string \<Rightarrow> stdio \<Rightarrow> (string \<times> stdio) result" where
  "reaf_file file_name io =
     (let (fp, io) = fopen file_name io in
      if fp \<noteq> None then readLoop kMega fp [] io else Inr ([], io))"

definition dmOnConnect :: "string \<Rightarrow> bool \<Rightarrow> fileconn \<Rightarrow> fileconn result" where
  "dmOnConnect file_name up c =
     (if up then
        bindR (reaf_file file_name (fc_io c)) (\<lambda>(content, io).
        Inr (called Shutdown (called (Send content) (c\<lparr>fc_io := io\<rparr>))))
      else Inr c)"

section \<open>The file in pieces\<close>

definition kBufSize :: nat where
  "kBufSize = 64 * 1024"

text \<open>\<open>download2.cc\<close>\<close>

definition d2OnConnection :: "string \<Rightarrow> bool \<Rightarrow> fileconn \<Rightarrow> fileconn result" where
  "d2OnConnection g_file up c =
     (if up then
        let (fp, io) = fopen g_file (fc_io c); c = c\<lparr>fc_io := io\<rparr> in
        if fp \<noteq> None then reading kBufSize fp (c\<lparr>fc_context := Some fp\<rparr>) (\<lambda>bs c. Inr (called (Send bs) c))
        else Inr (called Shutdown c)
      else
        (case fc_context c of
           None \<Rightarrow> Inr c
         | Some fp \<Rightarrow> if fp \<noteq> None then onStream (fclose fp (fc_io c)) c else Inr c))"

definition d2OnWriteComplete :: "fileconn \<Rightarrow> fileconn result" where
  "d2OnWriteComplete c =
     bindR (any_cast c) (\<lambda>fp.
     reading kBufSize fp c (\<lambda>bs c.
       if length bs > 0 then Inr (called (Send bs) c)
       else bindR (onStream (fclose fp (fc_io c)) c) (\<lambda>c. Inr (called Shutdown (c\<lparr>fc_context := Some None\<rparr>)))))"

text \<open>\<open>download2_myself.cc\<close>\<close>

definition m2OnConnect :: "string \<Rightarrow> bool \<Rightarrow> fileconn \<Rightarrow> fileconn result" where
  "m2OnConnect file_name up c =
     (if up then
        let (ptr, io) = fopen file_name (fc_io c); c = c\<lparr>fc_io := io\<rparr> in
        if ptr \<noteq> None then reading kBufSize ptr (c\<lparr>fc_context := Some ptr\<rparr>) (\<lambda>bs c. Inr (called (Send bs) c))
        else Inr (called Shutdown c)
      else
        (case fc_context c of
           None \<Rightarrow> Inr c
         | Some ptr \<Rightarrow> if ptr \<noteq> None then onStream (fclose ptr (fc_io c)) c else Inr c))"

definition m2OnWriteComplete :: "fileconn \<Rightarrow> fileconn result" where
  "m2OnWriteComplete c =
     bindR (any_cast c) (\<lambda>ptr.
     if ptr \<noteq> None then
       reading kBufSize ptr c (\<lambda>bs c.
         if bs \<noteq> [] then Inr (called (Send bs) c)
         else bindR (onStream (fclose ptr (fc_io c)) c) (\<lambda>c. Inr (called Shutdown (c\<lparr>fc_context := Some None\<rparr>))))
     else Inr (called Shutdown c))"

text \<open>\<open>download3_myself.cc\<close>: the context shares the pointer; the file is closed with the last copy.\<close>

definition m3OnConnection :: "string \<Rightarrow> bool \<Rightarrow> fileconn \<Rightarrow> fileconn result" where
  "m3OnConnection file_name up c =
     (if up then
        let (ptr, io) = fopen file_name (fc_io c); c = c\<lparr>fc_io := io\<rparr>;
            c = (if ptr = None then called Shutdown c else c) in
        reading kBufSize ptr (c\<lparr>fc_context := Some ptr\<rparr>) (\<lambda>bs c. Inr (called (Send bs) c))
      else Inr c)"

definition m3OnWriteComplete :: "fileconn \<Rightarrow> fileconn result" where
  "m3OnWriteComplete c =
     bindR (any_cast c) (\<lambda>ptr.
     reading kBufSize ptr c (\<lambda>bs c. if bs = [] then Inr (called Shutdown c) else Inr (called (Send bs) c)))"

text \<open>The connection, and with it its context, is destroyed.\<close>

definition m3Destroyed :: "fileconn \<Rightarrow> fileconn result" where
  "m3Destroyed c = (case fc_context c of None \<Rightarrow> Inr c | Some fp \<Rightarrow> onStream (fclose fp (fc_io c)) (c\<lparr>fc_context := None\<rparr>))"

section \<open>Reading to the end\<close>

declare readLoop.simps [simp del]

lemma readLoop_reads:
  assumes "0 < n" and "stream fp io = Some r"
  shows "readLoop n fp content io = Inr (content @ r, io\<lparr>fs_streams := (fs_streams io)(the fp \<mapsto> [])\<rparr>)"
  using assms(2)
proof (induction "length r" arbitrary: r content io rule: less_induct)
  case less
  from less.prems obtain p where p: "fp = Some p" by (cases fp) (auto simp: stream_def)
  let ?io = "io\<lparr>fs_streams := (fs_streams io)(p \<mapsto> drop n r)\<rparr>"
  have f: "fread n fp io = Inr (take n r, ?io)" using less.prems p by (simp add: fread_def)
  show ?case
  proof (cases "r = []")
    case True
    then show ?thesis using f p by (simp add: readLoop.simps[of n "Some p"])
  next
    case False
    then have "length (drop n r) < length r" "stream fp ?io = Some (drop n r)"
      using assms(1) by (cases r; simp add: p stream_def)+
    from less.hyps[OF this, of "content @ take n r"] False assms(1) f p show ?thesis
      by (simp add: readLoop.simps[of n "Some p" content])
  qed
qed

text \<open>The stream that \<open>fopen\<close> makes.\<close>

definition opened :: "stdio \<Rightarrow> string \<Rightarrow> stdio" where
  "opened io rest = io\<lparr>fs_streams := (fs_streams io)(fs_next io \<mapsto> rest), fs_next := Suc (fs_next io)\<rparr>"

lemma fopen_some: "fs_files io name = Some s \<Longrightarrow> fopen name io = (Some (fs_next io), opened io s)"
  by (simp add: fopen_def opened_def)

lemma stream_opened [simp]: "stream (Some (fs_next io)) (opened io s) = Some s"
  by (simp add: stream_def opened_def)

lemma readLoop_opened:
  "readLoop kMega (Some (fs_next io)) [] (opened io s) = Inr (s, opened io [])"
proof -
  have "0 < kMega" by (simp add: kMega_def)
  from readLoop_reads[OF this stream_opened] show ?thesis by (simp add: opened_def)
qed

text \<open>The pieces of a text.\<close>

function pieces :: "string \<Rightarrow> string list" where
  "pieces s = (if s = [] then [] else take kBufSize s # pieces (drop kBufSize s))"
  by pat_completeness auto

termination pieces
  by (relation "measure length") (auto simp: kBufSize_def)

declare pieces.simps [simp del]

lemma pieces_Nil [simp]: "pieces [] = []"
  by (simp add: pieces.simps)

lemma concat_pieces: "concat (pieces s) = s"
  by (induction s rule: pieces.induct) (metis append_take_drop_id concat.simps pieces.simps)

lemma pieces_short: "p \<in> set (pieces s) \<Longrightarrow> length p \<le> kBufSize"
proof (induction s rule: pieces.induct)
  case (1 s)
  then show ?case by (cases "s = []") (auto simp: pieces.simps[of s])
qed

text \<open>A handler that sends a piece each time, and shuts down when nothing is left.\<close>

locale piece_sender =
  fixes wc :: "'s \<Rightarrow> 's result" and rest :: "'s \<Rightarrow> string option" and calls :: "'s \<Rightarrow> conn_call list"
  assumes more: "rest s = Some r \<Longrightarrow> r \<noteq> [] \<Longrightarrow>
      \<exists>t. wc s = Inr t \<and> rest t = Some (drop kBufSize r) \<and> calls t = calls s @ [Send (take kBufSize r)]"
    and last: "rest s = Some [] \<Longrightarrow> \<exists>t. wc s = Inr t \<and> calls t = calls s @ [Shutdown]"
begin

lemma sends_all:
  "rest s = Some r \<Longrightarrow> \<exists>t. foldR (\<lambda>_. wc) (replicate (Suc (length (pieces r))) ()) s = Inr t \<and>
    calls t = calls s @ map Send (pieces r) @ [Shutdown]"
proof (induction r arbitrary: s rule: pieces.induct)
  case (1 r)
  show ?case
  proof (cases "r = []")
    case True
    then show ?thesis using last[of s] 1(2) by auto
  next
    case False
    from more[OF 1(2) this] obtain t where
      t: "wc s = Inr t" "rest t = Some (drop kBufSize r)" "calls t = calls s @ [Send (take kBufSize r)]" by blast
    from 1(1)[OF False t(2)] t show ?thesis using False by (auto simp: pieces.simps[of r])
  qed
qed

lemma pause:
  "k \<le> length (pieces r) \<Longrightarrow> rest s = Some r \<Longrightarrow> \<exists>t r'. foldR (\<lambda>_. wc) (replicate k ()) s = Inr t \<and>
    rest t = Some r' \<and> calls t = calls s @ map Send (take k (pieces r))"
proof (induction k arbitrary: r s)
  case 0
  then show ?case by simp
next
  case (Suc k)
  then have r: "r \<noteq> []" by auto
  from more[OF Suc.prems(2) this] obtain t where
    t: "wc s = Inr t" "rest t = Some (drop kBufSize r)" "calls t = calls s @ [Send (take kBufSize r)]" by blast
  have "k \<le> length (pieces (drop kBufSize r))" using Suc.prems(1) r by (simp add: pieces.simps[of r])
  from Suc.IH[OF this t(2)] t r show ?case by (auto simp: pieces.simps[of r])
qed

end

text \<open>What is left of the file in the context.\<close>

definition left_of :: "fileconn \<Rightarrow> string option" where
  "left_of c = (case fc_context c of None \<Rightarrow> None | Some fp \<Rightarrow> stream fp (fc_io c))"

lemma left_of_Some:
  "left_of c = Some r \<longleftrightarrow> (\<exists>p. fc_context c = Some (Some p) \<and> fs_streams (fc_io c) p = Some r)"
proof (cases "fc_context c")
  case (Some fp)
  then show ?thesis by (cases fp) (simp_all add: left_of_def stream_def)
qed (simp add: left_of_def)

lemma kBufSize_pos [simp]: "0 < kBufSize"
  by (simp add: kBufSize_def)

named_theorems file_simps

lemmas [file_simps] = left_of_Some any_cast_def reading_def fread_def stream_def onStream_def fclose_def called_def

interpretation d2: piece_sender d2OnWriteComplete left_of fc_calls
  by unfold_locales (auto simp: d2OnWriteComplete_def file_simps)

interpretation m2: piece_sender m2OnWriteComplete left_of fc_calls
  by unfold_locales (auto simp: m2OnWriteComplete_def file_simps)

interpretation m3: piece_sender m3OnWriteComplete left_of fc_calls
  by unfold_locales (auto simp: m3OnWriteComplete_def file_simps)

section \<open>Properties\<close>

lemma up_sends:
  assumes "fs_files io name = Some s"
  shows "\<exists>c. d2OnConnection name True (newFileconn io) = Inr c \<and> m2OnConnect name True (newFileconn io) = Inr c \<and>
    m3OnConnection name True (newFileconn io) = Inr c \<and> left_of c = Some (drop kBufSize s) \<and>
    fc_calls c = [Send (take kBufSize s)]"
proof -
  have "fread kBufSize (Some (fs_next io)) (opened io s) = Inr (take kBufSize s, opened io (drop kBufSize s))"
    by (simp add: fread_def opened_def stream_def)
  moreover have "left_of \<lparr>fc_io = opened io r, fc_context = Some (Some (fs_next io)), fc_calls = cs\<rparr> = Some r" for r cs
    by (simp add: left_of_def)
  ultimately show ?thesis
    by (auto simp: d2OnConnection_def m2OnConnect_def m3OnConnection_def fopen_some[OF assms] newFileconn_def
        reading_def called_def Let_def)
qed

text \<open>The calls of the servers that send in pieces, when every write is reported.\<close>

definition serve :: "(fileconn \<Rightarrow> fileconn result) \<Rightarrow> (fileconn \<Rightarrow> fileconn result) \<Rightarrow> nat \<Rightarrow> fileconn \<Rightarrow> fileconn result" where
  "serve up wc k c = bindR (up c) (foldR (\<lambda>_. wc) (replicate k ()))"

definition sends_of :: "string \<Rightarrow> string list" where
  "sends_of s = take kBufSize s # pieces (drop kBufSize s)"

lemma concat_sends_of: "concat (sends_of s) = s"
  by (simp add: sends_of_def concat_pieces)

lemma serve_contract:
  assumes "fs_files io name = Some s"
    and "(up, wc) \<in> {(d2OnConnection name True, d2OnWriteComplete), (m2OnConnect name True, m2OnWriteComplete),
                    (m3OnConnection name True, m3OnWriteComplete)}"
    and "k \<le> length (sends_of s)"
  shows "\<exists>c. serve up wc k (newFileconn io) = Inr c \<and>
    fc_calls c = (if k = length (sends_of s) then map Send (sends_of s) @ [Shutdown] else map Send (take (Suc k) (sends_of s)))"
proof -
  let ?r = "drop kBufSize s"
  obtain c where c: "up (newFileconn io) = Inr c" "left_of c = Some ?r" "fc_calls c = [Send (take kBufSize s)]"
    using up_sends[OF assms(1)] assms(2) by auto
  have "piece_sender wc left_of fc_calls"
    using assms(2) d2.piece_sender_axioms m2.piece_sender_axioms m3.piece_sender_axioms by auto
  note all = piece_sender.sends_all[OF this c(2)] and pause = piece_sender.pause[OF this _ c(2), of k]
  show ?thesis
    using all pause assms(3) c(1,3) by (auto simp: serve_def sends_of_def)
qed

lemma serve_all:
  assumes "fs_files io name = Some s"
    and "(up, wc) \<in> {(d2OnConnection name True, d2OnWriteComplete), (m2OnConnect name True, m2OnWriteComplete),
                    (m3OnConnection name True, m3OnWriteComplete)}"
  shows "\<exists>c. serve up wc (length (sends_of s)) (newFileconn io) = Inr c \<and> fc_calls c = map Send (sends_of s) @ [Shutdown]"
  using serve_contract[OF assms order_refl] by simp

lemma sends_of_short: "p \<in> set (sends_of s) \<Longrightarrow> length p \<le> kBufSize"
  using pieces_short[of p "drop kBufSize s"] by (auto simp: sends_of_def)

text \<open>
  The three servers that send a file in pieces do the same and the right thing: after as many
  reports of a complete write as there were sends, the pieces sent are together the file, each is at
  most 64 KB long, and then, once, the connection is shut down; while reports are missing nothing is
  sent ahead of them and the connection is not shut down.
\<close>

theorem piecewise_download_complete:
  assumes "fs_files io name = Some s"
    and "(up, wc) \<in> {(d2OnConnection name True, d2OnWriteComplete), (m2OnConnect name True, m2OnWriteComplete),
                    (m3OnConnection name True, m3OnWriteComplete)}"
    and "k \<le> length (sends_of s)"
  shows "\<exists>c. serve up wc k (newFileconn io) = Inr c \<and>
    fc_calls c = (if k = length (sends_of s) then map Send (sends_of s) @ [Shutdown] else map Send (take (Suc k) (sends_of s))) \<and>
    concat (sends_of s) = s \<and> (\<forall>p \<in> set (sends_of s). length p \<le> 64 * 1024)"
  using serve_contract[OF assms] sends_of_short[of _ s] by (auto simp: concat_sends_of kBufSize_def)

theorem piecewise_download_complete_witness:
  "\<exists>c. serve (m3OnConnection ''f'' True) m3OnWriteComplete 1
      (newFileconn \<lparr>fs_files = [''f'' \<mapsto> ''abc''], fs_streams = Map.empty, fs_next = 0\<rparr>) = Inr c \<and>
    fc_calls c = [Send ''abc'', Shutdown]"
  using piecewise_download_complete[of "\<lparr>fs_files = [''f'' \<mapsto> ''abc''], fs_streams = Map.empty, fs_next = 0\<rparr>" "''f''" "''abc''"
      "m3OnConnection ''f'' True" m3OnWriteComplete 1]
  by (auto simp: sends_of_def kBufSize_def)

definition sent :: "conn_call list \<Rightarrow> string" where
  "sent cs = concat (map (\<lambda>x. case x of Send s \<Rightarrow> s | Shutdown \<Rightarrow> []) cs)"

lemma sent_sends: "sent (map Send ss @ [Shutdown]) = concat ss"
  by (simp add: sent_def comp_def)

lemma dl_up:
  assumes "fs_files io name = Some s"
  shows "dlOnConnection name True (newFileconn io) =
      Inr \<lparr>fc_io = (opened io [])\<lparr>fs_streams := (fs_streams (opened io []))(fs_next io := None)\<rparr>,
           fc_context = None, fc_calls = [Send s, Shutdown]\<rparr>"
    and "dmOnConnect name True (newFileconn io) =
      Inr \<lparr>fc_io = opened io [], fc_context = None, fc_calls = [Send s, Shutdown]\<rparr>"
  by (simp_all add: dlOnConnection_def dmOnConnect_def readFile_def reaf_file_def newFileconn_def
      fopen_some[OF assms] readLoop_opened fclose_def called_def)



text \<open>
  When the connection goes down before the report of the last write arrives, \<open>onConnection\<close> closes
  the file but leaves the pointer in the context, and \<open>onWriteComplete\<close> reads from the closed file.
\<close>

lemma report_after_down:
  assumes "fs_files io name = Some s"
  shows "bindR (serve (d2OnConnection name True) (d2OnConnection name False) 1 (newFileconn io)) d2OnWriteComplete =
      Inl (Dangling ''fread'')"
    and "bindR (serve (m2OnConnect name True) (m2OnConnect name False) 1 (newFileconn io)) m2OnWriteComplete =
      Inl (Dangling ''fread'')"
  using up_sends[OF assms] unfolding serve_def left_of_Some
  by (auto simp: d2OnConnection_def m2OnConnect_def d2OnWriteComplete_def m2OnWriteComplete_def file_simps)

end
