(* ===== verification/Downloads.thy ===== *)
theory Downloads
  imports FileServers
begin

text \<open>
  The five programs that send a file (\<open>download.cc\<close>, \<open>download_myself.cpp\<close>, \<open>download2.cc\<close>,
  \<open>download2_myself.cc\<close>, \<open>download3_myself.cc\<close>) from their command lines on, with any number of
  clients at once: the connections have their contexts and their calls, and all share the streams of
  the process.  The locale \<open>file_service\<close> says what each program's callbacks do to one connection and
  its stream; from that it follows what the program does to all of them.
\<close>

section \<open>The programs\<close>

text \<open>
  muduo's server: the callbacks it was given (its own does nothing to a connection).  \<open>fv_gone\<close> is what
  happens with the context when the connection is destroyed: the destructor of a plain pointer does
  nothing, that of the last counted pointer closes the file.
\<close>

record fileserver =
  fv_port :: nat
  fv_name :: string
  fv_up :: "bool \<Rightarrow> fileconn \<Rightarrow> fileconn result"
  fv_written :: "(fileconn \<Rightarrow> fileconn result) option"
  fv_gone :: "fileconn \<Rightarrow> fileconn result"
  fv_started :: bool

definition newFileServer :: "nat \<Rightarrow> string \<Rightarrow> fileserver" where
  "newFileServer port name =
     \<lparr>fv_port = port, fv_name = name, fv_up = (\<lambda>up c. Inr c), fv_written = None, fv_gone = Inr, fv_started = False\<rparr>"

definition startFileServer :: "fileserver \<Rightarrow> fileserver" where
  "startFileServer sv = sv\<lparr>fv_started := True\<rparr>"

text \<open>The server that is started when \<open>main\<close> enters the loop, or what is printed or logged instead.\<close>

definition dlMain :: "string list \<Rightarrow> string + fileserver" where
  "dlMain argv =
     (if length argv > 1 then
        let g_file = argv ! 1;
            server = newFileServer 2021 ''FileServer'';
            server = server\<lparr>fv_up := dlOnConnection g_file\<rparr>
        in Inr (startFileServer server)
      else Inl (''Usage: '' @ argv ! 0 @ '' file_for_downloading'' @ [CHR 0x0A]))"

definition dmMain :: "string list \<Rightarrow> string + fileserver" where
  "dmMain argv =
     (if length argv \<le> 1 then Inl ''Usage: download_server <file_name>''
      else
        let file_name = argv ! 1;
            server = newFileServer 2333 ''Download Server'';
            server = server\<lparr>fv_up := dmOnConnect file_name\<rparr>
        in Inr (startFileServer server))"

definition d2Main :: "string list \<Rightarrow> string + fileserver" where
  "d2Main argv =
     (if length argv > 1 then
        let g_file = argv ! 1;
            server = newFileServer 2021 ''FileServer'';
            server = server\<lparr>fv_up := d2OnConnection g_file\<rparr>;
            server = server\<lparr>fv_written := Some d2OnWriteComplete\<rparr>
        in Inr (startFileServer server)
      else Inl (''Usage: '' @ argv ! 0 @ '' file_for_downloading'' @ [CHR 0x0A]))"

definition m2Main :: "string list \<Rightarrow> string + fileserver" where
  "m2Main argv =
     (if length argv = 1 then Inl ''bad usage''
      else
        let file_name = argv ! 1;
            server = newFileServer 2333 ''File-Send-Server'';
            server = server\<lparr>fv_up := m2OnConnect file_name\<rparr>;
            server = server\<lparr>fv_written := Some m2OnWriteComplete\<rparr>
        in Inr (startFileServer server))"

definition m3Main :: "string list \<Rightarrow> string + fileserver" where
  "m3Main argv =
     (if length argv > 1 then
        let file_name = argv ! 1;
            server = newFileServer 2333 ''FILE-SEND-SERVER'';
            server = server\<lparr>fv_up := m3OnConnection file_name, fv_gone := m3Destroyed\<rparr>;
            server = server\<lparr>fv_written := Some m3OnWriteComplete\<rparr>
        in Inr (startFileServer server)
      else Inl (''Usage: '' @ argv ! 0 @ '' <filename>''))"

section \<open>Many clients\<close>

record fileworld =
  fw_io :: stdio
  fw_context :: "conn_id \<Rightarrow> file_ptr option"
  fw_calls :: "conn_id \<Rightarrow> conn_call list"

definition newFileworld :: "stdio \<Rightarrow> fileworld" where
  "newFileworld io = \<lparr>fw_io = io, fw_context = (\<lambda>_. None), fw_calls = (\<lambda>_. [])\<rparr>"

definition dlOn :: "(fileconn \<Rightarrow> fileconn result) \<Rightarrow> conn_id \<Rightarrow> fileworld \<Rightarrow> fileworld result" where
  "dlOn f c w =
     bindR (f \<lparr>fc_io = fw_io w, fc_context = fw_context w c, fc_calls = fw_calls w c\<rparr>) (\<lambda>k.
     Inr \<lparr>fw_io = fc_io k, fw_context = (fw_context w)(c := fc_context k), fw_calls = (fw_calls w)(c := fc_calls k)\<rparr>)"

datatype dl_event = DUp conn_id | DWritten conn_id | DDown conn_id | DGone conn_id

fun dlStep :: "fileserver \<Rightarrow> dl_event \<Rightarrow> fileworld \<Rightarrow> fileworld result" where
  "dlStep sv (DUp c) w = (if fv_started sv then dlOn (fv_up sv True) c w else Inr w)"
| "dlStep sv (DWritten c) w = dlOn (case fv_written sv of None \<Rightarrow> Inr | Some f \<Rightarrow> f) c w"
| "dlStep sv (DDown c) w = dlOn (fv_up sv False) c w"
| "dlStep sv (DGone c) w = dlOn (fv_gone sv) c w"

definition dlRun :: "fileserver \<Rightarrow> dl_event list \<Rightarrow> fileworld \<Rightarrow> fileworld result" where
  "dlRun sv = foldR (dlStep sv)"

text \<open>
  The life of a connection in the eyes of muduo: it comes up; of at most \<open>n\<close> sends it reports that
  they are written, while the connection is up; it goes down; it is destroyed.  The state is the
  number of reports and the stage; \<open>None\<close> is an order that is left out.  (A report can also come late,
  when the connection is already down; \<open>report_after_down\<close> shows that two of the programs do not bear it.)
\<close>

datatype dl_stage = Serving | Hungup | Destroyed

fun dlNext :: "nat \<Rightarrow> dl_event \<Rightarrow> (conn_id \<rightharpoonup> nat \<times> dl_stage) \<Rightarrow> (conn_id \<rightharpoonup> nat \<times> dl_stage) option" where
  "dlNext n (DUp c) st = (if st c = None then Some (st(c \<mapsto> (0, Serving))) else None)"
| "dlNext n (DWritten c) st =
     (case st c of Some (k, Serving) \<Rightarrow> if k < n then Some (st(c \<mapsto> (Suc k, Serving))) else None | _ \<Rightarrow> None)"
| "dlNext n (DDown c) st = (case st c of Some (k, Serving) \<Rightarrow> Some (st(c \<mapsto> (k, Hungup))) | _ \<Rightarrow> None)"
| "dlNext n (DGone c) st = (case st c of Some (k, Hungup) \<Rightarrow> Some (st(c \<mapsto> (k, Destroyed))) | _ \<Rightarrow> None)"

fun dlFollow :: "nat \<Rightarrow> dl_event list \<Rightarrow> (conn_id \<rightharpoonup> nat \<times> dl_stage) \<Rightarrow> (conn_id \<rightharpoonup> nat \<times> dl_stage) option" where
  "dlFollow n [] st = Some st"
| "dlFollow n (e # es) st = Option.bind (dlNext n e st) (dlFollow n es)"

section \<open>From one connection to all\<close>

text \<open>
  What a program promises of one connection whose stream is \<open>p\<close>: after \<open>k\<close> reports it has made the
  calls \<open>calls k\<close>, its context is \<open>ctx p k\<close> and its stream \<open>left k\<close>, and no other stream is touched.
\<close>

locale file_service =
  fixes sv :: fileserver and name :: string and s :: string and n :: nat
    and calls :: "nat \<Rightarrow> conn_call list" and ctx :: "nat \<Rightarrow> nat \<Rightarrow> dl_stage \<Rightarrow> file_ptr option"
    and left :: "nat \<Rightarrow> dl_stage \<Rightarrow> string option"
  assumes started: "fv_started sv"
    and up: "fs_files io name = Some s \<Longrightarrow> fv_up sv True \<lparr>fc_io = io, fc_context = None, fc_calls = []\<rparr> =
      Inr \<lparr>fc_io = io\<lparr>fs_streams := (fs_streams io)(fs_next io := left 0 Serving), fs_next := Suc (fs_next io)\<rparr>,
           fc_context = ctx (fs_next io) 0 Serving, fc_calls = calls 0\<rparr>"
    and written: "k < n \<Longrightarrow> fs_streams io p = left k Serving \<Longrightarrow>
      (case fv_written sv of None \<Rightarrow> Inr | Some f \<Rightarrow> f) \<lparr>fc_io = io, fc_context = ctx p k Serving, fc_calls = calls k\<rparr> =
      Inr \<lparr>fc_io = io\<lparr>fs_streams := (fs_streams io)(p := left (Suc k) Serving)\<rparr>,
           fc_context = ctx p (Suc k) Serving, fc_calls = calls (Suc k)\<rparr>"
    and down: "fs_streams io p = left k Serving \<Longrightarrow>
      fv_up sv False \<lparr>fc_io = io, fc_context = ctx p k Serving, fc_calls = calls k\<rparr> =
      Inr \<lparr>fc_io = io\<lparr>fs_streams := (fs_streams io)(p := left k Hungup)\<rparr>, fc_context = ctx p k Hungup, fc_calls = calls k\<rparr>"
    and gone: "fs_streams io p = left k Hungup \<Longrightarrow>
      fv_gone sv \<lparr>fc_io = io, fc_context = ctx p k Hungup, fc_calls = calls k\<rparr> =
      Inr \<lparr>fc_io = io\<lparr>fs_streams := (fs_streams io)(p := left k Destroyed)\<rparr>, fc_context = ctx p k Destroyed, fc_calls = calls k\<rparr>"
begin

text \<open>Each connection has a stream of its own; together they have all that were made since \<open>lo\<close>.\<close>

definition served :: "nat \<Rightarrow> (conn_id \<Rightarrow> nat) \<Rightarrow> (conn_id \<rightharpoonup> nat \<times> dl_stage) \<Rightarrow> fileworld \<Rightarrow> bool" where
  "served lo own st w \<longleftrightarrow> fs_files (fw_io w) name = Some s \<and> inj_on own (dom st) \<and>
     lo \<le> fs_next (fw_io w) \<and> own ` dom st = {lo..<fs_next (fw_io w)} \<and>
     (\<forall>c. st c = None \<longrightarrow> fw_context w c = None \<and> fw_calls w c = []) \<and>
     (\<forall>c k g. st c = Some (k, g) \<longrightarrow> fw_context w c = ctx (own c) k g \<and> fw_calls w c = calls k \<and>
        fs_streams (fw_io w) (own c) = left k g)"

lemma served_move:
  assumes S: "served lo own st w" and c: "st c = Some (k, g)"
    and f: "f \<lparr>fc_io = fw_io w, fc_context = ctx (own c) k g, fc_calls = calls k\<rparr> =
      Inr \<lparr>fc_io = (fw_io w)\<lparr>fs_streams := (fs_streams (fw_io w))(own c := left k' g')\<rparr>,
           fc_context = ctx (own c) k' g', fc_calls = calls k'\<rparr>"
  shows "\<exists>w'. dlOn f c w = Inr w' \<and> served lo own (st(c \<mapsto> (k', g'))) w'"
proof -
  have d: "dom (st(c \<mapsto> (k', g'))) = dom st" using c by auto
  have "own d \<noteq> own c" if "st d = Some x" "d \<noteq> c" for d x
    using S that c unfolding served_def by (metis domI inj_onD)
  then show ?thesis
    using S c f unfolding served_def d by (auto simp: dlOn_def)
qed

lemma served_new:
  assumes S: "served lo own st w" and c: "st c = None"
  shows "\<exists>w'. dlOn (fv_up sv True) c w = Inr w' \<and>
    served lo (own(c := fs_next (fw_io w))) (st(c \<mapsto> (0, Serving))) w'"
proof -
  have o: "own d \<noteq> fs_next (fw_io w)" if "st d = Some x" for d x
    using S that unfolding served_def by (metis atLeastLessThan_iff domI imageI less_irrefl)
  have i: "inj_on (own(c := fs_next (fw_io w))) (dom (st(c \<mapsto> (0, Serving))))"
    using S o c unfolding served_def inj_on_def by auto blast+
  have "(own(c := fs_next (fw_io w))) ` dom (st(c \<mapsto> (0, Serving))) = insert (fs_next (fw_io w)) (own ` dom st)"
    using c by (auto simp: image_iff)
  also have "\<dots> = {lo..<Suc (fs_next (fw_io w))}" using S by (auto simp: served_def)
  finally have r: "(own(c := fs_next (fw_io w))) ` dom (st(c \<mapsto> (0, Serving))) = {lo..<Suc (fs_next (fw_io w))}" .
  have f: "fs_files (fw_io w) name = Some s" "fw_context w c = None" "fw_calls w c = []"
    using S c by (simp_all add: served_def)
  show ?thesis
    using i r S c o unfolding served_def by (auto simp: dlOn_def up f)
qed

lemma served_step:
  assumes S: "served lo own st w" and e: "dlNext n e st = Some st'"
  shows "\<exists>w' own'. dlStep sv e w = Inr w' \<and> served lo own' st' w'"
proof (cases e)
  case (DUp c)
  then show ?thesis using served_new[OF S, of c] e started by (auto split: if_splits)
next
  case (DWritten c)
  then obtain k where k: "st c = Some (k, Serving)" "k < n" "st' = st(c \<mapsto> (Suc k, Serving))"
    using e by (auto split: option.splits prod.splits dl_stage.splits if_splits)
  have "fs_streams (fw_io w) (own c) = left k Serving" using S k(1) by (simp add: served_def)
  have "\<exists>w'. dlOn (case fv_written sv of None \<Rightarrow> Inr | Some f \<Rightarrow> f) c w = Inr w' \<and> served lo own st' w'"
    unfolding k(3) by (rule served_move[OF S k(1)]) (rule written[OF k(2) \<open>fs_streams (fw_io w) (own c) = left k Serving\<close>])
  then show ?thesis by (auto simp: DWritten)
next
  case (DDown c)
  then obtain k where k: "st c = Some (k, Serving)" "st' = st(c \<mapsto> (k, Hungup))"
    using e by (auto split: option.splits prod.splits dl_stage.splits)
  have "fs_streams (fw_io w) (own c) = left k Serving" using S k(1) by (simp add: served_def)
  have "\<exists>w'. dlOn (fv_up sv False) c w = Inr w' \<and> served lo own st' w'"
    unfolding k(2) by (rule served_move[OF S k(1)]) (rule down[OF \<open>fs_streams (fw_io w) (own c) = left k Serving\<close>])
  then show ?thesis by (auto simp: DDown)
next
  case (DGone c)
  then obtain k where k: "st c = Some (k, Hungup)" "st' = st(c \<mapsto> (k, Destroyed))"
    using e by (auto split: option.splits prod.splits dl_stage.splits)
  have "fs_streams (fw_io w) (own c) = left k Hungup" using S k(1) by (simp add: served_def)
  have "\<exists>w'. dlOn (fv_gone sv) c w = Inr w' \<and> served lo own st' w'"
    unfolding k(2) by (rule served_move[OF S k(1)]) (rule gone[OF \<open>fs_streams (fw_io w) (own c) = left k Hungup\<close>])
  then show ?thesis by (auto simp: DGone)
qed

lemma served_run:
  "served lo own st w \<Longrightarrow> dlFollow n es st = Some st' \<Longrightarrow> \<exists>w' own'. dlRun sv es w = Inr w' \<and> served lo own' st' w'"
proof (induction es arbitrary: own st w)
  case Nil
  then show ?case by (auto simp: dlRun_def)
next
  case (Cons e es)
  then obtain st1 where st1: "dlNext n e st = Some st1" "dlFollow n es st1 = Some st'"
    by (auto simp: bind_eq_Some_conv)
  obtain w1 own1 where "dlStep sv e w = Inr w1" "served lo own1 st1 w1"
    using served_step[OF Cons.prems(1) st1(1)] by blast
  with Cons.IH[OF _ st1(2)] show ?case by (auto simp: dlRun_def simp del: dlStep.simps)
qed

lemma serves_all:
  assumes "fs_files io name = Some s" and "dlFollow n es (\<lambda>_. None) = Some st"
  shows "\<exists>w. dlRun sv es (newFileworld io) = Inr w \<and>
    (\<forall>c. fw_calls w c = (case st c of None \<Rightarrow> [] | Some (k, g) \<Rightarrow> calls k)) \<and>
    (\<forall>q. fs_next io \<le> q \<and> q < fs_next (fw_io w) \<longrightarrow> (\<exists>c k g. st c = Some (k, g) \<and> fs_streams (fw_io w) q = left k g))"
proof -
  have "served (fs_next io) (\<lambda>_. 0) (\<lambda>_. None) (newFileworld io)"
    using assms(1) by (simp add: served_def newFileworld_def)
  from served_run[OF this assms(2)] obtain w own where
    w: "dlRun sv es (newFileworld io) = Inr w" "served (fs_next io) own st w" by blast
  have "\<exists>c k g. st c = Some (k, g) \<and> fs_streams (fw_io w) q = left k g" if "fs_next io \<le> q" "q < fs_next (fw_io w)" for q
  proof -
    have "q \<in> own ` dom st" using w(2) that by (simp add: served_def)
    then obtain c k g where "st c = Some (k, g)" "q = own c" by auto
    then show ?thesis using w(2) unfolding served_def by blast
  qed
  with w show ?thesis by (auto simp: served_def split: option.split)
qed

text \<open>In the end the streams are what the destroyed connections leave.\<close>

lemma serves_and_leaves:
  assumes "fs_files io name = Some s" and "dlFollow n es (\<lambda>_. None) = Some st" and "\<And>k. left k Destroyed = x"
  shows "\<exists>w. dlRun sv es (newFileworld io) = Inr w \<and> (\<forall>c k g. st c = Some (k, g) \<longrightarrow> fw_calls w c = calls k) \<and>
    ((\<forall>c k g. st c = Some (k, g) \<longrightarrow> g = Destroyed) \<longrightarrow>
       (\<forall>q. fs_next io \<le> q \<and> q < fs_next (fw_io w) \<longrightarrow> fs_streams (fw_io w) q = x))"
proof -
  obtain w where w: "dlRun sv es (newFileworld io) = Inr w"
    "\<forall>c. fw_calls w c = (case st c of None \<Rightarrow> [] | Some (k, g) \<Rightarrow> calls k)"
    "\<forall>q. fs_next io \<le> q \<and> q < fs_next (fw_io w) \<longrightarrow> (\<exists>c k g. st c = Some (k, g) \<and> fs_streams (fw_io w) q = left k g)"
    using serves_all[OF assms(1,2)] by blast
  have "fs_streams (fw_io w) q = x"
    if d: "\<forall>c k g. st c = Some (k, g) \<longrightarrow> g = Destroyed" and q: "fs_next io \<le> q \<and> q < fs_next (fw_io w)" for q
  proof -
    obtain c k g where "st c = Some (k, g)" "fs_streams (fw_io w) q = left k g" using w(3) q by blast
    moreover from this d have "g = Destroyed" by blast
    ultimately show ?thesis using assms(3) by simp
  qed
  with w(1,2) show ?thesis by (intro exI[of _ w]) auto
qed

end

section \<open>The programs keep the promise\<close>

text \<open>The calls of a program that sends in pieces, and what is then left of the file.\<close>

definition piece_calls :: "string \<Rightarrow> nat \<Rightarrow> conn_call list" where
  "piece_calls s k =
     (if k < length (sends_of s) then map Send (take (Suc k) (sends_of s)) else map Send (sends_of s) @ [Shutdown])"

definition file_rest :: "string \<Rightarrow> nat \<Rightarrow> string" where
  "file_rest s k = drop (kBufSize * Suc k) s"

lemma drop_pieces: "drop j (pieces r) = pieces (drop (j * kBufSize) r)"
proof (induction j arbitrary: r)
  case (Suc j)
  have "drop j (pieces (drop kBufSize r)) = pieces (drop (Suc j * kBufSize) r)"
    unfolding Suc.IH by (simp only: drop_drop mult_Suc add.commute)
  then show ?case by (cases "r = []") (simp_all only: pieces.simps[of r] drop_Suc_Cons drop_Nil pieces_Nil if_True if_False)
qed simp

lemma rest_pieces: "pieces (file_rest s k) = drop (Suc k) (sends_of s)"
  using drop_pieces[of k "drop kBufSize s"] by (simp add: file_rest_def sends_of_def ac_simps)

lemma file_rest_Suc: "drop kBufSize (file_rest s k) = file_rest s (Suc k)"
  by (simp add: file_rest_def ac_simps)

text \<open>Another piece, or the end.\<close>

lemma piece_calls_Suc:
  assumes "k < length (sends_of s)"
  shows "if file_rest s k = [] then Suc k = length (sends_of s) \<and> piece_calls s (Suc k) = piece_calls s k @ [Shutdown]
    else Suc k < length (sends_of s) \<and> piece_calls s (Suc k) = piece_calls s k @ [Send (take kBufSize (file_rest s k))]"
proof (cases "file_rest s k = []")
  case True
  then have "length (sends_of s) \<le> Suc k" using rest_pieces[of s k] by simp
  with assms True show ?thesis by (simp add: piece_calls_def)
next
  case False
  then have d: "drop (Suc k) (sends_of s) = take kBufSize (file_rest s k) # pieces (drop kBufSize (file_rest s k))"
    using rest_pieces[of s k] by (simp add: pieces.simps[of "file_rest s k"])
  then have l: "Suc k < length (sends_of s)" by (metis drop_all leI list.distinct(1))
  have "sends_of s ! Suc k = take kBufSize (file_rest s k)" using d l by (metis hd_drop_conv_nth list.sel(1))
  with False l show ?thesis by (simp add: piece_calls_def take_Suc_conv_app_nth[of "Suc k"])
qed

named_theorems program_simps

lemma stream_same: "fs_streams io p = r \<Longrightarrow> io\<lparr>fs_streams := (fs_streams io)(p := r)\<rparr> = io"
  by auto

lemmas [program_simps] = stream_same newFileServer_def startFileServer_def Let_def

text \<open>The first two programs have sent everything when the connection is up; the second leaves the file open.\<close>

interpretation dl_all: file_service "projr (dlMain (prog # name # args))" name s n "\<lambda>k. [Send s, Shutdown]"
    "\<lambda>p k g. None" "\<lambda>k g. None" for prog name args s n
  by unfold_locales
    (simp_all add: dlMain_def program_simps dlOnConnection_def readFile_def fopen_some readLoop_opened fclose_def called_def,
     simp add: opened_def)

interpretation dm_all: file_service "projr (dmMain (prog # name # args))" name s n "\<lambda>k. [Send s, Shutdown]"
    "\<lambda>p k g. None" "\<lambda>k g. Some []" for prog name args s n
  by unfold_locales
    (simp_all add: dmMain_def program_simps dmOnConnect_def reaf_file_def fopen_some readLoop_opened called_def,
     simp add: opened_def)

text \<open>The other three send a piece after each report; the last one closes the file with the connection.\<close>

definition open_while :: "bool \<Rightarrow> string \<Rightarrow> nat \<Rightarrow> string option" where
  "open_while b s k = (if b then Some (file_rest s k) else None)"

lemma up_pieces:
  "fs_files io name = Some s \<Longrightarrow> reading kBufSize (Some (fs_next io)) \<lparr>fc_io = opened io s, fc_context = x, fc_calls = cs\<rparr> f =
     f (take kBufSize s) \<lparr>fc_io = opened io (file_rest s 0), fc_context = x, fc_calls = cs\<rparr>"
proof -
  have "fread kBufSize (Some (fs_next io)) (opened io s) = Inr (take kBufSize s, opened io (file_rest s 0))"
    by (simp add: fread_def opened_def stream_def file_rest_def)
  then show ?thesis by (simp add: reading_def)
qed

lemma piece_calls_0: "piece_calls s 0 = [Send (take kBufSize s)]"
  by (simp add: piece_calls_def sends_of_def)

interpretation d2_all: file_service "projr (d2Main (prog # name # args))" name s "length (sends_of s)" "piece_calls s"
    "\<lambda>p k g. Some (if k < length (sends_of s) then Some p else None)"
    "\<lambda>k g. open_while (g = Serving \<and> k < length (sends_of s)) s k" for prog name args s
proof (unfold_locales, goal_cases)
  case (2 io)
  have "0 < length (sends_of s)" by (simp add: sends_of_def)
  with 2 show ?case
    by (simp add: d2Main_def program_simps d2OnConnection_def fopen_some up_pieces called_def piece_calls_0 open_while_def)
      (simp add: opened_def)
next
  case (3 k io p)
  then show ?case
    using piece_calls_Suc[OF 3(1)]
    by (auto simp: d2Main_def program_simps d2OnWriteComplete_def file_simps open_while_def file_rest_Suc split: if_splits)
qed (auto simp: d2Main_def program_simps d2OnConnection_def file_simps open_while_def)

interpretation m2_all: file_service "projr (m2Main (prog # name # args))" name s "length (sends_of s)" "piece_calls s"
    "\<lambda>p k g. Some (if k < length (sends_of s) then Some p else None)"
    "\<lambda>k g. open_while (g = Serving \<and> k < length (sends_of s)) s k" for prog name args s
proof (unfold_locales, goal_cases)
  case (2 io)
  have "0 < length (sends_of s)" by (simp add: sends_of_def)
  with 2 show ?case
    by (simp add: m2Main_def program_simps m2OnConnect_def fopen_some up_pieces called_def piece_calls_0 open_while_def)
      (simp add: opened_def)
next
  case (3 k io p)
  then show ?case
    using piece_calls_Suc[OF 3(1)]
    by (auto simp: m2Main_def program_simps m2OnWriteComplete_def file_simps open_while_def file_rest_Suc split: if_splits)
qed (auto simp: m2Main_def program_simps m2OnConnect_def file_simps open_while_def)

interpretation m3_all: file_service "projr (m3Main (prog # name # args))" name s "length (sends_of s)" "piece_calls s"
    "\<lambda>p k g. if g = Destroyed then None else Some (Some p)"
    "\<lambda>k g. open_while (g \<noteq> Destroyed) s k" for prog name args s
proof (unfold_locales, goal_cases)
  case (2 io)
  then show ?case
    by (simp add: m3Main_def program_simps m3OnConnection_def fopen_some up_pieces called_def piece_calls_0 open_while_def)
      (simp add: opened_def)
next
  case (3 k io p)
  then show ?case
    using piece_calls_Suc[OF 3(1)]
    by (auto simp: m3Main_def program_simps m3OnWriteComplete_def file_simps open_while_def file_rest_Suc split: if_splits)
qed (auto simp: m3Main_def program_simps m3OnConnection_def m3Destroyed_def file_simps open_while_def)

section \<open>Properties\<close>

text \<open>
  C34: the programs that send a file serve all their clients, from the command line on.  Any of the five is
  started with the name of a file; connections come up, are reported as written, go down and are
  destroyed, in any order in which a connection has its reports before it goes down.  Then no callback fails, and every client is sent the
  file and nothing else: by the first two at once, followed by the shutdown; by the other three in
  pieces of at most 64 KB that are together the file, the next one after each report, and the shutdown
  after the last.  When all connections are destroyed no stream is left open, except by
  \<open>download_myself.cpp\<close>, which leaves one open for every connection it ever had.
\<close>

theorem file_programs_serve_everyone:
  assumes "main \<in> {dlMain, dmMain, d2Main, m2Main, m3Main}" and "main (prog # name # args) = Inr sv"
    and "fs_files io name = Some s" and "dlFollow (length (sends_of s)) evs (\<lambda>_. None) = Some st"
  shows "\<exists>w. dlRun sv evs (newFileworld io) = Inr w \<and>
    (\<forall>c k g. st c = Some (k, g) \<longrightarrow>
       fw_calls w c =
         (if fv_written sv = None then [Send s, Shutdown]
          else if k < length (sends_of s) then map Send (take (Suc k) (sends_of s))
          else map Send (sends_of s) @ [Shutdown])) \<and>
    concat (sends_of s) = s \<and> (\<forall>x \<in> set (sends_of s). length x \<le> 64 * 1024) \<and>
    ((\<forall>c k g. st c = Some (k, g) \<longrightarrow> g = Destroyed) \<longrightarrow>
       (\<forall>q. fs_next io \<le> q \<and> q < fs_next (fw_io w) \<longrightarrow>
          fs_streams (fw_io w) q = (if fv_name sv = ''Download Server'' then Some [] else None)))"
proof -
  have p: "concat (sends_of s) = s" "\<forall>x \<in> set (sends_of s). length x \<le> 64 * 1024"
    using sends_of_short[of _ s] by (auto simp: concat_sends_of kBufSize_def)
  note f = assms(3,4)
  note names = dlMain_def dmMain_def d2Main_def m2Main_def m3Main_def program_simps
  have sv: "sv = projr (main (prog # name # args))" using assms(2) by simp
  consider "main = dlMain" | "main = dmMain" | "main = d2Main" | "main = m2Main" | "main = m3Main" using assms(1) by blast
  then show ?thesis
  proof cases
    case 1
    from dl_all.serves_and_leaves[OF f refl, of prog args] p show ?thesis unfolding sv 1 by (simp add: names)
  next
    case 2
    from dm_all.serves_and_leaves[OF f refl, of prog args] p show ?thesis unfolding sv 2 by (simp add: names)
  next
    case 3
    have "\<And>k. open_while (Destroyed = Serving \<and> k < length (sends_of s)) s k = None" by (simp add: open_while_def)
    from d2_all.serves_and_leaves[OF f this, of prog args] p show ?thesis unfolding sv 3 by (simp add: names piece_calls_def)
  next
    case 4
    have "\<And>k. open_while (Destroyed = Serving \<and> k < length (sends_of s)) s k = None" by (simp add: open_while_def)
    from m2_all.serves_and_leaves[OF f this, of prog args] p show ?thesis unfolding sv 4 by (simp add: names piece_calls_def)
  next
    case 5
    have "\<And>k. open_while (Destroyed \<noteq> Destroyed) s k = None" by (simp add: open_while_def)
    from m3_all.serves_and_leaves[OF f this, of prog args] p show ?thesis unfolding sv 5 by (simp add: names piece_calls_def)
  qed
qed

theorem file_programs_serve_everyone_witness:
  "\<exists>w sv. d2Main [''download2'', ''f''] = Inr sv \<and>
     dlRun sv [DUp 1, DUp 2, DWritten 2, DDown 1, DDown 2, DGone 2, DGone 1]
       (newFileworld \<lparr>fs_files = [''f'' \<mapsto> ''abc''], fs_streams = Map.empty, fs_next = 0\<rparr>) = Inr w \<and>
     fw_calls w 1 = [Send ''abc''] \<and> fw_calls w 2 = [Send ''abc'', Shutdown]"
proof -
  let ?io = "\<lparr>fs_files = [''f'' \<mapsto> ''abc''], fs_streams = Map.empty, fs_next = 0\<rparr>"
  have s: "sends_of ''abc'' = [''abc'']" by (simp add: sends_of_def kBufSize_def)
  obtain sv where sv: "d2Main [''download2'', ''f''] = Inr sv" "fv_written sv \<noteq> None"
    by (simp add: d2Main_def program_simps)
  have "dlFollow (length (sends_of ''abc'')) [DUp 1, DUp 2, DWritten 2, DDown 1, DDown 2, DGone 2, DGone 1] (\<lambda>_. None) =
      Some [1 \<mapsto> (0, Destroyed), 2 \<mapsto> (1, Destroyed)]"
    by (simp add: s fun_upd_twist)
  from file_programs_serve_everyone[where main = d2Main and prog = "''download2''" and name = "''f''" and args = "[]", OF _ sv(1) _ this, of ?io] sv show ?thesis
    by (auto simp: s)
qed

end
