(* ===== verification/MuduoServers.thy ===== *)
theory MuduoServers
  imports TcpConnection FileServers
begin

text \<open>
  The echo and daytime servers of \<open>src/testCase\<close> (\<open>echo_myself.h\<close>, \<open>echo_myself.cc\<close>, \<open>daytime_myself.h\<close>,
  \<open>daytime_myself.cc\<close>) and the programs that run them on one loop (\<open>echo_main.cpp\<close>, \<open>server_main.cpp\<close>).
  They are written against muduo: its \<open>TcpServer\<close> is here the callbacks it was given, its connection
  the input buffer and the log of the calls made on it.  What is logged by \<open>LOG_INFO\<close> is not modelled.
\<close>

section \<open>Connections and servers of muduo\<close>

record 'b muconn =
  mc_server :: nat            \<comment> \<open>the server it belongs to\<close>
  mc_connected :: bool
  mc_input :: 'b
  mc_calls :: "conn_call list"

definition mcall :: "conn_call \<Rightarrow> 'b muconn \<Rightarrow> 'b muconn" where
  "mcall x c = c\<lparr>mc_calls := mc_calls c @ [x]\<rparr>"

text \<open>Callbacks get the time at which they run, for \<open>Timestamp::now()\<close>.\<close>

type_synonym 'b mu_callback = "timestamp \<Rightarrow> 'b muconn \<Rightarrow> 'b muconn result"

record 'b muserver =
  ms_addr :: inet
  ms_name :: string
  ms_connectionCallback :: "'b mu_callback option"
  ms_messageCallback :: "'b mu_callback option"
  ms_started :: bool

definition newMuServer :: "inet \<Rightarrow> string \<Rightarrow> 'b muserver" where
  "newMuServer addr name =
     \<lparr>ms_addr = addr, ms_name = name, ms_connectionCallback = None, ms_messageCallback = None, ms_started = False\<rparr>"

section \<open>The echo server\<close>

definition echoOnConnection :: "'b mu_callback" where
  "echoOnConnection now conn = Inr conn"

text \<open>\<open>retrieveAllAsString\<close> gives the readable bytes and retrieves them.\<close>

definition echoOnMessage :: "'b env \<Rightarrow> 'b mu_callback" where
  "echoOnMessage E now conn =
     (let buf = mc_input conn; msg = buf_peek E buf in
      bindR (buf_retrieve E buf (buf_readableBytes E buf)) (\<lambda>buf.
      Inr (mcall (Send msg) (conn\<lparr>mc_input := buf\<rparr>))))"

definition echo_myself :: "'b env \<Rightarrow> inet \<Rightarrow> 'b muserver" where
  "echo_myself E addr =
     (newMuServer addr ''EchoServer'')
       \<lparr>ms_connectionCallback := Some echoOnConnection, ms_messageCallback := Some (echoOnMessage E)\<rparr>"

definition echoStart :: "'b muserver \<Rightarrow> 'b muserver" where
  "echoStart sv = sv\<lparr>ms_started := True\<rparr>"

section \<open>The daytime server\<close>

text \<open>
  \<open>fmt\<close> is \<open>Timestamp::toFormattedString\<close>.  \<open>onMessage\<close> is declared and defined, and never registered.
\<close>

definition daytimeOnConnection :: "(timestamp \<Rightarrow> string) \<Rightarrow> 'b mu_callback" where
  "daytimeOnConnection fmt now conn =
     (if mc_connected conn then Inr (mcall Shutdown (mcall (Send (fmt now @ [CHR 0x0A])) conn)) else Inr conn)"

definition daytimeOnMessage :: "'b env \<Rightarrow> 'b mu_callback" where
  "daytimeOnMessage E now conn =
     (let buf = mc_input conn; msg = buf_peek E buf in
      bindR (buf_retrieve E buf (buf_readableBytes E buf)) (\<lambda>buf.
      Inr (mcall (Send msg) (conn\<lparr>mc_input := buf\<rparr>))))"

definition daytime_myself :: "(timestamp \<Rightarrow> string) \<Rightarrow> inet \<Rightarrow> 'b muserver" where
  "daytime_myself fmt addr = (newMuServer addr ''daytimeServer'')\<lparr>ms_connectionCallback := Some (daytimeOnConnection fmt)\<rparr>"

definition daytimeStart :: "'b muserver \<Rightarrow> 'b muserver" where
  "daytimeStart sv = sv\<lparr>ms_started := True\<rparr>"

section \<open>The programs\<close>

text \<open>The servers that are started when \<open>main\<close> enters the loop.\<close>

definition echoMain :: "'b env \<Rightarrow> 'b muserver list" where
  "echoMain E = [echoStart (echo_myself E (Inet 2333))]"

definition serverMainMuduo :: "'b env \<Rightarrow> (timestamp \<Rightarrow> string) \<Rightarrow> 'b muserver list" where
  "serverMainMuduo E fmt =
     (let echo_server = echoStart (echo_myself E (Inet 2333));
          daytime_server = daytimeStart (daytime_myself fmt (Inet 3333))
      in [echo_server, daytime_server])"

text \<open>
  What muduo's loop tells the servers, in any order: a client of one of the servers is connected,
  bytes of a client arrived, a client is gone.  A server that was given no message callback has
  muduo's own, which does something to the input buffer (\<open>dflt\<close>) and to nothing else; a server
  that was not started gets no clients.
\<close>

datatype mu_event = MuUp nat conn_id timestamp | MuData conn_id string timestamp | MuDown conn_id timestamp

definition mu_call :: "'b mu_callback option \<Rightarrow> ('b \<Rightarrow> 'b) \<Rightarrow> timestamp \<Rightarrow> 'b muconn \<Rightarrow> 'b muconn result" where
  "mu_call cb dflt now conn = (case cb of Some f \<Rightarrow> f now conn | None \<Rightarrow> Inr (conn\<lparr>mc_input := dflt (mc_input conn)\<rparr>))"

definition mu_update ::
  "conn_id \<Rightarrow> ('b muconn \<Rightarrow> 'b muconn result) \<Rightarrow> (conn_id \<rightharpoonup> 'b muconn) \<Rightarrow> (conn_id \<rightharpoonup> 'b muconn) result" where
  "mu_update c f st = (case st c of None \<Rightarrow> Inr st | Some m \<Rightarrow> bindR (f m) (\<lambda>m. Inr (st(c \<mapsto> m))))"

fun muStep ::
  "'b env \<Rightarrow> ('b \<Rightarrow> 'b) \<Rightarrow> 'b muserver list \<Rightarrow> mu_event \<Rightarrow> (conn_id \<rightharpoonup> 'b muconn) \<Rightarrow> (conn_id \<rightharpoonup> 'b muconn) result" where
  "muStep E dflt srvs (MuUp k c now) st =
     (if k < length srvs \<and> ms_started (srvs ! k)
      then mu_update c (mu_call (ms_connectionCallback (srvs ! k)) id now)
             (st(c \<mapsto> \<lparr>mc_server = k, mc_connected = True, mc_input = buf_empty E, mc_calls = []\<rparr>))
      else Inr st)"
| "muStep E dflt srvs (MuData c bs now) st =
     mu_update c (\<lambda>m. mu_call (ms_messageCallback (srvs ! mc_server m)) dflt now
       (m\<lparr>mc_input := buf_append E (mc_input m) bs\<rparr>)) st"
| "muStep E dflt srvs (MuDown c now) st =
     mu_update c (\<lambda>m. mu_call (ms_connectionCallback (srvs ! mc_server m)) id now (m\<lparr>mc_connected := False\<rparr>)) st"

definition muRun ::
  "'b env \<Rightarrow> ('b \<Rightarrow> 'b) \<Rightarrow> 'b muserver list \<Rightarrow> mu_event list \<Rightarrow> (conn_id \<rightharpoonup> 'b muconn) result" where
  "muRun E dflt srvs evs = foldR (muStep E dflt srvs) evs (\<lambda>_. None)"

text \<open>The bytes that arrived of a client, and orders that can happen: clients are new ones, and go once.\<close>

definition arrived :: "conn_id \<Rightarrow> mu_event list \<Rightarrow> string list" where
  "arrived c evs = concat (map (\<lambda>e. case e of MuData d bs now \<Rightarrow> if d = c then [bs] else [] | _ \<Rightarrow> []) evs)"

fun mu_order :: "nat \<Rightarrow> conn_id set \<Rightarrow> conn_id set \<Rightarrow> mu_event list \<Rightarrow> bool" where
  "mu_order n seen up [] \<longleftrightarrow> True"
| "mu_order n seen up (MuUp k c now # evs) \<longleftrightarrow> k < n \<and> c \<notin> seen \<and> mu_order n (insert c seen) (insert c up) evs"
| "mu_order n seen up (MuData c bs now # evs) \<longleftrightarrow> c \<in> up \<and> mu_order n seen up evs"
| "mu_order n seen up (MuDown c now # evs) \<longleftrightarrow> c \<in> up \<and> mu_order n seen (up - {c}) evs"

section \<open>Facts\<close>

lemma arrived_simps [simp]:
  "arrived c [] = []" "arrived c (xs @ ys) = arrived c xs @ arrived c ys" "arrived c [MuUp k d now] = []"
  "arrived c [MuData d bs now] = (if d = c then [bs] else [])" "arrived c [MuDown d now] = []"
  by (simp_all add: arrived_def)

text \<open>What holds of a client of one of the two servers after the events \<open>pre\<close>.\<close>

definition mu_served :: "'b env \<Rightarrow> (timestamp \<Rightarrow> string) \<Rightarrow> mu_event list \<Rightarrow> nat \<Rightarrow> conn_id \<Rightarrow> timestamp \<Rightarrow> 'b muconn \<Rightarrow> bool" where
  "mu_served E fmt pre k c now m \<longleftrightarrow> mc_server m = k \<and>
     (if k = 0 then buf_peek E (mc_input m) = [] \<and> mc_calls m = map Send (arrived c pre)
      else mc_calls m = [Send (fmt now @ [CHR 0x0A]), Shutdown])"

definition mu_inv ::
  "'b env \<Rightarrow> (timestamp \<Rightarrow> string) \<Rightarrow> mu_event list \<Rightarrow> conn_id set \<Rightarrow> conn_id set \<Rightarrow> (conn_id \<rightharpoonup> 'b muconn) \<Rightarrow> bool" where
  "mu_inv E fmt pre seen up st \<longleftrightarrow> up \<subseteq> seen \<and>
     (\<forall>c. c \<notin> seen \<longrightarrow> arrived c pre = [] \<and> st c = None) \<and>
     (\<forall>c. c \<in> seen \<longrightarrow> (\<exists>k now. k < 2 \<and> MuUp k c now \<in> set pre)) \<and>
     (\<forall>k c now. MuUp k c now \<in> set pre \<longrightarrow> c \<in> seen \<and> k < 2 \<and> (\<exists>m. st c = Some m \<and> mu_served E fmt pre k c now m))"

lemma the_servers [simp]:
  "length (serverMainMuduo E fmt) = 2" "ms_started (serverMainMuduo E fmt ! 0)" "ms_started (serverMainMuduo E fmt ! Suc 0)"
  "ms_connectionCallback (serverMainMuduo E fmt ! 0) = Some echoOnConnection"
  "ms_connectionCallback (serverMainMuduo E fmt ! Suc 0) = Some (daytimeOnConnection fmt)"
  "ms_messageCallback (serverMainMuduo E fmt ! 0) = Some (echoOnMessage E)"
  "ms_messageCallback (serverMainMuduo E fmt ! Suc 0) = None"
  by (simp_all add: serverMainMuduo_def echoStart_def daytimeStart_def echo_myself_def daytime_myself_def newMuServer_def)

lemma below_two: "k < (2::nat) \<longleftrightarrow> k = 0 \<or> k = Suc 0"
  by auto

lemma echoOnMessage_all:
  assumes "buffer_laws E" and "buf_peek E (mc_input m) = []"
  shows "\<exists>b. buf_peek E b = [] \<and> echoOnMessage E now (m\<lparr>mc_input := buf_append E (mc_input m) bs\<rparr>) = Inr (mcall (Send bs) (m\<lparr>mc_input := b\<rparr>))"
proof -
  let ?b = "buf_append E (mc_input m) bs"
  have p: "buf_peek E ?b = bs" using assms by (simp add: buffer_laws_def)
  then have "buf_readableBytes E ?b = length bs" using assms(1) by (simp add: buffer_laws_def)
  moreover obtain b where "buf_retrieve E ?b (length bs) = Inr b" "buf_peek E b = drop (length bs) (buf_peek E ?b)"
    using assms(1) p unfolding buffer_laws_def by (metis order_refl)
  ultimately show ?thesis using p by (auto simp: echoOnMessage_def)
qed

lemma muStep_inv:
  assumes B: "buffer_laws E" and I: "mu_inv E fmt pre seen up st" and o: "mu_order 2 seen up (e # evs)"
  shows "\<exists>seen' up' st'. muStep E dflt (serverMainMuduo E fmt) e st = Inr st' \<and>
    mu_inv E fmt (pre @ [e]) seen' up' st' \<and> mu_order 2 seen' up' evs"
proof (cases e)
  case (MuUp k c now)
  then have k: "k < 2" "c \<notin> seen" "mu_order 2 (insert c seen) (insert c up) evs" using o by auto
  have new: "arrived c pre = []" "\<And>j t. MuUp j c t \<notin> set pre" using I k(2) by (auto simp: mu_inv_def)
  let ?m = "\<lparr>mc_server = k, mc_connected = True, mc_input = buf_empty E, mc_calls = []\<rparr>"
  obtain m where m: "muStep E dflt (serverMainMuduo E fmt) e st = Inr (st(c \<mapsto> m))" "mu_served E fmt (pre @ [e]) k c now m"
    using k(1) new(1) B unfolding below_two MuUp
    by (auto simp: mu_update_def mu_call_def echoOnConnection_def daytimeOnConnection_def mu_served_def mcall_def buffer_laws_def)
  have old: "mu_served E fmt (pre @ [e]) j d t n \<longleftrightarrow> mu_served E fmt pre j d t n" for j d t n
    unfolding mu_served_def MuUp by simp
  have "mu_inv E fmt (pre @ [e]) (insert c seen) (insert c up) (st(c \<mapsto> m))"
    unfolding mu_inv_def
  proof (intro conjI allI impI)
    show "insert c up \<subseteq> insert c seen" using I by (auto simp: mu_inv_def)
    show "arrived d (pre @ [e]) = []" "(st(c \<mapsto> m)) d = None" if "d \<notin> insert c seen" for d
      using that I unfolding mu_inv_def MuUp by auto
    show "\<exists>j u. j < 2 \<and> MuUp j d u \<in> set (pre @ [e])" if "d \<in> insert c seen" for d
    proof (cases "d = c")
      case False
      with that have "d \<in> seen" by simp
      with I show ?thesis unfolding mu_inv_def by simp metis
    qed (use k(1) in \<open>auto simp: MuUp\<close>)
    fix j d u assume d: "MuUp j d u \<in> set (pre @ [e])"
    show "d \<in> insert c seen" "j < 2" using d I k(1) unfolding mu_inv_def MuUp by auto
    show "\<exists>n. (st(c \<mapsto> m)) d = Some n \<and> mu_served E fmt (pre @ [e]) j d u n"
      using d I m(2) new(2) unfolding mu_inv_def old by (cases "d = c") (auto simp: MuUp)
  qed
  with m(1) k(3) show ?thesis by blast
next
  case (MuData c bs now)
  then have o': "c \<in> up" "mu_order 2 seen up evs" using o by auto
  from I o'(1) obtain k t m where c: "MuUp k c t \<in> set pre" "k < 2" "st c = Some m" "mu_served E fmt pre k c t m" "c \<in> seen"
    unfolding mu_inv_def by blast
  obtain m' where m': "muStep E dflt (serverMainMuduo E fmt) e st = Inr (st(c \<mapsto> m'))"
    "\<And>j u. mu_served E fmt pre j c u m \<Longrightarrow> mu_served E fmt (pre @ [e]) j c u m'"
  proof (cases "k = 0")
    case True
    then have "buf_peek E (mc_input m) = []" "mc_server m = 0" using c(4) by (simp_all add: mu_served_def)
    with echoOnMessage_all[OF B, of m now bs] c(3) obtain b where
      "muStep E dflt (serverMainMuduo E fmt) e st = Inr (st(c \<mapsto> mcall (Send bs) (m\<lparr>mc_input := b\<rparr>)))" "buf_peek E b = []"
      unfolding MuData by (auto simp: mu_update_def mu_call_def)
    then show ?thesis using that \<open>mc_server m = 0\<close> unfolding MuData by (auto simp: mu_served_def mcall_def)
  next
    case False
    then have "mc_server m = Suc 0" using c(2,4) by (simp add: mu_served_def)
    with that c(3) show ?thesis unfolding MuData by (auto simp: mu_update_def mu_call_def mu_served_def)
  qed
  have old: "mu_served E fmt (pre @ [e]) j d u n \<longleftrightarrow> mu_served E fmt pre j d u n" if "d \<noteq> c" for j d u n
    using that unfolding mu_served_def MuData by simp
  have "mu_inv E fmt (pre @ [e]) seen up (st(c \<mapsto> m'))"
    unfolding mu_inv_def
  proof (intro conjI allI impI)
    show "up \<subseteq> seen" using I by (simp add: mu_inv_def)
    show "arrived d (pre @ [e]) = []" "(st(c \<mapsto> m')) d = None" if "d \<notin> seen" for d
      using that I c(5) unfolding mu_inv_def MuData by auto
    show "\<exists>j u. j < 2 \<and> MuUp j d u \<in> set (pre @ [e])" if "d \<in> seen" for d
      using that I unfolding mu_inv_def by simp metis
    fix j d u assume "MuUp j d u \<in> set (pre @ [e])"
    then have d: "d \<in> seen" "j < 2" "\<exists>n. st d = Some n \<and> mu_served E fmt pre j d u n"
      using I unfolding mu_inv_def MuData by auto
    then show "d \<in> seen" "j < 2" by blast+
    show "\<exists>n. (st(c \<mapsto> m')) d = Some n \<and> mu_served E fmt (pre @ [e]) j d u n"
      using d(3) m'(2) c(3) old by (cases "d = c") auto
  qed
  with m'(1) o'(2) show ?thesis by blast
next
  case (MuDown c now)
  then have o': "c \<in> up" "mu_order 2 seen (up - {c}) evs" using o by auto
  from I o'(1) obtain k t m where c: "MuUp k c t \<in> set pre" "k < 2" "st c = Some m" "mu_served E fmt pre k c t m" "c \<in> seen"
    unfolding mu_inv_def by blast
  have st: "muStep E dflt (serverMainMuduo E fmt) e st = Inr (st(c \<mapsto> m\<lparr>mc_connected := False\<rparr>))"
    using c(2-4) unfolding MuDown below_two
    by (auto simp: mu_update_def mu_call_def echoOnConnection_def daytimeOnConnection_def mu_served_def)
  have old: "mu_served E fmt (pre @ [e]) j d u n \<longleftrightarrow> mu_served E fmt pre j d u n"
    "mu_served E fmt pre j d u (n\<lparr>mc_connected := False\<rparr>) \<longleftrightarrow> mu_served E fmt pre j d u n" for j d u n
    unfolding mu_served_def MuDown by simp_all
  have "mu_served E fmt pre j c u m" if "MuUp j c u \<in> set pre" for j u
    using I that c(3) unfolding mu_inv_def by (metis option.inject)
  then have "mu_inv E fmt (pre @ [e]) seen (up - {c}) (st(c \<mapsto> m\<lparr>mc_connected := False\<rparr>))"
    using I c(3,5) unfolding mu_inv_def old(1) by (auto simp: MuDown old(2))
  with st o'(2) show ?thesis by blast
qed

lemma muRun_inv:
  assumes B: "buffer_laws E" and "mu_inv E fmt pre seen up st" and "mu_order 2 seen up evs"
  shows "\<exists>seen' up' st'. foldR (muStep E dflt (serverMainMuduo E fmt)) evs st = Inr st' \<and> mu_inv E fmt (pre @ evs) seen' up' st'"
  using assms(2,3)
proof (induction evs arbitrary: pre seen up st)
  case Nil
  then show ?case by auto
next
  case (Cons e evs)
  from muStep_inv[OF B Cons.prems, of dflt] obtain seen1 up1 st1 where
    1: "muStep E dflt (serverMainMuduo E fmt) e st = Inr st1" "mu_inv E fmt (pre @ [e]) seen1 up1 st1" "mu_order 2 seen1 up1 evs"
    by blast
  from Cons.IH[OF 1(2,3)] 1(1) show ?case by simp
qed

section \<open>Properties\<close>

text \<open>
  C28: \<open>server_main.cpp\<close> runs both servers on one loop, and each client gets what the server it
  connected to promises, whatever the other clients do in between: a client of the echo server is
  sent back exactly what it sent, piece by piece and in order; a client of the daytime server is
  sent one line with the time at which it was connected, after which the connection is shut down,
  and what such a client sends is never answered.
\<close>

theorem two_servers_on_one_loop:
  assumes "buffer_laws E" and "mu_order 2 {} {} evs"
  shows "\<exists>st. muRun E dflt (serverMainMuduo E fmt) evs = Inr st \<and>
    (\<forall>k c now. MuUp k c now \<in> set evs \<longrightarrow> (\<exists>m. st c = Some m \<and>
       mc_calls m = (if k = 0 then map Send (arrived c evs) else [Send (fmt now @ [CHR 0x0A]), Shutdown])))"
proof -
  have "mu_inv E fmt [] {} {} (\<lambda>_. None)" by (simp add: mu_inv_def)
  from muRun_inv[OF assms(1) this assms(2), of dflt] obtain seen up st where
    st: "muRun E dflt (serverMainMuduo E fmt) evs = Inr st" "mu_inv E fmt evs seen up st" by (auto simp: muRun_def)
  have "\<exists>m. st c = Some m \<and> mu_served E fmt evs k c now m" if "MuUp k c now \<in> set evs" for k c now
    using st(2) that unfolding mu_inv_def by blast
  with st(1) show ?thesis unfolding mu_served_def by metis
qed

theorem two_servers_on_one_loop_witness:
  "\<exists>st m1 m2. muRun sampleEnv id (serverMainMuduo sampleEnv (\<lambda>t. ''noon''))
      [MuUp 0 7 0, MuUp 1 8 5, MuData 7 ''ab'' 6, MuData 8 ''x'' 6, MuData 7 ''c'' 7, MuDown 8 9] = Inr st \<and>
    st 7 = Some m1 \<and> mc_calls m1 = [Send ''ab'', Send ''c''] \<and> st 8 = Some m2 \<and> mc_calls m2 = [Send (''noon'' @ [CHR 0x0A]), Shutdown]"
proof -
  let ?evs = "[MuUp 0 7 0, MuUp 1 8 5, MuData 7 ''ab'' 6, MuData 8 ''x'' 6, MuData 7 ''c'' 7, MuDown 8 9]"
  have B: "buffer_laws sampleEnv" by (auto simp: buffer_laws_def sampleEnv_def)
  have "mu_order 2 {} {} ?evs" by simp
  from two_servers_on_one_loop[OF B this, of id "\<lambda>t. ''noon''"] show ?thesis by (auto simp: arrived_def)
qed

text \<open>The daytime server never uses its \<open>onMessage\<close>: what a client sends stays with muduo.\<close>

lemma daytime_answers_nothing:
  assumes "mc_server m = 1" and "st c = Some m"
  shows "\<exists>b. muStep E dflt (serverMainMuduo E fmt) (MuData c bs now) st = Inr (st(c \<mapsto> m\<lparr>mc_input := b\<rparr>))"
  using assms by (auto simp: mu_update_def mu_call_def)

end
