(* ===== verification/Dispatcher.thy ===== *)
theory Dispatcher
  imports Callbacks
begin

text \<open>
  The dispatcher of protobuf messages, \<open>src/testCase/protocolbuf/protocolDispatcher.h\<close> and its earlier
  version \<open>protocolDispatcher_bak.h\<close>: a map from the descriptor of a message type to the callback for
  messages of this type, and a callback for all others.

  Protobuf and muduo's \<open>down_pointer_cast\<close> are parameters: \<open>pb_GetDescriptor\<close> is the descriptor of a
  message, \<open>pb_down_pointer_cast d\<close> the cast to the type with the descriptor \<open>d\<close>, which checks in an
  \<open>assert\<close> that the object has this type and gives the same object.  A type \<open>T\<close> is known by
  \<open>T::Descriptor()\<close>.  The state \<open>'s\<close> is whatever the callbacks of the user change.

  The headers compile as long as nobody registers a callback.  An instance of the registration does
  not compile in either version (a counted pointer is made of a function, or of a raw pointer without
  saying so; the type of the argument is not the name of a public member; the conversion to \<open>Callback\<close>
  is not accessible); what is modelled is what its two statements say.
\<close>

section \<open>Messages and callbacks\<close>

record ('d, 'm) protobuf =
  pb_GetDescriptor :: "'m \<Rightarrow> 'd"
  pb_down_pointer_cast :: "'d \<Rightarrow> 'm \<Rightarrow> 'm result"

definition cast_law :: "('d, 'm) protobuf \<Rightarrow> bool" where
  "cast_law P \<longleftrightarrow> (\<forall>m. pb_down_pointer_cast P (pb_GetDescriptor P m) m = Inr m)"

text \<open>A \<open>std::function\<close> on messages; it may be empty.\<close>

type_synonym ('m, 's) message_fun = "(conn_id \<Rightarrow> 'm \<Rightarrow> timestamp \<Rightarrow> 's \<Rightarrow> 's result) option"

definition callMessage :: "('m, 's) message_fun \<Rightarrow> conn_id \<Rightarrow> 'm \<Rightarrow> timestamp \<Rightarrow> 's \<Rightarrow> 's result" where
  "callMessage f conn msg recvTime s =
     (case f of None \<Rightarrow> Inl (BadFunctionCall ''ProtobufMessageCallback'') | Some g \<Rightarrow> g conn msg recvTime s)"

section \<open>The dispatcher\<close>

text \<open>\<open>CallbackT<T>\<close>, the only subclass of \<open>Callback\<close>, with the descriptor of \<open>T\<close> for the type.\<close>

record ('d, 'm, 's) callbackT =
  cb_T :: 'd
  cb_callback :: "('m, 's) message_fun"

definition cbOnProtobufMessage ::
  "('d, 'm) protobuf \<Rightarrow> ('d, 'm, 's) callbackT \<Rightarrow> conn_id \<Rightarrow> 'm \<Rightarrow> timestamp \<Rightarrow> 's \<Rightarrow> 's result" where
  "cbOnProtobufMessage P cb conn msg recvTime s =
     bindR (pb_down_pointer_cast P (cb_T cb) msg) (\<lambda>corr_msg. callMessage (cb_callback cb) conn corr_msg recvTime s)"

record ('d, 'm, 's) dispatcher =
  dp_defaultCallback :: "('m, 's) message_fun"
  dp_callbacks :: "'d \<rightharpoonup> ('d, 'm, 's) callbackT"

definition newDispatcher :: "('m, 's) message_fun \<Rightarrow> ('d, 'm, 's) dispatcher" where
  "newDispatcher func = \<lparr>dp_defaultCallback = func, dp_callbacks = (\<lambda>_. None)\<rparr>"

definition register_protobuf_callback ::
  "'d \<Rightarrow> ('m, 's) message_fun \<Rightarrow> ('d, 'm, 's) dispatcher \<Rightarrow> ('d, 'm, 's) dispatcher" where
  "register_protobuf_callback T func dp =
     (let item = \<lparr>cb_T = T, cb_callback = func\<rparr> in dp\<lparr>dp_callbacks := (dp_callbacks dp)(T \<mapsto> item)\<rparr>)"

definition onProtobufMessageCallback ::
  "('d, 'm) protobuf \<Rightarrow> ('d, 'm, 's) dispatcher \<Rightarrow> conn_id \<Rightarrow> 'm \<Rightarrow> timestamp \<Rightarrow> 's \<Rightarrow> 's result" where
  "onProtobufMessageCallback P dp conn msg recvTime s =
     (case dp_callbacks dp (pb_GetDescriptor P msg) of
        Some cb \<Rightarrow> cbOnProtobufMessage P cb conn msg recvTime s
      | None \<Rightarrow> callMessage (dp_defaultCallback dp) conn msg recvTime s)"

section \<open>The earlier version\<close>

text \<open>\<open>protocolDispatcher_bak.h\<close> has its own classes of the same names.\<close>

record ('d, 'm, 's) bak_callbackT =
  bk_T :: 'd
  bk_callback :: "('m, 's) message_fun"

definition bakOnMessage ::
  "('d, 'm) protobuf \<Rightarrow> ('d, 'm, 's) bak_callbackT \<Rightarrow> conn_id \<Rightarrow> 'm \<Rightarrow> timestamp \<Rightarrow> 's \<Rightarrow> 's result" where
  "bakOnMessage P cb conn msg recvTime s =
     bindR (pb_down_pointer_cast P (bk_T cb) msg) (\<lambda>corr_msg. callMessage (bk_callback cb) conn corr_msg recvTime s)"

record ('d, 'm, 's) bak_dispatcher =
  bd_callbacks :: "'d \<rightharpoonup> ('d, 'm, 's) bak_callbackT"
  bd_defaultCallback :: "('m, 's) message_fun"

definition newBakDispatcher :: "('m, 's) message_fun \<Rightarrow> ('d, 'm, 's) bak_dispatcher" where
  "newBakDispatcher func = \<lparr>bd_callbacks = (\<lambda>_. None), bd_defaultCallback = func\<rparr>"

definition register_callback ::
  "'d \<Rightarrow> ('m, 's) message_fun \<Rightarrow> ('d, 'm, 's) bak_dispatcher \<Rightarrow> ('d, 'm, 's) bak_dispatcher" where
  "register_callback T func dp =
     (let ptr_callback = \<lparr>bk_T = T, bk_callback = func\<rparr> in dp\<lparr>bd_callbacks := (bd_callbacks dp)(T \<mapsto> ptr_callback)\<rparr>)"

definition bakOnProtobufMessage ::
  "('d, 'm) protobuf \<Rightarrow> ('d, 'm, 's) bak_dispatcher \<Rightarrow> conn_id \<Rightarrow> 'm \<Rightarrow> timestamp \<Rightarrow> 's \<Rightarrow> 's result" where
  "bakOnProtobufMessage P dp conn msg recvTime s =
     (case bd_callbacks dp (pb_GetDescriptor P msg) of
        Some cb \<Rightarrow> bakOnMessage P cb conn msg recvTime s
      | None \<Rightarrow> callMessage (bd_defaultCallback dp) conn msg recvTime s)"

section \<open>The contract of a dispatcher\<close>

text \<open>
  What happens to a dispatcher: callbacks are registered and messages arrive, in any order.  The
  specification keeps the registrations as a list, the latest first, and gives a message to the
  function that was last registered for its very type.
\<close>

datatype ('d, 'm, 's) dp_event = Register 'd "('m, 's) message_fun" | Arrive conn_id 'm timestamp

fun dpRun ::
  "('d \<Rightarrow> ('m, 's) message_fun \<Rightarrow> 'x \<Rightarrow> 'x) \<Rightarrow> ('x \<Rightarrow> conn_id \<Rightarrow> 'm \<Rightarrow> timestamp \<Rightarrow> 's \<Rightarrow> 's result)
   \<Rightarrow> ('d, 'm, 's) dp_event list \<Rightarrow> 'x \<Rightarrow> 's \<Rightarrow> 's result" where
  "dpRun reg deliver [] x s = Inr s"
| "dpRun reg deliver (Register d f # es) x s = dpRun reg deliver es (reg d f x) s"
| "dpRun reg deliver (Arrive c m t # es) x s = bindR (deliver x c m t s) (dpRun reg deliver es x)"

definition specRegister ::
  "'d \<Rightarrow> ('m, 's) message_fun \<Rightarrow> ('d \<times> ('m, 's) message_fun) list \<Rightarrow> ('d \<times> ('m, 's) message_fun) list" where
  "specRegister d f rs = (d, f) # rs"

definition specDeliver ::
  "('d, 'm) protobuf \<Rightarrow> ('m, 's) message_fun \<Rightarrow> ('d \<times> ('m, 's) message_fun) list
   \<Rightarrow> conn_id \<Rightarrow> 'm \<Rightarrow> timestamp \<Rightarrow> 's \<Rightarrow> 's result" where
  "specDeliver P f0 rs c m t s =
     callMessage (case map_of rs (pb_GetDescriptor P m) of Some f \<Rightarrow> f | None \<Rightarrow> f0) c m t s"

text \<open>
  A dispatcher by its interface: the relation \<open>R\<close> to a list of registrations is kept by registering,
  and a dispatcher in this relation delivers as the specification does.
\<close>

locale dispatching =
  fixes P :: "('d, 'm) protobuf" and f0 :: "('m, 's) message_fun"
    and reg :: "'d \<Rightarrow> ('m, 's) message_fun \<Rightarrow> 'x \<Rightarrow> 'x"
    and deliver :: "'x \<Rightarrow> conn_id \<Rightarrow> 'm \<Rightarrow> timestamp \<Rightarrow> 's \<Rightarrow> 's result"
    and R :: "('d \<times> ('m, 's) message_fun) list \<Rightarrow> 'x \<Rightarrow> bool"
  assumes R_reg: "R rs x \<Longrightarrow> R (specRegister d f rs) (reg d f x)"
    and R_deliver: "cast_law P \<Longrightarrow> R rs x \<Longrightarrow> deliver x c m t s = specDeliver P f0 rs c m t s"
begin

lemma run_refines:
  "cast_law P \<Longrightarrow> R rs x \<Longrightarrow> dpRun reg deliver es x s = dpRun specRegister (specDeliver P f0) es rs s"
proof (induction es arbitrary: rs x s)
  case (Cons e es)
  show ?case
  proof (cases e)
    case (Register d f)
    with Cons.IH[OF Cons.prems(1) R_reg[OF Cons.prems(2)]] show ?thesis by simp
  next
    case (Arrive c m t)
    have "dpRun reg deliver es x = dpRun specRegister (specDeliver P f0) es rs"
      using Cons.IH[OF Cons.prems] by (rule ext)
    then show ?thesis unfolding Arrive dpRun.simps R_deliver[OF Cons.prems] by simp
  qed
qed simp

end

definition dp_rel :: "('m, 's) message_fun \<Rightarrow> ('d \<times> ('m, 's) message_fun) list \<Rightarrow> ('d, 'm, 's) dispatcher \<Rightarrow> bool" where
  "dp_rel f0 rs dp \<longleftrightarrow> dp_defaultCallback dp = f0 \<and>
     (\<forall>d. dp_callbacks dp d = map_option (\<lambda>f. \<lparr>cb_T = d, cb_callback = f\<rparr>) (map_of rs d))"

definition bak_rel :: "('m, 's) message_fun \<Rightarrow> ('d \<times> ('m, 's) message_fun) list \<Rightarrow> ('d, 'm, 's) bak_dispatcher \<Rightarrow> bool" where
  "bak_rel f0 rs dp \<longleftrightarrow> bd_defaultCallback dp = f0 \<and>
     (\<forall>d. bd_callbacks dp d = map_option (\<lambda>f. \<lparr>bk_T = d, bk_callback = f\<rparr>) (map_of rs d))"

interpretation dp: dispatching P f0 register_protobuf_callback "onProtobufMessageCallback P" "dp_rel f0" for P f0
  by unfold_locales
    (auto simp: dp_rel_def specRegister_def register_protobuf_callback_def onProtobufMessageCallback_def
      cbOnProtobufMessage_def specDeliver_def cast_law_def split: option.splits)

interpretation bak: dispatching P f0 register_callback "bakOnProtobufMessage P" "bak_rel f0" for P f0
  by unfold_locales
    (auto simp: bak_rel_def specRegister_def register_callback_def bakOnProtobufMessage_def
      bakOnMessage_def specDeliver_def cast_law_def split: option.splits)

lemma new_related: "dp_rel f0 [] (newDispatcher f0)" "bak_rel f0 [] (newBakDispatcher f0)"
  by (simp_all add: dp_rel_def newDispatcher_def bak_rel_def newBakDispatcher_def)

section \<open>Properties\<close>


text \<open>Two types of messages, numbers and strings, and callbacks that note what they get.\<close>

definition samplePb :: "(bool, int + string) protobuf" where
  "samplePb = \<lparr>pb_GetDescriptor = isl,
     pb_down_pointer_cast = (\<lambda>d m. if isl m = d then Inr m else Inl (AssertFailed ''down_pointer_cast''))\<rparr>"

definition noteMsg :: "nat \<Rightarrow> (int + string, (nat \<times> (int + string)) list) message_fun" where
  "noteMsg n = Some (\<lambda>c m t s. Inr (s @ [(n, m)]))"


end
