(* ===== verification/Monitors.thy ===== *)
theory Monitors
  imports Callbacks
begin

text \<open>
  The programs of \<open>src/testCase\<close> on mutexes: \<open>post_and_traverse.cpp\<close> (copy on write),
  \<open>blockingQueue.cpp\<close>, \<open>CountDownLatch.cpp\<close> and \<open>invenctory.cpp\<close>.  Threads interleave; what a
  thread does with a mutex held is one step where nothing else can see its parts.
\<close>

section \<open>Copy on write\<close>

text \<open>
  A vector has an address; \<open>bd_tmp t\<close> is the pointer that thread \<open>t\<close> took in \<open>traverse\<close> and how far
  it has come, and \<open>bd_new t\<close> the one that \<open>post_wrong_version2\<close> made.  A vector is held by \<open>g_ptr\<close>
  and by the threads that took it.
\<close>

record board =
  bd_heap :: "nat \<Rightarrow> int list"
  bd_next :: nat
  bd_g :: nat
  bd_tmp :: "thread_id \<Rightarrow> (nat \<times> nat) option"
  bd_new :: "thread_id \<Rightarrow> nat option"

definition newBoard :: board where
  "newBoard = \<lparr>bd_heap = (\<lambda>_. []), bd_next = 1, bd_g = 0, bd_tmp = Map.empty, bd_new = Map.empty\<rparr>"

datatype baction =
    Take thread_id          \<comment> \<open>\<open>traverse\<close>, under the mutex\<close>
  | Visit thread_id         \<comment> \<open>one round of its loop\<close>
  | Leave thread_id         \<comment> \<open>it returns\<close>
  | Post int
  | PostWrong1 int
  | CopyWrong2 thread_id int \<comment> \<open>\<open>post_wrong_version2\<close>, before the mutex\<close>
  | SetWrong2 thread_id      \<comment> \<open>and under it\<close>

definition unique :: "board \<Rightarrow> bool" where
  "unique b \<longleftrightarrow> (\<forall>t. map_option fst (bd_tmp b t) \<noteq> Some (bd_g b) \<and> bd_new b t \<noteq> Some (bd_g b))"

definition push_back :: "nat \<Rightarrow> int \<Rightarrow> board \<Rightarrow> board" where
  "push_back a x b = b\<lparr>bd_heap := (bd_heap b)(a := bd_heap b a @ [x])\<rparr>"

definition copyOf :: "nat \<Rightarrow> board \<Rightarrow> nat \<times> board" where
  "copyOf a b = (bd_next b, b\<lparr>bd_heap := (bd_heap b)(bd_next b := bd_heap b a), bd_next := Suc (bd_next b)\<rparr>)"

definition post :: "int \<Rightarrow> board \<Rightarrow> board result" where
  "post x b =
     bindR (if \<not> unique b
            then let (a, b) = copyOf (bd_g b) b; b = b\<lparr>bd_g := a\<rparr> in assertR ''post: g_ptr.unique()'' (unique b) b
            else Inr b)
       (\<lambda>b. Inr (push_back (bd_g b) x b))"

definition takeSnapshot :: "thread_id \<Rightarrow> board \<Rightarrow> board" where
  "takeSnapshot t b = b\<lparr>bd_tmp := (bd_tmp b)(t \<mapsto> (bd_g b, 0))\<rparr>"

text \<open>An iterator past the end of a vector that another thread changed would be undefined.\<close>

fun boardStep :: "baction \<Rightarrow> board \<Rightarrow> board result" where
  "boardStep (Take t) b = Inr (takeSnapshot t b)"
| "boardStep (Visit t) b =
     (case bd_tmp b t of
        None \<Rightarrow> Inr b
      | Some (a, i) \<Rightarrow> Inr (if i < length (bd_heap b a) then b\<lparr>bd_tmp := (bd_tmp b)(t \<mapsto> (a, Suc i))\<rparr> else b))"
| "boardStep (Leave t) b = Inr (b\<lparr>bd_tmp := (bd_tmp b)(t := None)\<rparr>)"
| "boardStep (Post x) b = post x b"
| "boardStep (PostWrong1 x) b = Inr (push_back (bd_g b) x b)"
| "boardStep (CopyWrong2 t x) b =
     (let (a, b) = copyOf (bd_g b) b in Inr ((push_back a x b)\<lparr>bd_new := (bd_new b)(t \<mapsto> a)\<rparr>))"
| "boardStep (SetWrong2 t) b =
     (case bd_new b t of None \<Rightarrow> Inr b | Some a \<Rightarrow> Inr (b\<lparr>bd_g := a, bd_new := (bd_new b)(t := None)\<rparr>))"

definition boardRun :: "baction list \<Rightarrow> board \<Rightarrow> board result" where
  "boardRun = foldR boardStep"

text \<open>What the threads do when they post with \<open>post\<close> only.\<close>

fun proper :: "baction \<Rightarrow> bool" where
  "proper (PostWrong1 x) = False"
| "proper (CopyWrong2 t x) = False"
| "proper (SetWrong2 t) = False"
| "proper _ = True"

fun posted :: "baction \<Rightarrow> int list" where
  "posted (Post x) = [x]"
| "posted _ = []"

definition board_inv :: "board \<Rightarrow> bool" where
  "board_inv b \<longleftrightarrow> bd_g b < bd_next b \<and> (\<forall>t a i. bd_tmp b t = Some (a, i) \<longrightarrow> a < bd_next b) \<and> bd_new b = Map.empty"

text \<open>The thread that traverses does not end the traversal or start another.\<close>

fun stays :: "thread_id \<Rightarrow> baction \<Rightarrow> bool" where
  "stays t (Take u) = (t \<noteq> u)"
| "stays t (Leave u) = (t \<noteq> u)"
| "stays t _ = True"

lemma post_contract:
  assumes I: "board_inv b"
  shows "\<exists>b'. post x b = Inr b' \<and> board_inv b' \<and> bd_tmp b' = bd_tmp b \<and>
    bd_heap b' (bd_g b') = bd_heap b (bd_g b) @ [x] \<and>
    (\<forall>t a i. bd_tmp b t = Some (a, i) \<longrightarrow> bd_heap b' a = bd_heap b a)"
proof (cases "unique b")
  case True
  then show ?thesis using I by (force simp: post_def push_back_def board_inv_def unique_def)
next
  case False
  let ?b = "b\<lparr>bd_heap := (bd_heap b)(bd_next b := bd_heap b (bd_g b)), bd_next := Suc (bd_next b), bd_g := bd_next b\<rparr>"
  have "unique ?b" using I by (auto simp: unique_def board_inv_def)
  then have "post x b = Inr (push_back (bd_next b) x ?b)" using False by (simp add: post_def copyOf_def)
  then show ?thesis using I by (auto simp: push_back_def board_inv_def less_Suc_eq)
qed

lemma board_step:
  assumes "board_inv b" and "proper x"
  shows "\<exists>b'. boardStep x b = Inr b' \<and> board_inv b' \<and> bd_heap b' (bd_g b') = bd_heap b (bd_g b) @ posted x \<and>
    (\<forall>t a i. bd_tmp b t = Some (a, i) \<longrightarrow> stays t x \<longrightarrow>
       bd_heap b' a = bd_heap b a \<and> (\<exists>j. bd_tmp b' t = Some (a, j) \<and> i \<le> j))"
proof (cases x)
  case (Post y)
  then show ?thesis using post_contract[OF assms(1), of y] by force
next
  case (Visit t)
  then show ?thesis using assms(1) by (auto simp: board_inv_def split: option.split)
qed (use assms in \<open>auto simp: takeSnapshot_def board_inv_def\<close>)

lemma board_run:
  assumes "board_inv b" and "\<forall>x \<in> set acts. proper x"
  shows "\<exists>b'. boardRun acts b = Inr b' \<and> board_inv b' \<and>
    bd_heap b' (bd_g b') = bd_heap b (bd_g b) @ concat (map posted acts) \<and>
    (\<forall>t a i. bd_tmp b t = Some (a, i) \<longrightarrow> (\<forall>x \<in> set acts. stays t x) \<longrightarrow>
       bd_heap b' a = bd_heap b a \<and> (\<exists>j. bd_tmp b' t = Some (a, j) \<and> i \<le> j))"
  using assms
proof (induction acts arbitrary: b)
  case Nil
  then show ?case by (simp add: boardRun_def)
next
  case (Cons x acts)
  from board_step[OF Cons.prems(1), of x] Cons.prems(2) obtain b1 where
    b1: "boardStep x b = Inr b1" "board_inv b1" "bd_heap b1 (bd_g b1) = bd_heap b (bd_g b) @ posted x"
      "\<And>t a i. bd_tmp b t = Some (a, i) \<Longrightarrow> stays t x \<Longrightarrow>
         bd_heap b1 a = bd_heap b a \<and> (\<exists>j. bd_tmp b1 t = Some (a, j) \<and> i \<le> j)" by auto
  from Cons.IH[OF b1(2)] Cons.prems(2) obtain b2 where
    b2: "boardRun acts b1 = Inr b2" "board_inv b2"
      "bd_heap b2 (bd_g b2) = bd_heap b1 (bd_g b1) @ concat (map posted acts)"
      "\<And>t a i. bd_tmp b1 t = Some (a, i) \<Longrightarrow> (\<forall>x \<in> set acts. stays t x) \<Longrightarrow>
         bd_heap b2 a = bd_heap b1 a \<and> (\<exists>j. bd_tmp b2 t = Some (a, j) \<and> i \<le> j)" by auto
  have "bd_heap b2 a = bd_heap b a \<and> (\<exists>j. bd_tmp b2 t = Some (a, j) \<and> i \<le> j)"
    if t: "bd_tmp b t = Some (a, i)" "\<forall>y \<in> set (x # acts). stays t y" for t a i
  proof -
    from b1(4)[OF t(1)] t(2) obtain j where j: "bd_heap b1 a = bd_heap b a" "bd_tmp b1 t = Some (a, j)" "i \<le> j" by auto
    have "\<forall>y \<in> set acts. stays t y" using t(2) by simp
    from b2(4)[OF j(2) this] j(1,3) show ?thesis by (auto intro: le_trans)
  qed
  then show ?case using b1(1,3) b2(1-3) by (auto simp: boardRun_def)
qed

lemma newBoard_inv: "board_inv newBoard"
  by (simp add: board_inv_def newBoard_def)



text \<open>What goes wrong in the wrong versions: the first changes a vector under a traversal, the second loses posts.\<close>

lemma wrong_version1_changes_snapshot:
  "\<exists>b b'. boardRun [Post 1, Take 0] newBoard = Inr b \<and> boardRun [PostWrong1 2] b = Inr b' \<and>
    bd_tmp b' 0 = bd_tmp b 0 \<and> bd_heap b (bd_g b) = [1] \<and> bd_heap b' (bd_g b) = [1, 2]"
  by (simp add: boardRun_def newBoard_def post_def unique_def push_back_def takeSnapshot_def)

lemma wrong_version2_loses_post:
  "\<exists>b. boardRun [CopyWrong2 0 1, CopyWrong2 1 2, SetWrong2 0, SetWrong2 1] newBoard = Inr b \<and> bd_heap b (bd_g b) = [2]"
  by (simp add: boardRun_def newBoard_def copyOf_def push_back_def)

section \<open>The blocking queue\<close>

text \<open>
  \<open>dequeue\<close> holds the mutex from its test of the queue to its \<open>pop\<close> or its \<open>wait\<close>, so each is a step;
  \<open>notify\<close> wakes one waiting thread, if there is one, and a wait may end by itself.
\<close>

datatype consumer = COutside | CArrived | CWaiting | CAwake | CGot int

record bqueue =
  bq_items :: "int list"
  bq_cons :: "thread_id \<Rightarrow> consumer"

definition newBqueue :: bqueue where
  "newBqueue = \<lparr>bq_items = [], bq_cons = (\<lambda>_. COutside)\<rparr>"

datatype bq_event = BqIn int | BqOut int | BqTau

inductive bq_step :: "bqueue \<Rightarrow> bq_event \<Rightarrow> bqueue \<Rightarrow> bool" where
  enqueue_alone: "\<forall>t. bq_cons q t \<noteq> CWaiting \<Longrightarrow> bq_step q (BqIn x) (q\<lparr>bq_items := bq_items q @ [x]\<rparr>)"
| enqueue_notify: "bq_cons q t = CWaiting \<Longrightarrow>
    bq_step q (BqIn x) (q\<lparr>bq_items := bq_items q @ [x], bq_cons := (bq_cons q)(t := CAwake)\<rparr>)"
| arrive: "bq_cons q t \<in> {COutside, CGot v} \<Longrightarrow> bq_step q BqTau (q\<lparr>bq_cons := (bq_cons q)(t := CArrived)\<rparr>)"
| sleep: "bq_cons q t \<in> {CArrived, CAwake} \<Longrightarrow> bq_items q = [] \<Longrightarrow>
    bq_step q BqTau (q\<lparr>bq_cons := (bq_cons q)(t := CWaiting)\<rparr>)"
| dequeue: "bq_cons q t \<in> {CArrived, CAwake} \<Longrightarrow> bq_items q = x # xs \<Longrightarrow>
    bq_step q (BqOut x) (q\<lparr>bq_items := xs, bq_cons := (bq_cons q)(t := CGot x)\<rparr>)"
| spurious: "bq_cons q t = CWaiting \<Longrightarrow> bq_step q BqTau (q\<lparr>bq_cons := (bq_cons q)(t := CAwake)\<rparr>)"

inductive bq_run :: "bq_event list \<Rightarrow> bqueue \<Rightarrow> bool" where
  "bq_run [] newBqueue"
| "bq_run es q \<Longrightarrow> bq_step q e q' \<Longrightarrow> bq_run (es @ [e]) q'"

definition bq_ins :: "bq_event list \<Rightarrow> int list" where
  "bq_ins es = concat (map (\<lambda>e. case e of BqIn x \<Rightarrow> [x] | _ \<Rightarrow> []) es)"

definition bq_outs :: "bq_event list \<Rightarrow> int list" where
  "bq_outs es = concat (map (\<lambda>e. case e of BqOut x \<Rightarrow> [x] | _ \<Rightarrow> []) es)"

definition awake :: "bqueue \<Rightarrow> thread_id set" where
  "awake q = {t. bq_cons q t = CAwake}"

text \<open>While a thread waits, every item has a thread that was woken for it.\<close>

definition bq_inv :: "bqueue \<Rightarrow> bool" where
  "bq_inv q \<longleftrightarrow> finite (awake q) \<and> ((\<exists>t. bq_cons q t = CWaiting) \<longrightarrow> length (bq_items q) \<le> card (awake q))"

lemma awake_upd:
  "awake (q\<lparr>bq_cons := (bq_cons q)(t := c)\<rparr>) = (if c = CAwake then insert t (awake q) else awake q - {t})"
  by (auto simp: awake_def)

lemma awake_items [simp]: "awake (q\<lparr>bq_items := xs\<rparr>) = awake q" "awake (q\<lparr>bq_items := xs, bq_cons := f\<rparr>) = awake (q\<lparr>bq_cons := f\<rparr>)"
  by (simp_all add: awake_def)

lemma in_awake: "t \<in> awake q \<longleftrightarrow> bq_cons q t = CAwake"
  by (simp add: awake_def)

lemma bq_inv_step: "bq_step q e q' \<Longrightarrow> bq_inv q \<Longrightarrow> bq_inv q'"
proof (induction rule: bq_step.induct)
  case (dequeue q t x xs)
  have "card (awake q) \<le> Suc (card (awake q - {t}))"
    using dequeue.prems by (auto simp: bq_inv_def card_Diff_singleton_if)
  with dequeue show ?case by (auto simp: bq_inv_def awake_upd split: if_splits)
qed (auto simp: bq_inv_def awake_upd in_awake card_insert_if split: if_splits)

lemma bq_run_inv: "bq_run es q \<Longrightarrow> bq_inv q \<and> bq_ins es = bq_outs es @ bq_items q"
proof (induction rule: bq_run.induct)
  case 1
  then show ?case by (simp add: bq_inv_def awake_def newBqueue_def bq_ins_def bq_outs_def)
next
  case (2 es q e q')
  have "bq_ins (es @ [e]) = bq_outs (es @ [e]) @ bq_items q'"
    using 2(2,3) by (auto simp: bq_ins_def bq_outs_def elim!: bq_step.cases)
  with 2 bq_inv_step show ?case by blast
qed

text \<open>
  C37: the blocking queue is first in, first out and loses no wake-up: in every interleaving of any
  number of producers and consumers, with waits ending early or not, the items taken are, in order,
  the first of the items put in and what is left is the queue; and a consumer never stays asleep
  while there are items: then another one is awake and can take one.
\<close>

theorem blocking_queue_correct:
  assumes "bq_run es q"
  shows "bq_ins es = bq_outs es @ bq_items q \<and>
    ((\<exists>t. bq_cons q t = CWaiting) \<longrightarrow> bq_items q \<noteq> [] \<longrightarrow> (\<exists>u x q'. bq_cons q u = CAwake \<and> bq_step q (BqOut x) q'))"
proof (intro conjI impI)
  from bq_run_inv[OF assms] have I: "bq_inv q" and e: "bq_ins es = bq_outs es @ bq_items q" by auto
  show "bq_ins es = bq_outs es @ bq_items q" by (rule e)
  assume w: "\<exists>t. bq_cons q t = CWaiting" and ne: "bq_items q \<noteq> []"
  then have "0 < card (awake q)" using I by (cases "bq_items q") (simp_all add: bq_inv_def)
  then obtain u where u: "bq_cons q u = CAwake" by (auto simp: awake_def card_gt_0_iff)
  obtain x xs where "bq_items q = x # xs" using ne by (cases "bq_items q") auto
  with u bq_step.dequeue[of q u x xs] show "\<exists>u x q'. bq_cons q u = CAwake \<and> bq_step q (BqOut x) q'" by blast
qed

theorem blocking_queue_correct_witness:
  "\<exists>q. bq_run [BqTau, BqTau, BqIn 5, BqOut 5] q \<and> bq_ins [BqTau, BqTau, BqIn 5, BqOut 5] = [5] @ bq_items q"
proof -
  let ?q1 = "newBqueue\<lparr>bq_cons := (bq_cons newBqueue)(0 := CArrived)\<rparr>"
  let ?q2 = "?q1\<lparr>bq_cons := (bq_cons ?q1)(0 := CWaiting)\<rparr>"
  let ?q3 = "?q2\<lparr>bq_items := bq_items ?q2 @ [5], bq_cons := (bq_cons ?q2)(0 := CAwake)\<rparr>"
  let ?q4 = "?q3\<lparr>bq_items := [], bq_cons := (bq_cons ?q3)(0 := CGot 5)\<rparr>"
  have "bq_step newBqueue BqTau ?q1" by (rule bq_step.arrive) (simp add: newBqueue_def)
  moreover have "bq_step ?q1 BqTau ?q2" by (rule bq_step.sleep) (simp_all add: newBqueue_def)
  moreover have "bq_step ?q2 (BqIn 5) ?q3" by (rule bq_step.enqueue_notify) simp
  moreover have "bq_step ?q3 (BqOut 5) ?q4" by (rule bq_step.dequeue) (simp_all add: newBqueue_def)
  ultimately have r: "bq_run ((([] @ [BqTau]) @ [BqTau]) @ [BqIn 5]) ?q3" "bq_step ?q3 (BqOut 5) ?q4"
    by (blast intro: bq_run.intros)+
  from bq_run.intros(2)[OF this] have "bq_run [BqTau, BqTau, BqIn 5, BqOut 5] ?q4" by simp
  with blocking_queue_correct[OF this] show ?thesis by (intro exI[of _ ?q4]) (simp add: bq_outs_def)
qed

section \<open>The latch\<close>

datatype waiter = WOutside | WWaiting | WAwake | WPassed

record latch =
  la_cnt :: int
  la_waiter :: "thread_id \<Rightarrow> waiter"

definition newLatch :: "int \<Rightarrow> latch" where
  "newLatch count = \<lparr>la_cnt = count, la_waiter = (\<lambda>_. WOutside)\<rparr>"

definition countDown :: "latch \<Rightarrow> latch" where
  "countDown s =
     (let s = s\<lparr>la_cnt := la_cnt s - 1\<rparr> in
      if la_cnt s = 0 then s\<lparr>la_waiter := (\<lambda>t. if la_waiter s t = WWaiting then WAwake else la_waiter s t)\<rparr> else s)"

text \<open>A round of the loop in \<open>wait_\<close>.\<close>

definition waitRound :: "thread_id \<Rightarrow> latch \<Rightarrow> latch" where
  "waitRound t s = s\<lparr>la_waiter := (la_waiter s)(t := (if la_cnt s > 0 then WWaiting else WPassed))\<rparr>"

text \<open>The number counts the calls of \<open>countDown\<close>.\<close>

inductive la_run :: "int \<Rightarrow> nat \<Rightarrow> latch \<Rightarrow> bool" for count :: int where
  start: "la_run count 0 (newLatch count)"
| counts: "la_run count k s \<Longrightarrow> la_run count (Suc k) (countDown s)"
| waits: "la_run count k s \<Longrightarrow> la_waiter s t \<in> {WOutside, WAwake} \<Longrightarrow> la_run count k (waitRound t s)"
| wakes: "la_run count k s \<Longrightarrow> la_waiter s t = WWaiting \<Longrightarrow> la_run count k (s\<lparr>la_waiter := (la_waiter s)(t := WAwake)\<rparr>)"

lemma la_run_inv:
  "la_run count k s \<Longrightarrow> la_cnt s = count - int k \<and>
     (\<forall>t. la_waiter s t = WPassed \<longrightarrow> la_cnt s \<le> 0) \<and> (la_cnt s \<le> 0 \<longrightarrow> (\<forall>t. la_waiter s t \<noteq> WWaiting))"
proof (induction rule: la_run.induct)
  case (counts k s)
  then have "la_cnt s \<le> 1 \<longrightarrow> la_cnt s = 1 \<or> la_cnt s \<le> 0" by linarith
  with counts.IH show ?case by (auto simp: countDown_def Let_def split: if_splits)
qed (auto simp: newLatch_def waitRound_def)

text \<open>
  The latch opens exactly when it should: no thread gets past \<open>wait_\<close> before \<open>countDown\<close> was
  called as often as the latch was made for, and from then on no thread is left asleep and the next
  round of every thread in \<open>wait_\<close> is its last, in every interleaving and with waits that end early;
  further calls of \<open>countDown\<close> do not close it.
\<close>

theorem latch_opens:
  assumes "la_run count k s"
  shows "(\<forall>t. la_waiter s t = WPassed \<longrightarrow> count \<le> int k) \<and>
    (count \<le> int k \<longrightarrow> (\<forall>t. la_waiter s t \<noteq> WWaiting \<and> la_waiter (waitRound t s) t = WPassed))"
  using la_run_inv[OF assms] by (auto simp: waitRound_def)

theorem latch_opens_witness:
  "la_waiter (waitRound 0 (countDown (waitRound 0 (newLatch 1)))) 0 = WPassed"
proof -
  have "la_run 1 0 (waitRound 0 (newLatch 1))" by (intro la_run.intros) (simp add: newLatch_def)
  from la_run.counts[OF this] have "la_run 1 (Suc 0) (countDown (waitRound 0 (newLatch 1)))" .
  from latch_opens[OF this] show ?thesis by simp
qed

section \<open>The inventory\<close>

text \<open>
  Threads run lists of instructions; a mutex is held by at most one thread and is not recursive.
  \<open>print_all\<close> iterates over a set, in an order of its own.
\<close>

datatype mutex = MInventory | MRequest nat

datatype instr = Lock mutex | Unlock mutex | Insert nat | Erase nat | PrintEach

definition inv_add :: "nat \<Rightarrow> instr list" where
  "inv_add r = [Lock MInventory, Insert r, Unlock MInventory]"

definition inv_remove :: "nat \<Rightarrow> instr list" where
  "inv_remove r = [Lock MInventory, Erase r, Unlock MInventory]"

definition req_print :: "nat \<Rightarrow> instr list" where
  "req_print r = [Lock (MRequest r), Unlock (MRequest r)]"

definition inv_print_all :: "instr list" where
  "inv_print_all = [Lock MInventory, PrintEach, Unlock MInventory]"

definition req_process :: "nat \<Rightarrow> instr list" where
  "req_process r = Lock (MRequest r) # inv_add r @ [Unlock (MRequest r)]"

record inventory =
  iv_requests :: "nat set"
  iv_holder :: "mutex \<Rightarrow> thread_id option"
  iv_prog :: "thread_id \<Rightarrow> instr list"

definition goes_on :: "thread_id \<Rightarrow> instr list \<Rightarrow> inventory \<Rightarrow> inventory" where
  "goes_on t is s = s\<lparr>iv_prog := (iv_prog s)(t := is)\<rparr>"

inductive iv_step :: "inventory \<Rightarrow> inventory \<Rightarrow> bool" where
  lock: "iv_prog s t = Lock m # is \<Longrightarrow> iv_holder s m = None \<Longrightarrow>
    iv_step s (goes_on t is (s\<lparr>iv_holder := (iv_holder s)(m \<mapsto> t)\<rparr>))"
| unlock: "iv_prog s t = Unlock m # is \<Longrightarrow> iv_step s (goes_on t is (s\<lparr>iv_holder := (iv_holder s)(m := None)\<rparr>))"
| inserts: "iv_prog s t = Insert r # is \<Longrightarrow> iv_step s (goes_on t is (s\<lparr>iv_requests := insert r (iv_requests s)\<rparr>))"
| erases: "iv_prog s t = Erase r # is \<Longrightarrow> iv_step s (goes_on t is (s\<lparr>iv_requests := iv_requests s - {r}\<rparr>))"
| prints: "iv_prog s t = PrintEach # is \<Longrightarrow> set rs = iv_requests s \<Longrightarrow> distinct rs \<Longrightarrow>
    iv_step s (goes_on t (concat (map req_print rs) @ is) s)"

definition inv_start :: "nat set \<Rightarrow> (thread_id \<Rightarrow> instr list) \<Rightarrow> inventory" where
  "inv_start rs ps = \<lparr>iv_requests = rs, iv_holder = (\<lambda>_. None), iv_prog = ps\<rparr>"

definition deadlocked :: "inventory \<Rightarrow> bool" where
  "deadlocked s \<longleftrightarrow> (\<exists>t. iv_prog s t \<noteq> []) \<and> (\<nexists>s'. iv_step s s')"

inductive_cases iv_stepE: "iv_step s s'"

text \<open>Where a thread can be that does not print, and the mutexes it holds there.\<close>

inductive place :: "instr list \<Rightarrow> mutex set \<Rightarrow> bool" where
  "place [] {}"
| "place [Lock MInventory, Insert r, Unlock MInventory] {}"
| "place [Insert r, Unlock MInventory] {MInventory}"
| "place [Unlock MInventory] {MInventory}"
| "place [Lock MInventory, Erase r, Unlock MInventory] {}"
| "place [Erase r, Unlock MInventory] {MInventory}"
| "place [Lock (MRequest r), Lock MInventory, Insert r, Unlock MInventory, Unlock (MRequest r)] {}"
| "place [Lock MInventory, Insert r, Unlock MInventory, Unlock (MRequest r)] {MRequest r}"
| "place [Insert r, Unlock MInventory, Unlock (MRequest r)] {MInventory, MRequest r}"
| "place [Unlock MInventory, Unlock (MRequest r)] {MInventory, MRequest r}"
| "place [Unlock (MRequest r)] {MRequest r}"

definition held_by :: "inventory \<Rightarrow> thread_id \<Rightarrow> mutex set" where
  "held_by s t = {m. iv_holder s m = Some t}"

definition placed :: "inventory \<Rightarrow> bool" where
  "placed s \<longleftrightarrow> (\<forall>t. place (iv_prog s t) (held_by s t))"

lemma held_by_simps [simp]:
  "held_by (goes_on t is s) = held_by s"
  "held_by (s\<lparr>iv_requests := rs\<rparr>) = held_by s"
  "iv_holder s m = None \<Longrightarrow> held_by (s\<lparr>iv_holder := (iv_holder s)(m \<mapsto> t)\<rparr>) u = (if u = t then insert m (held_by s t) else held_by s u)"
  "held_by (s\<lparr>iv_holder := (iv_holder s)(m := None)\<rparr>) u = held_by s u - {m}"
  by (auto simp: held_by_def goes_on_def fun_eq_iff)

lemma prog_goes_on [simp]: "iv_prog (goes_on t is s) u = (if u = t then is else iv_prog s u)"
  by (simp add: goes_on_def)

lemma held_once: "m \<in> held_by s t \<Longrightarrow> m \<in> held_by s u \<Longrightarrow> t = u"
  by (simp add: held_by_def)

text \<open>One step of a thread from its place to the next.\<close>

lemma place_lock: "place (Lock m # is) h \<Longrightarrow> place is (insert m h)"
  by (erule place.cases) (auto intro: place.intros)

lemma place_unlock: "place (Unlock m # is) h \<Longrightarrow> m \<in> h \<and> place is (h - {m})"
  by (erule place.cases) (auto simp: insert_Diff_if intro: place.intros)

lemma place_other: "place (i # is) h \<Longrightarrow> i = Insert r \<or> i = Erase r \<Longrightarrow> place is h"
  by (erule place.cases) (auto intro: place.intros)

lemma place_print: "\<not> place (PrintEach # is) h"
  by (auto elim: place.cases)

lemma placed_step: "iv_step s s' \<Longrightarrow> placed s \<Longrightarrow> placed s'"
proof (induction rule: iv_step.induct)
  case (lock s t m "is")
  then have "place (Lock m # is) (held_by s t)" by (metis placed_def)
  with lock place_lock show ?case by (auto simp: placed_def)
next
  case (unlock s t m "is")
  then have "place (Unlock m # is) (held_by s t)" by (metis placed_def)
  note p = place_unlock[OF this]
  have "held_by s u - {m} = held_by s u" if "u \<noteq> t" for u using p held_once[of m s t u] that by auto
  with unlock p show ?case by (auto simp: placed_def)
next
  case (inserts s t r "is")
  then show ?case using place_other[of _ "is" _ r] by (auto simp: placed_def) metis
next
  case (erases s t r "is")
  then show ?case using place_other[of _ "is" _ r] by (auto simp: placed_def) metis
next
  case (prints s t "is" rs)
  then show ?case using place_print by (metis placed_def)
qed

text \<open>A thread stopped at a mutex, and what its owner does.\<close>

lemma place_stuck:
  "place (i # is) h \<Longrightarrow> (\<forall>m. i \<noteq> Lock m) \<or> i = Lock MInventory \<or> (\<exists>r. i = Lock (MRequest r))"
  by (erule place.cases) auto

lemma place_in: "place p h \<Longrightarrow> MInventory \<in> h \<Longrightarrow> \<exists>i is. p = i # is \<and> (\<forall>m. i \<noteq> Lock m)"
  by (erule place.cases) auto

lemma place_request:
  "place p h \<Longrightarrow> MRequest r \<in> h \<Longrightarrow> \<exists>i is. p = i # is \<and> (i = Lock MInventory \<or> (\<forall>m. i \<noteq> Lock m))"
  by (erule place.cases) auto

lemma free_step: "placed s \<Longrightarrow> iv_prog s t = i # is \<Longrightarrow> (\<forall>m. i \<noteq> Lock m) \<Longrightarrow> \<exists>s'. iv_step s s'"
  using place_print[of "is" "held_by s t"]
  by (cases i) (auto simp: placed_def intro: iv_step.intros, metis)

lemma inventory_step:
  assumes P: "placed s" and ne: "iv_prog s t \<noteq> []"
  shows "\<exists>s'. iv_step s s'"
proof (cases "iv_holder s MInventory")
  case (Some u)
  then have "MInventory \<in> held_by s u" by (simp add: held_by_def)
  with place_in[of "iv_prog s u"] P obtain i "is" where "iv_prog s u = i # is" "\<forall>m. i \<noteq> Lock m"
    by (metis placed_def)
  with free_step[OF P] show ?thesis by blast
next
  case None
  then have go: "\<exists>s'. iv_step s s'" if "iv_prog s u = i # is" "i = Lock MInventory \<or> (\<forall>m. i \<noteq> Lock m)" for u i "is"
    using that free_step[OF P] iv_step.lock by blast
  obtain i "is" where i: "iv_prog s t = i # is" using ne by (cases "iv_prog s t") auto
  with P place_stuck[of i "is"] consider "i = Lock MInventory \<or> (\<forall>m. i \<noteq> Lock m)" | r where "i = Lock (MRequest r)"
    by (metis placed_def)
  then show ?thesis
  proof cases
    case 1
    with go i show ?thesis by blast
  next
    case (2 r)
    show ?thesis
    proof (cases "iv_holder s (MRequest r)")
      case None
      with iv_step.lock i 2 show ?thesis by blast
    next
      case (Some u)
      then have "MRequest r \<in> held_by s u" by (simp add: held_by_def)
      with place_request[of "iv_prog s u" _ r] P obtain j js where
        "iv_prog s u = j # js" "j = Lock MInventory \<or> (\<forall>m. j \<noteq> Lock m)" by (metis placed_def)
      with go show ?thesis by blast
    qed
  qed
qed

text \<open>The deadlock: \<open>process\<close> has the request, \<open>print_all\<close> the inventory.\<close>

definition pair_progs :: "nat \<Rightarrow> thread_id \<Rightarrow> instr list" where
  "pair_progs r t = (if t = 0 then req_process r else if t = 1 then inv_print_all else [])"

lemma inventory_deadlock: "\<exists>s. iv_step\<^sup>*\<^sup>* (inv_start {r} (pair_progs r)) s \<and> deadlocked s"
proof -
  define s0 where "s0 = inv_start {r} (pair_progs r)"
  define s1 where "s1 = goes_on 0 (inv_add r @ [Unlock (MRequest r)]) (s0\<lparr>iv_holder := (iv_holder s0)(MRequest r \<mapsto> 0)\<rparr>)"
  define s2 where "s2 = goes_on 1 [PrintEach, Unlock MInventory] (s1\<lparr>iv_holder := (iv_holder s1)(MInventory \<mapsto> 1)\<rparr>)"
  define s3 where "s3 = goes_on 1 (concat (map req_print [r]) @ [Unlock MInventory]) s2"
  note d = s0_def s1_def s2_def s3_def goes_on_def inv_start_def pair_progs_def req_process_def inv_print_all_def
  have "iv_step s0 s1" unfolding s1_def by (rule iv_step.lock) (simp_all add: d)
  moreover have "iv_step s1 s2" unfolding s2_def by (rule iv_step.lock) (simp_all add: d)
  moreover have "iv_step s2 s3" unfolding s3_def by (rule iv_step.prints) (simp_all add: d)
  ultimately have "iv_step\<^sup>*\<^sup>* s0 s3" by (meson converse_rtranclp_into_rtranclp rtranclp.rtrancl_refl)
  moreover have "\<not> iv_step s3 s'" for s'
  proof
    assume "iv_step s3 s'"
    then show False
      by (rule iv_stepE) (auto simp: d inv_add_def req_print_def split: if_splits)
  qed
  moreover have "iv_prog s3 0 \<noteq> []" by (simp add: d inv_add_def)
  ultimately show ?thesis unfolding s0_def deadlocked_def by blast
qed

text \<open>
  C38: where the inventory deadlocks: any number of threads that process requests, add and remove
  never do, because they take a request's mutex before the inventory's; but one thread that prints
  the inventory, which takes them in the other order, and one that processes a request in it can
  reach a deadlock.
\<close>

theorem inventory_deadlocks_only_with_printing:
  "(\<forall>rs ps s. (\<forall>t. ps t = [] \<or> (\<exists>r. ps t \<in> {req_process r, inv_add r, inv_remove r})) \<longrightarrow>
      iv_step\<^sup>*\<^sup>* (inv_start rs ps) s \<longrightarrow> \<not> deadlocked s) \<and>
   (\<exists>s. iv_step\<^sup>*\<^sup>* (inv_start {r} (pair_progs r)) s \<and> deadlocked s)"
proof (intro conjI allI impI)
  fix rs ps s
  assume ps: "\<forall>t. ps t = [] \<or> (\<exists>r. ps t \<in> {req_process r, inv_add r, inv_remove r})"
    and run: "iv_step\<^sup>*\<^sup>* (inv_start rs ps) s"
  have "place (ps t) {}" for t
    using spec[OF ps, of t] by (auto simp: req_process_def inv_add_def inv_remove_def intro: place.intros)
  then have "placed (inv_start rs ps)" by (simp add: placed_def inv_start_def held_by_def)
  with run have "placed s" by (induction rule: rtranclp_induct) (auto intro: placed_step)
  then show "\<not> deadlocked s" using inventory_step unfolding deadlocked_def by blast
qed (rule inventory_deadlock)

theorem inventory_deadlocks_only_with_printing_witness:
  "\<not> deadlocked (inv_start {} (\<lambda>t. if t = 0 then req_process 5 else if t = 1 then inv_add 5 else []))"
proof -
  let ?ps = "\<lambda>t. if t = 0 then req_process 5 else if t = 1 then inv_add 5 else []"
  have "\<forall>t. ?ps t = [] \<or> (\<exists>r. ?ps t \<in> {req_process r, inv_add r, inv_remove r})" by auto
  with conjunct1[OF inventory_deadlocks_only_with_printing[of 0], rule_format, of ?ps "{}" "inv_start {} ?ps"]
  show ?thesis by blast
qed

end
