(* ===== verification/Timestamp.thy ===== *)
theory Timestamp
  imports Decimal
begin

text \<open>
  \<open>src/duduo/net/Reactor/Timestamp.h\<close> for its type \<open>Timestamp\<close>: a time point of \<open>system_clock\<close>,
  which counts nanoseconds from the epoch.  (The reactor itself uses muduo's class of that name.)
  \<open>duration_cast\<close> truncates towards zero.
\<close>

section \<open>The class\<close>

type_synonym stamp = int

definition stampInvalid :: stamp where
  "stampInvalid = 0"

definition kMicroSecondsPerSecond :: int where
  "kMicroSecondsPerSecond = 1000 * 1000"

definition stampNow :: "(unit \<Rightarrow> int) \<Rightarrow> stamp" where
  "stampNow clock = clock ()"

definition stampSwap :: "stamp \<times> stamp \<Rightarrow> stamp \<times> stamp" where
  "stampSwap = (\<lambda>(a, b). (b, a))"

definition stampValid :: "stamp \<Rightarrow> bool" where
  "stampValid t \<longleftrightarrow> t > stampInvalid"

definition microSecondsSinceEpoch :: "stamp \<Rightarrow> int" where
  "microSecondsSinceEpoch t = cdiv t 1000"

definition secondsSinceEpoch :: "stamp \<Rightarrow> int" where
  "secondsSinceEpoch t = cdiv t 1000000000"

definition getDuration :: "stamp \<Rightarrow> int" where
  "getDuration t = t"

definition stampLess :: "stamp \<Rightarrow> stamp \<Rightarrow> bool" where
  "stampLess lhs rhs \<longleftrightarrow> microSecondsSinceEpoch lhs < microSecondsSinceEpoch rhs"

definition stampEq :: "stamp \<Rightarrow> stamp \<Rightarrow> bool" where
  "stampEq lhs rhs \<longleftrightarrow> microSecondsSinceEpoch lhs = microSecondsSinceEpoch rhs"

definition secondDifference :: "stamp \<Rightarrow> stamp \<Rightarrow> int" where
  "secondDifference high low = cdiv (getDuration high - getDuration low) 1000000000"

text \<open>\<open>printf\<close>: a number padded to a width with blanks, or with zeros after the sign.\<close>

definition padded :: "nat \<Rightarrow> int \<Rightarrow> string" where
  "padded w i = replicate (w - length (to_string i)) CHR '' '' @ to_string i"

definition zeroed :: "nat \<Rightarrow> int \<Rightarrow> string" where
  "zeroed w i =
     (let ds = digits (nat \<bar>i\<bar>); sg = (if i < 0 then ''-'' else [])
      in sg @ replicate (w - length sg - length ds) CHR ''0'' @ ds)"

text \<open>\<open>snprintf\<close> writes at most one character less than the size of the buffer.\<close>

definition stampToString :: "stamp \<Rightarrow> string" where
  "stampToString t =
     (let us = microSecondsSinceEpoch t in
      take 31 (to_string (cdiv us kMicroSecondsPerSecond) @ '' '' @ padded 6 (cmod us kMicroSecondsPerSecond)))"

text \<open>\<open>localtime\<close> depends on the time zone; it is an argument.\<close>

record tm =
  tm_year :: int
  tm_mon :: int
  tm_mday :: int
  tm_hour :: int
  tm_min :: int
  tm_sec :: int

definition toFormattedString :: "(int \<Rightarrow> tm) \<Rightarrow> bool \<Rightarrow> stamp \<Rightarrow> string" where
  "toFormattedString localtime showMicroseconds t =
     (let us = microSecondsSinceEpoch t; tm = localtime (secondsSinceEpoch t);
          date = padded 4 (tm_year tm + 1900) @ ''-'' @ zeroed 2 (tm_mon tm + 1) @ ''-'' @ zeroed 2 (tm_mday tm) @ '' '' @
                 zeroed 2 (tm_hour tm) @ '':'' @ zeroed 2 (tm_min tm) @ '':'' @ zeroed 2 (tm_sec tm)
      in take 63 (if showMicroseconds then date @ '':'' @ zeroed 6 (cmod us kMicroSecondsPerSecond) else date))"

section \<open>Facts\<close>

lemma digits_chars: "c \<in> set (digits n) \<Longrightarrow> \<exists>k < 10. c = digit k"
proof (induction n rule: digits.induct)
  case (1 n)
  have "n mod 10 < 10" by simp
  with 1 show ?case unfolding digits.simps[of n] by (cases "n < 10") force+
qed

lemma digit_blank: "k < 10 \<Longrightarrow> digit k \<noteq> CHR '' ''"
proof
  assume "digit k = CHR '' ''" "k < 10"
  then have "(of_char (digit k) :: nat) = of_char (CHR '' '')" by simp
  then show False using \<open>k < 10\<close> by (simp add: digit_def)
qed

lemma to_string_blank: "CHR '' '' \<notin> set (to_string i)"
proof -
  have "CHR '' '' \<notin> set (digits n)" for n
  proof
    assume "CHR '' '' \<in> set (digits n)"
    from digits_chars[OF this] obtain k where "k < 10" "CHR '' '' = digit k" by blast
    with digit_blank[of k] show False by simp
  qed
  then show ?thesis by (simp add: to_string_def)
qed

lemma length_digits: "n < 10 ^ k \<Longrightarrow> 0 < k \<Longrightarrow> length (digits n) \<le> k"
proof (induction n arbitrary: k rule: digits.induct)
  case (1 n)
  show ?case
  proof (cases "n < 10")
    case True
    then show ?thesis using 1(3) by (simp add: digits.simps[of n])
  next
    case False
    then obtain j where j: "k = Suc j" "0 < j" using 1(2,3) by (cases k; cases "k - 1") auto
    have "n div 10 < 10 ^ j" using 1(2) j by (simp add: less_mult_imp_div_less mult.commute)
    from 1(1)[OF False this j(2)] False j show ?thesis by (simp add: digits.simps[of n])
  qed
qed

lemma length_to_string: "\<bar>i\<bar> < 10 ^ k \<Longrightarrow> 0 < k \<Longrightarrow> length (to_string i) \<le> Suc k"
proof -
  assume "\<bar>i\<bar> < 10 ^ k" "0 < k"
  then have "nat \<bar>i\<bar> < 10 ^ k" by (simp add: nat_less_iff)
  from length_digits[OF this \<open>0 < k\<close>] show ?thesis by (auto simp: to_string_def)
qed

lemma drop_padded: "dropWhile ((=) CHR '' '') (padded w i) = to_string i"
proof -
  have "dropWhile ((=) CHR '' '') (replicate n CHR '' '' @ s) = dropWhile ((=) CHR '' '') s" for n s
    by (induction n) auto
  moreover have "dropWhile ((=) CHR '' '') (to_string i) = to_string i"
    using to_string_blank[of i] by (cases "to_string i") auto
  ultimately show ?thesis by (simp add: padded_def)
qed

lemma cdivmod: "cdiv a m * m + cmod a m = a"
  by (simp add: cmod_def algebra_simps)

lemma cdiv_abs: "0 < m \<Longrightarrow> \<bar>cdiv a m\<bar> = \<bar>a\<bar> div m"
  by (cases a "0 :: int" rule: linorder_cases)
    (auto simp: cdiv_def abs_mult pos_imp_zdiv_nonneg_iff div_int_pos_iff)

lemma cmod_abs: "0 < m \<Longrightarrow> \<bar>cmod a m\<bar> = \<bar>a\<bar> mod m"
proof -
  assume m: "0 < m"
  have "cmod a m = sgn a * (\<bar>a\<bar> - m * (\<bar>a\<bar> div m))"
    using m by (cases a "0 :: int" rule: linorder_cases) (simp_all add: cmod_def cdiv_def)
  then show ?thesis using m by (cases "a = 0") (simp_all add: abs_mult minus_mult_div_eq_mod)
qed

text \<open>Nothing of a stamp of 64 bits is cut off.\<close>

lemma stampToString_whole:
  assumes "\<bar>t\<bar> \<le> 2 ^ 63"
  shows "stampToString t =
    to_string (cdiv (microSecondsSinceEpoch t) kMicroSecondsPerSecond) @ '' '' @
    padded 6 (cmod (microSecondsSinceEpoch t) kMicroSecondsPerSecond)"
proof -
  let ?us = "microSecondsSinceEpoch t"
  have "\<bar>?us\<bar> < 10 ^ 16"
    using assms by (simp add: microSecondsSinceEpoch_def cdiv_abs less_mult_imp_div_less)
  then have "\<bar>cdiv ?us kMicroSecondsPerSecond\<bar> < 10 ^ 10"
    by (simp add: cdiv_abs kMicroSecondsPerSecond_def less_mult_imp_div_less)
  from length_to_string[OF this] have a: "length (to_string (cdiv ?us kMicroSecondsPerSecond)) \<le> 11" by simp
  have "\<bar>cmod ?us kMicroSecondsPerSecond\<bar> < 10 ^ 6" by (simp add: cmod_abs kMicroSecondsPerSecond_def)
  from length_to_string[OF this] have "length (padded 6 (cmod ?us kMicroSecondsPerSecond)) \<le> 7"
    by (simp add: padded_def)
  with a show ?thesis by (simp add: stampToString_def Let_def)
qed

section \<open>Properties\<close>

text \<open>
  C39: a timestamp's string tells apart exactly the timestamps that \<open>==\<close> tells apart: two stamps have
  the same string if and only if they are equal up to the microsecond; for all stamps of 64 bits,
  before the epoch too, and nothing is cut off by the buffer of 32 characters.
\<close>

theorem stamp_strings_tell_apart:
  assumes "\<bar>t\<bar> \<le> 2 ^ 63" and "\<bar>u\<bar> \<le> 2 ^ 63"
  shows "stampToString t = stampToString u \<longleftrightarrow> stampEq t u"
proof
  let ?s = "\<lambda>t. cdiv (microSecondsSinceEpoch t) kMicroSecondsPerSecond"
  let ?m = "\<lambda>t. cmod (microSecondsSinceEpoch t) kMicroSecondsPerSecond"
  assume "stampToString t = stampToString u"
  then have e: "to_string (?s t) @ CHR '' '' # padded 6 (?m t) = to_string (?s u) @ CHR '' '' # padded 6 (?m u)"
    using stampToString_whole[OF assms(1)] stampToString_whole[OF assms(2)] by simp
  have cut: "takeWhile ((\<noteq>) CHR '' '') (to_string i @ CHR '' '' # r) = to_string i" for i r
    using to_string_blank[of i] by (subst takeWhile_append2) auto
  have s: "?s t = ?s u" using arg_cong[OF e, of "takeWhile ((\<noteq>) CHR '' '')"] by (simp add: cut to_string_inj)
  then have "padded 6 (?m t) = padded 6 (?m u)" using e by simp
  then have "?m t = ?m u" using drop_padded to_string_inj by metis
  with s show "stampEq t u" using cdivmod unfolding stampEq_def by metis
qed (simp add: stampToString_def stampEq_def)

theorem stamp_strings_tell_apart_witness:
  "stampToString 5000000000 = stampToString 5000000999 \<and> stampToString (- 1000) \<noteq> stampToString 1000"
  using stamp_strings_tell_apart[of 5000000000 5000000999] stamp_strings_tell_apart[of "- 1000" 1000]
  by (simp add: stampEq_def microSecondsSinceEpoch_def cdiv_def)


text \<open>A stamp of less than a microsecond is valid and yet equal to the invalid one.\<close>

lemma valid_equals_invalid: "stampValid 999 \<and> stampEq 999 stampInvalid"
  by (simp add: stampValid_def stampEq_def stampInvalid_def microSecondsSinceEpoch_def cdiv_def)

end
